(* ===== verification/Prelude.thy ===== *)
theory Prelude
  imports Main "HOL-Library.Product_Lexorder"
begin

text \<open>
  Shared vocabulary of the development: the names of the program's identifier types, Rust's
  saturating and clamping integer arithmetic on \<open>i64\<close> written out over \<^typ>\<open>int\<close>, results of
  fallible code as sums, and the fact collections the component theories feed and use.
\<close>

section \<open>Collections\<close>

named_theorems table_simps \<open>how the SQL statements of the model act on a table, seen as a map\<close>
named_theorems codec_simps \<open>storing an enumeration in a text column and reading it back\<close>

section \<open>Identifiers and results\<close>

type_synonym chat_id = int
type_synonym user_id = int
type_synonym seconds = int
type_synonym member = "chat_id \<times> user_id"

text \<open>
  \<open>sqlx::Error::Protocol\<close> is how the store reports a value it refuses; the message is kept.
\<close>

datatype store_error = Protocol string

type_synonym 'a outcome = "store_error + 'a"

section \<open>Rust integer arithmetic\<close>

definition i64_max :: int where
  "i64_max = 9223372036854775807"

definition i64_min :: int where
  "i64_min = - 9223372036854775808"

definition i32_max :: int where
  "i32_max = 2147483647"

definition i32_min :: int where
  "i32_min = - 2147483648"

definition u32_max :: int where
  "u32_max = 4294967295"

definition u64_max :: int where
  "u64_max = 18446744073709551615"

lemmas int_bounds = i64_max_def i64_min_def i32_max_def i32_min_def u32_max_def u64_max_def

definition in_i64 :: "int \<Rightarrow> bool" where
  "in_i64 x \<longleftrightarrow> i64_min \<le> x \<and> x \<le> i64_max"

definition in_i32 :: "int \<Rightarrow> bool" where
  "in_i32 x \<longleftrightarrow> i32_min \<le> x \<and> x \<le> i32_max"

text \<open>\<open>Ord::clamp\<close>, and the saturating operations of \<open>i64\<close>.\<close>

definition clamp :: "int \<Rightarrow> int \<Rightarrow> int \<Rightarrow> int" where
  "clamp lo hi x = (if x < lo then lo else if hi < x then hi else x)"

definition sat_i64 :: "int \<Rightarrow> int" where
  "sat_i64 x = clamp i64_min i64_max x"

definition sat_add :: "int \<Rightarrow> int \<Rightarrow> int" where
  "sat_add a b = sat_i64 (a + b)"

definition sat_mul :: "int \<Rightarrow> int \<Rightarrow> int" where
  "sat_mul a b = sat_i64 (a * b)"

lemma clamp_bounds: "lo \<le> hi \<Longrightarrow> lo \<le> clamp lo hi x \<and> clamp lo hi x \<le> hi"
  by (simp add: clamp_def)

lemma clamp_mono: "lo \<le> hi \<Longrightarrow> x \<le> y \<Longrightarrow> clamp lo hi x \<le> clamp lo hi y"
  by (simp add: clamp_def)

lemma clamp_id: "lo \<le> x \<Longrightarrow> x \<le> hi \<Longrightarrow> clamp lo hi x = x"
  by (simp add: clamp_def)

lemma nat_clamp_le: "nat (clamp 1 64 x) \<le> 64" "nat (clamp 1 256 x) \<le> 256"
  by (simp_all add: clamp_def nat_le_iff)

lemma sat_i64_in: "in_i64 (sat_i64 x)"
  by (simp add: sat_i64_def in_i64_def clamp_def int_bounds)

lemma sat_i64_id: "in_i64 x \<Longrightarrow> sat_i64 x = x"
  by (simp add: sat_i64_def in_i64_def clamp_def)

lemma sat_i64_mono: "x \<le> y \<Longrightarrow> sat_i64 x \<le> sat_i64 y"
  by (simp add: sat_i64_def clamp_mono int_bounds)

lemma sat_add_id: "in_i64 (a + b) \<Longrightarrow> sat_add a b = a + b"
  by (simp add: sat_add_def sat_i64_id)

lemma sat_add_gt: "a < i64_max \<Longrightarrow> 0 < b \<Longrightarrow> a < sat_add a b"
  by (simp add: sat_add_def sat_i64_def clamp_def int_bounds)

lemma sat_add_ge: "a \<le> i64_max \<Longrightarrow> 0 \<le> b \<Longrightarrow> a \<le> sat_add a b"
  by (simp add: sat_add_def sat_i64_def clamp_def int_bounds)

text \<open>\<open>usize\<close> has 64 bits: saturating addition, and \<open>fetch_add\<close> and \<open>fetch_sub\<close>, which wrap around.\<close>

definition usize_limit :: nat where
  "usize_limit = 2 ^ 64"

definition saturating_usize_add :: "nat \<Rightarrow> nat \<Rightarrow> nat" where
  "saturating_usize_add a b = min (a + b) (usize_limit - 1)"

definition wrapping_usize_add :: "nat \<Rightarrow> nat \<Rightarrow> nat" where
  "wrapping_usize_add a b = (a + b) mod usize_limit"

definition wrapping_usize_sub :: "nat \<Rightarrow> nat \<Rightarrow> nat" where
  "wrapping_usize_sub a b = (a + (usize_limit - b mod usize_limit)) mod usize_limit"

lemma wrapping_usize_add_id: "a + b < usize_limit \<Longrightarrow> wrapping_usize_add a b = a + b"
  by (simp add: wrapping_usize_add_def)

lemma wrapping_usize_sub_id: "b \<le> a \<Longrightarrow> a < usize_limit \<Longrightarrow> wrapping_usize_sub a b = a - b"
  by (simp add: wrapping_usize_sub_def mod_if)

section \<open>Options and results\<close>

text \<open>\<open>Option::is_some_and\<close>.\<close>

fun is_some_and :: "('a \<Rightarrow> bool) \<Rightarrow> 'a option \<Rightarrow> bool" where
  "is_some_and P None \<longleftrightarrow> False"
| "is_some_and P (Some x) \<longleftrightarrow> P x"

lemma is_some_and_iff: "is_some_and P x \<longleftrightarrow> (\<exists>y. x = Some y \<and> P y)"
  by (cases x) simp_all

text \<open>\<open>Option<Result<T>>::transpose\<close>: an absent value is no error.\<close>

fun transpose :: "'a outcome option \<Rightarrow> 'a option outcome" where
  "transpose None = Inr None"
| "transpose (Some (Inl e)) = Inl e"
| "transpose (Some (Inr x)) = Inr (Some x)"

lemma transpose_Inr_map:
  "transpose (map_option (\<lambda>x. Inr (f x)) r) = Inr (map_option f r)"
  by (cases r) simp_all

lemma map_sum_Some_Inr [simp]:
  "map_sum id Some x = Inr (Some y) \<longleftrightarrow> x = Inr y" "map_sum id Some x \<noteq> Inr None"
  "map_sum id f x = Inl e \<longleftrightarrow> x = Inl e"
  by (cases x; simp)+

text \<open>\<open>collect::<Result<Vec<_>>>\<close>: the first error, or all the values in order.\<close>

fun collect_results :: "'a outcome list \<Rightarrow> 'a list outcome" where
  "collect_results [] = Inr []"
| "collect_results (Inl e # xs) = Inl e"
| "collect_results (Inr x # xs) =
     (case collect_results xs of Inl e \<Rightarrow> Inl e | Inr ys \<Rightarrow> Inr (x # ys))"

lemma collect_results_Inr: "collect_results (map (\<lambda>x. Inr (f x)) xs) = Inr (map f xs)"
  by (induction xs) simp_all

lemma collect_results_all_Inr:
  "(\<And>x. x \<in> set xs \<Longrightarrow> g x = Inr (f x)) \<Longrightarrow> collect_results (map g xs) = Inr (map f xs)"
  by (induction xs) simp_all

lemma collect_results_in:
  "collect_results (map f xs) = Inr ys \<Longrightarrow> y \<in> set ys \<Longrightarrow> \<exists>x \<in> set xs. f x = Inr y"
proof (induction xs arbitrary: ys)
  case Nil
  then show ?case by simp
next
  case (Cons x xs)
  then show ?case by (cases "f x") (auto split: sum.splits)
qed

lemma in_map_filter: "y \<in> set (List.map_filter f xs) \<longleftrightarrow> (\<exists>x \<in> set xs. f x = Some y)"
  by (induction xs) (auto simp: List.map_filter_simps split: option.split)

end
