(* ===== verification/Dispatch.thy ===== *)
theory Dispatch
  imports Prelude
begin

text \<open>
  The update dispatcher, \<open>src/src/dispatcher.rs\<close>: updates are queued per peer in lanes, at most
  \<open>per_peer\<close> tasks of a lane and \<open>concurrency\<close> tasks in all run at once, and a lane that is full
  sheds its oldest update. \<open>JoinSet\<close> and the clock are tokio's: task ids are chosen by a
  parameter \<open>fresh\<close>, of which the code relies only on giving an id no running task has, and
  instants and measured durations are arguments. Every \<open>assert!\<close>, \<open>expect\<close> and unsigned
  subtraction is a branch that ends in a \<open>panic\<close>.
\<close>

section \<open>State\<close>

type_synonym key = int
type_synonym task = nat

datatype panic =
    ZeroBound
  | AdmissionExceeded
  | ReadyLaneMissing
  | ReadyLaneEmpty
  | UntrackedTask
  | ActiveLaneMissing
  | Underflow

record 'a item =
  item_value :: 'a
  item_received :: seconds

record 'a lane =
  lane_pending :: "'a item list"
  lane_running :: nat

record 'a dispatcher =
  lanes :: "key \<rightharpoonup> 'a lane"
  ready :: "key list"
  pending_total :: nat
  capacity :: nat
  lane_cap :: nat
  shed :: nat
  concurrency :: nat
  per_peer :: nat
  active :: "(task \<times> key) list"

record completion =
  latency :: seconds
  queue_wait :: seconds
  succeeded :: bool

datatype task_result = Finished task seconds seconds | Failed task

section \<open>Operations\<close>

definition new_dispatcher :: "nat \<Rightarrow> nat \<Rightarrow> nat \<Rightarrow> panic + 'a dispatcher" where
  "new_dispatcher conc peer cap =
     (if 0 < conc \<and> 0 < peer \<and> 0 < cap
      then Inr \<lparr>lanes = Map.empty, ready = [], pending_total = 0, capacity = cap, lane_cap = cap,
                shed = 0, concurrency = conc, per_peer = peer, active = []\<rparr>
      else Inl ZeroBound)"

definition with_lane_cap :: "nat \<Rightarrow> 'a dispatcher \<Rightarrow> panic + 'a dispatcher" where
  "with_lane_cap n d = (if 0 < n then Inr (d\<lparr>lane_cap := n\<rparr>) else Inl ZeroBound)"

definition has_room :: "'a dispatcher \<Rightarrow> bool" where
  "has_room d \<longleftrightarrow> pending_total d < capacity d"

definition is_empty :: "'a dispatcher \<Rightarrow> bool" where
  "is_empty d \<longleftrightarrow> pending_total d = 0 \<and> active d = []"

definition empty_lane :: "'a lane" where
  "empty_lane = \<lparr>lane_pending = [], lane_running = 0\<rparr>"

definition lane_or_new :: "(key \<rightharpoonup> 'a lane) \<Rightarrow> key \<Rightarrow> 'a lane" where
  "lane_or_new m k = (case m k of None \<Rightarrow> empty_lane | Some l \<Rightarrow> l)"

definition push :: "key \<Rightarrow> 'a \<Rightarrow> seconds \<Rightarrow> 'a dispatcher \<Rightarrow> panic + 'a dispatcher" where
  "push k v now d =
     (if \<not> has_room d then Inl AdmissionExceeded
      else
        let l = lane_or_new (lanes d) k;
            was_waiting = (lane_pending l \<noteq> []);
            full = (lane_cap d \<le> length (lane_pending l));
            kept = (if full then tl (lane_pending l) else lane_pending l)
        in if full \<and> pending_total d = 0 then Inl Underflow
           else Inr (d\<lparr>
             lanes := (lanes d)(k \<mapsto> l\<lparr>lane_pending :=
               kept @ [\<lparr>item_value = v, item_received = now\<rparr>]\<rparr>),
             ready := (if lane_running l < per_peer d \<and> \<not> was_waiting
                       then ready d @ [k] else ready d),
             pending_total := (if full then pending_total d - 1 else pending_total d) + 1,
             shed := (if full then shed d + 1 else shed d)\<rparr>))"

text \<open>One turn of the loop of \<open>start\<close>, and the loop, which returns what it spawned.\<close>

definition start_one ::
  "((task \<times> key) list \<Rightarrow> task) \<Rightarrow> 'a dispatcher \<Rightarrow>
     panic + ((task \<times> key \<times> 'a item) \<times> 'a dispatcher)" where
  "start_one fresh d =
     (let k = hd (ready d) in
      case lanes d k of
        None \<Rightarrow> Inl ReadyLaneMissing
      | Some l \<Rightarrow>
          (case lane_pending l of
             [] \<Rightarrow> Inl ReadyLaneEmpty
           | it # rest \<Rightarrow>
               if pending_total d = 0 then Inl Underflow
               else
                 let i = fresh (active d); run = lane_running l + 1 in
                 Inr ((i, k, it), d\<lparr>
                   lanes := (lanes d)(k \<mapsto> \<lparr>lane_pending = rest, lane_running = run\<rparr>),
                   ready := tl (ready d) @ (if run < per_peer d \<and> rest \<noteq> [] then [k] else []),
                   pending_total := pending_total d - 1,
                   active := active d @ [(i, k)]\<rparr>)))"

lemma start_one_active:
  "start_one fresh d = Inr (x, d') \<Longrightarrow>
     length (active d') = Suc (length (active d)) \<and> concurrency d' = concurrency d"
  by (auto simp: start_one_def Let_def split: option.splits list.splits if_splits)

function start ::
  "((task \<times> key) list \<Rightarrow> task) \<Rightarrow> 'a dispatcher \<Rightarrow>
     panic + ((task \<times> key \<times> 'a item) list \<times> 'a dispatcher)" where
  "start fresh d =
     (if length (active d) < concurrency d \<and> ready d \<noteq> [] then
        (case start_one fresh d of
           Inl p \<Rightarrow> Inl p
         | Inr (x, d') \<Rightarrow>
             (case start fresh d' of
                Inl p \<Rightarrow> Inl p
              | Inr (xs, d'') \<Rightarrow> Inr (x # xs, d'')))
      else Inr ([], d))"
  by pat_completeness auto
termination
  by (relation "measure (\<lambda>(fresh, d). concurrency d - length (active d))")
     (auto dest!: start_one_active [OF sym] start_one_active)

declare start.simps [simp del]

definition result_task :: "task_result \<Rightarrow> task" where
  "result_task r = (case r of Finished i _ _ \<Rightarrow> i | Failed i \<Rightarrow> i)"

definition completion_of :: "task_result \<Rightarrow> completion" where
  "completion_of r =
     (case r of
        Finished _ lat wait \<Rightarrow> \<lparr>latency = lat, queue_wait = wait, succeeded = True\<rparr>
      | Failed _ \<Rightarrow> \<lparr>latency = 0, queue_wait = 0, succeeded = False\<rparr>)"

definition complete :: "task_result \<Rightarrow> 'a dispatcher \<Rightarrow> panic + (completion \<times> 'a dispatcher)" where
  "complete r d =
     (case map_of (active d) (result_task r) of
        None \<Rightarrow> Inl UntrackedTask
      | Some k \<Rightarrow>
          (case lanes d k of
             None \<Rightarrow> Inl ActiveLaneMissing
           | Some l \<Rightarrow>
               if lane_running l = 0 then Inl Underflow
               else
                 let run = lane_running l - 1;
                     idle = (lane_pending l = [] \<and> run = 0) in
                 Inr (completion_of r, d\<lparr>
                   active := filter (\<lambda>p. fst p \<noteq> result_task r) (active d),
                   lanes := (lanes d)(k := if idle then None else Some (l\<lparr>lane_running := run\<rparr>)),
                   ready := (if \<not> idle \<and> lane_pending l \<noteq> [] \<and> run + 1 = per_peer d
                             then ready d @ [k] else ready d)\<rparr>)))"

text \<open>
  \<open>shutdown\<close> aborts every task and joins them in the order tokio yields them (\<open>results\<close>), then
  drops what was never started.
\<close>

fun join_all :: "task_result list \<Rightarrow> 'a dispatcher \<Rightarrow> panic + 'a dispatcher" where
  "join_all [] d = Inr d"
| "join_all (r # rs) d =
     (case complete r d of Inl p \<Rightarrow> Inl p | Inr (_, d') \<Rightarrow> join_all rs d')"

definition shutdown :: "task_result list \<Rightarrow> 'a dispatcher \<Rightarrow> panic + (nat \<times> 'a dispatcher)" where
  "shutdown results d =
     (case join_all results d of
        Inl p \<Rightarrow> Inl p
      | Inr d' \<Rightarrow> Inr (pending_total d + length (active d),
                    d'\<lparr>pending_total := 0, ready := [], lanes := Map.empty\<rparr>))"

section \<open>What the lanes hold\<close>

lemma lane_or_new_simps [simp]:
  "lane_or_new (m(k \<mapsto> l)) j = (if j = k then l else lane_or_new m j)"
  "lane_or_new (m(k := None)) j = (if j = k then empty_lane else lane_or_new m j)"
  "m k = Some l \<Longrightarrow> lane_or_new m k = l"
  "m k = None \<Longrightarrow> lane_or_new m k = empty_lane"
  by (auto simp: lane_or_new_def)

lemma empty_lane_simps [simp]: "lane_pending empty_lane = []" "lane_running empty_lane = 0"
  by (simp_all add: empty_lane_def)

definition lane_len :: "(key \<rightharpoonup> 'a lane) \<Rightarrow> key \<Rightarrow> nat" where
  "lane_len m k = length (lane_pending (lane_or_new m k))"

definition queued :: "(key \<rightharpoonup> 'a lane) \<Rightarrow> nat" where
  "queued m = (\<Sum>k \<in> dom m. lane_len m k)"

definition tasks_of :: "(task \<times> key) list \<Rightarrow> key \<Rightarrow> nat" where
  "tasks_of xs k = length (filter (\<lambda>p. snd p = k) xs)"

text \<open>The updates waiting in a lane, oldest first.\<close>

definition waiting :: "'a dispatcher \<Rightarrow> key \<Rightarrow> 'a item list" where
  "waiting d k = lane_pending (lane_or_new (lanes d) k)"

lemma queued_split:
  assumes "finite (dom m)"
  shows "queued m = lane_len m k + queued (m(k := None))"
proof -
  have outside: "(\<Sum>j \<in> dom m - {k}. lane_len m j) = queued (m(k := None))"
    unfolding queued_def by (rule sum.cong) (auto simp: lane_len_def dom_def)
  show ?thesis
  proof (cases "k \<in> dom m")
    case True
    with assms have "queued m = lane_len m k + (\<Sum>j \<in> dom m - {k}. lane_len m j)"
      unfolding queued_def by (rule sum.remove)
    with outside show ?thesis by simp
  next
    case False
    then have "m(k := None) = m" and "lane_len m k = 0"
      by (auto simp: lane_len_def fun_eq_iff domIff)
    then show ?thesis by simp
  qed
qed

lemma queued_update:
  assumes "finite (dom m)"
  shows "queued (m(k \<mapsto> l)) + lane_len m k = queued m + length (lane_pending l)"
  using queued_split [OF assms, of k] queued_split [of "m(k \<mapsto> l)" k] assms
  by (simp add: lane_len_def)

lemma queued_drop_idle:
  assumes "finite (dom m)" and "lane_len m k = 0"
  shows "queued (m(k := None)) = queued m"
  using queued_split [OF assms(1), of k] assms(2) by simp

lemma tasks_of_append: "tasks_of (xs @ [(i, j)]) k = tasks_of xs k + (if j = k then 1 else 0)"
  by (simp add: tasks_of_def)

lemma tasks_of_member: "(i, k) \<in> set xs \<Longrightarrow> 0 < tasks_of xs k"
  by (induction xs) (auto simp: tasks_of_def)

lemma filter_fst_absent: "i \<notin> fst ` set xs \<Longrightarrow> filter (\<lambda>p. fst p \<noteq> i) xs = xs"
  by (induction xs) auto

lemma remove_task:
  assumes "distinct (map fst xs)" and "map_of xs i = Some k"
  shows "tasks_of xs j = tasks_of (filter (\<lambda>p. fst p \<noteq> i) xs) j + (if j = k then 1 else 0)
    \<and> length xs = Suc (length (filter (\<lambda>p. fst p \<noteq> i) xs))"
  using assms
proof (induction xs)
  case Nil
  then show ?case by simp
next
  case (Cons x xs)
  show ?case
  proof (cases "fst x = i")
    case True
    with Cons.prems have "filter (\<lambda>p. fst p \<noteq> i) xs = xs" and "snd x = k"
      by (auto simp: filter_fst_absent)
    with True show ?thesis by (auto simp: tasks_of_def)
  next
    case False
    with Cons show ?thesis by (auto simp: tasks_of_def split: if_splits)
  qed
qed

section \<open>The invariant\<close>

definition fresh_ids :: "((task \<times> key) list \<Rightarrow> task) \<Rightarrow> bool" where
  "fresh_ids fresh \<longleftrightarrow> (\<forall>xs. fresh xs \<notin> fst ` set xs)"

definition lane_ok :: "'a dispatcher \<Rightarrow> key \<Rightarrow> 'a lane \<Rightarrow> bool" where
  "lane_ok d k l \<longleftrightarrow>
     lane_running l = tasks_of (active d) k \<and> lane_running l \<le> per_peer d \<and>
     (lane_pending l \<noteq> [] \<or> 0 < lane_running l) \<and> length (lane_pending l) \<le> lane_cap d"

definition startable :: "'a dispatcher \<Rightarrow> key \<Rightarrow> bool" where
  "startable d k \<longleftrightarrow>
     waiting d k \<noteq> [] \<and> lane_running (lane_or_new (lanes d) k) < per_peer d"

definition dispatcher_ok :: "'a dispatcher \<Rightarrow> bool" where
  "dispatcher_ok d \<longleftrightarrow>
     0 < concurrency d \<and> 0 < per_peer d \<and> 0 < lane_cap d \<and>
     distinct (ready d) \<and> (\<forall>k. k \<in> set (ready d) \<longleftrightarrow> startable d k) \<and>
     (\<forall>k l. lanes d k = Some l \<longrightarrow> lane_ok d k l) \<and>
     (\<forall>i k. (i, k) \<in> set (active d) \<longrightarrow> lanes d k \<noteq> None) \<and>
     distinct (map fst (active d)) \<and> length (active d) \<le> concurrency d \<and>
     finite (dom (lanes d)) \<and> pending_total d = queued (lanes d) \<and>
     pending_total d \<le> capacity d"

lemma dispatcher_okD:
  assumes "dispatcher_ok d"
  shows "0 < concurrency d" "0 < per_peer d" "0 < lane_cap d" "distinct (ready d)"
    and "\<And>k. k \<in> set (ready d) \<longleftrightarrow> startable d k"
    and "\<And>k l. lanes d k = Some l \<Longrightarrow> lane_ok d k l"
    and "\<And>i k. (i, k) \<in> set (active d) \<Longrightarrow> lanes d k \<noteq> None"
    and "distinct (map fst (active d))" "length (active d) \<le> concurrency d"
    and "finite (dom (lanes d))" "pending_total d = queued (lanes d)"
    and "pending_total d \<le> capacity d"
  using assms unfolding dispatcher_ok_def by blast+

lemma dispatcher_okI:
  assumes "0 < concurrency d" "0 < per_peer d" "0 < lane_cap d" "distinct (ready d)"
    and "\<And>k. k \<in> set (ready d) \<longleftrightarrow> startable d k"
    and "\<And>k l. lanes d k = Some l \<Longrightarrow> lane_ok d k l"
    and "\<And>i k. (i, k) \<in> set (active d) \<Longrightarrow> lanes d k \<noteq> None"
    and "distinct (map fst (active d))" "length (active d) \<le> concurrency d"
    and "finite (dom (lanes d))" "pending_total d = queued (lanes d)"
    and "pending_total d \<le> capacity d"
  shows "dispatcher_ok d"
  using assms unfolding dispatcher_ok_def by blast

lemma new_dispatcher_ok:
  assumes "new_dispatcher c p n = Inr d"
  shows "dispatcher_ok d"
  using assms by (auto simp: new_dispatcher_def dispatcher_ok_def startable_def waiting_def queued_def
      split: if_splits)

lemma with_lane_cap_ok:
  assumes "new_dispatcher c p n = Inr d" and "with_lane_cap m d = Inr d'"
  shows "dispatcher_ok d'"
  using assms by (auto simp: new_dispatcher_def with_lane_cap_def dispatcher_ok_def startable_def
      waiting_def queued_def split: if_splits)

lemma idle_lane_not_running:
  assumes "dispatcher_ok d" and "lanes d k = None"
  shows "tasks_of (active d) k = 0"
proof (rule ccontr)
  assume "tasks_of (active d) k \<noteq> 0"
  then obtain x where "x \<in> set (active d)" "snd x = k"
    by (auto simp: tasks_of_def filter_empty_conv)
  then have "lanes d k \<noteq> None"
    using dispatcher_okD(7) [OF assms(1), of "fst x"] by (metis prod.collapse)
  with assms(2) show False by simp
qed

lemma lane_or_new_ok:
  assumes "dispatcher_ok d"
  shows "lane_running (lane_or_new (lanes d) k) = tasks_of (active d) k"
    and "lane_running (lane_or_new (lanes d) k) \<le> per_peer d"
    and "length (lane_pending (lane_or_new (lanes d) k)) \<le> lane_cap d"
  using dispatcher_okD(6) [OF assms, of k] idle_lane_not_running [OF assms, of k]
  by (cases "lanes d k"; simp add: lane_ok_def)+

lemma lane_len_le_queued: "finite (dom m) \<Longrightarrow> lane_len m k \<le> queued m"
  using queued_split [of m k] by simp

lemma push_no_panic:
  assumes "dispatcher_ok d" and "has_room d"
  shows "\<exists>d'. push k v now d = Inr d'"
proof -
  have "lane_cap d \<le> length (lane_pending (lane_or_new (lanes d) k)) \<Longrightarrow> 0 < pending_total d"
    using dispatcher_okD(3,10,11) [OF assms(1)] lane_len_le_queued [of "lanes d" k]
    by (simp add: lane_len_def)
  with assms(2) show ?thesis by (auto simp: push_def Let_def)
qed


lemma push_ok:
  assumes ok: "dispatcher_ok d" and push: "push k v now d = Inr d'"
  shows "dispatcher_ok d'"
proof -
  define l where "l = lane_or_new (lanes d) k"
  note l = lane_or_new_ok [OF ok, of k, folded l_def]
  define full where "full \<longleftrightarrow> lane_cap d \<le> length (lane_pending l)"
  define kept where "kept = (if full then tl (lane_pending l) else lane_pending l)"
  define l' where "l' = l\<lparr>lane_pending := kept @ [\<lparr>item_value = v, item_received = now\<rparr>]\<rparr>"
  note D = dispatcher_okD [OF ok]
  from push have room: "pending_total d < capacity d" and pos: "full \<Longrightarrow> 0 < pending_total d"
    and d': "d' = d\<lparr>lanes := (lanes d)(k \<mapsto> l'),
      ready := (if lane_running l < per_peer d \<and> lane_pending l = [] then ready d @ [k] else ready d),
      pending_total := (if full then pending_total d - 1 else pending_total d) + 1,
      shed := (if full then shed d + 1 else shed d)\<rparr>"
    by (auto simp: push_def has_room_def l_def full_def kept_def l'_def Let_def split: if_splits)
  have len: "length (lane_pending l') = (if full then length (lane_pending l)
      else length (lane_pending l) + 1)"
    using D(3) by (auto simp: l'_def kept_def full_def)
  have l'_ok: "lane_ok d k l'"
    using l D(3) len by (auto simp: lane_ok_def l'_def full_def split: if_splits)
  have total: "pending_total d' = queued (lanes d')"
    using queued_update [OF D(10), of k l'] len D(11) pos
    by (auto simp: d' lane_len_def l_def [symmetric])
  have mem: "j \<in> set (ready d') \<longleftrightarrow> startable d' j" for j
    using D(5) [of k] D(5) [of j]
    by (cases "j = k") (auto simp: d' startable_def waiting_def l'_def l_def [symmetric])
  have dist: "distinct (ready d')"
    using D(5) [of k] D(4) by (auto simp: d' l_def startable_def waiting_def)
  have lanes': "lane_ok d' j m" if "lanes d' j = Some m" for j m
    using that D(6) [of j m] l'_ok by (auto simp: d' lane_ok_def split: if_splits)
  have act: "lanes d' j \<noteq> None" if "(a, j) \<in> set (active d')" for a j
    using that D(7) by (auto simp: d')
  show ?thesis
    by (rule dispatcher_okI [OF _ _ _ dist mem lanes' act _ _ _ total])
      (use D(1-3,8-10) room in \<open>auto simp: d'\<close>)
qed

lemma start_one_no_panic:
  assumes "dispatcher_ok d" and "ready d \<noteq> []"
  shows "\<exists>x d'. start_one fresh d = Inr (x, d')"
proof -
  note D = dispatcher_okD [OF assms(1)]
  have "startable d (hd (ready d))"
    using assms(2) D(5) [of "hd (ready d)"] by simp
  then obtain l where l: "lanes d (hd (ready d)) = Some l" "lane_pending l \<noteq> []"
    by (cases "lanes d (hd (ready d))") (auto simp: startable_def waiting_def)
  have "0 < pending_total d"
    using lane_len_le_queued [OF D(10), of "hd (ready d)"] l D(11)
    by (cases "lane_pending l") (auto simp: lane_len_def)
  with l show ?thesis by (auto simp: start_one_def Let_def split: list.splits)
qed

lemma start_one_ok:
  assumes ok: "dispatcher_ok d" and ne: "ready d \<noteq> []" and "fresh_ids fresh"
    and room: "length (active d) < concurrency d" and one: "start_one fresh d = Inr (x, d')"
  shows "dispatcher_ok d'"
proof -
  note D = dispatcher_okD [OF ok]
  define k where "k = hd (ready d)"
  define i where "i = fresh (active d)"
  from one obtain l it rest where l: "lanes d k = Some l" "lane_pending l = it # rest"
    and pos: "0 < pending_total d"
    and d': "d' = d\<lparr>lanes := (lanes d)(k \<mapsto> \<lparr>lane_pending = rest, lane_running = lane_running l + 1\<rparr>),
      ready := tl (ready d) @ (if lane_running l + 1 < per_peer d \<and> rest \<noteq> [] then [k] else []),
      pending_total := pending_total d - 1, active := active d @ [(i, k)]\<rparr>"
    by (auto simp: start_one_def Let_def k_def i_def split: option.splits list.splits if_splits)
  have kset: "k \<in> set (ready d)" using ne by (simp add: k_def)
  have run: "lane_running l < per_peer d"
    using kset D(5) [of k] l by (simp add: startable_def)
  have split: "ready d = k # tl (ready d)" using ne by (simp add: k_def)
  then have tl: "k \<notin> set (tl (ready d))" "distinct (tl (ready d))"
    "set (ready d) = insert k (set (tl (ready d)))"
    using D(4) by (metis distinct.simps(2), metis distinct.simps(2), metis list.simps(15))
  have lo: "lane_ok d k l" using D(6) l by blast
  have mem: "j \<in> set (ready d') \<longleftrightarrow> startable d' j" for j
    using D(5) [of j] tl(1,3) by (cases "j = k") (auto simp: d' startable_def waiting_def)
  have lanes': "lane_ok d' j m" if "lanes d' j = Some m" for j m
    using that D(6) [of j m] lo run l by (auto simp: d' lane_ok_def tasks_of_append split: if_splits)
  have total: "pending_total d' = queued (lanes d')"
    using queued_update [OF D(10), of k "\<lparr>lane_pending = rest, lane_running = lane_running l + 1\<rparr>"]
      l D(11) by (auto simp: d' lane_len_def)
  have ids: "distinct (map fst (active d'))"
    using \<open>fresh_ids fresh\<close> D(8) by (auto simp: d' fresh_ids_def i_def)
  have dist: "distinct (ready d')" using tl by (auto simp: d')
  have act: "lanes d' j \<noteq> None" if "(a, j) \<in> set (active d')" for a j
    using that D(7) by (auto simp: d')
  show ?thesis
    by (rule dispatcher_okI [OF _ _ _ dist mem lanes' act ids _ _ total])
      (use D(1-3,10,12) room in \<open>auto simp: d'\<close>)
qed

lemma complete_no_panic:
  assumes ok: "dispatcher_ok d" and "result_task r \<in> fst ` set (active d)"
  shows "\<exists>c d'. complete r d = Inr (c, d')"
proof -
  note D = dispatcher_okD [OF ok]
  from assms(2) obtain k where k: "map_of (active d) (result_task r) = Some k"
    by (metis map_of_eq_None_iff not_None_eq)
  then have mem: "(result_task r, k) \<in> set (active d)" by (rule map_of_SomeD)
  with D(7) obtain l where l: "lanes d k = Some l" by blast
  with D(6) tasks_of_member [OF mem] have "0 < lane_running l" by (auto simp: lane_ok_def)
  with k l show ?thesis by (simp add: complete_def Let_def)
qed

lemma complete_ok:
  assumes ok: "dispatcher_ok d" and c: "complete r d = Inr (c, d')"
  shows "dispatcher_ok d'"
proof -
  note D = dispatcher_okD [OF ok]
  define i where "i = result_task r"
  from c obtain k l where k: "map_of (active d) i = Some k" and l: "lanes d k = Some l"
    and run: "0 < lane_running l"
    and d': "d' = d\<lparr>active := filter (\<lambda>p. fst p \<noteq> i) (active d),
      lanes := (lanes d)(k := if lane_pending l = [] \<and> lane_running l = 1 then None
                               else Some (l\<lparr>lane_running := lane_running l - 1\<rparr>)),
      ready := (if lane_pending l \<noteq> [] \<and> lane_running l = per_peer d then ready d @ [k]
                else ready d)\<rparr>"
    by (auto simp: complete_def Let_def i_def split: option.splits if_splits)
  note rt = remove_task [OF D(8) k]
  have rt_k: "tasks_of (active d) k = Suc (tasks_of (active d') k)"
    and rt_other: "\<And>j. j \<noteq> k \<Longrightarrow> tasks_of (active d') j = tasks_of (active d) j"
    using rt by (simp_all add: d')
  have lo: "lane_ok d k l" using D(6) l by blast
  then have per: "lane_running l \<le> per_peer d" by (simp add: lane_ok_def)
  have mem: "j \<in> set (ready d') \<longleftrightarrow> startable d' j" for j
  proof (cases "j = k")
    case True
    have "set (ready d') = (if lane_pending l \<noteq> [] \<and> lane_running l = per_peer d
        then insert k (set (ready d)) else set (ready d))"
      by (simp add: d')
    moreover have "lane_running l - 1 < per_peer d" using per run by linarith
    then have "startable d' k \<longleftrightarrow> lane_pending l \<noteq> []"
      by (simp add: d' startable_def waiting_def)
    moreover have "k \<in> set (ready d) \<longleftrightarrow> lane_pending l \<noteq> [] \<and> lane_running l < per_peer d"
      using D(5) [of k] l by (simp add: startable_def waiting_def)
    ultimately show ?thesis using True per by (cases "lane_running l = per_peer d") auto
  next
    case False
    then show ?thesis using D(5) [of j] by (simp add: d' startable_def waiting_def)
  qed
  have dist: "distinct (ready d')"
    using D(4) D(5) [of k] l by (auto simp: d' startable_def)
  have lanes': "lane_ok d' j m" if "lanes d' j = Some m" for j m
  proof (cases "j = k")
    case True
    with that have m: "m = l\<lparr>lane_running := lane_running l - 1\<rparr>"
      "lane_pending l \<noteq> [] \<or> lane_running l \<noteq> 1"
      by (auto simp: d' split: if_splits)
    with True show ?thesis
      using lo run rt_k by (auto simp: d' lane_ok_def)
  next
    case False
    with that have "lanes d j = Some m" by (simp add: d')
    with D(6) have "lane_ok d j m" by blast
    with False show ?thesis using rt_other [of j] by (auto simp: d' lane_ok_def)
  qed
  have act: "lanes d' j \<noteq> None" if "(a, j) \<in> set (active d')" for a j
  proof (cases "j = k")
    case True
    with that have "0 < tasks_of (active d') k" by (auto dest: tasks_of_member)
    with lo rt_k have "lane_running l \<noteq> 1" by (simp add: lane_ok_def)
    with True show ?thesis by (simp add: d')
  next
    case False
    with that D(7) show ?thesis by (auto simp: d')
  qed
  have total: "pending_total d' = queued (lanes d')"
    using queued_update [OF D(10), of k "l\<lparr>lane_running := lane_running l - 1\<rparr>"]
      queued_drop_idle [OF D(10), of k] l D(11) by (auto simp: d' lane_len_def)
  have ids: "distinct (map fst (active d'))"
    using D(8) by (simp add: d' distinct_map_filter)
  have len: "length (active d') \<le> concurrency d'"
    using rt D(9) by (simp add: d')
  show ?thesis
    by (rule dispatcher_okI [OF _ _ _ dist mem lanes' act ids len _ total])
      (use D(1-3,10,12) in \<open>auto simp: d'\<close>)
qed

lemma complete_tracks:
  assumes "dispatcher_ok d" and "complete r d = Inr (c, d')"
  shows "map fst (active d') = filter (\<lambda>i. i \<noteq> result_task r) (map fst (active d))"
    and "length (active d) = Suc (length (active d'))"
    and "pending_total d' = pending_total d"
  using assms remove_task [OF dispatcher_okD(8) [OF assms(1)], of "result_task r"]
  by (auto simp: complete_def Let_def filter_map comp_def split: option.splits if_splits)

section \<open>The loop of start\<close>

lemma start_step:
  assumes "dispatcher_ok d" and "length (active d) < concurrency d" and "ready d \<noteq> []"
    and "fresh_ids fresh"
  obtains x d' where "start_one fresh d = Inr (x, d')" and "dispatcher_ok d'"
  using assms start_one_no_panic start_one_ok by metis

lemma start_ok:
  assumes "dispatcher_ok d" and "fresh_ids fresh"
  shows "\<exists>xs d'. start fresh d = Inr (xs, d') \<and> dispatcher_ok d' \<and>
    (length (active d') = concurrency d' \<or> ready d' = [])"
  using assms
proof (induction fresh d rule: start.induct)
  case (1 fresh d)
  show ?case
  proof (cases "length (active d) < concurrency d \<and> ready d \<noteq> []")
    case True
    with "1.prems" obtain x d' where one: "start_one fresh d = Inr (x, d')" "dispatcher_ok d'"
      using start_step [of d fresh] by blast
    from "1.IH" [OF True one(1) refl one(2) "1.prems"(2)] obtain xs d'' where
      "start fresh d' = Inr (xs, d'')" "dispatcher_ok d''"
      "length (active d'') = concurrency d'' \<or> ready d'' = []" by blast
    with True one(1) show ?thesis by (subst start.simps) simp
  next
    case False
    with "1.prems" dispatcher_okD(9) [OF "1.prems"(1)] show ?thesis
      by (subst start.simps) auto
  qed
qed

text \<open>What a run of \<open>start\<close> took from lane \<open>k\<close>, in the order it spawned the tasks.\<close>

definition taken :: "(task \<times> key \<times> 'a item) list \<Rightarrow> key \<Rightarrow> 'a item list" where
  "taken xs k = map (\<lambda>(i, j, it). it) (filter (\<lambda>(i, j, it). j = k) xs)"

lemma start_one_waiting:
  assumes "start_one fresh d = Inr (x, d')"
  shows "waiting d k = taken [x] k @ waiting d' k"
  using assms
  by (auto simp: start_one_def Let_def waiting_def taken_def split: option.splits list.splits if_splits)

lemma taken_Cons: "taken (x # xs) k = taken [x] k @ taken xs k"
  by (simp add: taken_def split: prod.splits)

lemma start_waiting:
  assumes "start fresh d = Inr (xs, d')"
  shows "waiting d k = taken xs k @ waiting d' k"
  using assms
proof (induction fresh d arbitrary: xs d' rule: start.induct)
  case (1 fresh d)
  show ?case
  proof (cases "length (active d) < concurrency d \<and> ready d \<noteq> []")
    case True
    with "1.prems" obtain x d1 ys where one: "start_one fresh d = Inr (x, d1)"
      and rest: "start fresh d1 = Inr (ys, d')" and xs: "xs = x # ys"
      by (subst (asm) start.simps) (auto split: sum.splits)
    have "waiting d1 k = taken ys k @ waiting d' k"
      by (rule "1.IH" [OF True one refl rest])
    with start_one_waiting [OF one] taken_Cons [of x ys k] xs show ?thesis by simp
  next
    case False
    with "1.prems" show ?thesis by (subst (asm) start.simps) (simp add: taken_def)
  qed
qed

lemma start_one_ready:
  assumes "start_one fresh d = Inr (x, d')"
  shows "fst (snd x) = hd (ready d) \<and> (\<exists>ks. ready d' = tl (ready d) @ ks)"
  using assms
  by (auto simp: start_one_def Let_def split: option.splits list.splits if_splits)

lemma start_round_robin:
  assumes "start fresh d = Inr (xs, d')" and "n < length (ready d)"
    and "n + length (active d) < concurrency d"
  shows "n < length xs \<and> fst (snd (xs ! n)) = ready d ! n"
  using assms
proof (induction n arbitrary: d xs)
  case 0
  then have "length (active d) < concurrency d \<and> ready d \<noteq> []" by auto
  with "0.prems" obtain x d1 ys where one: "start_one fresh d = Inr (x, d1)" "xs = x # ys"
    by (subst (asm) start.simps) (auto split: sum.splits)
  with start_one_ready [OF one(1)] "0.prems"(2) show ?case by (simp add: hd_conv_nth)
next
  case (Suc n)
  then have "length (active d) < concurrency d \<and> ready d \<noteq> []" by auto
  with Suc.prems obtain x d1 ys where one: "start_one fresh d = Inr (x, d1)"
    and rest: "start fresh d1 = Inr (ys, d')" and xs: "xs = x # ys"
    by (subst (asm) start.simps) (auto split: sum.splits)
  obtain ks where ks: "ready d1 = tl (ready d) @ ks" using start_one_ready [OF one] by blast
  have "n < length (ready d1)" using ks Suc.prems(2) by simp
  moreover have "n + length (active d1) < concurrency d1"
    using start_one_active [OF one] Suc.prems(3) by simp
  ultimately have "n < length ys \<and> fst (snd (ys ! n)) = ready d1 ! n"
    by (rule Suc.IH [OF rest])
  moreover have "n < length (tl (ready d))" using Suc.prems(2) by simp
  ultimately show ?case using xs ks by (simp add: nth_append nth_tl)
qed

section \<open>Shutdown\<close>

lemma join_all_ok:
  assumes "dispatcher_ok d" and "distinct (map result_task rs)"
    and "set (map result_task rs) = fst ` set (active d)"
  shows "\<exists>d'. join_all rs d = Inr d' \<and> dispatcher_ok d' \<and> active d' = []"
  using assms
proof (induction rs arbitrary: d)
  case Nil
  then show ?case by simp
next
  case (Cons r rs)
  then have "result_task r \<in> fst ` set (active d)" by auto
  with Cons.prems(1) obtain c d1 where c: "complete r d = Inr (c, d1)"
    using complete_no_panic by blast
  have "dispatcher_ok d1" using complete_ok [OF Cons.prems(1) c] .
  moreover have "set (map result_task rs) = fst ` set (active d1)"
  proof -
    have "set (map fst (active d1)) = set (map fst (active d)) - {result_task r}"
      by (subst complete_tracks(1) [OF Cons.prems(1) c]) auto
    moreover have "insert (result_task r) (set (map result_task rs)) = set (map fst (active d))"
      using Cons.prems(3) by simp
    moreover have "result_task r \<notin> set (map result_task rs)" using Cons.prems(2) by simp
    ultimately show ?thesis by (metis Diff_insert_absorb set_map)
  qed
  moreover have "distinct (map result_task rs)" using Cons.prems(2) by simp
  ultimately obtain d' where "join_all rs d1 = Inr d'" "dispatcher_ok d'" "active d' = []"
    using Cons.IH by blast
  with c show ?case by simp
qed

section \<open>Every run of the program\<close>

text \<open>
  The main loop builds a dispatcher and then calls its operations in any order: it pushes only
  after \<open>has_room\<close>, and joins only tasks that are running.
\<close>

inductive dispatch_step ::
  "((task \<times> key) list \<Rightarrow> task) \<Rightarrow> 'a dispatcher \<Rightarrow> panic + 'a dispatcher \<Rightarrow> bool"
  for fresh where
  step_push: "has_room d \<Longrightarrow> dispatch_step fresh d (push k v now d)"
| step_start: "dispatch_step fresh d (map_sum id snd (start fresh d))"
| step_complete: "result_task r \<in> fst ` set (active d) \<Longrightarrow>
     dispatch_step fresh d (map_sum id snd (complete r d))"
| step_shutdown: "distinct (map result_task rs) \<Longrightarrow>
     set (map result_task rs) = fst ` set (active d) \<Longrightarrow>
     dispatch_step fresh d (map_sum id snd (shutdown rs d))"

inductive dispatch_reach ::
  "((task \<times> key) list \<Rightarrow> task) \<Rightarrow> panic + 'a dispatcher \<Rightarrow> bool" for fresh where
  reach_new: "0 < c \<Longrightarrow> 0 < p \<Longrightarrow> 0 < n \<Longrightarrow> dispatch_reach fresh (new_dispatcher c p n)"
| reach_capped: "new_dispatcher c p n = Inr d \<Longrightarrow> 0 < m \<Longrightarrow>
     dispatch_reach fresh (with_lane_cap m d)"
| reach_step: "dispatch_reach fresh (Inr d) \<Longrightarrow> dispatch_step fresh d e \<Longrightarrow> dispatch_reach fresh e"

lemma shutdown_ok:
  assumes "dispatcher_ok d" and "distinct (map result_task rs)"
    and "set (map result_task rs) = fst ` set (active d)"
  shows "\<exists>d'. shutdown rs d = Inr (pending_total d + length (active d), d') \<and>
    dispatcher_ok d' \<and> is_empty d'"
proof -
  from join_all_ok [OF assms] obtain d1 where d1: "join_all rs d = Inr d1" "dispatcher_ok d1"
    "active d1 = []" by blast
  note D = dispatcher_okD [OF d1(2)]
  have "dispatcher_ok (d1\<lparr>pending_total := 0, ready := [], lanes := Map.empty\<rparr>)"
    by (rule dispatcher_okI) (use D(1-3,9) d1(3) in
      \<open>auto simp: startable_def waiting_def queued_def\<close>)
  with d1 show ?thesis by (simp add: shutdown_def is_empty_def)
qed

lemma dispatch_step_ok:
  assumes "dispatch_step fresh d e" and "dispatcher_ok d" and "fresh_ids fresh"
  shows "\<exists>d'. e = Inr d' \<and> dispatcher_ok d'"
  using assms(1)
proof cases
  case (step_push k v now)
  then show ?thesis using push_no_panic [OF assms(2)] push_ok [OF assms(2)] by metis
next
  case step_start
  then show ?thesis using start_ok [OF assms(2,3)] by auto
next
  case (step_complete r)
  then obtain c d' where "complete r d = Inr (c, d')"
    using complete_no_panic [OF assms(2)] by blast
  with step_complete(1) complete_ok [OF assms(2)] show ?thesis by auto
next
  case (step_shutdown rs)
  then show ?thesis using shutdown_ok [OF assms(2) step_shutdown(2,3)] by auto
qed

lemma dispatch_reach_ok:
  assumes "dispatch_reach fresh e" and "fresh_ids fresh"
  shows "\<exists>d. e = Inr d \<and> dispatcher_ok d"
  using assms
proof (induction rule: dispatch_reach.induct)
  case (reach_new c p n)
  then show ?case using new_dispatcher_ok [of c p n] by (auto simp: new_dispatcher_def)
next
  case (reach_capped c p n d m)
  then show ?case using with_lane_cap_ok [of c p n d m] by (auto simp: with_lane_cap_def)
next
  case (reach_step d e)
  then show ?case using dispatch_step_ok by blast
qed

section \<open>Properties\<close>

text \<open>An allocator of ids for the examples: above every id in use.\<close>

definition next_id :: "(task \<times> key) list \<Rightarrow> task" where
  "next_id xs = Suc (sum_list (map fst xs))"

lemma fresh_next_id: "fresh_ids next_id"
proof -
  have "x \<in> fst ` set xs \<Longrightarrow> x \<le> sum_list (map fst xs)" for x :: nat and xs :: "(task \<times> key) list"
    by (rule member_le_sum_list) simp_all
  then show ?thesis unfolding fresh_ids_def next_id_def by (metis not_less_eq_eq order_refl)
qed

definition example_dispatcher :: "nat dispatcher" where
  "example_dispatcher =
     \<lparr>lanes = [7 \<mapsto> \<lparr>lane_pending = [\<lparr>item_value = 70, item_received = 1\<rparr>,
                                       \<lparr>item_value = 71, item_received = 2\<rparr>], lane_running = 0\<rparr>],
      ready = [7], pending_total = 2, capacity = 4, lane_cap = 2, shed = 0, concurrency = 2,
      per_peer = 1, active = []\<rparr>"

lemma example_reach:
  assumes "fresh_ids fresh"
  shows "dispatch_reach fresh (Inr example_dispatcher)"
proof -
  let ?a = "\<lparr>item_value = 70 :: nat, item_received = 1\<rparr>"
  let ?d0 = "\<lparr>lanes = Map.empty, ready = [], pending_total = 0, capacity = 4, lane_cap = 4,
    shed = 0, concurrency = 2, per_peer = 1, active = []\<rparr> :: nat dispatcher"
  let ?d1 = "?d0\<lparr>lane_cap := 2\<rparr>"
  let ?d2 = "?d1\<lparr>lanes := [7 \<mapsto> \<lparr>lane_pending = [?a], lane_running = 0\<rparr>], ready := [7],
    pending_total := 1\<rparr>"
  have "dispatch_reach fresh (with_lane_cap 2 ?d0)"
    by (rule reach_capped [of 2 1 4]) (simp_all add: new_dispatcher_def)
  then have 1: "dispatch_reach fresh (Inr ?d1)" by (simp add: with_lane_cap_def)
  have "dispatch_step fresh ?d1 (push 7 70 1 ?d1)"
    by (rule step_push) (simp add: has_room_def)
  then have 2: "dispatch_reach fresh (Inr ?d2)"
    using reach_step [OF 1] by (simp add: push_def has_room_def lane_or_new_def empty_lane_def)
  have "dispatch_step fresh ?d2 (push 7 71 2 ?d2)"
    by (rule step_push) (simp add: has_room_def)
  then show ?thesis
    using reach_step [OF 2] by (simp add: push_def has_room_def example_dispatcher_def numeral_2_eq_2)
qed

text \<open>
  C1: from a dispatcher built with positive bounds, no sequence of pushes (made when there is
  room), starts, joins of running tasks and shutdowns ever panics; and at every moment at most
  \<open>concurrency\<close> tasks run, at most \<open>per_peer\<close> of one peer, at most \<open>capacity\<close> updates wait, at
  most \<open>lane_cap\<close> of one peer, and the counter of waiting updates is exact.
\<close>

theorem dispatcher_never_panics:
  assumes "dispatch_reach fresh e" and "fresh_ids fresh"
  shows "\<exists>d. e = Inr d \<and> length (active d) \<le> concurrency d \<and> pending_total d \<le> capacity d \<and>
    pending_total d = queued (lanes d) \<and>
    (\<forall>k. tasks_of (active d) k \<le> per_peer d \<and> length (waiting d k) \<le> lane_cap d)"
proof -
  from dispatch_reach_ok [OF assms] obtain d where d: "e = Inr d" "dispatcher_ok d" by blast
  from d show ?thesis
    using dispatcher_okD [OF d(2)] lane_or_new_ok [OF d(2)] by (auto simp: waiting_def)
qed

theorem dispatcher_never_panics_witness:
  "\<exists>d. Inr example_dispatcher = (Inr d :: panic + nat dispatcher) \<and>
    length (active d) \<le> concurrency d \<and> pending_total d \<le> capacity d \<and>
    pending_total d = queued (lanes d) \<and>
    (\<forall>k. tasks_of (active d) k \<le> per_peer d \<and> length (waiting d k) \<le> lane_cap d)"
  by (rule dispatcher_never_panics [OF example_reach [OF fresh_next_id] fresh_next_id])

text \<open>
  \<open>start\<close> takes the updates of every peer from the front of its lane, in the order they
  came, and what it does not take stays in the lane in that order: nothing is lost, doubled or
  overtaken.
\<close>

theorem start_keeps_peer_order:
  assumes "start fresh d = Inr (xs, d')"
  shows "waiting d k = taken xs k @ waiting d' k"
  using assms by (rule start_waiting)

theorem start_keeps_peer_order_witness:
  "waiting example_dispatcher 7 = [\<lparr>item_value = 70, item_received = 1\<rparr>] @
     waiting (example_dispatcher\<lparr>lanes := [7 \<mapsto> \<lparr>lane_pending =
       [\<lparr>item_value = 71, item_received = 2\<rparr>], lane_running = 1\<rparr>],
       ready := [], pending_total := 1, active := [(1, 7)]\<rparr>) 7"
proof -
  have "start next_id example_dispatcher = Inr ([(1, 7, \<lparr>item_value = 70, item_received = 1\<rparr>)],
      example_dispatcher\<lparr>lanes := [7 \<mapsto> \<lparr>lane_pending =
        [\<lparr>item_value = 71, item_received = 2\<rparr>], lane_running = 1\<rparr>],
        ready := [], pending_total := 1, active := [(1, 7)]\<rparr>)"
    by (subst start.simps, subst start.simps)
      (simp add: start_one_def example_dispatcher_def next_id_def)
  from start_keeps_peer_order [OF this, of 7] show ?thesis by (simp add: taken_def)
qed

text \<open>
  C2: when \<open>start\<close> returns (and it always does), either all \<open>concurrency\<close> workers are busy or
  every peer that still has waiting updates already runs its \<open>per_peer\<close> tasks: no worker idles
  while an update could run, so one slow peer never holds up the others.
\<close>

theorem start_leaves_no_idle_worker:
  assumes "dispatch_reach fresh (Inr d)" and "fresh_ids fresh"
  shows "\<exists>xs d'. start fresh d = Inr (xs, d') \<and>
    (length (active d') = concurrency d' \<or>
     (\<forall>k. waiting d' k = [] \<or> tasks_of (active d') k = per_peer d'))"
proof -
  from dispatch_reach_ok [OF assms] have "dispatcher_ok d" by simp
  from start_ok [OF this assms(2)] obtain xs d' where s: "start fresh d = Inr (xs, d')"
    and ok: "dispatcher_ok d'" and full: "length (active d') = concurrency d' \<or> ready d' = []"
    by blast
  have "ready d' = [] \<Longrightarrow> waiting d' k = [] \<or> tasks_of (active d') k = per_peer d'" for k
    using dispatcher_okD(5) [OF ok, of k] lane_or_new_ok(1,2) [OF ok, of k]
    by (simp add: startable_def)
  with s full show ?thesis by blast
qed

theorem start_leaves_no_idle_worker_witness:
  "\<exists>xs d'. start next_id example_dispatcher = Inr (xs, d') \<and>
    (length (active d') = concurrency d' \<or>
     (\<forall>k. waiting d' k = [] \<or> tasks_of (active d') k = per_peer d'))"
  by (rule start_leaves_no_idle_worker [OF example_reach [OF fresh_next_id] fresh_next_id])

text \<open>
  \<open>start\<close> serves the ready peers in rotation: with \<open>m\<close> idle workers the first \<open>m\<close> peers of
  the ready queue each get a task, in the order of the queue, before any peer gets a second one.
\<close>

theorem start_serves_in_rotation:
  assumes "start fresh d = Inr (xs, d')" and "n < length (ready d)"
    and "n + length (active d) < concurrency d"
  shows "n < length xs \<and> fst (snd (xs ! n)) = ready d ! n"
  using assms by (rule start_round_robin)

theorem start_serves_in_rotation_witness:
  "\<exists>xs d'. start next_id example_dispatcher = Inr (xs, d') \<and> 0 < length xs \<and>
    fst (snd (xs ! 0)) = ready example_dispatcher ! 0"
proof -
  from start_ok [OF _ fresh_next_id, of example_dispatcher]
    dispatch_reach_ok [OF example_reach [OF fresh_next_id] fresh_next_id]
  obtain xs d' where run: "start next_id example_dispatcher = Inr (xs, d')" by auto
  from start_serves_in_rotation [OF this, of 0]
  have "0 < length xs \<and> fst (snd (xs ! 0)) = ready example_dispatcher ! 0"
    by (simp add: example_dispatcher_def)
  with run show ?thesis by blast
qed

text \<open>
  A push always succeeds when there is room, appends its update to the peer's own lane and
  touches no other lane; a lane that was full loses exactly its oldest update, which is counted
  in \<open>shed\<close>, so a flood from one peer costs only that peer.
\<close>

theorem push_sheds_only_its_own_oldest:
  assumes "dispatch_reach fresh (Inr d)" and "fresh_ids fresh" and "has_room d"
  shows "\<exists>d'. push k v now d = Inr d' \<and>
    (\<forall>j. waiting d' j =
      (if j = k then drop (if length (waiting d k) < lane_cap d then 0 else 1) (waiting d k) @
         [\<lparr>item_value = v, item_received = now\<rparr>]
       else waiting d j)) \<and>
    shed d' = shed d + (if length (waiting d k) < lane_cap d then 0 else 1) \<and>
    active d' = active d"
proof -
  from dispatch_reach_ok [OF assms(1,2)] have "dispatcher_ok d" by simp
  from push_no_panic [OF this assms(3), of k v now] obtain d' where d': "push k v now d = Inr d'"
    by blast
  then show ?thesis by (auto simp: push_def Let_def waiting_def drop_Suc split: if_splits)
qed

theorem push_sheds_only_its_own_oldest_witness:
  "\<exists>d'. push 7 72 3 example_dispatcher = Inr d' \<and>
    (\<forall>j. waiting d' j =
      (if j = 7 then drop (if length (waiting example_dispatcher 7) < lane_cap example_dispatcher
           then 0 else 1) (waiting example_dispatcher 7) @ [\<lparr>item_value = 72, item_received = 3\<rparr>]
       else waiting example_dispatcher j)) \<and>
    shed d' = shed example_dispatcher +
      (if length (waiting example_dispatcher 7) < lane_cap example_dispatcher then 0 else 1) \<and>
    active d' = active example_dispatcher"
  by (rule push_sheds_only_its_own_oldest [OF example_reach [OF fresh_next_id] fresh_next_id])
    (simp add: has_room_def example_dispatcher_def)

text \<open>
  C6: \<open>shutdown\<close> returns the number of updates that had not finished, waiting or running, and
  leaves a dispatcher with nothing waiting and nothing running, whatever order tokio joins the
  aborted tasks in.
\<close>

theorem shutdown_discards_everything:
  assumes "dispatch_reach fresh (Inr d)" and "fresh_ids fresh" and "distinct (map result_task rs)"
    and "set (map result_task rs) = fst ` set (active d)"
  shows "\<exists>d'. shutdown rs d = Inr (queued (lanes d) + length (active d), d') \<and> is_empty d'"
proof -
  from dispatch_reach_ok [OF assms(1,2)] have ok: "dispatcher_ok d" by simp
  from shutdown_ok [OF ok assms(3,4)] dispatcher_okD(11) [OF ok] show ?thesis by auto
qed

theorem shutdown_discards_everything_witness:
  "\<exists>d'. shutdown [] example_dispatcher =
    Inr (queued (lanes example_dispatcher) + length (active example_dispatcher), d') \<and> is_empty d'"
  by (rule shutdown_discards_everything [OF example_reach [OF fresh_next_id] fresh_next_id])
    (simp_all add: example_dispatcher_def)

end
