(* ===== verification/Tables.thy ===== *)
theory Tables
  imports Prelude "HOL-Library.Multiset"
begin

text \<open>
  PostgreSQL tables as the program uses them: a table is a list of row records, and a statement
  is the list operation with the same selection. A primary key is a function of the row whose
  values are distinct (\<open>unique_key\<close>). \<open>row_at\<close> views a table as a map from key to row; the
  lemmas in \<open>table_simps\<close> say what each statement does to that view, so that a component's
  proofs are about maps. A transaction is one function on the tables: either all its statements
  take effect or, after a rollback, none does.
\<close>

section \<open>Statements\<close>

type_synonym 'r table = "'r list"

definition sql_count :: "('r \<Rightarrow> bool) \<Rightarrow> 'r table \<Rightarrow> int" where
  "sql_count P t = int (length (filter P t))"

definition sql_exists :: "('r \<Rightarrow> bool) \<Rightarrow> 'r table \<Rightarrow> bool" where
  "sql_exists P t \<longleftrightarrow> list_ex P t"

definition sql_update :: "('r \<Rightarrow> bool) \<Rightarrow> ('r \<Rightarrow> 'r) \<Rightarrow> 'r table \<Rightarrow> 'r table" where
  "sql_update P f t = map (\<lambda>r. if P r then f r else r) t"

definition sql_delete :: "('r \<Rightarrow> bool) \<Rightarrow> 'r table \<Rightarrow> 'r table" where
  "sql_delete P t = filter (\<lambda>r. \<not> P r) t"

definition sql_insert :: "'r \<Rightarrow> 'r table \<Rightarrow> 'r table" where
  "sql_insert r t = t @ [r]"

text \<open>\<open>SELECT ... WHERE P ORDER BY ord LIMIT n\<close>.\<close>

definition sql_page ::
  "('r \<Rightarrow> bool) \<Rightarrow> ('r \<Rightarrow> 'o::linorder) \<Rightarrow> nat \<Rightarrow> 'r table \<Rightarrow> 'r list" where
  "sql_page P ord n t = take n (sort_key ord (filter P t))"

lemma sql_page_set: "r \<in> set (sql_page P ord n t) \<Longrightarrow> r \<in> set t \<and> P r"
  by (auto simp: sql_page_def dest: in_set_takeD)

lemma sql_page_length: "length (sql_page P ord n t) \<le> n"
  by (simp add: sql_page_def)

lemma sql_page_all:
  assumes "length (filter P t) \<le> n"
  shows "set (sql_page P ord n t) = {r \<in> set t. P r}"
  using assms by (simp add: sql_page_def)

lemma distinct_map_sort_key: "distinct (map f (sort_key g xs)) \<longleftrightarrow> distinct (map f xs)"
  by (metis mset_map mset_sort mset_eq_imp_distinct_iff)

lemma sql_page_distinct:
  "distinct (map f t) \<Longrightarrow> distinct (map f (sql_page P ord n t))"
  by (simp add: sql_page_def take_map [symmetric] distinct_map_sort_key distinct_map_filter)

text \<open>A page holds the smallest rows of the selection in the order asked for.\<close>

lemma sql_page_least:
  assumes r: "r \<in> set (sql_page P ord n t)" and q: "q \<in> set t" "P q"
    and notin: "q \<notin> set (sql_page P ord n t)"
  shows "ord r \<le> ord q"
proof -
  let ?s = "sort_key ord (filter P t)"
  from r have r': "r \<in> set (take n ?s)" by (simp add: sql_page_def)
  from q have "q \<in> set ?s" by simp
  then have "q \<in> set (take n ?s) \<union> set (drop n ?s)"
    by (metis append_take_drop_id set_append)
  with notin have q': "q \<in> set (drop n ?s)" by (simp add: sql_page_def)
  have "sorted (map ord (take n ?s @ drop n ?s))" by simp
  then show ?thesis using r' q' unfolding map_append sorted_append by auto
qed

lemma sql_page_complete:
  assumes "q \<in> set t" and "P q"
  shows "q \<in> set (sql_page P ord n t) \<or>
    length (sql_page P ord n t) = n \<and> (\<forall>r \<in> set (sql_page P ord n t). ord r \<le> ord q)"
proof (cases "q \<in> set (sql_page P ord n t)")
  case False
  have "n < length (filter P t)"
  proof (rule ccontr)
    assume "\<not> n < length (filter P t)"
    then have "set (sql_page P ord n t) = {r \<in> set t. P r}" by (intro sql_page_all) simp
    with False assms show False by simp
  qed
  then have "length (sql_page P ord n t) = n" by (simp add: sql_page_def)
  with sql_page_least [OF _ assms False] show ?thesis by blast
qed simp

text \<open>The order in which an UPDATE visits its rows is the database's choice.\<close>

definition arranges :: "('r list \<Rightarrow> 'r list) \<Rightarrow> bool" where
  "arranges a \<longleftrightarrow> (\<forall>xs. mset (a xs) = mset xs)"

lemma arranges_mset: "arranges a \<Longrightarrow> mset (a xs) = mset xs"
  by (simp add: arranges_def)

lemma arranges_mset_map: "arranges a \<Longrightarrow> mset (map f (a xs)) = mset (map f xs)"
  by (simp add: arranges_mset)

lemma arranges_set: "arranges a \<Longrightarrow> set (a xs) = set xs"
  by (metis arranges_mset mset_eq_setD)

lemma arranges_length: "arranges a \<Longrightarrow> length (a xs) = length xs"
  by (metis arranges_mset mset_eq_length)

lemma arranges_distinct: "arranges a \<Longrightarrow> distinct (map f (a xs)) \<longleftrightarrow> distinct (map f xs)"
  by (metis arranges_mset mset_map mset_eq_imp_distinct_iff)

section \<open>Tables with a primary key\<close>

definition unique_key :: "('r \<Rightarrow> 'k) \<Rightarrow> 'r table \<Rightarrow> bool" where
  "unique_key key t \<longleftrightarrow> distinct (map key t)"

definition row_at :: "('r \<Rightarrow> 'k) \<Rightarrow> 'r table \<Rightarrow> 'k \<Rightarrow> 'r option" where
  "row_at key t k = find (\<lambda>r. key r = k) t"

lemma row_at_Nil [simp]: "row_at key [] k = None"
  by (simp add: row_at_def)

lemma row_at_Cons: "row_at key (r # t) k = (if key r = k then Some r else row_at key t k)"
  by (simp add: row_at_def)

lemma row_at_Some: "row_at key t k = Some r \<Longrightarrow> r \<in> set t \<and> key r = k"
  by (induction t) (auto simp: row_at_Cons split: if_splits)

lemma row_at_None: "row_at key t k = None \<longleftrightarrow> k \<notin> key ` set t"
  by (induction t) (auto simp: row_at_Cons)

lemma row_at_in: "unique_key key t \<Longrightarrow> r \<in> set t \<Longrightarrow> row_at key t (key r) = Some r"
  by (induction t) (auto simp: row_at_Cons unique_key_def)

lemma row_at_iff:
  "unique_key key t \<Longrightarrow> row_at key t k = Some r \<longleftrightarrow> r \<in> set t \<and> key r = k"
  using row_at_Some row_at_in by metis

lemma sql_page_key:
  assumes "unique_key key t" and "r \<in> set t" and "key r \<in> set (map key (sql_page P ord n t))"
  shows "P r"
proof -
  obtain q where q: "q \<in> set (sql_page P ord n t)" "key q = key r" using assms(3) by auto
  note p = sql_page_set [OF q(1)]
  have "row_at key t (key r) = Some q" using row_at_in [OF assms(1) conjunct1 [OF p]] q(2) by simp
  with row_at_in [OF assms(1,2)] p show ?thesis by simp
qed

lemma row_at_update [table_simps]:
  assumes "\<And>r. key (f r) = key r"
  shows "row_at key (sql_update P f t) k =
           map_option (\<lambda>r. if P r then f r else r) (row_at key t k)"
  using assms by (induction t) (simp_all add: row_at_Cons sql_update_def)

lemma row_at_update_key [table_simps]:
  assumes "\<And>r. key (f r) = key r"
  shows "row_at key (sql_update (\<lambda>q. key q = k) f t) j =
           (if j = k then map_option f (row_at key t k) else row_at key t j)"
    and "row_at key (sql_update (\<lambda>q. key q = k \<and> P q) f t) j =
           (if j = k then map_option (\<lambda>r. if P r then f r else r) (row_at key t k)
            else row_at key t j)"
  using assms by (induction t) (auto simp: row_at_Cons sql_update_def)

lemma row_at_delete [table_simps]:
  assumes "unique_key key t"
  shows "row_at key (sql_delete P t) k =
           (case row_at key t k of None \<Rightarrow> None | Some r \<Rightarrow> if P r then None else Some r)"
  using assms
proof (induction t)
  case Nil
  then show ?case by (simp add: sql_delete_def)
next
  case (Cons r t)
  from Cons.prems have "row_at key t (key r) = None"
    by (simp add: unique_key_def row_at_None)
  with Cons show ?case
    by (auto simp: unique_key_def row_at_Cons sql_delete_def split: option.splits)
qed

lemma row_at_delete_key [table_simps]:
  assumes "unique_key key t"
  shows "row_at key (sql_delete (\<lambda>q. key q = k \<and> P q) t) j =
           (if j = k then (case row_at key t k of None \<Rightarrow> None | Some r \<Rightarrow> if P r then None else Some r)
            else row_at key t j)"
  using row_at_Some [of key t j]
  by (auto simp: row_at_delete [OF assms] split: option.splits dest: row_at_Some)

lemma row_at_insert [table_simps]:
  "row_at key (sql_insert r t) k =
     (case row_at key t k of None \<Rightarrow> if key r = k then Some r else None | Some x \<Rightarrow> Some x)"
  by (induction t) (simp_all add: row_at_Cons sql_insert_def)

lemma row_at_update_Some:
  assumes "row_at key (sql_update P f t) k = Some r'" and "\<And>r. key (f r) = key r"
  shows "\<exists>r. row_at key t k = Some r \<and> (r' = r \<or> P r \<and> r' = f r)"
  using assms(1) by (auto simp: row_at_update [where key = key and f = f, OF assms(2)] split: if_splits)

lemma row_at_delete_Some:
  "unique_key key t \<Longrightarrow> row_at key (sql_delete P t) k = Some r \<Longrightarrow> row_at key t k = Some r"
  by (auto simp: row_at_delete split: option.splits if_splits)

lemma row_at_insert_Some:
  "row_at key (sql_insert q t) k = Some r \<Longrightarrow> r = q \<or> row_at key t k = Some r"
  by (auto simp: row_at_insert split: option.splits if_splits)

lemma map_key_update: "(\<And>r. key (f r) = key r) \<Longrightarrow> map key (sql_update P f t) = map key t"
  by (induction t) (simp_all add: sql_update_def)

lemma unique_update:
  "(\<And>r. key (f r) = key r) \<Longrightarrow> unique_key key t \<Longrightarrow> unique_key key (sql_update P f t)"
  by (simp add: unique_key_def map_key_update)

lemma unique_delete: "unique_key key t \<Longrightarrow> unique_key key (sql_delete P t)"
  by (simp add: unique_key_def sql_delete_def distinct_map_filter)

lemma unique_insert:
  "unique_key key t \<Longrightarrow> row_at key t (key r) = None \<Longrightarrow> unique_key key (sql_insert r t)"
  by (simp add: unique_key_def sql_insert_def row_at_None)

lemmas unique_intros = unique_update unique_delete unique_insert

lemma unique_key_Nil [simp]: "unique_key key []"
  by (simp add: unique_key_def)

text \<open>Statements that select no row change nothing.\<close>

lemma sql_update_none: "(\<And>r. r \<in> set t \<Longrightarrow> \<not> P r) \<Longrightarrow> sql_update P f t = t"
  by (induction t) (auto simp: sql_update_def)

lemma sql_delete_none: "(\<And>r. r \<in> set t \<Longrightarrow> \<not> P r) \<Longrightarrow> sql_delete P t = t"
  by (induction t) (auto simp: sql_delete_def)

lemma sql_update_cong:
  "(\<And>r. r \<in> set t \<Longrightarrow> P r = Q r) \<Longrightarrow> (\<And>r. r \<in> set t \<Longrightarrow> Q r \<Longrightarrow> f r = g r) \<Longrightarrow>
   sql_update P f t = sql_update Q g t"
  by (simp add: sql_update_def)

text \<open>An UPDATE by key with a further condition changes the row of the key or nothing.\<close>

lemma sql_update_key_cases:
  assumes "unique_key key t"
  shows "sql_update (\<lambda>r. key r = k \<and> P r) f t =
    (if is_some_and P (row_at key t k) then sql_update (\<lambda>r. key r = k) f t else t)"
proof (cases "is_some_and P (row_at key t k)")
  case True
  with row_at_in [OF assms] show ?thesis
    by (auto simp: is_some_and_iff intro!: sql_update_cong)
next
  case False
  with row_at_in [OF assms] show ?thesis
    by (auto simp: is_some_and_iff intro!: sql_update_none)
qed

lemma sql_exists_key:
  assumes "unique_key key t"
  shows "sql_exists (\<lambda>r. key r = k \<and> P r) t \<longleftrightarrow> (\<exists>r. row_at key t k = Some r \<and> P r)"
  using row_at_iff [OF assms] by (auto simp: sql_exists_def list_ex_iff)

lemma row_at_delete_keys:
  assumes "unique_key key t"
  shows "row_at key (sql_delete (\<lambda>r. key r \<in> K) t) k = (if k \<in> K then None else row_at key t k)"
  using row_at_Some [of key t k] by (auto simp: row_at_delete [OF assms] split: option.splits)

lemma length_delete_keys:
  assumes "unique_key key t" and "distinct ks" and "set ks \<subseteq> key ` set t"
  shows "length t = length ks + length (sql_delete (\<lambda>r. key r \<in> set ks) t)"
proof -
  have "card (set ks) + card (key ` {r \<in> set t. key r \<notin> set ks}) = card (key ` set t)"
    using assms(3) by (subst card_Un_disjoint [symmetric]) (auto intro: arg_cong [where f = card])
  moreover have "card (key ` {r \<in> set t. key r \<notin> set ks}) =
      length (sql_delete (\<lambda>r. key r \<in> set ks) t)"
    using distinct_card [of "map key (sql_delete (\<lambda>r. key r \<in> set ks) t)"]
      unique_delete [OF assms(1), of "\<lambda>r. key r \<in> set ks"]
    by (simp add: unique_key_def sql_delete_def)
  moreover have "card (key ` set t) = length t"
    using distinct_card [of "map key t"] assms(1) by (simp add: unique_key_def)
  ultimately show ?thesis using distinct_card [OF assms(2)] by simp
qed

section \<open>Row predicates and counts\<close>

lemma set_update_all:
  "\<forall>r \<in> set t. Q r \<Longrightarrow> (\<And>r. Q r \<Longrightarrow> P r \<Longrightarrow> Q (f r)) \<Longrightarrow> \<forall>r \<in> set (sql_update P f t). Q r"
  by (auto simp: sql_update_def)

lemma set_delete_all: "\<forall>r \<in> set t. Q r \<Longrightarrow> \<forall>r \<in> set (sql_delete P t). Q r"
  by (simp add: sql_delete_def)

lemma set_insert_all: "\<forall>r \<in> set t. Q r \<Longrightarrow> Q r0 \<Longrightarrow> \<forall>r \<in> set (sql_insert r0 t). Q r"
  by (simp add: sql_insert_def)

lemmas row_pred_intros = set_update_all set_delete_all set_insert_all

lemma length_update [simp]: "length (sql_update P f t) = length t"
  by (simp add: sql_update_def)

lemma length_insert [simp]: "length (sql_insert r t) = Suc (length t)"
  by (simp add: sql_insert_def)

lemma length_delete_le: "length (sql_delete P t) \<le> length t"
  by (simp add: sql_delete_def)

lemma sql_count_insert:
  "sql_count P (sql_insert r t) = sql_count P t + (if P r then 1 else 0)"
  by (simp add: sql_count_def sql_insert_def)

lemma sql_count_nonneg [simp]: "0 \<le> sql_count P t"
  by (simp add: sql_count_def)

lemma sql_delete_length: "int (length t) = sql_count P t + int (length (sql_delete P t))"
  by (induction t) (auto simp: sql_count_def sql_delete_def)

lemma sql_count_delete_le: "sql_count P (sql_delete Q t) \<le> sql_count P t"
  by (induction t) (auto simp: sql_count_def sql_delete_def)

lemma sql_count_update_same:
  "(\<And>r. P (f r) = P r) \<Longrightarrow> sql_count P (sql_update Q f t) = sql_count P t"
  by (induction t) (auto simp: sql_count_def sql_update_def)

lemma sql_count_update_le:
  "(\<And>r. Q r \<Longrightarrow> P (f r) \<Longrightarrow> P r) \<Longrightarrow> sql_count P (sql_update Q f t) \<le> sql_count P t"
  by (induction t) (auto simp: sql_count_def sql_update_def)

text \<open>A keyed delete removes exactly one row, the row it found.\<close>

lemma length_delete_key:
  assumes "unique_key key t" and "row_at key t k = Some r" and "P r"
    and "\<And>q. P q \<Longrightarrow> key q = k"
  shows "length t = Suc (length (sql_delete P t))"
  using assms
proof (induction t)
  case Nil
  then show ?case by simp
next
  case (Cons q t)
  show ?case
  proof (cases "key q = k")
    case True
    with Cons.prems have "q = r" by (simp add: row_at_Cons)
    moreover have "\<forall>x \<in> set t. \<not> P x"
    proof
      fix x
      assume "x \<in> set t"
      then have "key x \<in> key ` set t" by (rule imageI)
      with Cons.prems(1) True have "key x \<noteq> k" by (auto simp: unique_key_def simp del: image_eqI)
      with Cons.prems(4) show "\<not> P x" by blast
    qed
    ultimately show ?thesis using Cons.prems(3) by (simp add: sql_delete_def)
  next
    case False
    with Cons show ?thesis by (auto simp: row_at_Cons unique_key_def sql_delete_def)
  qed
qed

section \<open>Upserts\<close>

text \<open>\<open>INSERT ... ON CONFLICT (key) DO UPDATE\<close>, for one row and for the rows of a batch.\<close>

definition sql_upsert ::
  "('r \<Rightarrow> 'k) \<Rightarrow> 'k \<Rightarrow> 'r \<Rightarrow> ('r \<Rightarrow> 'r) \<Rightarrow> 'r table \<Rightarrow> 'r table" where
  "sql_upsert key k new upd t =
     (case row_at key t k of
        None \<Rightarrow> sql_insert new t
      | Some r \<Rightarrow> sql_update (\<lambda>q. key q = k) upd t)"

lemma row_at_upsert:
  assumes "key new = k" and "\<And>r. key (upd r) = key r"
  shows "row_at key (sql_upsert key k new upd t) j =
    (if j = k then Some (case row_at key t k of None \<Rightarrow> new | Some r \<Rightarrow> upd r) else row_at key t j)"
  using assms(1)
  by (auto simp: sql_upsert_def row_at_insert row_at_update_key(1) [where key = key and f = upd, OF assms(2)]
      split: option.splits)

lemma unique_upsert:
  assumes "key new = k" and "\<And>r. key (upd r) = key r" and "unique_key key t"
  shows "unique_key key (sql_upsert key k new upd t)"
  using assms by (auto simp: sql_upsert_def unique_insert unique_update split: option.splits)

lemma sql_count_upsert:
  assumes "\<And>r. P (upd r) = P r"
  shows "sql_count P (sql_upsert key k new upd t) =
    sql_count P t + (if row_at key t k = None \<and> P new then 1 else 0)"
  using assms by (auto simp: sql_upsert_def sql_count_insert sql_count_update_same split: option.splits)

definition upsert_all ::
  "('r \<Rightarrow> 'k) \<Rightarrow> ('x \<Rightarrow> 'k) \<Rightarrow> ('x \<Rightarrow> 'r) \<Rightarrow> ('x \<Rightarrow> 'r \<Rightarrow> 'r) \<Rightarrow> 'x list \<Rightarrow> 'r table \<Rightarrow> 'r table" where
  "upsert_all key kf new upd = fold (\<lambda>x. sql_upsert key (kf x) (new x) (upd x))"

lemma upsert_all_simps [simp]:
  "upsert_all key kf new upd [] t = t"
  "upsert_all key kf new upd (x # xs) t =
     upsert_all key kf new upd xs (sql_upsert key (kf x) (new x) (upd x) t)"
  by (simp_all add: upsert_all_def)

lemma row_at_upsert_all:
  assumes "distinct (map kf xs)" and "\<And>x. key (new x) = kf x" and "\<And>x r. key (upd x r) = key r"
  shows "row_at key (upsert_all key kf new upd xs t) k =
    (case find (\<lambda>x. kf x = k) xs of
       None \<Rightarrow> row_at key t k
     | Some x \<Rightarrow> Some (case row_at key t k of None \<Rightarrow> new x | Some r \<Rightarrow> upd x r))"
  using assms(1)
proof (induction xs arbitrary: t)
  case Nil
  then show ?case by simp
next
  case (Cons x xs)
  let ?t = "sql_upsert key (kf x) (new x) (upd x) t"
  have at: "row_at key ?t j = (if j = kf x then Some (case row_at key t (kf x) of None \<Rightarrow> new x | Some r \<Rightarrow> upd x r)
      else row_at key t j)" for j
    by (rule row_at_upsert) (simp_all add: assms)
  have IH: "row_at key (upsert_all key kf new upd xs ?t) k = (case find (\<lambda>x. kf x = k) xs of
       None \<Rightarrow> row_at key ?t k | Some x \<Rightarrow> Some (case row_at key ?t k of None \<Rightarrow> new x | Some r \<Rightarrow> upd x r))"
    using Cons by simp
  show ?case
  proof (cases "kf x = k")
    case True
    with Cons.prems have "find (\<lambda>x. kf x = k) xs = None" by (auto simp: find_None_iff image_iff)
    with True IH at [of k] show ?thesis by simp
  next
    case False
    then have "row_at key ?t k = row_at key t k" by (simp add: at)
    with False IH show ?thesis by (simp split: option.splits)
  qed
qed

lemma unique_upsert_all:
  assumes "\<And>x. key (new x) = kf x" and "\<And>x r. key (upd x r) = key r" and "unique_key key t"
  shows "unique_key key (upsert_all key kf new upd xs t)"
  using assms(3) by (induction xs arbitrary: t) (simp_all add: unique_upsert assms(1,2))

lemma sql_count_upsert_all:
  assumes "distinct (map kf xs)" and "\<And>x. key (new x) = kf x" and "\<And>x r. key (upd x r) = key r"
    and "\<And>x r. P (upd x r) = P r"
  shows "sql_count P (upsert_all key kf new upd xs t) =
    sql_count P t + int (length (filter (\<lambda>x. row_at key t (kf x) = None \<and> P (new x)) xs))"
  using assms(1)
proof (induction xs arbitrary: t)
  case Nil
  then show ?case by simp
next
  case (Cons x xs)
  let ?t = "sql_upsert key (kf x) (new x) (upd x) t"
  have "row_at key ?t (kf y) = row_at key t (kf y)" if "y \<in> set xs" for y
  proof -
    have "kf y \<noteq> kf x" using Cons.prems that by (auto simp: image_iff)
    then show ?thesis by (simp add: row_at_upsert [where key = key, OF assms(2,3)])
  qed
  then have "filter (\<lambda>y. row_at key ?t (kf y) = None \<and> P (new y)) xs =
      filter (\<lambda>y. row_at key t (kf y) = None \<and> P (new y)) xs"
    by (intro filter_cong) auto
  moreover have "sql_count P ?t = sql_count P t + (if row_at key t (kf x) = None \<and> P (new x) then 1 else 0)"
    by (rule sql_count_upsert) (rule assms(4))
  ultimately show ?case using Cons by auto
qed

lemma sql_count_True [simp]: "sql_count (\<lambda>r. True) t = int (length t)"
  by (simp add: sql_count_def)

lemma set_upsert_all:
  assumes "\<forall>r \<in> set t. Q r" and "\<And>x. x \<in> set xs \<Longrightarrow> Q (new x)" and "\<And>x r. x \<in> set xs \<Longrightarrow> Q r \<Longrightarrow> Q (upd x r)"
  shows "\<forall>r \<in> set (upsert_all key kf new upd xs t). Q r"
  using assms
proof (induction xs arbitrary: t)
  case Nil
  then show ?case by simp
next
  case (Cons x xs)
  have "\<forall>r \<in> set (sql_upsert key (kf x) (new x) (upd x) t). Q r"
    using Cons.prems by (auto simp: sql_upsert_def sql_insert_def sql_update_def split: option.splits)
  with Cons show ?case by simp
qed

end
