(* ===== verification/Fencing.thy ===== *)
theory Fencing
  imports Prelude
begin

text \<open>
  The contract shared by the durable work queues. A row that is being worked on carries a lease
  token drawn from one sequence; a worker hands the token back with its verdict, and a verdict
  whose token is not the row's current one must change nothing. The locale states what a queue
  has to promise (\<open>assumes\<close>) for that to be safe, and proves once what it buys: a token that
  left its row never comes back, so a worker that lost its lease stays fenced off for good, and
  while a token is in place the row's next due time is the one the claim wrote.
\<close>

locale fenced_leases =
  fixes lease :: "'s \<Rightarrow> 'k \<Rightarrow> int option"
    and due :: "'s \<Rightarrow> 'k \<Rightarrow> 'd"
    and sequence :: "'s \<Rightarrow> int"
    and ok :: "'s \<Rightarrow> bool"
    and step :: "'s \<Rightarrow> 's \<Rightarrow> bool"
  assumes ok_step: "ok s \<Longrightarrow> step s t \<Longrightarrow> ok t"
    and lease_drawn: "ok s \<Longrightarrow> lease s k = Some n \<Longrightarrow> n < sequence s"
    and sequence_step: "ok s \<Longrightarrow> step s t \<Longrightarrow> sequence s \<le> sequence t"
    and lease_fresh:
      "ok s \<Longrightarrow> step s t \<Longrightarrow> lease t k = Some n \<Longrightarrow> lease s k = Some n \<or> sequence s \<le> n"
    and due_kept:
      "ok s \<Longrightarrow> step s t \<Longrightarrow> lease s k = Some n \<Longrightarrow> lease t k = Some n \<Longrightarrow> due t k = due s k"
begin

lemma ok_steps: "step\<^sup>*\<^sup>* s t \<Longrightarrow> ok s \<Longrightarrow> ok t"
  by (induction rule: rtranclp_induct) (auto intro: ok_step)

lemma sequence_steps: "step\<^sup>*\<^sup>* s t \<Longrightarrow> ok s \<Longrightarrow> sequence s \<le> sequence t"
proof (induction rule: rtranclp_induct)
  case base
  show ?case by simp
next
  case (step t u)
  then show ?case using sequence_step ok_steps by force
qed

text \<open>A token that was drawn and is not on the row now will never be on it again.\<close>

lemma stale_forever:
  assumes "step\<^sup>*\<^sup>* s t" and "ok s" and "n < sequence s" and "lease s k \<noteq> Some n"
  shows "lease t k \<noteq> Some n"
  using assms
proof (induction rule: rtranclp_induct)
  case base
  then show ?case by simp
next
  case (step t u)
  then have "ok t" and "n < sequence t" and "lease t k \<noteq> Some n"
    using ok_steps sequence_steps by force+
  with step.hyps(2) show ?case using lease_fresh [of t u k n] by auto
qed

text \<open>Between two states that both carry the token, it was never taken away.\<close>

lemma lease_continuous:
  assumes "step\<^sup>*\<^sup>* s t" and "step\<^sup>*\<^sup>* t u" and "ok s" and "n < sequence s"
    and "lease u k = Some n"
  shows "lease t k = Some n"
proof -
  from assms have "ok t" and "n < sequence t"
    using ok_steps sequence_steps by force+
  with assms show ?thesis using stale_forever by blast
qed

lemma due_while_leased:
  assumes "step\<^sup>*\<^sup>* s t" and "ok s" and "lease s k = Some n" and "lease t k = Some n"
  shows "due t k = due s k"
  using assms
proof (induction rule: rtranclp_induct)
  case base
  show ?case by simp
next
  case (step t u)
  have "n < sequence s" using step.prems lease_drawn by blast
  then have t: "lease t k = Some n"
    using step lease_continuous [of s t u n k] by blast
  moreover have "ok t" using step ok_steps by blast
  ultimately show ?case using step due_kept by metis
qed

end

text \<open>A queue that draws a token for every row it leases: no two rows carry the same one.\<close>

locale fenced_store = fenced_leases +
  assumes lease_one_row: "ok s \<Longrightarrow> lease s k = Some n \<Longrightarrow> lease s l = Some n \<Longrightarrow> k = l"
begin

lemma lease_holder:
  assumes "ok s" and "step\<^sup>*\<^sup>* s t" and "lease s k = Some n" and "lease t l = Some n"
  shows "l = k"
proof (rule ccontr)
  assume "l \<noteq> k"
  with assms have "lease s l \<noteq> Some n" using lease_one_row by blast
  with assms stale_forever [OF assms(2,1), of n l] lease_drawn show False by blast
qed

end

end
