(* ===== verification/LeaseTable.thy ===== *)
theory LeaseTable
  imports Tables Fencing
begin

text \<open>
  Tables whose rows carry a lease token and a due time. \<open>leases_ok\<close> is what the queues keep:
  keys are unique, every token on a row was drawn from the sequence before, and no two rows carry
  the same one. \<open>lease_move\<close> is what one transaction may do to such a table; each SQL statement of
  the queues is one, by the rules collected in \<open>lease_moves\<close>, and moves compose. A queue whose
  steps are all lease moves is a \<open>fenced_store\<close>.
\<close>

section \<open>Leases of a table\<close>

named_theorems lease_moves \<open>statements of the queues that are lease moves\<close>

definition lease_at :: "('r \<Rightarrow> 'k) \<Rightarrow> ('r \<Rightarrow> int option) \<Rightarrow> 'r table \<Rightarrow> 'k \<Rightarrow> int option" where
  "lease_at key lease t k = Option.bind (row_at key t k) lease"

definition due_at :: "('r \<Rightarrow> 'k) \<Rightarrow> ('r \<Rightarrow> 'd) \<Rightarrow> 'r table \<Rightarrow> 'k \<Rightarrow> 'd option" where
  "due_at key avail t k = map_option avail (row_at key t k)"

definition leases_ok :: "('r \<Rightarrow> 'k) \<Rightarrow> ('r \<Rightarrow> int option) \<Rightarrow> int \<Rightarrow> 'r table \<Rightarrow> bool" where
  "leases_ok key lease n t \<longleftrightarrow> unique_key key t \<and>
     (\<forall>k m. lease_at key lease t k = Some m \<longrightarrow> m < n) \<and>
     (\<forall>k l m. lease_at key lease t k = Some m \<longrightarrow> lease_at key lease t l = Some m \<longrightarrow> k = l)"

definition lease_move ::
  "('r \<Rightarrow> 'k) \<Rightarrow> ('r \<Rightarrow> int option) \<Rightarrow> ('r \<Rightarrow> 'd) \<Rightarrow> int \<Rightarrow> 'r table \<Rightarrow> int \<Rightarrow> 'r table \<Rightarrow> bool" where
  "lease_move key lease avail n t n' t' \<longleftrightarrow>
     n \<le> n' \<and> leases_ok key lease n' t' \<and>
     (\<forall>k m. lease_at key lease t' k = Some m \<longrightarrow>
        lease_at key lease t k = Some m \<and> due_at key avail t' k = due_at key avail t k \<or> n \<le> m)"

lemma leases_ok_unique: "leases_ok key lease n t \<Longrightarrow> unique_key key t"
  by (simp add: leases_ok_def)

lemma leases_ok_later: "leases_ok key lease n t \<Longrightarrow> n \<le> m \<Longrightarrow> leases_ok key lease m t"
  unfolding leases_ok_def by (meson order_less_le_trans)

lemma leases_ok_Nil [simp]: "leases_ok key lease n []"
  by (simp add: leases_ok_def lease_at_def)

lemma lease_move_ok: "lease_move key lease avail n t n' t' \<Longrightarrow> leases_ok key lease n' t'"
  by (simp add: lease_move_def)

lemma lease_move_refl:
  "leases_ok key lease n t \<Longrightarrow> n \<le> n' \<Longrightarrow> lease_move key lease avail n t n' t"
  by (simp add: lease_move_def leases_ok_later)

lemma lease_move_trans:
  assumes "lease_move key lease avail n t n1 t1" and "lease_move key lease avail n1 t1 n2 t2"
  shows "lease_move key lease avail n t n2 t2"
  unfolding lease_move_def
proof (intro conjI allI impI)
  show "n \<le> n2" and "leases_ok key lease n2 t2"
    using assms by (simp_all add: lease_move_def)
next
  fix k m
  assume "lease_at key lease t2 k = Some m"
  with assms(2) consider "n1 \<le> m"
    | "lease_at key lease t1 k = Some m" "due_at key avail t2 k = due_at key avail t1 k"
    unfolding lease_move_def by blast
  then show "lease_at key lease t k = Some m \<and> due_at key avail t2 k = due_at key avail t k \<or> n \<le> m"
  proof cases
    case 1
    with assms(1) show ?thesis by (simp add: lease_move_def)
  next
    case 2
    with assms(1) show ?thesis by (simp add: lease_move_def)
  qed
qed

text \<open>
  The general rule: no row's token changes except to disappear, and a row that keeps its token
  keeps its due time.
\<close>

lemma lease_move_shrinkI:
  assumes "leases_ok key lease n t" and "n \<le> n'" and "unique_key key t'"
    and "\<And>k m. lease_at key lease t' k = Some m \<Longrightarrow>
      lease_at key lease t k = Some m \<and> due_at key avail t' k = due_at key avail t k"
  shows "lease_move key lease avail n t n' t'"
  using assms unfolding lease_move_def leases_ok_def by (meson order_less_le_trans)

lemma lease_move_update [lease_moves]:
  assumes "leases_ok key lease n t" and "n \<le> n'" and "\<And>r. key (f r) = key r"
    and "\<And>r m. P r \<Longrightarrow> lease (f r) = Some m \<Longrightarrow> lease r = Some m \<and> avail (f r) = avail r"
  shows "lease_move key lease avail n t n' (sql_update P f t)"
proof (rule lease_move_shrinkI [OF assms(1,2)])
  show "unique_key key (sql_update P f t)"
    using assms(1,3) by (simp add: leases_ok_unique unique_update)
next
  fix k m
  assume "lease_at key lease (sql_update P f t) k = Some m"
  then obtain r where r: "row_at key t k = Some r" "lease (if P r then f r else r) = Some m"
    by (auto simp: lease_at_def row_at_update [where key = key and f = f, OF assms(3)] bind_eq_Some_conv)
  then show "lease_at key lease t k = Some m \<and>
      due_at key avail (sql_update P f t) k = due_at key avail t k"
    using assms(4) by (auto simp: lease_at_def due_at_def row_at_update [where key = key and f = f, OF assms(3)] split: if_splits)
qed

lemma lease_move_delete [lease_moves]:
  assumes "leases_ok key lease n t" and "n \<le> n'"
  shows "lease_move key lease avail n t n' (sql_delete P t)"
  using assms
  by (intro lease_move_shrinkI [OF assms] unique_delete leases_ok_unique [OF assms(1)])
    (auto simp: lease_at_def due_at_def row_at_delete [OF leases_ok_unique [OF assms(1)]]
      bind_eq_Some_conv split: option.splits if_splits)

lemma lease_move_insert [lease_moves]:
  assumes "leases_ok key lease n t" and "n \<le> n'" and "lease r = None"
    and "row_at key t (key r) = None"
  shows "lease_move key lease avail n t n' (sql_insert r t)"
  using assms
  by (intro lease_move_shrinkI [OF assms(1,2)] unique_insert leases_ok_unique [OF assms(1)])
    (auto simp: lease_at_def due_at_def row_at_insert bind_eq_Some_conv
      split: option.splits if_splits)

text \<open>Leasing one row: it gets the next token of the sequence and a new due time.\<close>

lemma lease_move_lease [lease_moves]:
  assumes ok: "leases_ok key lease n t" and key: "\<And>r. key (f r) = key r"
    and lease: "\<And>r. lease (f r) = Some n" and P: "\<And>r. P r \<Longrightarrow> key r = k"
  shows "lease_move key lease avail n t (n + 1) (sql_update P f t)"
proof -
  have view: "lease_at key lease (sql_update P f t) j =
      (case row_at key t j of None \<Rightarrow> None | Some r \<Rightarrow> if P r then Some n else lease r)" for j
    by (simp add: lease_at_def row_at_update [where key = key and f = f, OF key] lease split: option.splits)
  have old: "lease_at key lease t j = Some m" if "row_at key t j = Some r" "lease r = Some m"
    for j r m using that by (simp add: lease_at_def)
  have below: "m < n" if "lease_at key lease t j = Some m" for j m
    using ok that by (simp add: leases_ok_def)
  have new: "lease_at key lease (sql_update P f t) j = Some m \<Longrightarrow>
      (m = n \<and> j = k) \<or> lease_at key lease t j = Some m \<and>
        due_at key avail (sql_update P f t) j = due_at key avail t j" for j m
    using P row_at_Some [of key t j]
    by (auto simp: view due_at_def row_at_update [where key = key and f = f, OF key] old split: option.splits if_splits)
  have "leases_ok key lease (n + 1) (sql_update P f t)"
    unfolding leases_ok_def
  proof (intro conjI allI impI)
    show "unique_key key (sql_update P f t)"
      by (rule unique_update [where key = key and f = f, OF key leases_ok_unique [OF ok]])
  next
    fix j m
    assume "lease_at key lease (sql_update P f t) j = Some m"
    then show "m < n + 1" using new below by force
  next
    fix i j m
    assume a: "lease_at key lease (sql_update P f t) i = Some m"
      and b: "lease_at key lease (sql_update P f t) j = Some m"
    show "i = j"
    proof (cases "m = n")
      case True
      then show ?thesis using new [OF a] new [OF b] below by blast
    next
      case False
      then show ?thesis using new [OF a] new [OF b] ok by (auto simp: leases_ok_def)
    qed
  qed
  then show ?thesis unfolding lease_move_def using new by fastforce
qed

text \<open>Rewriting one row: its token goes, or stays with its due time, or is the next of the sequence.\<close>

lemma lease_move_rewrite:
  assumes ok: "leases_ok key lease n t" and le: "n \<le> n'" and old: "row_at key t k = Some old"
    and key: "\<And>r. key (f r) = key r"
    and lease: "lease (f old) = None \<or> lease (f old) = lease old \<and> avail (f old) = avail old \<or>
      lease (f old) = Some n \<and> n < n'"
  shows "lease_move key lease avail n t n' (sql_update (\<lambda>r. key r = k) f t)"
proof -
  let ?t = "sql_update (\<lambda>r. key r = k) f t"
  have view: "row_at key ?t j = (if j = k then Some (f old) else row_at key t j)" for j
    by (simp add: row_at_update_key(1) [where key = key and f = f, OF key] old)
  have below: "m < n" if "lease_at key lease t j = Some m" for j m
    using ok that by (simp add: leases_ok_def)
  have new: "lease_at key lease t j = Some m \<and> due_at key avail ?t j = due_at key avail t j \<or>
      j = k \<and> m = n \<and> n < n'" if "lease_at key lease ?t j = Some m" for j m
    using that lease old by (auto simp: lease_at_def due_at_def view split: if_splits)
  have "leases_ok key lease n' ?t"
    unfolding leases_ok_def
  proof (intro conjI allI impI)
    show "unique_key key ?t"
      by (rule unique_update [where key = key and f = f, OF key leases_ok_unique [OF ok]])
  next
    fix j m
    assume "lease_at key lease ?t j = Some m"
    then show "m < n'" using new below le by fastforce
  next
    fix i j m
    assume a: "lease_at key lease ?t i = Some m" and b: "lease_at key lease ?t j = Some m"
    from new [OF a] new [OF b] below ok show "i = j" by (fastforce simp: leases_ok_def)
  qed
  with new le show ?thesis unfolding lease_move_def by blast
qed

text \<open>Settling a row takes its token away.\<close>

lemma lease_at_release:
  assumes "row_at key t k = Some r" and "P r" and "\<And>r. key (f r) = key r"
    and "\<And>r. lease (f r) = None"
  shows "lease_at key lease (sql_update (\<lambda>q. key q = k \<and> P q) f t) k = None"
  by (simp add: lease_at_def row_at_update_key(2) [where key = key and f = f, OF assms(3)] assms)

lemma lease_at_removed:
  assumes "unique_key key t" and "row_at key t k = Some r" and "P r"
  shows "lease_at key lease (sql_delete (\<lambda>q. key q = k \<and> P q) t) k = None"
  by (simp add: lease_at_def row_at_delete_key [OF assms(1)] assms)

section \<open>Lease moves make a fenced store\<close>

lemma fenced_store_of_moves:
  assumes ok: "\<And>s. ok s \<Longrightarrow> leases_ok key lease (sequence s) (table s)"
    and step: "\<And>s t. ok s \<Longrightarrow> step s t \<Longrightarrow>
      ok t \<and> lease_move key lease avail (sequence s) (table s) (sequence t) (table t)"
  shows "fenced_store (\<lambda>s. lease_at key lease (table s)) (\<lambda>s. due_at key avail (table s))
    sequence ok step"
proof
  fix s t k n
  assume s: "ok s" and st: "step s t"
  note mv = conjunct2 [OF step [OF s st], unfolded lease_move_def]
  show "ok t" using step [OF s st] by blast
  show "sequence s \<le> sequence t" using mv by blast
  show "lease_at key lease (table t) k = Some n \<Longrightarrow>
      lease_at key lease (table s) k = Some n \<or> sequence s \<le> n"
    using mv by blast
  assume l: "lease_at key lease (table s) k = Some n" "lease_at key lease (table t) k = Some n"
  have "n < sequence s" using ok [OF s] l(1) by (simp add: leases_ok_def)
  then have "\<not> sequence s \<le> n" by simp
  with mv l(2) show "due_at key avail (table t) k = due_at key avail (table s) k" by blast
next
  fix s k n l
  assume s: "ok s" and k: "lease_at key lease (table s) k = Some n"
  from ok [OF s] k show "n < sequence s" unfolding leases_ok_def by blast
  assume "lease_at key lease (table s) l = Some n"
  with ok [OF s] k show "k = l" unfolding leases_ok_def by blast
qed

section \<open>Queues that lease a page with one token\<close>

text \<open>
  The same contract without the uniqueness of tokens: the rows of a page may share one. Keys are
  unique and every token was drawn before.
\<close>

definition drawn_ok :: "('r \<Rightarrow> 'k) \<Rightarrow> ('r \<Rightarrow> int option) \<Rightarrow> int \<Rightarrow> 'r table \<Rightarrow> bool" where
  "drawn_ok key lease n t \<longleftrightarrow> unique_key key t \<and> (\<forall>k m. lease_at key lease t k = Some m \<longrightarrow> m < n)"

definition drawn_move ::
  "('r \<Rightarrow> 'k) \<Rightarrow> ('r \<Rightarrow> int option) \<Rightarrow> ('r \<Rightarrow> 'd) \<Rightarrow> int \<Rightarrow> 'r table \<Rightarrow> int \<Rightarrow> 'r table \<Rightarrow> bool" where
  "drawn_move key lease avail n t n' t' \<longleftrightarrow> n \<le> n' \<and> drawn_ok key lease n' t' \<and>
     (\<forall>k m. lease_at key lease t' k = Some m \<longrightarrow>
        lease_at key lease t k = Some m \<and> due_at key avail t' k = due_at key avail t k \<or> n \<le> m)"

lemma leases_ok_drawn: "leases_ok key lease n t \<Longrightarrow> drawn_ok key lease n t"
  by (simp add: leases_ok_def drawn_ok_def)

lemma drawn_ok_unique: "drawn_ok key lease n t \<Longrightarrow> unique_key key t"
  by (simp add: drawn_ok_def)

text \<open>The rule every statement is checked by: what may be on a row afterwards.\<close>

lemma drawn_move_rows:
  assumes "drawn_ok key lease n t" and "n \<le> n'" and "unique_key key t'"
    and "\<And>k r'. row_at key t' k = Some r' \<Longrightarrow> lease r' = None \<or>
      (\<exists>r. row_at key t k = Some r \<and> lease r' = lease r \<and> avail r' = avail r) \<or>
      (\<exists>m. lease r' = Some m \<and> n \<le> m \<and> m < n')"
  shows "drawn_move key lease avail n t n' t'"
proof -
  have "m < n' \<and> (lease_at key lease t k = Some m \<and> due_at key avail t' k = due_at key avail t k \<or> n \<le> m)"
    if l: "lease_at key lease t' k = Some m" for k m
  proof -
    obtain r' where r': "row_at key t' k = Some r'" "lease r' = Some m"
      using l by (auto simp: lease_at_def bind_eq_Some_conv)
    from assms(4) [OF r'(1)] r'(2) consider r where "row_at key t k = Some r" "lease r = Some m" "avail r' = avail r"
      | "n \<le> m" "m < n'" by auto
    then show ?thesis
    proof cases
      case 1
      then have "lease_at key lease t k = Some m" by (simp add: lease_at_def)
      moreover from this have "m < n" using assms(1) by (simp add: drawn_ok_def)
      ultimately show ?thesis using 1 r' assms(2) by (simp add: due_at_def)
    qed simp
  qed
  with assms(2,3) show ?thesis by (auto simp: drawn_move_def drawn_ok_def)
qed

lemma drawn_move_trans:
  assumes "drawn_move key lease avail n t n1 t1" and "drawn_move key lease avail n1 t1 n2 t2"
  shows "drawn_move key lease avail n t n2 t2"
proof -
  note a = assms(1) [unfolded drawn_move_def] and b = assms(2) [unfolded drawn_move_def]
  have "lease_at key lease t k = Some m \<and> due_at key avail t2 k = due_at key avail t k \<or> n \<le> m"
    if l: "lease_at key lease t2 k = Some m" for k m
  proof (cases "n1 \<le> m")
    case True
    with a show ?thesis by simp
  next
    case False
    with b l have "lease_at key lease t1 k = Some m" "due_at key avail t2 k = due_at key avail t1 k"
      by blast+
    with a show ?thesis by auto
  qed
  with a b show ?thesis unfolding drawn_move_def by auto
qed

lemma fenced_leases_of_moves:
  assumes ok: "\<And>s. ok s \<Longrightarrow> drawn_ok key lease (sequence s) (table s)"
    and step: "\<And>s t. ok s \<Longrightarrow> step s t \<Longrightarrow>
      ok t \<and> drawn_move key lease avail (sequence s) (table s) (sequence t) (table t)"
  shows "fenced_leases (\<lambda>s. lease_at key lease (table s)) (\<lambda>s. due_at key avail (table s))
    sequence ok step"
proof
  fix s t k n
  assume s: "ok s" and st: "step s t"
  note mv = conjunct2 [OF step [OF s st], unfolded drawn_move_def]
  show "ok t" using step [OF s st] by blast
  show "sequence s \<le> sequence t" using mv by blast
  show "lease_at key lease (table t) k = Some n \<Longrightarrow>
      lease_at key lease (table s) k = Some n \<or> sequence s \<le> n"
    using mv by blast
  assume l: "lease_at key lease (table s) k = Some n" "lease_at key lease (table t) k = Some n"
  have "n < sequence s" using ok [OF s] l(1) by (simp add: drawn_ok_def)
  with mv l(2) show "due_at key avail (table t) k = due_at key avail (table s) k" by fastforce
next
  fix s k n
  assume "ok s" and "lease_at key lease (table s) k = Some n"
  with ok show "n < sequence s" unfolding drawn_ok_def by blast
qed

end
