(* ===== verification/LeasedQueue.thy ===== *)
theory LeasedQueue
  imports LeaseTable
begin

text \<open>
  What the durable queues share beyond their lease columns. A queue is a table whose rows stay
  valid (\<open>row_ok\<close>, relative to the token sequence), of which the \<open>ready\<close> rows may be leased with
  \<open>grab\<close>. The locale \<open>leased_queue\<close> states the laws of these functions and proves once that each
  kind of statement the queues use keeps the table valid and is a lease move, that a batch of due
  rows is leased row by row with consecutive tokens, and that a handle whose token is gone
  selects no row.
\<close>

section \<open>Valid tables and moves\<close>

definition queue_ok ::
  "('r \<Rightarrow> 'k) \<Rightarrow> ('r \<Rightarrow> int option) \<Rightarrow> (int \<Rightarrow> 'r \<Rightarrow> bool) \<Rightarrow> int \<Rightarrow> 'r table \<Rightarrow> bool" where
  "queue_ok key lease row_ok n t \<longleftrightarrow> leases_ok key lease n t \<and> (\<forall>r \<in> set t. row_ok n r)"

definition queue_move ::
  "('r \<Rightarrow> 'k) \<Rightarrow> ('r \<Rightarrow> int option) \<Rightarrow> ('r \<Rightarrow> 'd) \<Rightarrow> (int \<Rightarrow> 'r \<Rightarrow> bool) \<Rightarrow>
     int \<Rightarrow> 'r table \<Rightarrow> int \<Rightarrow> 'r table \<Rightarrow> bool" where
  "queue_move key lease avail row_ok n t n' t' \<longleftrightarrow>
     lease_move key lease avail n t n' t' \<and> (\<forall>r \<in> set t'. row_ok n' r)"

lemma queue_move_ok:
  "queue_move key lease avail row_ok n t n' t' \<Longrightarrow> queue_ok key lease row_ok n' t'"
  by (auto simp: queue_move_def queue_ok_def dest: lease_move_ok)

lemma queue_move_lease:
  "queue_move key lease avail row_ok n t n' t' \<Longrightarrow> lease_move key lease avail n t n' t'"
  by (simp add: queue_move_def)

lemma queue_move_le: "queue_move key lease avail row_ok n t n' t' \<Longrightarrow> n \<le> n'"
  by (simp add: queue_move_def lease_move_def)

lemma queue_move_trans:
  "queue_move key lease avail row_ok n t n1 t1 \<Longrightarrow> queue_move key lease avail row_ok n1 t1 n2 t2 \<Longrightarrow>
   queue_move key lease avail row_ok n t n2 t2"
  by (auto simp: queue_move_def intro: lease_move_trans)

lemma queue_ok_leases: "queue_ok key lease row_ok n t \<Longrightarrow> leases_ok key lease n t"
  by (simp add: queue_ok_def)

lemma queue_ok_unique: "queue_ok key lease row_ok n t \<Longrightarrow> unique_key key t"
  by (auto simp: queue_ok_def intro: leases_ok_unique)

lemma queue_ok_row:
  "queue_ok key lease row_ok n t \<Longrightarrow> row_at key t k = Some r \<Longrightarrow> row_ok n r \<and> key r = k"
  by (auto simp: queue_ok_def dest: row_at_Some)

section \<open>Leasing a list of rows\<close>

text \<open>
  UPDATE ... FROM due: the due rows get the next tokens of the sequence, in the order of the
  page; RETURNING yields the new rows in that order.
\<close>

fun lease_rows ::
  "('r \<Rightarrow> 'k) \<Rightarrow> (int \<Rightarrow> 'r \<Rightarrow> 'r) \<Rightarrow> 'r list \<Rightarrow> int \<Rightarrow> 'r table \<Rightarrow> int \<times> 'r table \<times> 'r list" where
  "lease_rows key grab [] n t = (n, t, [])"
| "lease_rows key grab (r # rs) n t =
     (let (n', t', out) = lease_rows key grab rs (n + 1) (sql_update (\<lambda>q. key q = key r) (grab n) t)
      in (n', t', grab n r # out))"

lemma upto_tokens_Cons:
  "[n..n + int (length (r # rs)) - 1] = n # [n + 1..(n + 1) + int (length rs) - 1]"
  by (subst upto_rec1) simp_all

lemma lease_rows_token: "fst (lease_rows key grab rs n t) = n + int (length rs)"
  by (induction rs arbitrary: n t) (simp_all add: split_beta Let_def)

lemma lease_rows_out:
  assumes "q' \<in> set (snd (snd (lease_rows key grab rs n t)))"
  shows "\<exists>q \<in> set rs. \<exists>m. q' = grab m q"
  using assms by (induction rs arbitrary: n t) (auto simp: split_beta Let_def)

text \<open>If every leased row decodes to a handle with its key and token, the batch does.\<close>

lemma lease_rows_handles:
  assumes "\<And>r m. r \<in> set rs \<Longrightarrow> \<exists>p. decode (grab m r) = Inr p \<and> pkey p = key r \<and> token p = m"
  shows "\<exists>ps. collect_results (map decode (snd (snd (lease_rows key grab rs n t)))) = Inr ps \<and>
    map pkey ps = map key rs \<and> map token ps = [n..n + int (length rs) - 1]"
  using assms
proof (induction rs arbitrary: n t)
  case Nil
  then show ?case by simp
next
  case (Cons r rs)
  obtain p where p: "decode (grab n r) = Inr p" "pkey p = key r" "token p = n"
    using Cons.prems [of r n] by auto
  obtain ps where ps: "collect_results (map decode (snd (snd (lease_rows key grab rs (n + 1)
      (sql_update (\<lambda>q. key q = key r) (grab n) t))))) = Inr ps"
    "map pkey ps = map key rs" "map token ps = [n + 1..(n + 1) + int (length rs) - 1]"
    using Cons.IH [of "n + 1"] Cons.prems by fastforce
  show ?case
    unfolding upto_tokens_Cons
    by (rule exI [where x = "p # ps"]) (use p ps in \<open>simp add: split_beta Let_def\<close>)
qed

section \<open>A handle whose token is gone\<close>

lemma stale_selects_nothing:
  assumes "unique_key key t" and "lease_at key lease t k \<noteq> Some n"
    and "\<And>r. H r \<Longrightarrow> lease r = Some n"
  shows "sql_update (\<lambda>r. key r = k \<and> H r) f t = t"
    and "sql_delete (\<lambda>r. key r = k \<and> H r) t = t"
    and "\<not> sql_exists (\<lambda>r. key r = k \<and> H r) t"
proof -
  have none: "\<not> (key r = k \<and> H r)" if "r \<in> set t" for r
    using row_at_in [OF assms(1) that] assms(2,3) by (auto simp: lease_at_def)
  show "sql_update (\<lambda>r. key r = k \<and> H r) f t = t" by (rule sql_update_none) (use none in blast)
  show "sql_delete (\<lambda>r. key r = k \<and> H r) t = t" by (rule sql_delete_none) (use none in blast)
  show "\<not> sql_exists (\<lambda>r. key r = k \<and> H r) t"
    using none by (auto simp: sql_exists_def list_ex_iff)
qed

lemma held_lease:
  assumes "unique_key key t" and "sql_exists (\<lambda>r. key r = k \<and> H r) t"
    and "\<And>r. H r \<Longrightarrow> lease r = Some n"
  shows "lease_at key lease t k = Some n"
proof (rule ccontr)
  assume "lease_at key lease t k \<noteq> Some n"
  from stale_selects_nothing(3) [where H = H and lease = lease, OF assms(1) this assms(3)] assms(2)
  show False by simp
qed

section \<open>The contract of a queue\<close>

locale leased_queue =
  fixes key :: "'r \<Rightarrow> 'k"
    and lease :: "'r \<Rightarrow> int option"
    and avail :: "'r \<Rightarrow> int"
    and row_ok :: "int \<Rightarrow> 'r \<Rightarrow> bool"
    and ready :: "'r \<Rightarrow> bool"
    and grab :: "int \<Rightarrow> int \<Rightarrow> 'r \<Rightarrow> 'r"
  assumes row_ok_later: "row_ok n r \<Longrightarrow> n \<le> m \<Longrightarrow> row_ok m r"
    and grab_key: "key (grab until n r) = key r"
    and grab_lease: "lease (grab until n r) = Some n"
    and grab_avail: "avail (grab until n r) = until"
    and grab_ok: "row_ok n r \<Longrightarrow> ready r \<Longrightarrow> row_ok (n + 1) (grab until n r)"
begin

lemma move_env:
  assumes "queue_ok key lease row_ok n t" and "n \<le> n'"
  shows "queue_move key lease avail row_ok n t n' t"
  using assms by (auto simp: queue_move_def queue_ok_def intro: lease_move_refl row_ok_later)

lemma move_update:
  assumes "queue_ok key lease row_ok n t" and "n \<le> n'" and "\<And>r. key (f r) = key r"
    and "\<And>r m. P r \<Longrightarrow> lease (f r) = Some m \<Longrightarrow> lease r = Some m \<and> avail (f r) = avail r"
    and "\<And>r. P r \<Longrightarrow> row_ok n r \<Longrightarrow> row_ok n' (f r)"
  shows "queue_move key lease avail row_ok n t n' (sql_update P f t)"
proof -
  have "lease_move key lease avail n t n' (sql_update P f t)"
    by (rule lease_move_update [OF queue_ok_leases [OF assms(1)] assms(2-4)])
  moreover have "\<forall>r \<in> set (sql_update P f t). row_ok n' r"
    using assms(1,2,5) by (auto simp: sql_update_def queue_ok_def intro: row_ok_later)
  ultimately show ?thesis by (simp add: queue_move_def)
qed

lemma move_delete:
  assumes "queue_ok key lease row_ok n t" and "n \<le> n'"
  shows "queue_move key lease avail row_ok n t n' (sql_delete P t)"
  using lease_move_delete [OF queue_ok_leases [OF assms(1)] assms(2)] assms
  by (auto simp: queue_move_def queue_ok_def sql_delete_def intro: row_ok_later)

lemma move_insert:
  assumes "queue_ok key lease row_ok n t" and "n \<le> n'" and "lease r = None"
    and "row_at key t (key r) = None" and "row_ok n' r"
  shows "queue_move key lease avail row_ok n t n' (sql_insert r t)"
  using lease_move_insert [OF queue_ok_leases [OF assms(1)] assms(2-4)] assms
  by (auto simp: queue_move_def queue_ok_def sql_insert_def intro: row_ok_later)

lemma move_grab:
  assumes "queue_ok key lease row_ok n t" and "row_at key t k = Some r" and "ready r"
  shows "queue_move key lease avail row_ok n t (n + 1) (sql_update (\<lambda>q. key q = k) (grab until n) t)"
proof -
  have "lease_move key lease avail n t (n + 1) (sql_update (\<lambda>q. key q = k) (grab until n) t)"
    by (rule lease_move_lease [OF queue_ok_leases [OF assms(1)]]) (simp_all add: grab_key grab_lease)
  moreover have "q = r" if "q \<in> set t" "key q = k" for q
    using row_at_in [OF queue_ok_unique [OF assms(1)] that(1)] that(2) assms(2) by simp
  then have "\<forall>q \<in> set (sql_update (\<lambda>q. key q = k) (grab until n) t). row_ok (n + 1) q"
    using assms row_ok_later [of n _ "n + 1"]
    by (auto simp: sql_update_def queue_ok_def intro: grab_ok)
  ultimately show ?thesis by (simp add: queue_move_def)
qed

lemma row_at_grab:
  "row_at key (sql_update (\<lambda>q. key q = k) (grab until n) t) j =
     (if j = k then map_option (grab until n) (row_at key t k) else row_at key t j)"
  by (rule row_at_update_key(1) [where key = key, OF grab_key])

lemma move_lease_rows:
  assumes "queue_ok key lease row_ok n t" and "distinct (map key rs)"
    and "\<forall>r \<in> set rs. row_at key t (key r) = Some r \<and> ready r"
  shows "queue_move key lease avail row_ok n t (fst (lease_rows key (grab until) rs n t))
    (fst (snd (lease_rows key (grab until) rs n t)))"
  using assms
proof (induction rs arbitrary: n t)
  case Nil
  then show ?case by (simp add: move_env)
next
  case (Cons r rs)
  let ?t = "sql_update (\<lambda>q. key q = key r) (grab until n) t"
  have mv: "queue_move key lease avail row_ok n t (n + 1) ?t"
    using Cons.prems by (intro move_grab) auto
  have "row_at key ?t (key q) = Some q \<and> ready q" if "q \<in> set rs" for q
    using Cons.prems(2,3) that by (auto simp: row_at_grab image_iff)
  with Cons.IH [OF queue_move_ok [OF mv]] Cons.prems(2) mv show ?case
    by (auto simp: Let_def split_beta intro: queue_move_trans)
qed

text \<open>The due rows of a page are the rows of the table they came from, each once.\<close>

lemma page_rows:
  assumes "queue_ok key lease row_ok n t" and "r \<in> set (sql_page P ord l t)"
  shows "row_at key t (key r) = Some r \<and> P r \<and> row_ok n r"
  using assms sql_page_set [OF assms(2)] row_at_in [OF queue_ok_unique [OF assms(1)]]
  by (simp add: queue_ok_def)

lemma page_distinct:
  assumes "queue_ok key lease row_ok n t"
  shows "distinct (map key (sql_page P ord l t))"
  by (rule sql_page_distinct) (use queue_ok_unique [OF assms] in \<open>simp add: unique_key_def\<close>)

lemma move_lease_page:
  assumes "queue_ok key lease row_ok n t" and "\<And>r. P r \<Longrightarrow> ready r"
  shows "queue_move key lease avail row_ok n t
    (fst (lease_rows key (grab until) (sql_page P ord l t) n t))
    (fst (snd (lease_rows key (grab until) (sql_page P ord l t) n t)))"
  using page_rows [OF assms(1)] assms(2)
  by (intro move_lease_rows [OF assms(1) page_distinct [OF assms(1)]]) blast

text \<open>What leasing one row does to it, leasing a list does to each row of the table.\<close>

lemma row_at_lease_rows:
  assumes "row_at key (fst (snd (lease_rows key (grab until) rs n t))) k = Some r'"
    and "reflp R" and "transp R" and "\<And>m r. R r (grab until m r)"
  shows "\<exists>r. row_at key t k = Some r \<and> R r r'"
  using assms(1)
proof (induction rs arbitrary: n t)
  case Nil
  with assms(2) show ?case by (auto dest: reflpD)
next
  case (Cons q rs)
  let ?t = "sql_update (\<lambda>p. key p = key q) (grab until n) t"
  from Cons.prems have "row_at key (fst (snd (lease_rows key (grab until) rs (n + 1) ?t))) k = Some r'"
    by (simp add: split_beta Let_def)
  from Cons.IH [OF this] obtain r1 where r1: "row_at key ?t k = Some r1" "R r1 r'" by blast
  then obtain r where "row_at key t k = Some r" "r1 = r \<or> r1 = grab until n r"
    by (auto simp: row_at_grab split: if_splits)
  with r1(2) assms(3,4) show ?case by (auto dest: transpD)
qed

end

section \<open>Purging a page of rows\<close>

definition purge_page ::
  "('r \<Rightarrow> 'k) \<Rightarrow> ('r \<Rightarrow> bool) \<Rightarrow> ('r \<Rightarrow> 'o::linorder) \<Rightarrow> nat \<Rightarrow> 'r table \<Rightarrow> 'r table \<times> nat" where
  "purge_page key P ord l t =
     (let page = map key (sql_page P ord l t)
      in (sql_delete (\<lambda>r. key r \<in> set page) t, length page))"

text \<open>
  A purge takes at most the page size, leaves rows outside the selection alone, counts what it
  removed, and takes rows in the order asked for.
\<close>

lemma purge_page_spec:
  assumes uk: "unique_key key t" and run: "purge_page key P ord l t = (t', n)"
  shows "n \<le> l" and "length t = length t' + n"
    and "row_at key t k = Some r \<Longrightarrow> row_at key t' k = Some r \<or>
      row_at key t' k = None \<and> P r \<and> (\<forall>q \<in> set t'. P q \<longrightarrow> ord r \<le> ord q)"
proof -
  let ?page = "sql_page P ord l t"
  have t: "t' = sql_delete (\<lambda>r. key r \<in> set (map key ?page)) t" and n: "n = length ?page"
    using run by (auto simp: purge_page_def Let_def)
  show "n \<le> l" unfolding n by (rule sql_page_length)
  have "distinct (map key ?page)"
    using uk by (intro sql_page_distinct) (simp add: unique_key_def)
  moreover have sub: "set ?page \<subseteq> {r \<in> set t. P r}" using sql_page_set by fastforce
  then have "set (map key ?page) \<subseteq> key ` set t" by auto
  ultimately show "length t = length t' + n"
    using length_delete_keys [OF uk, of "map key ?page"] t n by simp
  have view: "row_at key t' k = (if k \<in> key ` set ?page then None else row_at key t k)"
    unfolding t by (subst row_at_delete_keys [OF uk]) simp
  assume r: "row_at key t k = Some r"
  show "row_at key t' k = Some r \<or>
      row_at key t' k = None \<and> P r \<and> (\<forall>q \<in> set t'. P q \<longrightarrow> ord r \<le> ord q)"
  proof (cases "k \<in> key ` set ?page")
    case True
    then obtain q where q: "q \<in> set ?page" "key q = k" by blast
    with sub r have qr: "q = r" using row_at_in [OF uk, of q] by auto
    have "ord r \<le> ord p" if "p \<in> set t'" "P p" for p
      using that q(1) qr by (intro sql_page_least [of r P ord l t p]) (auto simp: t sql_delete_def)
    with q qr sub view True show ?thesis by auto
  next
    case False
    with r view show ?thesis by simp
  qed
qed

end
