(* ===== verification/Utf8Text.thy ===== *)
theory Utf8Text
  imports Prelude
begin

text \<open>
  Rust strings as the store bounds them before they reach a text column: \<open>bounded_text\<close> of
  \<open>src/src/state/strict.rs\<close>, \<open>bounded_warning_error\<close> of \<open>src/src/state.rs\<close> and
  \<open>truncate_utf8\<close> of \<open>src/src/state/default_rights.rs\<close>. A string is the list of its characters
  (Unicode scalar values); lengths and slices are in bytes of its UTF-8 encoding.
\<close>

type_synonym utext = "nat list"

section \<open>Byte lengths\<close>

definition len_utf8 :: "nat \<Rightarrow> nat" where
  "len_utf8 c = (if c < 128 then 1 else if c < 2048 then 2 else if c < 65536 then 3 else 4)"

definition utf8_len :: "utext \<Rightarrow> nat" where
  "utf8_len v = sum_list (map len_utf8 v)"

lemma len_utf8_pos [simp]: "0 < len_utf8 c"
  by (simp add: len_utf8_def)

lemma len_utf8_le: "len_utf8 c \<le> 4"
  by (simp add: len_utf8_def)

lemma utf8_len_simps [simp]:
  "utf8_len [] = 0" "utf8_len (c # v) = len_utf8 c + utf8_len v"
  "utf8_len (v @ w) = utf8_len v + utf8_len w"
  by (simp_all add: utf8_len_def)

section \<open>The three bounds of the source\<close>

text \<open>The loop of \<open>bounded_text\<close>: push characters while the next one still fits.\<close>

fun bounded_loop :: "utext \<Rightarrow> nat \<Rightarrow> utext \<Rightarrow> utext" where
  "bounded_loop kept m [] = kept"
| "bounded_loop kept m (c # rest) =
     (if m < utf8_len kept + len_utf8 c then kept else bounded_loop (kept @ [c]) m rest)"

definition bounded_text :: "utext \<Rightarrow> nat \<Rightarrow> utext" where
  "bounded_text value m = bounded_loop [] m value"

definition max_error_bytes :: nat where
  "max_error_bytes = 1024"

definition max_target_bytes :: nat where
  "max_target_bytes = 512"

definition bounded_error :: "utext \<Rightarrow> utext" where
  "bounded_error reason = bounded_text reason max_error_bytes"

definition bounded_warning_error :: "utext \<Rightarrow> utext" where
  "bounded_warning_error reason = bounded_loop [] 1024 reason"

text \<open>\<open>str::is_char_boundary\<close>, slicing at a boundary, and \<open>truncate_utf8\<close>.\<close>

definition is_char_boundary :: "utext \<Rightarrow> nat \<Rightarrow> bool" where
  "is_char_boundary v e \<longleftrightarrow> list_ex (\<lambda>n. utf8_len (take n v) = e) [0..<Suc (length v)]"

fun slice_to :: "utext \<Rightarrow> nat \<Rightarrow> utext" where
  "slice_to [] e = []"
| "slice_to (c # v) e = (if e = 0 then [] else c # slice_to v (e - len_utf8 c))"

fun boundary_at_or_below :: "utext \<Rightarrow> nat \<Rightarrow> nat" where
  "boundary_at_or_below v 0 = 0"
| "boundary_at_or_below v (Suc e) =
     (if is_char_boundary v (Suc e) then Suc e else boundary_at_or_below v e)"

definition truncate_utf8 :: "utext \<Rightarrow> nat \<Rightarrow> utext" where
  "truncate_utf8 value m =
     (if utf8_len value \<le> m then value else slice_to value (boundary_at_or_below value m))"

section \<open>The longest prefix that fits\<close>

text \<open>The specification all three meet: keep whole characters from the front while they fit.\<close>

fun fitting :: "utext \<Rightarrow> nat \<Rightarrow> utext" where
  "fitting [] m = []"
| "fitting (c # v) m = (if len_utf8 c \<le> m then c # fitting v (m - len_utf8 c) else [])"

lemma fitting_le: "utf8_len (fitting v m) \<le> m"
  by (induction v m rule: fitting.induct) auto

lemma fitting_prefix: "\<exists>w. v = fitting v m @ w"
  by (induction v m rule: fitting.induct) auto

lemma fitting_maximal: "utf8_len (take n v) \<le> m \<Longrightarrow> utf8_len (take n v) \<le> utf8_len (fitting v m)"
proof (induction v m arbitrary: n rule: fitting.induct)
  case (1 m)
  then show ?case by simp
next
  case (2 c v m)
  show ?case
  proof (cases n)
    case 0
    then show ?thesis by simp
  next
    case (Suc k)
    with "2.prems" have "len_utf8 c \<le> m" "utf8_len (take k v) \<le> m - len_utf8 c" by auto
    with "2.IH" Suc show ?thesis by simp
  qed
qed

lemma fitting_all: "utf8_len v \<le> m \<Longrightarrow> fitting v m = v"
  by (induction v m rule: fitting.induct) auto

lemma fitting_take: "\<exists>n \<le> length v. fitting v m = take n v"
  by (induction v m rule: fitting.induct) (force intro: exI [of _ "Suc _"] exI [of _ 0])+

lemma bounded_loop_fitting:
  "utf8_len kept \<le> m \<Longrightarrow> bounded_loop kept m rest = kept @ fitting rest (m - utf8_len kept)"
proof (induction rest arbitrary: kept)
  case Nil
  then show ?case by simp
next
  case (Cons c rest)
  show ?case
  proof (cases "m < utf8_len kept + len_utf8 c")
    case True
    with Cons.prems show ?thesis by auto
  next
    case False
    then have "utf8_len (kept @ [c]) \<le> m" by simp
    from Cons.IH [OF this] False Cons.prems show ?thesis by auto
  qed
qed

lemma is_char_boundary_iff: "is_char_boundary v e \<longleftrightarrow> (\<exists>n \<le> length v. utf8_len (take n v) = e)"
  by (auto simp: is_char_boundary_def list_ex_iff less_Suc_eq_le simp del: upt_Suc)

lemma boundary_at_or_below_le: "boundary_at_or_below v m \<le> m"
  by (induction v m rule: boundary_at_or_below.induct) auto

lemma boundary_at_or_below_boundary: "is_char_boundary v (boundary_at_or_below v m)"
proof (induction v m rule: boundary_at_or_below.induct)
  case (1 v)
  have "utf8_len (take 0 v) = 0" by simp
  then show ?case by (auto simp: is_char_boundary_iff)
qed simp

lemma boundary_at_or_below_greatest:
  "is_char_boundary v e \<Longrightarrow> e \<le> m \<Longrightarrow> e \<le> boundary_at_or_below v m"
  by (induction v m rule: boundary_at_or_below.induct) (auto simp: le_Suc_eq)

lemma boundary_is_fitting: "boundary_at_or_below v m = utf8_len (fitting v m)"
proof (rule antisym)
  obtain n where "n \<le> length v" "utf8_len (take n v) = boundary_at_or_below v m"
    using boundary_at_or_below_boundary [of v m] by (auto simp: is_char_boundary_iff)
  then show "boundary_at_or_below v m \<le> utf8_len (fitting v m)"
    using fitting_maximal [of n v m] boundary_at_or_below_le [of v m] by simp
next
  obtain n where "n \<le> length v" "fitting v m = take n v" using fitting_take by blast
  then have "is_char_boundary v (utf8_len (fitting v m))"
    by (metis is_char_boundary_iff)
  then show "utf8_len (fitting v m) \<le> boundary_at_or_below v m"
    using fitting_le boundary_at_or_below_greatest by blast
qed

lemma slice_to_fitting: "slice_to v (utf8_len (fitting v m)) = fitting v m"
  by (induction v m rule: fitting.induct) (auto simp: add_eq_0_iff_both_eq_0)

lemma fitting_maximal_prefix:
  "\<exists>w. v = fitting v m @ w \<and> (w = [] \<or> m < utf8_len (fitting v m) + len_utf8 (hd w))"
  by (induction v m rule: fitting.induct) force+

section \<open>Properties\<close>

text \<open>
  The three ways the store shortens a text are one function: the character loop of
  \<open>bounded_text\<close> (and of \<open>bounded_error\<close> and \<open>bounded_warning_error\<close> with their limit of 1024
  bytes) and the walk back to a character boundary of \<open>truncate_utf8\<close> all return the prefix of
  whole characters that fits the limit in UTF-8 bytes and is followed by nothing or by a
  character that no longer fits.
\<close>

theorem text_bounds_agree:
  "truncate_utf8 v m = bounded_text v m \<and>
   bounded_error v = truncate_utf8 v 1024 \<and> bounded_warning_error v = truncate_utf8 v 1024 \<and>
   utf8_len (bounded_text v m) \<le> m \<and>
   (\<exists>w. v = bounded_text v m @ w \<and> (w = [] \<or> m < utf8_len (bounded_text v m) + len_utf8 (hd w)))"
proof -
  have b: "bounded_text v n = fitting v n" and t: "truncate_utf8 v n = fitting v n" for n
    using fitting_all [of v n]
    by (simp_all add: bounded_text_def bounded_loop_fitting truncate_utf8_def boundary_is_fitting
        slice_to_fitting)
  have "bounded_warning_error v = fitting v 1024"
    by (simp add: bounded_warning_error_def bounded_loop_fitting)
  with b t fitting_le [of v m] fitting_maximal_prefix [of v m] show ?thesis
    by (simp add: bounded_error_def max_error_bytes_def)
qed

end
