(* ===== verification/Schema.thy ===== *)
theory Schema
  imports LeasedQueue Utf8Text
begin

text \<open>
  The tables of the store that the durable queues share, as \<open>src/src/state.rs\<close> and
  \<open>src/src/state/strict.rs\<close> create them, and the \<open>store\<close> that holds them: one PostgreSQL database
  with one token sequence (\<open>durable_work_token_seq\<close>) behind every queue. Columns that hold an
  enumeration are text columns with a CHECK constraint, so they are strings here too.
\<close>

section \<open>Rows\<close>

record counter_row =
  counter_chat :: chat_id
  counter_user :: user_id
  counter_name :: utext
  total :: int
  today :: int
  day :: int
  week :: int
  week_at :: int
  month :: int
  month_at :: int
  seen :: int
  adds :: int
  awarded :: int
  warns :: int
  strikes :: int
  struck :: int

record strict_row =
  strict_chat :: chat_id
  strict_user :: user_id
  strict_action :: string
  strict_duration :: "int option"
  strict_until :: int
  strict_threshold :: int
  strict_target :: utext
  strict_wipe :: bool
  strict_created :: seconds
  strict_available :: seconds
  strict_attempts :: int
  strict_generation :: int
  strict_version :: int
  strict_lease :: "int option"
  strict_awaiting :: bool
  strict_terminal :: "seconds option"
  strict_error :: "utext option"

record warn_row =
  warn_chat :: chat_id
  warn_user :: user_id
  warn_penalty :: string
  warn_created :: seconds
  warn_claimed_until :: seconds
  warn_attempts :: int
  warn_generation :: int
  warn_version :: int
  warn_lease :: "int option"
  warn_awaiting :: bool
  warn_error :: "utext option"

record captcha_row =
  captcha_chat :: chat_id
  captcha_user :: user_id
  captcha_answer :: int
  captcha_source :: int
  captcha_message :: "int option"
  captcha_due :: seconds
  captcha_retry :: seconds
  captcha_action :: string
  captcha_state :: string
  captcha_attempts :: int
  captcha_generation :: int
  captcha_version :: int
  captcha_lease :: "int option"
  captcha_restriction :: "int option"
  captcha_kick :: "int option"
  captcha_quarantined :: "seconds option"
  captcha_reason :: "utext option"

section \<open>The store\<close>

text \<open>
  \<open>counter_rows\<close> and \<open>captcha_rows\<close> are the one-row tables \<open>durable_counts\<close> and
  \<open>captcha_counts\<close>; \<open>next_token\<close> is the value the next \<open>nextval\<close> returns; the two \<open>max_\<close> fields
  are the limits the process was configured with.
\<close>

record store =
  counters :: "counter_row table"
  counter_rows :: int
  strict_actions :: "strict_row table"
  warn_actions :: "warn_row table"
  captchas :: "captcha_row table"
  captcha_rows :: int
  next_token :: int
  max_counter_rows :: "int option"
  max_captcha_rows :: "int option"

definition counter_key :: "counter_row \<Rightarrow> member" where
  "counter_key r = (counter_chat r, counter_user r)"

definition strict_key :: "strict_row \<Rightarrow> member" where
  "strict_key r = (strict_chat r, strict_user r)"

definition warn_key :: "warn_row \<Rightarrow> member" where
  "warn_key r = (warn_chat r, warn_user r)"

definition captcha_key :: "captcha_row \<Rightarrow> member" where
  "captcha_key r = (captcha_chat r, captcha_user r)"

text \<open>A counter row with the defaults of its columns.\<close>

definition blank_counter :: "member \<Rightarrow> counter_row" where
  "blank_counter k = \<lparr>counter_chat = fst k, counter_user = snd k, counter_name = [], total = 0,
     today = 0, day = 0, week = 0, week_at = 0, month = 0, month_at = 0, seen = 0, adds = 0,
     awarded = 0, warns = 0, strikes = 0, struck = 0\<rparr>"

lemma blank_counter_key [simp]: "counter_key (blank_counter k) = k"
  by (simp add: blank_counter_def counter_key_def)

lemmas row_keys = counter_key_def strict_key_def warn_key_def captcha_key_def

section \<open>Writing a column that is not part of the key\<close>

lemma counter_key_upd [simp]:
  "counter_key (r\<lparr>counter_name := x_counter_name\<rparr>) = counter_key r"
  "counter_key (r\<lparr>total := x_total\<rparr>) = counter_key r"
  "counter_key (r\<lparr>today := x_today\<rparr>) = counter_key r"
  "counter_key (r\<lparr>day := x_day\<rparr>) = counter_key r"
  "counter_key (r\<lparr>week := x_week\<rparr>) = counter_key r"
  "counter_key (r\<lparr>week_at := x_week_at\<rparr>) = counter_key r"
  "counter_key (r\<lparr>month := x_month\<rparr>) = counter_key r"
  "counter_key (r\<lparr>month_at := x_month_at\<rparr>) = counter_key r"
  "counter_key (r\<lparr>seen := x_seen\<rparr>) = counter_key r"
  "counter_key (r\<lparr>adds := x_adds\<rparr>) = counter_key r"
  "counter_key (r\<lparr>awarded := x_awarded\<rparr>) = counter_key r"
  "counter_key (r\<lparr>warns := x_warns\<rparr>) = counter_key r"
  "counter_key (r\<lparr>strikes := x_strikes\<rparr>) = counter_key r"
  "counter_key (r\<lparr>struck := x_struck\<rparr>) = counter_key r"
  by (simp_all add: counter_key_def)

lemma strict_key_upd [simp]:
  "strict_key (r\<lparr>strict_action := x_strict_action\<rparr>) = strict_key r"
  "strict_key (r\<lparr>strict_duration := x_strict_duration\<rparr>) = strict_key r"
  "strict_key (r\<lparr>strict_until := x_strict_until\<rparr>) = strict_key r"
  "strict_key (r\<lparr>strict_threshold := x_strict_threshold\<rparr>) = strict_key r"
  "strict_key (r\<lparr>strict_target := x_strict_target\<rparr>) = strict_key r"
  "strict_key (r\<lparr>strict_wipe := x_strict_wipe\<rparr>) = strict_key r"
  "strict_key (r\<lparr>strict_created := x_strict_created\<rparr>) = strict_key r"
  "strict_key (r\<lparr>strict_available := x_strict_available\<rparr>) = strict_key r"
  "strict_key (r\<lparr>strict_attempts := x_strict_attempts\<rparr>) = strict_key r"
  "strict_key (r\<lparr>strict_generation := x_strict_generation\<rparr>) = strict_key r"
  "strict_key (r\<lparr>strict_version := x_strict_version\<rparr>) = strict_key r"
  "strict_key (r\<lparr>strict_lease := x_strict_lease\<rparr>) = strict_key r"
  "strict_key (r\<lparr>strict_awaiting := x_strict_awaiting\<rparr>) = strict_key r"
  "strict_key (r\<lparr>strict_terminal := x_strict_terminal\<rparr>) = strict_key r"
  "strict_key (r\<lparr>strict_error := x_strict_error\<rparr>) = strict_key r"
  by (simp_all add: strict_key_def)

lemma warn_key_upd [simp]:
  "warn_key (r\<lparr>warn_penalty := x_warn_penalty\<rparr>) = warn_key r"
  "warn_key (r\<lparr>warn_created := x_warn_created\<rparr>) = warn_key r"
  "warn_key (r\<lparr>warn_claimed_until := x_warn_claimed_until\<rparr>) = warn_key r"
  "warn_key (r\<lparr>warn_attempts := x_warn_attempts\<rparr>) = warn_key r"
  "warn_key (r\<lparr>warn_generation := x_warn_generation\<rparr>) = warn_key r"
  "warn_key (r\<lparr>warn_version := x_warn_version\<rparr>) = warn_key r"
  "warn_key (r\<lparr>warn_lease := x_warn_lease\<rparr>) = warn_key r"
  "warn_key (r\<lparr>warn_awaiting := x_warn_awaiting\<rparr>) = warn_key r"
  "warn_key (r\<lparr>warn_error := x_warn_error\<rparr>) = warn_key r"
  by (simp_all add: warn_key_def)

lemma captcha_key_upd [simp]:
  "captcha_key (r\<lparr>captcha_answer := x_captcha_answer\<rparr>) = captcha_key r"
  "captcha_key (r\<lparr>captcha_source := x_captcha_source\<rparr>) = captcha_key r"
  "captcha_key (r\<lparr>captcha_message := x_captcha_message\<rparr>) = captcha_key r"
  "captcha_key (r\<lparr>captcha_due := x_captcha_due\<rparr>) = captcha_key r"
  "captcha_key (r\<lparr>captcha_retry := x_captcha_retry\<rparr>) = captcha_key r"
  "captcha_key (r\<lparr>captcha_action := x_captcha_action\<rparr>) = captcha_key r"
  "captcha_key (r\<lparr>captcha_state := x_captcha_state\<rparr>) = captcha_key r"
  "captcha_key (r\<lparr>captcha_attempts := x_captcha_attempts\<rparr>) = captcha_key r"
  "captcha_key (r\<lparr>captcha_generation := x_captcha_generation\<rparr>) = captcha_key r"
  "captcha_key (r\<lparr>captcha_version := x_captcha_version\<rparr>) = captcha_key r"
  "captcha_key (r\<lparr>captcha_lease := x_captcha_lease\<rparr>) = captcha_key r"
  "captcha_key (r\<lparr>captcha_restriction := x_captcha_restriction\<rparr>) = captcha_key r"
  "captcha_key (r\<lparr>captcha_kick := x_captcha_kick\<rparr>) = captcha_key r"
  "captcha_key (r\<lparr>captcha_quarantined := x_captcha_quarantined\<rparr>) = captcha_key r"
  "captcha_key (r\<lparr>captcha_reason := x_captcha_reason\<rparr>) = captcha_key r"
  by (simp_all add: captcha_key_def)

end
