(* ===== verification/Counters.thy ===== *)
theory Counters
  imports Schema
begin

text \<open>
  The \<open>counters\<close> table as the punishments use it (\<open>src/src/state.rs\<close>, \<open>src/src/state/strict.rs\<close>):
  one row per member, created only while the shard and the chat are under their caps, with the
  number of rows kept beside it in \<open>durable_counts\<close>. The two upserts share their WITH clause;
  \<open>upsert_counter\<close> is that statement.
\<close>

section \<open>Reserving and writing a row\<close>

definition max_counter_rows_per_chat :: int where
  "max_counter_rows_per_chat = 20000"

definition counter_limit :: "store \<Rightarrow> int" where
  "counter_limit s = (case max_counter_rows s of None \<Rightarrow> i64_max div 2 | Some n \<Rightarrow> n)"

text \<open>\<open>reserved\<close>: a new row is admitted by the shard's budget and by the chat's cap.\<close>

definition counter_admitted :: "chat_id \<Rightarrow> store \<Rightarrow> bool" where
  "counter_admitted c s \<longleftrightarrow> counter_rows s < counter_limit s \<and>
     sql_count (\<lambda>r. counter_chat r = c) (counters s) < max_counter_rows_per_chat"

definition upsert_counter ::
  "member \<Rightarrow> (counter_row \<Rightarrow> counter_row) \<Rightarrow> (counter_row \<Rightarrow> counter_row) \<Rightarrow> store \<Rightarrow>
     (store \<times> counter_row) option" where
  "upsert_counter k initial bump s =
     (case row_at counter_key (counters s) k of
        Some r \<Rightarrow>
          Some (s\<lparr>counters := sql_update (\<lambda>q. counter_key q = k) bump (counters s)\<rparr>, bump r)
      | None \<Rightarrow>
          if counter_admitted (fst k) s
          then Some (s\<lparr>counters := sql_insert (initial (blank_counter k)) (counters s),
                       counter_rows := counter_rows s + 1\<rparr>, initial (blank_counter k))
          else None)"

text \<open>\<open>saturating_postgres_i64\<close> and \<open>warning_count\<close>.\<close>

definition saturating_postgres_i64 :: "int \<Rightarrow> int" where
  "saturating_postgres_i64 v = (if v \<le> i64_max then v else i64_max)"

definition warning_count :: "int \<Rightarrow> int outcome" where
  "warning_count v =
     (if 0 \<le> v \<and> v \<le> u32_max then Inr v else Inl (Protocol ''corrupt punishment counter''))"

section \<open>The row budget\<close>

definition counters_ok :: "store \<Rightarrow> bool" where
  "counters_ok s \<longleftrightarrow> unique_key counter_key (counters s) \<and>
     counter_rows s = int (length (counters s)) \<and> counter_rows s \<le> counter_limit s \<and>
     (\<forall>c. sql_count (\<lambda>r. counter_chat r = c) (counters s) \<le> max_counter_rows_per_chat)"

lemma counter_chat_fst: "counter_chat r = fst (counter_key r)"
  by (simp add: counter_key_def)

lemma counters_ok_cong:
  "counters t = counters s \<Longrightarrow> counter_rows t = counter_rows s \<Longrightarrow>
   max_counter_rows t = max_counter_rows s \<Longrightarrow> counters_ok t = counters_ok s"
  by (simp add: counters_ok_def counter_limit_def)

lemma counters_ok_update:
  assumes "counters_ok s" and "\<And>r. counter_key (f r) = counter_key r"
  shows "counters_ok (s\<lparr>counters := sql_update P f (counters s)\<rparr>)"
proof -
  have "counter_chat (f r) = counter_chat r" for r
    using assms(2) [of r] by (simp add: counter_key_def)
  then have "sql_count (\<lambda>r. counter_chat r = c) (sql_update P f (counters s)) =
      sql_count (\<lambda>r. counter_chat r = c) (counters s)" for c
    by (intro sql_count_update_same) simp
  with assms show ?thesis by (simp add: counters_ok_def unique_update counter_limit_def)
qed

lemma counters_ok_insert:
  assumes "counters_ok s" and "row_at counter_key (counters s) (counter_key r) = None"
    and "counter_admitted (counter_chat r) s"
  shows "counters_ok (s\<lparr>counters := sql_insert r (counters s), counter_rows := counter_rows s + 1\<rparr>)"
  using assms
  by (auto simp: counters_ok_def counter_admitted_def counter_limit_def unique_insert
      sql_count_insert add1_zle_eq)

lemma upsert_counter_ok:
  assumes "counters_ok s" and "upsert_counter k initial bump s = Some (t, r)"
    and "\<And>r. counter_key (initial r) = counter_key r" and "\<And>r. counter_key (bump r) = counter_key r"
  shows "counters_ok t"
proof (cases "row_at counter_key (counters s) k")
  case None
  have "counter_chat (initial (blank_counter k)) = fst k"
    using assms(3) [of "blank_counter k"] by (simp add: counter_chat_fst)
  with None assms show ?thesis
    by (auto simp: upsert_counter_def intro!: counters_ok_insert split: if_splits)
next
  case (Some q)
  with assms show ?thesis by (auto simp: upsert_counter_def intro: counters_ok_update)
qed

lemma upsert_counter_at:
  assumes "upsert_counter k initial bump s = Some (t, r)"
    and "\<And>r. counter_key (initial r) = counter_key r" and "\<And>r. counter_key (bump r) = counter_key r"
  shows "row_at counter_key (counters t) j =
    (if j = k then Some r else row_at counter_key (counters s) j)"
  using assms(1)
  by (auto simp: upsert_counter_def row_at_insert assms(2)
      row_at_update_key [where key = counter_key and f = bump, OF assms(3)]
      split: option.splits if_splits)

lemma upsert_counter_frame:
  assumes "upsert_counter k initial bump s = Some (t, r)"
  shows "strict_actions t = strict_actions s" "warn_actions t = warn_actions s"
    "captchas t = captchas s" "captcha_rows t = captcha_rows s" "next_token t = next_token s"
    "max_counter_rows t = max_counter_rows s" "max_captcha_rows t = max_captcha_rows s"
  using assms by (auto simp: upsert_counter_def split: option.splits if_splits)

section \<open>Forgetting a chat\<close>

text \<open>
  The part of \<open>forget_chat\<close> that concerns these tables: the chat's rows go, and the two counts by
  as many.
\<close>

definition forget_chat_rows :: "chat_id \<Rightarrow> store \<Rightarrow> store" where
  "forget_chat_rows c s = s\<lparr>
     counters := sql_delete (\<lambda>r. counter_chat r = c) (counters s),
     counter_rows := max (counter_rows s - sql_count (\<lambda>r. counter_chat r = c) (counters s)) 0,
     warn_actions := sql_delete (\<lambda>r. warn_chat r = c) (warn_actions s),
     strict_actions := sql_delete (\<lambda>r. strict_chat r = c) (strict_actions s),
     captchas := sql_delete (\<lambda>r. captcha_chat r = c) (captchas s),
     captcha_rows := max (captcha_rows s - sql_count (\<lambda>r. captcha_chat r = c) (captchas s)) 0\<rparr>"

lemma forget_chat_counters_ok:
  assumes "counters_ok s"
  shows "counters_ok (forget_chat_rows c s)"
proof -
  have "sql_count (\<lambda>r. counter_chat r = d) (sql_delete (\<lambda>r. counter_chat r = c) (counters s)) \<le>
      max_counter_rows_per_chat" for d
    using assms sql_count_delete_le [of "\<lambda>r. counter_chat r = d" "\<lambda>r. counter_chat r = c" "counters s"]
    by (auto simp: counters_ok_def intro: order_trans)
  moreover have "int (length (sql_delete (\<lambda>r. counter_chat r = c) (counters s))) \<le> counter_limit s"
    using assms length_delete_le [of "\<lambda>r. counter_chat r = c" "counters s"]
    by (simp add: counters_ok_def)
  moreover have "counter_limit (forget_chat_rows c s) = counter_limit s"
    by (simp add: counter_limit_def forget_chat_rows_def)
  ultimately show ?thesis
    using assms sql_delete_length [of "counters s" "\<lambda>r. counter_chat r = c"]
    by (simp add: counters_ok_def unique_delete) (simp add: forget_chat_rows_def unique_delete)
qed

end
