(* ===== verification/StrictQueue.thy ===== *)
theory StrictQueue
  imports Counters
begin

text \<open>
  The queue of strict-mode punishments, \<open>src/src/state/strict.rs\<close>. A violation counts a strike; the
  strike that reaches the threshold leaves, in the same transaction, a row in
  \<open>pending_strict_actions\<close>. Workers lease a row, carry the punishment out and settle it: complete
  it, defer it, park it until the member rejoins, or bury it as a dead letter. Each settlement
  names the generation, version, attempt count and lease token of its claim.
\<close>

section \<open>Actions and handles\<close>

datatype strict_action_kind = StrictBan | StrictMute

fun strict_as_db :: "strict_action_kind \<Rightarrow> string" where
  "strict_as_db StrictBan = ''ban''"
| "strict_as_db StrictMute = ''mute''"

definition strict_from_db :: "string \<Rightarrow> strict_action_kind outcome" where
  "strict_from_db v =
     (if v = ''ban'' then Inr StrictBan
      else if v = ''mute'' then Inr StrictMute
      else Inl (Protocol ''invalid pending strict action''))"

lemma strict_codec [codec_simps]: "strict_from_db (strict_as_db a) = Inr a"
  by (cases a) (simp_all add: strict_from_db_def)

datatype strict_intent = NoIntent | ActiveIntent

record strict_increment =
  inc_count :: int
  inc_intent :: strict_intent

record strict_violation =
  v_chat :: chat_id
  v_user :: user_id
  v_day :: int
  v_expiry_days :: int
  v_limit :: int
  v_action :: strict_action_kind
  v_duration :: "int option"
  v_until :: int
  v_target :: utext
  v_wipe :: bool

record pending_strict =
  p_chat :: chat_id
  p_user :: user_id
  p_action :: strict_action_kind
  p_duration :: "int option"
  p_until :: int
  p_threshold :: int
  p_target :: utext
  p_wipe :: bool
  p_awaiting :: bool
  p_attempts :: int
  p_generation :: int
  p_version :: int
  p_lease :: int

datatype strict_class = StrictFresh | StrictRetry

text \<open>
  \<open>decode_pending_strict\<close>. The lease token is a plain column of the claim's RETURNING list; a
  claim has just written it, so it is never NULL there.
\<close>

definition decode_pending_strict :: "strict_row \<Rightarrow> pending_strict outcome" where
  "decode_pending_strict r =
     (if is_some_and (\<lambda>d. d < 0) (strict_duration r)
      then Inl (Protocol ''negative pending strict duration'')
      else if \<not> (0 \<le> strict_threshold r \<and> strict_threshold r \<le> u32_max)
      then Inl (Protocol ''invalid pending strict threshold'')
      else if strict_threshold r = 0 then Inl (Protocol ''zero pending strict threshold'')
      else
        (case strict_from_db (strict_action r) of
           Inl e \<Rightarrow> Inl e
         | Inr a \<Rightarrow>
             if \<not> (0 \<le> strict_attempts r \<and> strict_attempts r \<le> u32_max)
             then Inl (Protocol ''negative strict attempt count'')
             else
               (case strict_lease r of
                  None \<Rightarrow> Inl (Protocol ''unexpected null'')
                | Some n \<Rightarrow>
                    Inr \<lparr>p_chat = strict_chat r, p_user = strict_user r, p_action = a,
                      p_duration = strict_duration r, p_until = strict_until r,
                      p_threshold = strict_threshold r, p_target = strict_target r,
                      p_wipe = strict_wipe r, p_awaiting = strict_awaiting r,
                      p_attempts = strict_attempts r, p_generation = strict_generation r,
                      p_version = strict_version r, p_lease = n\<rparr>)))"

section \<open>Counting a violation\<close>

definition strict_today :: "strict_violation \<Rightarrow> counter_row \<Rightarrow> counter_row" where
  "strict_today v r = r\<lparr>strikes := 1, struck := saturating_postgres_i64 (v_day v)\<rparr>"

text \<open>The strike of an existing row: strikes older than the expiry start over.\<close>

definition strict_bump :: "strict_violation \<Rightarrow> counter_row \<Rightarrow> counter_row" where
  "strict_bump v r = r\<lparr>
     strikes := (if saturating_postgres_i64 (v_day v) - struck r <
                      saturating_postgres_i64 (v_expiry_days v)
                 then strikes r else 0) + 1,
     struck := saturating_postgres_i64 (v_day v)\<rparr>"

text \<open>The strike count of a violation with no pending row; one strike is enough at limit 1.\<close>

definition count_strike :: "strict_violation \<Rightarrow> store \<Rightarrow> (store \<times> int) option" where
  "count_strike v s =
     (if v_limit v = 1 then Some (s, 1)
      else map_option (\<lambda>(t, r). (t, strikes r))
             (upsert_counter (v_chat v, v_user v) (strict_today v) (strict_bump v) s))"

definition max_pending_strict_per_chat :: int where
  "max_pending_strict_per_chat = 256"

definition strict_admitted :: "chat_id \<Rightarrow> store \<Rightarrow> bool" where
  "strict_admitted c s \<longleftrightarrow>
     sql_count (\<lambda>r. strict_chat r = c \<and> strict_terminal r = None \<and> \<not> strict_awaiting r)
       (strict_actions s) < max_pending_strict_per_chat"

text \<open>The row of a new action, and of a dead letter that a new violation revives.\<close>

definition new_strict :: "strict_violation \<Rightarrow> seconds \<Rightarrow> int \<Rightarrow> strict_row" where
  "new_strict v now n = \<lparr>strict_chat = v_chat v, strict_user = v_user v,
     strict_action = strict_as_db (v_action v), strict_duration = v_duration v,
     strict_until = v_until v, strict_threshold = v_limit v,
     strict_target = bounded_text (v_target v) max_target_bytes, strict_wipe = v_wipe v,
     strict_created = now, strict_available = now, strict_attempts = 0, strict_generation = n,
     strict_version = 1, strict_lease = None, strict_awaiting = False, strict_terminal = None,
     strict_error = None\<rparr>"

definition revive_strict :: "strict_violation \<Rightarrow> seconds \<Rightarrow> int \<Rightarrow> strict_row \<Rightarrow> strict_row" where
  "revive_strict v now n r = r\<lparr>strict_action := strict_as_db (v_action v),
     strict_duration := v_duration v, strict_until := v_until v, strict_threshold := v_limit v,
     strict_target := bounded_text (v_target v) max_target_bytes, strict_wipe := v_wipe v,
     strict_created := now, strict_available := now, strict_attempts := 0,
     strict_generation := n, strict_version := strict_version r + 1, strict_lease := None,
     strict_awaiting := False, strict_terminal := None, strict_error := None\<rparr>"

text \<open>The CHECK constraint on \<open>duration_seconds\<close>, which a violation may fail.\<close>

definition strict_duration_check :: "strict_violation \<Rightarrow> bool" where
  "strict_duration_check v \<longleftrightarrow> (case v_duration v of None \<Rightarrow> True | Some d \<Rightarrow> 0 < d)"

definition resume_strict_row :: "seconds \<Rightarrow> strict_row \<Rightarrow> strict_row" where
  "resume_strict_row now r =
     r\<lparr>strict_awaiting := False, strict_available := now, strict_error := None\<rparr>"

definition active_increment :: "int \<Rightarrow> strict_increment option outcome" where
  "active_increment c =
     map_sum id (\<lambda>n. Some \<lparr>inc_count = n, inc_intent = ActiveIntent\<rparr>) (warning_count c)"

text \<open>A violation of a member who already has a row: revived, resumed or left as it is.\<close>

definition increment_existing ::
  "strict_violation \<Rightarrow> seconds \<Rightarrow> strict_row \<Rightarrow> store \<Rightarrow> store \<times> strict_increment option outcome" where
  "increment_existing v now r s =
     (let k = (v_chat v, v_user v);
          n = (case row_at counter_key (counters s) k of None \<Rightarrow> 0 | Some c \<Rightarrow> strikes c)
      in if strict_terminal r \<noteq> None then
           if strict_duration_check v
           then (s\<lparr>strict_actions :=
                    sql_update (\<lambda>q. strict_key q = k \<and> strict_terminal q \<noteq> None)
                      (revive_strict v now (next_token s)) (strict_actions s),
                   next_token := next_token s + 1\<rparr>, active_increment n)
           else (s, Inl (Protocol ''check constraint''))
         else if strict_awaiting r then
           (s\<lparr>strict_actions :=
               sql_update (\<lambda>q. strict_key q = k \<and> strict_awaiting q \<and> strict_lease q = None \<and>
                 strict_terminal q = None) (resume_strict_row now) (strict_actions s)\<rparr>,
            active_increment n)
         else (s, active_increment n))"

definition increment_new ::
  "strict_violation \<Rightarrow> seconds \<Rightarrow> store \<Rightarrow> store \<times> strict_increment option outcome" where
  "increment_new v now s =
     (case count_strike v s of
        None \<Rightarrow> (s, Inr None)
      | Some (t, raw) \<Rightarrow>
          (case (if v_limit v = 1 then Inr 1 else warning_count raw) of
             Inl e \<Rightarrow> (s, Inl e)
           | Inr n \<Rightarrow>
               if n < v_limit v
               then (t, Inr (Some \<lparr>inc_count = n, inc_intent = NoIntent\<rparr>))
               else if \<not> strict_admitted (v_chat v) t then (s, Inr None)
               else if \<not> strict_duration_check v then (s, Inl (Protocol ''check constraint''))
               else (t\<lparr>strict_actions := sql_insert (new_strict v now (next_token t)) (strict_actions t),
                       next_token := next_token t + 1\<rparr>,
                     Inr (Some \<lparr>inc_count = n, inc_intent = ActiveIntent\<rparr>))))"

definition increment_strict ::
  "strict_violation \<Rightarrow> seconds \<Rightarrow> store \<Rightarrow> store \<times> strict_increment option outcome" where
  "increment_strict v now s =
     (if v_limit v = 0 then (s, Inl (Protocol ''strict threshold must be positive''))
      else if is_some_and (\<lambda>d. i64_max < d) (v_duration v)
      then (s, Inl (Protocol ''strict duration exceeds PostgreSQL bigint''))
      else if i32_max < v_limit v
      then (s, Inl (Protocol ''strict threshold exceeds PostgreSQL integer''))
      else
        (case row_at strict_key (strict_actions s) (v_chat v, v_user v) of
           Some r \<Rightarrow> increment_existing v now r s
         | None \<Rightarrow> increment_new v now s))"

section \<open>Claims\<close>

definition lease_strict_row :: "seconds \<Rightarrow> int \<Rightarrow> strict_row \<Rightarrow> strict_row" where
  "lease_strict_row until n r = r\<lparr>strict_available := until, strict_attempts := strict_attempts r + 1,
     strict_version := strict_version r + 1, strict_lease := Some n\<rparr>"

definition lease_strict :: "seconds \<Rightarrow> member \<Rightarrow> store \<Rightarrow> store" where
  "lease_strict until k s = s\<lparr>
     strict_actions := sql_update (\<lambda>q. strict_key q = k)
       (lease_strict_row until (next_token s)) (strict_actions s),
     next_token := next_token s + 1\<rparr>"

definition strict_claimable :: "seconds \<Rightarrow> strict_row \<Rightarrow> bool" where
  "strict_claimable now r \<longleftrightarrow>
     strict_terminal r = None \<and> \<not> strict_awaiting r \<and> strict_available r \<le> now"

definition claim_strict_action ::
  "chat_id \<Rightarrow> user_id \<Rightarrow> seconds \<Rightarrow> seconds \<Rightarrow> store \<Rightarrow> store \<times> pending_strict option outcome" where
  "claim_strict_action c u now until s =
     (case row_at strict_key (strict_actions s) (c, u) of
        None \<Rightarrow> (s, Inr None)
      | Some r \<Rightarrow>
          if strict_claimable now r
          then (lease_strict until (c, u) s,
                map_sum id Some (decode_pending_strict (lease_strict_row until (next_token s) r)))
          else (s, Inr None))"

fun strict_in_class :: "strict_class \<Rightarrow> strict_row \<Rightarrow> bool" where
  "strict_in_class StrictFresh r \<longleftrightarrow> strict_attempts r = 0"
| "strict_in_class StrictRetry r \<longleftrightarrow> 0 < strict_attempts r"

definition strict_order :: "strict_row \<Rightarrow> seconds \<times> int \<times> seconds \<times> chat_id \<times> user_id" where
  "strict_order r = (strict_available r, strict_attempts r, strict_created r, strict_chat r, strict_user r)"

text \<open>
  The due rows of a class; \<open>locked\<close> says which rows another transaction holds, and SKIP LOCKED
  passes over. An UPDATE ... FROM takes the rows of the page in an order of the database's own
  choosing, \<open>arrange\<close>.
\<close>

definition due_strict ::
  "strict_class \<Rightarrow> (member \<Rightarrow> bool) \<Rightarrow> seconds \<Rightarrow> int \<Rightarrow> store \<Rightarrow> strict_row list" where
  "due_strict cls locked now limit s =
     sql_page (\<lambda>r. strict_in_class cls r \<and> strict_claimable now r \<and> \<not> locked (strict_key r))
       strict_order (nat (clamp 1 64 limit)) (strict_actions s)"

definition claim_pending_strict_actions ::
  "strict_class \<Rightarrow> (member \<Rightarrow> bool) \<Rightarrow> (strict_row list \<Rightarrow> strict_row list) \<Rightarrow> seconds \<Rightarrow> seconds \<Rightarrow>
     int \<Rightarrow> store \<Rightarrow> store \<times> pending_strict list outcome" where
  "claim_pending_strict_actions cls locked arrange now until limit s =
     (let (n, t, rows) = lease_rows strict_key (lease_strict_row until)
            (arrange (due_strict cls locked now limit s)) (next_token s) (strict_actions s)
      in (s\<lparr>strict_actions := t, next_token := n\<rparr>,
          collect_results (map decode_pending_strict rows)))"

section \<open>Settlements\<close>

text \<open>The WHERE clause of every settlement: this row, still under this very claim.\<close>

definition strict_held :: "pending_strict \<Rightarrow> strict_row \<Rightarrow> bool" where
  "strict_held p r \<longleftrightarrow> strict_action r = strict_as_db (p_action p) \<and>
     strict_generation r = p_generation p \<and> strict_version r = p_version p \<and>
     strict_lease r = Some (p_lease p) \<and> strict_attempts r = p_attempts p \<and>
     strict_terminal r = None"

definition p_key :: "pending_strict \<Rightarrow> member" where
  "p_key p = (p_chat p, p_user p)"

definition strict_hit :: "pending_strict \<Rightarrow> store \<Rightarrow> bool" where
  "strict_hit p s \<longleftrightarrow>
     sql_exists (\<lambda>r. strict_key r = p_key p \<and> strict_held p r) (strict_actions s)"

definition strict_action_is_current :: "pending_strict \<Rightarrow> store \<Rightarrow> bool" where
  "strict_action_is_current p s \<longleftrightarrow>
     sql_exists (\<lambda>r. strict_key r = p_key p \<and> strict_held p r \<and> \<not> strict_awaiting r)
       (strict_actions s)"

definition defer_strict_action ::
  "pending_strict \<Rightarrow> seconds \<Rightarrow> utext \<Rightarrow> store \<Rightarrow> store \<times> bool" where
  "defer_strict_action p retry_at reason s =
     (s\<lparr>strict_actions := sql_update (\<lambda>r. strict_key r = p_key p \<and> strict_held p r)
         (\<lambda>r. r\<lparr>strict_available := retry_at, strict_lease := None, strict_awaiting := False,
                strict_error := Some (bounded_error reason)\<rparr>) (strict_actions s)\<rparr>,
      strict_hit p s)"

definition await_strict_rejoin :: "pending_strict \<Rightarrow> utext \<Rightarrow> store \<Rightarrow> store \<times> bool" where
  "await_strict_rejoin p reason s =
     (s\<lparr>strict_actions := sql_update (\<lambda>r. strict_key r = p_key p \<and> strict_held p r)
         (\<lambda>r. r\<lparr>strict_awaiting := True, strict_lease := None,
                strict_error := Some (bounded_error reason)\<rparr>) (strict_actions s)\<rparr>,
      strict_hit p s)"

definition strict_parked :: "strict_row \<Rightarrow> bool" where
  "strict_parked r \<longleftrightarrow> strict_awaiting r \<and> strict_lease r = None \<and> strict_terminal r = None"

definition resume_strict_on_rejoin ::
  "chat_id \<Rightarrow> user_id \<Rightarrow> seconds \<Rightarrow> store \<Rightarrow> store \<times> bool" where
  "resume_strict_on_rejoin c u now s =
     (s\<lparr>strict_actions := sql_update (\<lambda>r. strict_key r = (c, u) \<and> strict_parked r)
         (resume_strict_row now) (strict_actions s)\<rparr>,
      sql_exists (\<lambda>r. strict_key r = (c, u) \<and> strict_parked r) (strict_actions s))"

definition complete_strict_action :: "pending_strict \<Rightarrow> store \<Rightarrow> store \<times> bool" where
  "complete_strict_action p s =
     (let removed = strict_action_is_current p s;
          rest = sql_delete (\<lambda>r. strict_key r = p_key p \<and> strict_held p r \<and> \<not> strict_awaiting r)
                   (strict_actions s)
      in (if removed
          then s\<lparr>strict_actions := rest,
                 counters := sql_update (\<lambda>r. counter_key r = p_key p)
                   (\<lambda>r. r\<lparr>strikes := 0, struck := 0\<rparr>) (counters s)\<rparr>
          else s\<lparr>strict_actions := rest\<rparr>, removed))"

definition dead_letter_strict_action ::
  "pending_strict \<Rightarrow> seconds \<Rightarrow> utext \<Rightarrow> store \<Rightarrow> store \<times> bool" where
  "dead_letter_strict_action p at reason s =
     (s\<lparr>strict_actions := sql_update (\<lambda>r. strict_key r = p_key p \<and> strict_held p r)
         (\<lambda>r. r\<lparr>strict_terminal := Some at, strict_available := at, strict_lease := None,
                strict_awaiting := False, strict_error := Some (bounded_error reason)\<rparr>)
         (strict_actions s)\<rparr>,
      strict_hit p s)"

section \<open>Purges\<close>

definition strict_dead_before :: "seconds \<Rightarrow> strict_row \<Rightarrow> bool" where
  "strict_dead_before before r \<longleftrightarrow> is_some_and (\<lambda>at. at \<le> before) (strict_terminal r)"

definition strict_terminal_order :: "strict_row \<Rightarrow> seconds \<times> chat_id \<times> user_id" where
  "strict_terminal_order r =
     (case strict_terminal r of None \<Rightarrow> 0 | Some at \<Rightarrow> at, strict_chat r, strict_user r)"

definition purge_strict_dead_letters ::
  "(member \<Rightarrow> bool) \<Rightarrow> seconds \<Rightarrow> int \<Rightarrow> store \<Rightarrow> store \<times> nat" where
  "purge_strict_dead_letters locked before limit s =
     (let (t, n) = purge_page strict_key
            (\<lambda>r. strict_dead_before before r \<and> \<not> locked (strict_key r)) strict_terminal_order
            (nat (clamp 1 256 limit)) (strict_actions s)
      in (s\<lparr>strict_actions := t\<rparr>, n))"

definition purge_parked_strict_actions ::
  "(member \<Rightarrow> bool) \<Rightarrow> seconds \<Rightarrow> int \<Rightarrow> store \<Rightarrow> store \<times> nat" where
  "purge_parked_strict_actions locked before limit s =
     (let (t, n) = purge_page strict_key
            (\<lambda>r. (strict_parked r \<and> strict_available r \<le> before) \<and> \<not> locked (strict_key r))
            (\<lambda>r. (strict_available r, strict_chat r, strict_user r))
            (nat (clamp 1 256 limit)) (strict_actions s)
      in (s\<lparr>strict_actions := t\<rparr>, n))"

section \<open>The invariant of the queue\<close>

definition strict_row_ok :: "int \<Rightarrow> strict_row \<Rightarrow> bool" where
  "strict_row_ok n r \<longleftrightarrow> strict_action r \<in> {''ban'', ''mute''} \<and>
     (\<forall>d. strict_duration r = Some d \<longrightarrow> 0 < d) \<and>
     0 < strict_threshold r \<and> strict_threshold r \<le> i32_max \<and> 0 \<le> strict_attempts r \<and>
     0 < strict_version r \<and> strict_generation r < n \<and>
     (strict_awaiting r \<longrightarrow> strict_lease r = None) \<and>
     (strict_terminal r \<noteq> None \<longrightarrow> strict_lease r = None \<and> \<not> strict_awaiting r)"

definition strict_ok :: "store \<Rightarrow> bool" where
  "strict_ok s \<longleftrightarrow>
     queue_ok strict_key strict_lease strict_row_ok (next_token s) (strict_actions s)"

text \<open>What one transaction does to the queue: a lease move that keeps the rows valid.\<close>

definition strict_move :: "store \<Rightarrow> store \<Rightarrow> bool" where
  "strict_move s t \<longleftrightarrow>
     queue_move strict_key strict_lease strict_available strict_row_ok
       (next_token s) (strict_actions s) (next_token t) (strict_actions t)"

lemma lease_strict_row_key [simp]: "strict_key (lease_strict_row until n r) = strict_key r"
  by (simp add: lease_strict_row_def strict_key_def)

lemma strict_row_ok_later: "strict_row_ok n r \<Longrightarrow> n \<le> m \<Longrightarrow> strict_row_ok m r"
  by (auto simp: strict_row_ok_def)

interpretation strict_queue: leased_queue strict_key strict_lease strict_available strict_row_ok
  "\<lambda>r. strict_terminal r = None \<and> \<not> strict_awaiting r" lease_strict_row
  by unfold_locales
    (auto simp: lease_strict_row_def strict_row_ok_def intro: strict_row_ok_later)

lemma strict_move_ok: "strict_move s t \<Longrightarrow> strict_ok t"
  unfolding strict_move_def strict_ok_def by (rule queue_move_ok)

lemma strict_ok_leases:
  "strict_ok s \<Longrightarrow> leases_ok strict_key strict_lease (next_token s) (strict_actions s)"
  unfolding strict_ok_def by (rule queue_ok_leases)

lemma strict_ok_unique: "strict_ok s \<Longrightarrow> unique_key strict_key (strict_actions s)"
  unfolding strict_ok_def by (rule queue_ok_unique)

lemma strict_ok_row:
  "strict_ok s \<Longrightarrow> row_at strict_key (strict_actions s) k = Some r \<Longrightarrow>
     strict_row_ok (next_token s) r \<and> strict_key r = k"
  unfolding strict_ok_def by (rule queue_ok_row)

lemma strict_move_env:
  assumes "strict_ok s" and "strict_actions t = strict_actions s" and "next_token s \<le> next_token t"
  shows "strict_move s t"
  using strict_queue.move_env assms by (simp add: strict_move_def strict_ok_def)

lemma strict_move_set:
  assumes "strict_ok s" and "\<And>r. strict_key (f r) = strict_key r"
    and "\<And>r m. P r \<Longrightarrow> strict_lease (f r) = Some m \<Longrightarrow>
      strict_lease r = Some m \<and> strict_available (f r) = strict_available r"
    and "\<And>r. P r \<Longrightarrow> strict_row_ok (next_token s) r \<Longrightarrow> strict_row_ok (next_token s) (f r)"
  shows "strict_move s (s\<lparr>strict_actions := sql_update P f (strict_actions s)\<rparr>)"
  unfolding strict_move_def
  by (simp, rule strict_queue.move_update [OF assms(1) [unfolded strict_ok_def]]) (use assms(2-4) in auto)

lemma strict_move_set_token:
  assumes "strict_ok s" and "\<And>r. strict_key (f r) = strict_key r"
    and "\<And>r m. P r \<Longrightarrow> strict_lease (f r) = Some m \<Longrightarrow>
      strict_lease r = Some m \<and> strict_available (f r) = strict_available r"
    and "\<And>r. P r \<Longrightarrow> strict_row_ok (next_token s) r \<Longrightarrow> strict_row_ok (next_token s + 1) (f r)"
  shows "strict_move s (s\<lparr>strict_actions := sql_update P f (strict_actions s),
    next_token := next_token s + 1\<rparr>)"
  unfolding strict_move_def
  by (simp, rule strict_queue.move_update [OF assms(1) [unfolded strict_ok_def]]) (use assms(2-4) in auto)

lemma strict_move_delete:
  assumes "strict_ok s" and "next_token s \<le> next_token t"
    and "strict_actions t = sql_delete P (strict_actions s)"
  shows "strict_move s t"
  using strict_queue.move_delete assms by (simp add: strict_move_def strict_ok_def)

lemma strict_as_db_range: "strict_as_db a \<in> {''ban'', ''mute''}"
  by (cases a) simp_all

lemma lease_strict_move:
  assumes "strict_ok s" and "row_at strict_key (strict_actions s) k = Some r"
    and "strict_terminal r = None" and "\<not> strict_awaiting r"
  shows "strict_move s (lease_strict until k s)"
  using strict_queue.move_grab assms
  by (simp add: strict_move_def strict_ok_def lease_strict_def)

section \<open>Every operation is a move\<close>

definition violation_in_range :: "strict_violation \<Rightarrow> bool" where
  "violation_in_range v \<longleftrightarrow> 0 \<le> v_limit v \<and> v_limit v \<le> u32_max \<and>
     0 \<le> v_day v \<and> 0 \<le> v_expiry_days v \<and> \<not> is_some_and (\<lambda>d. d < 0) (v_duration v)"

lemma count_strike_frame:
  assumes "count_strike v s = Some (t, n)"
  shows "strict_actions t = strict_actions s" and "next_token t = next_token s"
  using assms upsert_counter_frame(1,5) by (fastforce simp: count_strike_def split: if_splits)+

lemma new_strict_row_ok:
  assumes "0 < v_limit v" and "v_limit v \<le> i32_max" and "strict_duration_check v"
  shows "strict_row_ok (n + 1) (new_strict v now n)"
  using assms strict_as_db_range [of "v_action v"]
  by (auto simp: strict_row_ok_def new_strict_def strict_duration_check_def split: option.splits)

lemma increment_existing_move:
  assumes ok: "strict_ok s" and "0 < v_limit v" and "v_limit v \<le> i32_max"
  shows "strict_move s (fst (increment_existing v now r s))"
proof -
  let ?k = "(v_chat v, v_user v)"
  have same: "strict_move s s" using ok by (rule strict_move_env) simp_all
  have revive: "strict_move s (s\<lparr>strict_actions :=
      sql_update (\<lambda>q. strict_key q = ?k \<and> strict_terminal q \<noteq> None)
        (revive_strict v now (next_token s)) (strict_actions s), next_token := next_token s + 1\<rparr>)"
    if "strict_duration_check v"
    by (rule strict_move_set_token [OF ok])
      (use assms that strict_as_db_range [of "v_action v"] in
        \<open>auto simp: revive_strict_def strict_key_def strict_row_ok_def strict_duration_check_def
           split: option.splits\<close>)
  have resume: "strict_move s (s\<lparr>strict_actions := sql_update (\<lambda>q. strict_key q = ?k \<and>
      strict_awaiting q \<and> strict_lease q = None \<and> strict_terminal q = None)
      (resume_strict_row now) (strict_actions s)\<rparr>)"
    by (rule strict_move_set [OF ok])
      (auto simp: resume_strict_row_def strict_key_def strict_row_ok_def)
  show ?thesis using same revive resume by (simp add: increment_existing_def Let_def)
qed

lemma increment_new_move:
  assumes ok: "strict_ok s" and "0 < v_limit v" and "v_limit v \<le> i32_max"
    and absent: "row_at strict_key (strict_actions s) (v_chat v, v_user v) = None"
  shows "strict_move s (fst (increment_new v now s))"
proof (cases "count_strike v s")
  case None
  then show ?thesis using strict_move_env [OF ok, of s] by (simp add: increment_new_def)
next
  case (Some p)
  obtain t n where p: "p = (t, n)" by fastforce
  note fr = count_strike_frame [OF Some [unfolded p]]
  have same: "strict_move s s" and counted: "strict_move s t"
    using strict_move_env [OF ok] fr by simp_all
  have insert: "strict_move s (t\<lparr>strict_actions :=
      sql_insert (new_strict v now (next_token t)) (strict_actions t), next_token := next_token t + 1\<rparr>)"
    if "strict_duration_check v"
  proof -
    have "queue_move strict_key strict_lease strict_available strict_row_ok (next_token s)
        (strict_actions s) (next_token s + 1)
        (sql_insert (new_strict v now (next_token s)) (strict_actions s))"
      by (rule strict_queue.move_insert [OF ok [unfolded strict_ok_def]])
        (use absent new_strict_row_ok [OF assms(2,3) that] in \<open>simp_all add: new_strict_def strict_key_def\<close>)
    then show ?thesis using fr by (simp add: strict_move_def)
  qed
  show ?thesis using Some p same counted insert
    by (auto simp: increment_new_def split: sum.splits)
qed

lemma increment_strict_move:
  assumes "strict_ok s" and "violation_in_range v"
  shows "strict_move s (fst (increment_strict v now s))"
  using assms strict_move_env [OF assms(1), of s]
  by (auto simp: increment_strict_def violation_in_range_def not_less
      intro: increment_existing_move increment_new_move split: option.split)

lemma claim_strict_action_move:
  assumes "strict_ok s"
  shows "strict_move s (fst (claim_strict_action c u now until s))"
  using strict_move_env [OF assms, of s] lease_strict_move [OF assms]
  by (auto simp: claim_strict_action_def strict_claimable_def split: option.split)

lemma row_at_lease_strict:
  "row_at strict_key (strict_actions (lease_strict until k s)) j =
     (if j = k then map_option (lease_strict_row until (next_token s))
                      (row_at strict_key (strict_actions s) k)
      else row_at strict_key (strict_actions s) j)"
  by (simp add: lease_strict_def row_at_update_key)

lemma due_strict_rows:
  assumes "strict_ok s" and "r \<in> set (due_strict cls locked now limit s)"
  shows "row_at strict_key (strict_actions s) (strict_key r) = Some r \<and> strict_claimable now r \<and>
    strict_in_class cls r \<and> \<not> locked (strict_key r)"
  using strict_queue.page_rows [OF assms(1) [unfolded strict_ok_def] assms(2) [unfolded due_strict_def]]
  by simp

lemma claim_pending_strict_actions_move:
  assumes "strict_ok s" and "arranges arrange"
  shows "strict_move s (fst (claim_pending_strict_actions cls locked arrange now until limit s))"
proof -
  let ?rs = "arrange (due_strict cls locked now limit s)"
  have "distinct (map strict_key ?rs)"
    using strict_queue.page_distinct [OF assms(1) [unfolded strict_ok_def]]
    by (simp add: due_strict_def arranges_distinct [OF assms(2)])
  moreover have "\<forall>r \<in> set ?rs. row_at strict_key (strict_actions s) (strict_key r) = Some r \<and>
      strict_terminal r = None \<and> \<not> strict_awaiting r"
    using due_strict_rows [OF assms(1)] by (auto simp: arranges_set [OF assms(2)] strict_claimable_def)
  ultimately show ?thesis
    using strict_queue.move_lease_rows [OF assms(1) [unfolded strict_ok_def]]
    by (simp add: claim_pending_strict_actions_def strict_move_def split_beta Let_def)
qed

text \<open>The four settlements as one operation, for statements about all of them.\<close>

datatype strict_verdict =
    DeferStrict seconds utext
  | AwaitStrict utext
  | CompleteStrict
  | BuryStrict seconds utext

fun settle_strict :: "strict_verdict \<Rightarrow> pending_strict \<Rightarrow> store \<Rightarrow> store \<times> bool" where
  "settle_strict (DeferStrict at reason) p s = defer_strict_action p at reason s"
| "settle_strict (AwaitStrict reason) p s = await_strict_rejoin p reason s"
| "settle_strict CompleteStrict p s = complete_strict_action p s"
| "settle_strict (BuryStrict at reason) p s = dead_letter_strict_action p at reason s"

lemma settle_strict_move:
  assumes ok: "strict_ok s"
  shows "strict_move s (fst (settle_strict w p s))"
proof (cases w)
  case (DeferStrict at reason)
  show ?thesis unfolding DeferStrict settle_strict.simps defer_strict_action_def fst_conv
    by (rule strict_move_set [OF ok])
      (auto simp: strict_key_def strict_row_ok_def strict_held_def)
next
  case (AwaitStrict reason)
  show ?thesis unfolding AwaitStrict settle_strict.simps await_strict_rejoin_def fst_conv
    by (rule strict_move_set [OF ok])
      (auto simp: strict_key_def strict_row_ok_def strict_held_def)
next
  case CompleteStrict
  show ?thesis unfolding CompleteStrict
    by (rule strict_move_delete [OF ok])
      (auto simp: complete_strict_action_def Let_def)
next
  case (BuryStrict at reason)
  show ?thesis unfolding BuryStrict settle_strict.simps dead_letter_strict_action_def fst_conv
    by (rule strict_move_set [OF ok])
      (auto simp: strict_key_def strict_row_ok_def strict_held_def)
qed

lemma resume_strict_on_rejoin_move:
  assumes "strict_ok s"
  shows "strict_move s (fst (resume_strict_on_rejoin c u now s))"
  unfolding resume_strict_on_rejoin_def fst_conv
  by (rule strict_move_set [OF assms])
    (auto simp: resume_strict_row_def strict_key_def strict_row_ok_def strict_parked_def)

lemma purge_strict_moves:
  assumes "strict_ok s"
  shows "strict_move s (fst (purge_strict_dead_letters locked before limit s))"
    and "strict_move s (fst (purge_parked_strict_actions locked before limit s))"
  by (rule strict_move_delete [OF assms];
      simp add: purge_strict_dead_letters_def purge_parked_strict_actions_def purge_page_def Let_def)+

lemma strict_forget_move:
  assumes "strict_ok s"
  shows "strict_move s (forget_chat_rows c s)"
  by (rule strict_move_delete [OF assms]) (simp_all add: forget_chat_rows_def)

section \<open>Steps of the program\<close>

text \<open>
  One step is any operation of the queue with any arguments, the forgetting of a chat, or anything
  else the program does: the rest of it never writes this table, and may draw tokens.
\<close>

inductive strict_step :: "store \<Rightarrow> store \<Rightarrow> bool" where
  strict_violate: "violation_in_range v \<Longrightarrow> strict_step s (fst (increment_strict v now s))"
| strict_claim: "strict_step s (fst (claim_strict_action c u now until s))"
| strict_claim_due: "arranges arrange \<Longrightarrow>
    strict_step s (fst (claim_pending_strict_actions cls locked arrange now until limit s))"
| strict_settle: "strict_step s (fst (settle_strict w p s))"
| strict_resume: "strict_step s (fst (resume_strict_on_rejoin c u now s))"
| strict_purge_dead: "strict_step s (fst (purge_strict_dead_letters locked before limit s))"
| strict_purge_parked: "strict_step s (fst (purge_parked_strict_actions locked before limit s))"
| strict_forget: "strict_step s (forget_chat_rows c s)"
| strict_other: "strict_actions t = strict_actions s \<Longrightarrow> next_token s \<le> next_token t \<Longrightarrow>
    strict_step s t"

lemma strict_step_move: "strict_step s t \<Longrightarrow> strict_ok s \<Longrightarrow> strict_move s t"
proof (induction rule: strict_step.induct)
  case (strict_other t s)
  then show ?case by (blast intro: strict_move_env)
qed (simp_all add: increment_strict_move claim_strict_action_move claim_pending_strict_actions_move
      settle_strict_move resume_strict_on_rejoin_move purge_strict_moves strict_forget_move)

abbreviation strict_lease_at :: "store \<Rightarrow> member \<Rightarrow> int option" where
  "strict_lease_at s \<equiv> lease_at strict_key strict_lease (strict_actions s)"

abbreviation strict_due_at :: "store \<Rightarrow> member \<Rightarrow> seconds option" where
  "strict_due_at s \<equiv> due_at strict_key strict_available (strict_actions s)"

interpretation strict_fence:
  fenced_store strict_lease_at strict_due_at next_token strict_ok strict_step
  by (rule fenced_store_of_moves [OF strict_ok_leases])
    (auto dest: strict_step_move strict_move_ok simp: strict_move_def queue_move_lease)

section \<open>What claims and settlements do\<close>

lemma decode_strict_fields:
  assumes "decode_pending_strict r = Inr p"
  shows "p_key p = strict_key r" and "strict_lease r = Some (p_lease p)"
    and "strict_terminal r = None \<Longrightarrow> strict_held p r"
    and "p_attempts p = strict_attempts r" and "p_until p = strict_until r"
    and "p_duration p = strict_duration r" and "p_awaiting p = strict_awaiting r"
  using assms
  by (auto simp: decode_pending_strict_def p_key_def strict_key_def strict_held_def
      strict_from_db_def split: if_splits sum.splits option.splits)

lemma strict_row_decodes:
  assumes "strict_row_ok n r" and "strict_attempts r \<le> u32_max" and "strict_lease r = Some m"
  shows "\<exists>p. decode_pending_strict r = Inr p"
proof -
  have "\<not> is_some_and (\<lambda>d. d < 0) (strict_duration r)"
    using assms(1) by (auto simp: strict_row_ok_def is_some_and_iff)
  moreover have "0 \<le> strict_threshold r \<and> strict_threshold r \<le> u32_max \<and> strict_threshold r \<noteq> 0"
    using assms(1) by (auto simp: strict_row_ok_def int_bounds)
  moreover have "\<exists>a. strict_from_db (strict_action r) = Inr a"
    using assms(1) by (auto simp: strict_row_ok_def strict_from_db_def)
  ultimately show ?thesis using assms
    by (auto simp: decode_pending_strict_def strict_row_ok_def)
qed

lemma claim_strict_action_Some:
  assumes ok: "strict_ok s" and claim: "claim_strict_action c u now until s = (t, Inr (Some p))"
  shows "p_key p = (c, u)" and "p_lease p = next_token s" and "next_token t = next_token s + 1"
    and "strict_lease_at t (c, u) = Some (p_lease p)" and "strict_due_at t (c, u) = Some until"
    and "strict_ok t" and "strict_action_is_current p t"
proof -
  from claim obtain r where r: "row_at strict_key (strict_actions s) (c, u) = Some r"
    and cl: "strict_claimable now r" and t: "t = lease_strict until (c, u) s"
    and dec: "decode_pending_strict (lease_strict_row until (next_token s) r) = Inr p"
    by (auto simp: claim_strict_action_def split: option.splits if_splits sum.splits)
  have key: "strict_key r = (c, u)" using r row_at_Some by fastforce
  have row: "row_at strict_key (strict_actions t) (c, u) =
      Some (lease_strict_row until (next_token s) r)"
    by (simp add: t row_at_lease_strict r)
  note f = decode_strict_fields [OF dec]
  show kp: "p_key p = (c, u)" using f(1) key by simp
  show "p_lease p = next_token s" using f(2) by (simp add: lease_strict_row_def)
  show "next_token t = next_token s + 1" by (simp add: t lease_strict_def)
  show "strict_lease_at t (c, u) = Some (p_lease p)" using row f(2) by (simp add: lease_at_def)
  show "strict_due_at t (c, u) = Some until" using row by (simp add: due_at_def lease_strict_row_def)
  show okt: "strict_ok t"
    using claim_strict_action_move [OF ok, of c u now until] claim strict_move_ok by simp
  have "strict_held p (lease_strict_row until (next_token s) r)"
    using f(3) cl by (simp add: lease_strict_row_def strict_claimable_def)
  with row cl kp show "strict_action_is_current p t"
    unfolding strict_action_is_current_def
    by (subst sql_exists_key [OF strict_ok_unique [OF okt]])
      (simp add: lease_strict_row_def strict_claimable_def)
qed

lemma strict_hit_lease:
  assumes "strict_ok s" and "strict_hit p s"
  shows "strict_lease_at s (p_key p) = Some (p_lease p)"
  using assms by (auto simp: strict_hit_def sql_exists_key [OF strict_ok_unique] strict_held_def
      lease_at_def)

lemma strict_current_hit: "strict_action_is_current p s \<Longrightarrow> strict_hit p s"
  by (auto simp: strict_action_is_current_def strict_hit_def sql_exists_def list_ex_iff)

text \<open>A handle whose token is not on its row settles nothing.\<close>

lemma settle_strict_stale:
  assumes ok: "strict_ok s" and stale: "strict_lease_at s (p_key p) \<noteq> Some (p_lease p)"
  shows "settle_strict w p s = (s, False)"
proof -
  note none = stale_selects_nothing [where lease = strict_lease, OF strict_ok_unique [OF ok] stale]
  have "\<not> strict_hit p s" "\<not> strict_action_is_current p s"
    using none(3) [where H = "strict_held p"]
      none(3) [where H = "\<lambda>r. strict_held p r \<and> \<not> strict_awaiting r"]
    by (auto simp: strict_hit_def strict_action_is_current_def strict_held_def)
  moreover have "sql_update (\<lambda>r. strict_key r = p_key p \<and> strict_held p r) f (strict_actions s) =
      strict_actions s" for f
    by (rule none(1)) (simp add: strict_held_def)
  moreover have "sql_delete (\<lambda>r. strict_key r = p_key p \<and> strict_held p r \<and> \<not> strict_awaiting r)
      (strict_actions s) = strict_actions s"
    by (rule none(2)) (simp add: strict_held_def)
  ultimately show ?thesis
    by (cases w) (auto simp: defer_strict_action_def await_strict_rejoin_def
        dead_letter_strict_action_def complete_strict_action_def Let_def)
qed

text \<open>A settlement that succeeds takes the token off the row.\<close>

lemma settle_strict_releases:
  assumes ok: "strict_ok s" and settled: "settle_strict w p s = (t, True)"
  shows "strict_hit p s" and "strict_lease_at t (p_key p) = None"
proof -
  show hit: "strict_hit p s"
    using settled strict_current_hit
    by (cases w) (auto simp: defer_strict_action_def await_strict_rejoin_def
        dead_letter_strict_action_def complete_strict_action_def Let_def)
  from hit obtain r where r: "row_at strict_key (strict_actions s) (p_key p) = Some r"
    "strict_held p r"
    by (auto simp: strict_hit_def sql_exists_key [OF strict_ok_unique [OF ok]])
  have cur: "w = CompleteStrict \<Longrightarrow> \<not> strict_awaiting r"
    using settled r by (auto simp: complete_strict_action_def Let_def strict_action_is_current_def
        sql_exists_key [OF strict_ok_unique [OF ok]])
  note release = lease_at_release [where P = "strict_held p" and lease = strict_lease, OF r]
  show "strict_lease_at t (p_key p) = None"
  proof (cases w)
    case CompleteStrict
    with settled have "strict_actions t = sql_delete (\<lambda>q. strict_key q = p_key p \<and>
        strict_held p q \<and> \<not> strict_awaiting q) (strict_actions s)"
      by (auto simp: complete_strict_action_def Let_def)
    then show ?thesis
      using lease_at_removed [OF strict_ok_unique [OF ok] r(1), of
          "\<lambda>q. strict_held p q \<and> \<not> strict_awaiting q"] r(2) cur CompleteStrict by simp
  qed (use settled in \<open>auto simp: defer_strict_action_def await_strict_rejoin_def
      dead_letter_strict_action_def intro!: release\<close>)
qed

section \<open>Examples\<close>

definition example_strict_row :: strict_row where
  "example_strict_row = \<lparr>strict_chat = -100, strict_user = 7, strict_action = ''ban'',
     strict_duration = None, strict_until = 0, strict_threshold = 3, strict_target = [65],
     strict_wipe = False, strict_created = 10, strict_available = 10, strict_attempts = 0,
     strict_generation = 4, strict_version = 1, strict_lease = None, strict_awaiting = False,
     strict_terminal = None, strict_error = None\<rparr>"

definition example_store :: store where
  "example_store = \<lparr>counters = [(blank_counter (-100, 7))\<lparr>strikes := 3, struck := 100\<rparr>],
     counter_rows = 1, strict_actions = [example_strict_row], warn_actions = [], captchas = [],
     captcha_rows = 0, next_token = 5, max_counter_rows = None, max_captcha_rows = None\<rparr>"

definition example_handle :: pending_strict where
  "example_handle = \<lparr>p_chat = -100, p_user = 7, p_action = StrictBan, p_duration = None,
     p_until = 0, p_threshold = 3, p_target = [65], p_wipe = False, p_awaiting = False,
     p_attempts = 1, p_generation = 4, p_version = 2, p_lease = 5\<rparr>"

lemma example_store_ok: "strict_ok example_store"
  by (simp add: strict_ok_def queue_ok_def leases_ok_def lease_at_def example_store_def example_strict_row_def
      strict_row_ok_def unique_key_def row_at_Cons int_bounds)

lemma example_claim:
  "claim_strict_action (-100) 7 20 80 example_store =
     (lease_strict 80 (-100, 7) example_store, Inr (Some example_handle))"
  by (simp add: claim_strict_action_def example_store_def example_strict_row_def row_at_Cons
      strict_key_def strict_claimable_def decode_pending_strict_def lease_strict_row_def
      strict_from_db_def int_bounds example_handle_def)

lemma example_complete:
  "settle_strict CompleteStrict example_handle (lease_strict 80 (-100, 7) example_store) =
     (example_store\<lparr>strict_actions := [], next_token := 6,
        counters := [blank_counter (-100, 7)]\<rparr>, True)"
  by (simp add: complete_strict_action_def Let_def strict_action_is_current_def sql_exists_def
      lease_strict_def example_store_def example_strict_row_def lease_strict_row_def sql_update_def
      sql_delete_def strict_key_def p_key_def example_handle_def strict_held_def
      counter_key_def blank_counter_def)

section \<open>Properties\<close>

text \<open>
  C3: a claim is settled at most once. Take a claim's handle; once it has settled its row, in
  whatever way, or once another worker has claimed the row, no later settlement with that handle
  succeeds, whatever the rest of the program does in between, and the attempt changes nothing.
\<close>

theorem strict_claim_settled_once:
  assumes "strict_ok s" and "claim_strict_action c u now until s = (s1, Inr (Some p))"
    and "strict_step\<^sup>*\<^sup>* s1 s2"
    and "settle_strict w p s2 = (s3, True) \<or>
      (\<exists>now' until' q. claim_strict_action c u now' until' s2 = (s3, Inr (Some q)))"
    and "strict_step\<^sup>*\<^sup>* s3 s4"
  shows "settle_strict w' p s4 = (s4, False)"
proof -
  note cl = claim_strict_action_Some [OF assms(1,2)]
  have ok2: "strict_ok s2" using strict_fence.ok_steps [OF assms(3) cl(6)] .
  have drawn: "p_lease p < next_token s2"
    using strict_fence.sequence_steps [OF assms(3) cl(6)] cl(2,3) by simp
  have "strict_ok s3 \<and> p_lease p < next_token s3 \<and> strict_lease_at s3 (c, u) \<noteq> Some (p_lease p)"
    using assms(4)
  proof
    assume w: "settle_strict w p s2 = (s3, True)"
    then have mv: "strict_move s2 s3" using settle_strict_move [OF ok2, of w p] by simp
    then have "next_token s2 \<le> next_token s3" unfolding strict_move_def by (rule queue_move_le)
    with settle_strict_releases(2) [OF ok2 w] strict_move_ok [OF mv] cl(1) drawn show ?thesis by simp
  next
    assume "\<exists>now' until' q. claim_strict_action c u now' until' s2 = (s3, Inr (Some q))"
    then obtain now' until' q where "claim_strict_action c u now' until' s2 = (s3, Inr (Some q))"
      by blast
    with claim_strict_action_Some(2,3,4,6) [OF ok2 this] drawn show ?thesis by auto
  qed
  with strict_fence.stale_forever [OF assms(5)] strict_fence.ok_steps [OF assms(5)] cl(1)
  show ?thesis by (intro settle_strict_stale) auto
qed

theorem strict_claim_settled_once_witness:
  "settle_strict (DeferStrict 100 []) example_handle
     (example_store\<lparr>strict_actions := [], next_token := 6, counters := [blank_counter (-100, 7)]\<rparr>) =
   (example_store\<lparr>strict_actions := [], next_token := 6, counters := [blank_counter (-100, 7)]\<rparr>, False)"
  by (rule strict_claim_settled_once [OF example_store_ok example_claim rtranclp.rtrancl_refl
        disjI1 [OF example_complete] rtranclp.rtrancl_refl])

text \<open>
  While a claim's lease is in place and has not run out, nobody else gets the row: a claim of
  the member returns nothing, and no batch of due work contains it.
\<close>

theorem strict_lease_excludes_others:
  assumes "strict_ok s" and "claim_strict_action c u now until s = (s1, Inr (Some p))"
    and "strict_step\<^sup>*\<^sup>* s1 s2" and "strict_action_is_current p s2" and "now' < until"
  shows "claim_strict_action c u now' until' s2 = (s2, Inr None) \<and>
    (c, u) \<notin> strict_key ` set (due_strict cls locked now' limit s2)"
proof -
  note cl = claim_strict_action_Some [OF assms(1,2)]
  have ok2: "strict_ok s2" using strict_fence.ok_steps [OF assms(3) cl(6)] .
  have held: "strict_lease_at s2 (c, u) = Some (p_lease p)"
    using strict_hit_lease [OF ok2 strict_current_hit [OF assms(4)]] cl(1) by simp
  then have "strict_due_at s2 (c, u) = Some until"
    using strict_fence.due_while_leased [OF assms(3) cl(6) cl(4)] cl(5) by simp
  with held obtain r where r: "row_at strict_key (strict_actions s2) (c, u) = Some r"
    "strict_available r = until"
    by (auto simp: lease_at_def due_at_def bind_eq_Some_conv)
  with assms(5) have busy: "\<not> strict_claimable now' r" by (simp add: strict_claimable_def)
  have "(c, u) \<noteq> strict_key q" if "q \<in> set (due_strict cls locked now' limit s2)" for q
    using due_strict_rows [OF ok2 that] r(1) busy by auto
  with r(1) busy show ?thesis by (auto simp: claim_strict_action_def)
qed

theorem strict_lease_excludes_others_witness:
  "claim_strict_action (-100) 7 79 139 (lease_strict 80 (-100, 7) example_store) =
     (lease_strict 80 (-100, 7) example_store, Inr None) \<and>
   (-100, 7) \<notin> strict_key ` set (due_strict StrictRetry (\<lambda>k. False) 79 64
     (lease_strict 80 (-100, 7) example_store))"
  by (rule strict_lease_excludes_others [OF example_store_ok example_claim rtranclp.rtrancl_refl])
    (simp_all add: claim_strict_action_Some(7) [OF example_store_ok example_claim])

text \<open>What \<open>count_strike\<close> leaves in the counters.\<close>

lemma count_strike_at:
  assumes "count_strike v s = Some (t, n)" and "v_limit v \<noteq> 1"
  shows "\<exists>c. row_at counter_key (counters t) (v_chat v, v_user v) = Some c \<and> strikes c = n"
proof -
  have b: "counter_key (strict_bump v r) = counter_key r" for r by (simp add: strict_bump_def)
  have i: "counter_key (strict_today v r) = counter_key r" for r by (simp add: strict_today_def)
  from assms obtain r where "upsert_counter (v_chat v, v_user v) (strict_today v) (strict_bump v) s =
      Some (t, r)" "n = strikes r"
    by (auto simp: count_strike_def split: if_splits)
  with upsert_counter_at [OF this(1) i b] show ?thesis by simp
qed

lemma new_strict_key [simp]: "strict_key (new_strict v now n) = (v_chat v, v_user v)"
  by (simp add: new_strict_def strict_key_def)

lemma revive_strict_key [simp]: "strict_key (revive_strict v now n r) = strict_key r"
  by (simp add: revive_strict_def)

lemma resume_strict_key [simp]: "strict_key (resume_strict_row now r) = strict_key r"
  by (simp add: resume_strict_row_def)

lemma active_increment_Some:
  "active_increment n = Inr (Some i) \<Longrightarrow> inc_intent i = ActiveIntent"
  "active_increment n \<noteq> Inr None"
  by (auto simp: active_increment_def warning_count_def split: if_splits)

lemma increment_new_outcome:
  assumes "increment_new v now s = (t, Inr (Some i))"
    and "row_at strict_key (strict_actions s) (v_chat v, v_user v) = None"
  shows "(case inc_intent i of
      ActiveIntent \<Rightarrow>
        row_at strict_key (strict_actions t) (v_chat v, v_user v) =
          Some (new_strict v now (next_token s)) \<and> v_limit v \<le> inc_count i
    | NoIntent \<Rightarrow>
        row_at strict_key (strict_actions t) (v_chat v, v_user v) = None \<and>
        inc_count i < v_limit v \<and>
        (v_limit v = 1 \<or> (\<exists>c. row_at counter_key (counters t) (v_chat v, v_user v) = Some c \<and>
           strikes c = inc_count i)))"
    and "j \<noteq> (v_chat v, v_user v) \<Longrightarrow>
      row_at strict_key (strict_actions t) j = row_at strict_key (strict_actions s) j"
proof -
  from assms(1) obtain s1 raw where cs: "count_strike v s = Some (s1, raw)"
    by (auto simp: increment_new_def split: option.splits)
  note fr = count_strike_frame [OF cs]
  show "case inc_intent i of
      ActiveIntent \<Rightarrow>
        row_at strict_key (strict_actions t) (v_chat v, v_user v) =
          Some (new_strict v now (next_token s)) \<and> v_limit v \<le> inc_count i
    | NoIntent \<Rightarrow>
        row_at strict_key (strict_actions t) (v_chat v, v_user v) = None \<and>
        inc_count i < v_limit v \<and>
        (v_limit v = 1 \<or> (\<exists>c. row_at counter_key (counters t) (v_chat v, v_user v) = Some c \<and>
           strikes c = inc_count i))"
    using assms cs fr count_strike_at [OF cs]
    by (auto simp: increment_new_def row_at_insert warning_count_def split: if_splits)
  show "j \<noteq> (v_chat v, v_user v) \<Longrightarrow>
      row_at strict_key (strict_actions t) j = row_at strict_key (strict_actions s) j"
    using assms cs fr
    by (auto simp: increment_new_def row_at_insert warning_count_def split: if_splits option.splits)
qed

lemma increment_existing_outcome:
  assumes ok: "strict_ok s" and run: "increment_existing v now r s = (t, Inr (Some i))"
    and r: "row_at strict_key (strict_actions s) (v_chat v, v_user v) = Some r"
  shows "inc_intent i = ActiveIntent"
    and "\<exists>q. row_at strict_key (strict_actions t) (v_chat v, v_user v) = Some q \<and>
      strict_terminal q = None \<and> \<not> strict_awaiting q"
    and "j \<noteq> (v_chat v, v_user v) \<Longrightarrow>
      row_at strict_key (strict_actions t) j = row_at strict_key (strict_actions s) j"
proof -
  have rok: "strict_row_ok (next_token s) r" using strict_ok_row [OF ok r] by simp
  show "inc_intent i = ActiveIntent"
    using run active_increment_Some by (auto simp: increment_existing_def Let_def split: if_splits)
  show "\<exists>q. row_at strict_key (strict_actions t) (v_chat v, v_user v) = Some q \<and>
      strict_terminal q = None \<and> \<not> strict_awaiting q"
    using run r rok by (auto simp: increment_existing_def Let_def row_at_update_key(2)
        revive_strict_def resume_strict_row_def strict_row_ok_def split: if_splits)
  show "j \<noteq> (v_chat v, v_user v) \<Longrightarrow>
      row_at strict_key (strict_actions t) j = row_at strict_key (strict_actions s) j"
    using run by (auto simp: increment_existing_def Let_def row_at_update_key(2) split: if_splits)
qed

text \<open>
  C4: a violation and the punishment it earns are one transaction. A result with an active
  intent means the member has a live pending row (neither dead nor parked); a result without one
  means there is no pending row, the count is below the threshold and is what the counters now
  hold; no other member's row changes; and a violation that is not admitted leaves the whole
  store as it was, its strike included.
\<close>

theorem strict_violation_is_atomic:
  assumes "strict_ok s" and "violation_in_range v" and "increment_strict v now s = (t, Inr out)"
  shows "case out of
      None \<Rightarrow> t = s
    | Some i \<Rightarrow>
        (case inc_intent i of
           ActiveIntent \<Rightarrow> (\<exists>r. row_at strict_key (strict_actions t) (v_chat v, v_user v) = Some r \<and>
             strict_terminal r = None \<and> \<not> strict_awaiting r)
         | NoIntent \<Rightarrow> row_at strict_key (strict_actions t) (v_chat v, v_user v) = None \<and>
             inc_count i < v_limit v \<and>
             (\<exists>c. row_at counter_key (counters t) (v_chat v, v_user v) = Some c \<and>
                strikes c = inc_count i)) \<and>
        (\<forall>j. j = (v_chat v, v_user v) \<or>
           row_at strict_key (strict_actions t) j = row_at strict_key (strict_actions s) j)"
proof (cases "row_at strict_key (strict_actions s) (v_chat v, v_user v)")
  case None
  then have run: "increment_new v now s = (t, Inr out)"
    using assms(3) by (auto simp: increment_strict_def split: if_splits)
  show ?thesis
  proof (cases out)
    case None
    with run show ?thesis
      by (auto simp: increment_new_def split: option.splits sum.splits if_splits)
  next
    case (Some i)
    note o = increment_new_outcome [OF run [unfolded Some] None]
    have low: "v_limit v = 1 \<Longrightarrow> inc_intent i = ActiveIntent"
      using run Some by (auto simp: increment_new_def count_strike_def split: if_splits)
    show ?thesis
    proof (cases "inc_intent i")
      case NoIntent
      with o low Some show ?thesis by simp blast
    next
      case ActiveIntent
      with o Some show ?thesis by (auto simp: new_strict_def)
    qed
  qed
next
  case (Some r)
  then have run: "increment_existing v now r s = (t, Inr out)"
    using assms(3) by (auto simp: increment_strict_def split: if_splits)
  obtain i where i: "out = Some i"
    using run active_increment_Some(2)
    by (cases out) (auto simp: increment_existing_def Let_def split: if_splits)
  note o = increment_existing_outcome [OF assms(1) run [unfolded i] Some]
  show ?thesis using o i by auto
qed

definition example_violation :: strict_violation where
  "example_violation = \<lparr>v_chat = -100, v_user = 8, v_day = 20000, v_expiry_days = 7, v_limit = 2,
     v_action = StrictMute, v_duration = Some 60, v_until = 90, v_target = [66], v_wipe = False\<rparr>"

theorem strict_violation_is_atomic_witness:
  "\<exists>t. increment_strict example_violation 30 example_store =
      (t, Inr (Some \<lparr>inc_count = 1, inc_intent = NoIntent\<rparr>)) \<and>
    row_at strict_key (strict_actions t) (-100, 8) = None"
proof -
  have run: "increment_strict example_violation 30 example_store =
      (example_store\<lparr>counters := counters example_store @
         [(blank_counter (-100, 8))\<lparr>strikes := 1, struck := 20000\<rparr>], counter_rows := 2\<rparr>,
       Inr (Some \<lparr>inc_count = 1, inc_intent = NoIntent\<rparr>))"
    by (simp add: increment_strict_def example_violation_def example_store_def
        example_strict_row_def row_at_Cons strict_key_def increment_new_def count_strike_def
        upsert_counter_def counter_key_def blank_counter_def counter_admitted_def
        counter_limit_def sql_count_def max_counter_rows_per_chat_def strict_today_def
        saturating_postgres_i64_def warning_count_def int_bounds sql_insert_def)
  have "violation_in_range example_violation"
    by (simp add: violation_in_range_def example_violation_def int_bounds)
  from strict_violation_is_atomic [OF example_store_ok this run] run show ?thesis
    by (simp add: example_violation_def)
qed

text \<open>
  completing a claim removes the pending row and wipes the member's strikes together, and
  touches nobody else; a completion that is not current changes nothing. The answer is true
  exactly when the claim is current.
\<close>

theorem strict_completion_resets_strikes:
  assumes "strict_ok s" and "complete_strict_action p s = (t, b)"
  shows "b = strict_action_is_current p s \<and>
    (if b then row_at strict_key (strict_actions t) (p_key p) = None \<and>
       row_at counter_key (counters t) (p_key p) =
         map_option (\<lambda>c. c\<lparr>strikes := 0, struck := 0\<rparr>) (row_at counter_key (counters s) (p_key p)) \<and>
       (\<forall>j. j = p_key p \<or>
         row_at strict_key (strict_actions t) j = row_at strict_key (strict_actions s) j \<and>
         row_at counter_key (counters t) j = row_at counter_key (counters s) j)
     else t = s)"
proof -
  have b: "b = strict_action_is_current p s"
    using assms(2) by (auto simp: complete_strict_action_def Let_def)
  show ?thesis
  proof (cases b)
    case True
    with b obtain r where r: "row_at strict_key (strict_actions s) (p_key p) = Some r"
      "strict_held p r" "\<not> strict_awaiting r"
      by (auto simp: strict_action_is_current_def sql_exists_key [OF strict_ok_unique [OF assms(1)]])
    have "t = s\<lparr>strict_actions := sql_delete (\<lambda>r. strict_key r = p_key p \<and> strict_held p r \<and>
        \<not> strict_awaiting r) (strict_actions s),
      counters := sql_update (\<lambda>r. counter_key r = p_key p) (\<lambda>r. r\<lparr>strikes := 0, struck := 0\<rparr>)
        (counters s)\<rparr>"
      using assms(2) b True by (simp add: complete_strict_action_def)
    with r b True show ?thesis
      by (simp add: row_at_delete_key [OF strict_ok_unique [OF assms(1)]] row_at_update_key)
  next
    case False
    with b have "sql_delete (\<lambda>r. strict_key r = p_key p \<and> strict_held p r \<and> \<not> strict_awaiting r)
        (strict_actions s) = strict_actions s"
      by (intro sql_delete_none) (auto simp: strict_action_is_current_def sql_exists_def list_ex_iff)
    with False b assms(2) show ?thesis
      by (auto simp: complete_strict_action_def Let_def)
  qed
qed

theorem strict_completion_resets_strikes_witness:
  "complete_strict_action example_handle example_store = (example_store, False)"
proof -
  obtain t b where run: "complete_strict_action example_handle example_store = (t, b)"
    by fastforce
  have "\<not> strict_action_is_current example_handle example_store"
    by (simp add: strict_action_is_current_def sql_exists_def example_store_def strict_held_def
        example_strict_row_def)
  with strict_completion_resets_strikes [OF example_store_ok run] run show ?thesis by simp
qed

lemma lease_strict_decodes:
  assumes "strict_row_ok n r" and "strict_claimable now r" and "strict_attempts r < u32_max"
  shows "\<exists>p. decode_pending_strict (lease_strict_row until m r) = Inr p \<and>
    p_key p = strict_key r \<and> p_lease p = m"
proof -
  have "strict_row_ok (max n m) (lease_strict_row until m r)"
    using assms by (auto simp: strict_row_ok_def lease_strict_row_def strict_claimable_def)
  with strict_row_decodes [OF this, of m] assms(3) obtain p where
    p: "decode_pending_strict (lease_strict_row until m r) = Inr p"
    by (auto simp: lease_strict_row_def)
  from decode_strict_fields(1,2) [OF this] p show ?thesis by (auto simp: lease_strict_row_def)
qed

text \<open>
  no claimed work is lost to decoding. While attempt counts are below \<open>u32::MAX\<close>, a batch
  claim always returns its handles, one for each due row, at most 64, no member twice, with
  consecutive tokens of the sequence.
\<close>

theorem strict_batch_hands_out_every_row:
  assumes "strict_ok s" and "arranges arrange"
    and "\<forall>r \<in> set (strict_actions s). strict_attempts r < u32_max"
  shows "\<exists>t ps. claim_pending_strict_actions cls locked arrange now until limit s = (t, Inr ps) \<and>
    mset (map p_key ps) = mset (map strict_key (due_strict cls locked now limit s)) \<and>
    length ps \<le> 64 \<and> distinct (map p_key ps) \<and>
    map p_lease ps = [next_token s..next_token s + int (length ps) - 1]"
proof -
  let ?due = "due_strict cls locked now limit s"
  have "\<exists>p. decode_pending_strict (lease_strict_row until m r) = Inr p \<and>
      p_key p = strict_key r \<and> p_lease p = m" if "r \<in> set (arrange ?due)" for r m
  proof -
    from that have "r \<in> set ?due" by (simp add: arranges_set [OF assms(2)])
    note row = due_strict_rows [OF assms(1) this]
    then have "r \<in> set (strict_actions s)" by (blast dest: row_at_Some)
    with row assms(3) strict_ok_row [OF assms(1)] show ?thesis
      by (intro lease_strict_decodes [of "next_token s"]) blast+
  qed
  from lease_rows_handles [where decode = decode_pending_strict and grab = "lease_strict_row until"
      and pkey = p_key and key = strict_key and token = p_lease, OF this] obtain ps where
    ps: "collect_results (map decode_pending_strict (snd (snd (lease_rows strict_key
        (lease_strict_row until) (arrange ?due) (next_token s) (strict_actions s))))) = Inr ps"
    "map p_key ps = map strict_key (arrange ?due)"
    "map p_lease ps = [next_token s..next_token s + int (length (arrange ?due)) - 1]"
    by blast
  have len: "length ps = length (arrange ?due)" using ps(2) by (metis length_map)
  have "length ?due \<le> 64"
    unfolding due_strict_def by (rule order_trans [OF sql_page_length nat_clamp_le(1)])
  moreover have "distinct (map strict_key ?due)"
    using strict_queue.page_distinct [OF assms(1) [unfolded strict_ok_def]] by (simp add: due_strict_def)
  ultimately show ?thesis
    using ps len arranges_mset_map [OF assms(2), of strict_key ?due]
    by (simp add: claim_pending_strict_actions_def split_beta Let_def arranges_distinct [OF assms(2)]
        arranges_length [OF assms(2)] del: mset_map)
qed

theorem strict_batch_hands_out_every_row_witness:
  "\<exists>t ps. claim_pending_strict_actions StrictFresh (\<lambda>k. False) rev 20 80 64 example_store = (t, Inr ps) \<and>
    mset (map p_key ps) = mset (map strict_key (due_strict StrictFresh (\<lambda>k. False) 20 64 example_store)) \<and>
    length ps \<le> 64 \<and> distinct (map p_key ps) \<and>
    map p_lease ps = [next_token example_store..next_token example_store + int (length ps) - 1]"
  by (rule strict_batch_hands_out_every_row [OF example_store_ok])
    (simp_all add: example_store_def example_strict_row_def int_bounds arranges_def)

text \<open>
  A purge of parked actions removes at most 256 rows, all of them parked, unleased and old
  enough, reports their number, leaves every other row alone, and takes the oldest first; a purge
  of dead letters does the same with the rows that were buried long enough ago.
\<close>

theorem strict_purge_removes_only_old_rows:
  assumes "strict_ok s"
    and "if dead then purge_strict_dead_letters locked before limit s = (t, n)
         else purge_parked_strict_actions locked before limit s = (t, n)"
  shows "n \<le> 256 \<and> length (strict_actions s) = length (strict_actions t) + n \<and>
    (\<forall>k r. row_at strict_key (strict_actions s) k = Some r \<longrightarrow>
       row_at strict_key (strict_actions t) k = Some r \<or>
       row_at strict_key (strict_actions t) k = None \<and> \<not> locked k \<and>
         (if dead then \<exists>at. strict_terminal r = Some at \<and> at \<le> before
          else strict_parked r \<and> strict_available r \<le> before \<and>
            (\<forall>q \<in> set (strict_actions t). strict_parked q \<and> strict_available q \<le> before \<and>
               \<not> locked (strict_key q) \<longrightarrow> strict_available r \<le> strict_available q)))"
proof -
  define P where "P r \<longleftrightarrow> (if dead then strict_dead_before before r
      else strict_parked r \<and> strict_available r \<le> before) \<and> \<not> locked (strict_key r)" for r
  define ord where "ord r = (if dead then strict_terminal_order r
      else (strict_available r, strict_chat r, strict_user r))" for r
  have run: "purge_page strict_key P ord (nat (clamp 1 256 limit)) (strict_actions s) =
      (strict_actions t, n)"
    using assms(2) by (cases dead) (auto simp: purge_strict_dead_letters_def
        purge_parked_strict_actions_def P_def [abs_def] ord_def [abs_def] split: prod.splits)
  note spec = purge_page_spec [OF strict_ok_unique [OF assms(1)] run]
  have "row_at strict_key (strict_actions t) k = Some r \<or>
       row_at strict_key (strict_actions t) k = None \<and> \<not> locked k \<and>
         (if dead then \<exists>at. strict_terminal r = Some at \<and> at \<le> before
          else strict_parked r \<and> strict_available r \<le> before \<and>
            (\<forall>q \<in> set (strict_actions t). strict_parked q \<and> strict_available q \<le> before \<and>
               \<not> locked (strict_key q) \<longrightarrow> strict_available r \<le> strict_available q))"
    if "row_at strict_key (strict_actions s) k = Some r" for k r
    using spec(3) [OF that] row_at_Some [OF that]
    by (auto simp: P_def ord_def strict_dead_before_def is_some_and_iff less_eq_prod_def)
  with spec(1,2) nat_clamp_le(2) [of limit] show ?thesis by (auto intro: order_trans)
qed

theorem strict_purge_removes_only_old_rows_witness:
  "row_at strict_key (strict_actions (fst (purge_parked_strict_actions (\<lambda>k. False) 100 10
     example_store))) (-100, 7) = Some example_strict_row"
proof -
  obtain t n where run: "purge_parked_strict_actions (\<lambda>k. False) 100 10 example_store = (t, n)"
    by fastforce
  have "row_at strict_key (strict_actions example_store) (-100, 7) = Some example_strict_row"
    by (simp add: example_store_def example_strict_row_def row_at_Cons strict_key_def)
  moreover have "\<not> strict_parked example_strict_row"
    by (simp add: strict_parked_def example_strict_row_def)
  ultimately show ?thesis
    using strict_purge_removes_only_old_rows [of example_store False "\<lambda>k. False" 100 10 t n,
        OF example_store_ok] run by auto
qed

end
