(* ===== verification/WarningQueue.thy ===== *)
theory WarningQueue
  imports StrictQueue "HOL-Library.Word"
begin

text \<open>
  Warnings and the queue of warning punishments, \<open>src/src/state.rs\<close>: counting a warning, taking one
  back, and the pending action the last warning leaves, with the same claims and settlements as
  the strict queue but no dead letters: a punishment that cannot be carried out is terminated.
  Also the advisory lock that orders parking a punishment against the member's return.
\<close>

unbundle bit_operations_syntax

section \<open>The advisory lock of a member\<close>

text \<open>\<open>from_ne_bytes(to_ne_bytes)\<close> reinterprets an \<open>i64\<close> as a \<open>u64\<close>: both are the same word.\<close>

type_synonym u64 = "64 word"

definition durable_member_rejoin_key :: "u64 \<Rightarrow> u64 \<Rightarrow> u64" where
  "durable_member_rejoin_key chat user =
     (chat * 0x9e3779b97f4a7c15) XOR (word_rotl 29 user * 0xbf58476d1ce4e5b9)"

section \<open>Penalties and handles\<close>

datatype warning_penalty = WarnBan | WarnMute

fun penalty_as_db :: "warning_penalty \<Rightarrow> string" where
  "penalty_as_db WarnBan = ''ban''"
| "penalty_as_db WarnMute = ''mute''"

definition penalty_from_db :: "string \<Rightarrow> warning_penalty outcome" where
  "penalty_from_db v =
     (if v = ''ban'' then Inr WarnBan
      else if v = ''mute'' then Inr WarnMute
      else Inl (Protocol ''invalid pending warning penalty''))"

lemma penalty_codec [codec_simps]: "penalty_from_db (penalty_as_db a) = Inr a"
  by (cases a) (simp_all add: penalty_from_db_def)

record warning_increment =
  warn_count :: int
  warn_pending :: "warning_penalty option"
  warn_added :: bool

record pending_warning =
  pw_chat :: chat_id
  pw_user :: user_id
  pw_penalty :: warning_penalty
  pw_attempts :: int
  pw_awaiting :: bool
  pw_generation :: int
  pw_version :: int
  pw_lease :: int

datatype warning_class = WarnFresh | WarnRetry

definition decode_pending_warning :: "warn_row \<Rightarrow> pending_warning outcome" where
  "decode_pending_warning r =
     (case penalty_from_db (warn_penalty r) of
        Inl e \<Rightarrow> Inl e
      | Inr a \<Rightarrow>
          if \<not> (0 \<le> warn_attempts r \<and> warn_attempts r \<le> u32_max)
          then Inl (Protocol ''negative warning attempt count'')
          else
            (case warn_lease r of
               None \<Rightarrow> Inl (Protocol ''unexpected null'')
             | Some n \<Rightarrow>
                 Inr \<lparr>pw_chat = warn_chat r, pw_user = warn_user r, pw_penalty = a,
                   pw_attempts = warn_attempts r, pw_awaiting = warn_awaiting r,
                   pw_generation = warn_generation r, pw_version = warn_version r, pw_lease = n\<rparr>))"

section \<open>Counting warnings\<close>

definition warns_of :: "chat_id \<Rightarrow> user_id \<Rightarrow> store \<Rightarrow> int outcome" where
  "warns_of c u s =
     (case row_at counter_key (counters s) (c, u) of
        None \<Rightarrow> Inr 0
      | Some r \<Rightarrow> warning_count (warns r))"

definition first_warning :: "counter_row \<Rightarrow> counter_row" where
  "first_warning r = r\<lparr>warns := 1\<rparr>"

definition one_more_warning :: "counter_row \<Rightarrow> counter_row" where
  "one_more_warning r = r\<lparr>warns := warns r + 1\<rparr>"

definition new_warning_action ::
  "chat_id \<Rightarrow> user_id \<Rightarrow> warning_penalty \<Rightarrow> seconds \<Rightarrow> int \<Rightarrow> warn_row" where
  "new_warning_action c u pen now n = \<lparr>warn_chat = c, warn_user = u,
     warn_penalty = penalty_as_db pen, warn_created = now, warn_claimed_until = now,
     warn_attempts = 0, warn_generation = n, warn_version = 1, warn_lease = None,
     warn_awaiting = False, warn_error = None\<rparr>"

text \<open>
  A member with a pending action gets no further warning. Otherwise the warning is counted and,
  from the limit on, the penalty is queued (ON CONFLICT DO NOTHING: there is no row to conflict
  with, since the one transaction just looked).
\<close>

definition increment_warning ::
  "chat_id \<Rightarrow> user_id \<Rightarrow> int \<Rightarrow> warning_penalty \<Rightarrow> seconds \<Rightarrow> store \<Rightarrow>
     store \<times> warning_increment outcome" where
  "increment_warning c u limit pen now s =
     (case row_at warn_key (warn_actions s) (c, u) of
        Some r \<Rightarrow>
          (s, case warning_count (case row_at counter_key (counters s) (c, u) of
                                    None \<Rightarrow> 0 | Some q \<Rightarrow> warns q) of
                Inl e \<Rightarrow> Inl e
              | Inr n \<Rightarrow>
                  (case penalty_from_db (warn_penalty r) of
                     Inl e \<Rightarrow> Inl e
                   | Inr stored \<Rightarrow>
                       Inr \<lparr>warn_count = n, warn_pending = Some stored, warn_added = False\<rparr>))
      | None \<Rightarrow>
          (case upsert_counter (c, u) first_warning one_more_warning s of
             None \<Rightarrow> (s, Inl (Protocol ''counter row capacity reached while adding warning''))
           | Some (t, row) \<Rightarrow>
               (case warning_count (warns row) of
                  Inl e \<Rightarrow> (s, Inl e)
                | Inr n \<Rightarrow>
                    if n < limit
                    then (t, Inr \<lparr>warn_count = n, warn_pending = None, warn_added = True\<rparr>)
                    else (t\<lparr>warn_actions := sql_insert
                              (new_warning_action c u pen now (next_token t)) (warn_actions t),
                            next_token := next_token t + 1\<rparr>,
                          Inr \<lparr>warn_count = n, warn_pending = Some pen, warn_added = True\<rparr>))))"

definition decrement_warning :: "chat_id \<Rightarrow> user_id \<Rightarrow> store \<Rightarrow> store \<times> int outcome" where
  "decrement_warning c u s =
     (let t = s\<lparr>warn_actions := sql_delete (\<lambda>r. warn_key r = (c, u)) (warn_actions s),
                counters := sql_update (\<lambda>r. counter_key r = (c, u))
                  (\<lambda>r. r\<lparr>warns := max (warns r - 1) 0\<rparr>) (counters s)\<rparr>
      in (t, case row_at counter_key (counters t) (c, u) of
               None \<Rightarrow> Inr 0
             | Some r \<Rightarrow> warning_count (warns r)))"

section \<open>Claims\<close>

definition lease_warn_row :: "seconds \<Rightarrow> int \<Rightarrow> warn_row \<Rightarrow> warn_row" where
  "lease_warn_row until n r = r\<lparr>warn_claimed_until := until, warn_attempts := warn_attempts r + 1,
     warn_version := warn_version r + 1, warn_lease := Some n\<rparr>"

definition lease_warn :: "seconds \<Rightarrow> member \<Rightarrow> store \<Rightarrow> store" where
  "lease_warn until k s = s\<lparr>
     warn_actions := sql_update (\<lambda>q. warn_key q = k)
       (lease_warn_row until (next_token s)) (warn_actions s),
     next_token := next_token s + 1\<rparr>"

definition warn_claimable :: "seconds \<Rightarrow> warn_row \<Rightarrow> bool" where
  "warn_claimable now r \<longleftrightarrow> \<not> warn_awaiting r \<and> warn_claimed_until r \<le> now"

definition claim_warning_action ::
  "chat_id \<Rightarrow> user_id \<Rightarrow> seconds \<Rightarrow> seconds \<Rightarrow> store \<Rightarrow> store \<times> pending_warning option outcome" where
  "claim_warning_action c u now until s =
     (case row_at warn_key (warn_actions s) (c, u) of
        None \<Rightarrow> (s, Inr None)
      | Some r \<Rightarrow>
          if warn_claimable now r
          then (lease_warn until (c, u) s,
                map_sum id Some (decode_pending_warning (lease_warn_row until (next_token s) r)))
          else (s, Inr None))"

fun warn_in_class :: "warning_class \<Rightarrow> warn_row \<Rightarrow> bool" where
  "warn_in_class WarnFresh r \<longleftrightarrow> warn_attempts r = 0"
| "warn_in_class WarnRetry r \<longleftrightarrow> 0 < warn_attempts r"

definition warn_order :: "warn_row \<Rightarrow> seconds \<times> int \<times> seconds \<times> chat_id \<times> user_id" where
  "warn_order r = (warn_claimed_until r, warn_attempts r, warn_created r, warn_chat r, warn_user r)"

definition due_warnings ::
  "warning_class \<Rightarrow> (member \<Rightarrow> bool) \<Rightarrow> seconds \<Rightarrow> int \<Rightarrow> store \<Rightarrow> warn_row list" where
  "due_warnings cls locked now limit s =
     sql_page (\<lambda>r. warn_in_class cls r \<and> warn_claimable now r \<and> \<not> locked (warn_key r))
       warn_order (nat (clamp 1 64 limit)) (warn_actions s)"

definition claim_pending_warning_actions ::
  "warning_class \<Rightarrow> (member \<Rightarrow> bool) \<Rightarrow> (warn_row list \<Rightarrow> warn_row list) \<Rightarrow> seconds \<Rightarrow> seconds \<Rightarrow>
     int \<Rightarrow> store \<Rightarrow> store \<times> pending_warning list outcome" where
  "claim_pending_warning_actions cls locked arrange now until limit s =
     (let (n, t, rows) = lease_rows warn_key (lease_warn_row until)
            (arrange (due_warnings cls locked now limit s)) (next_token s) (warn_actions s)
      in (s\<lparr>warn_actions := t, next_token := n\<rparr>,
          collect_results (map decode_pending_warning rows)))"

section \<open>Settlements\<close>

definition warn_held :: "pending_warning \<Rightarrow> warn_row \<Rightarrow> bool" where
  "warn_held p r \<longleftrightarrow> warn_penalty r = penalty_as_db (pw_penalty p) \<and>
     warn_generation r = pw_generation p \<and> warn_version r = pw_version p \<and>
     warn_lease r = Some (pw_lease p) \<and> warn_attempts r = pw_attempts p"

definition pw_key :: "pending_warning \<Rightarrow> member" where
  "pw_key p = (pw_chat p, pw_user p)"

definition warning_action_is_current :: "pending_warning \<Rightarrow> store \<Rightarrow> bool" where
  "warning_action_is_current p s \<longleftrightarrow>
     sql_exists (\<lambda>r. warn_key r = pw_key p \<and> warn_held p r) (warn_actions s)"

definition defer_warning_action ::
  "pending_warning \<Rightarrow> seconds \<Rightarrow> utext \<Rightarrow> store \<Rightarrow> store \<times> bool" where
  "defer_warning_action p retry_at reason s =
     (s\<lparr>warn_actions := sql_update (\<lambda>r. warn_key r = pw_key p \<and> warn_held p r)
         (\<lambda>r. r\<lparr>warn_claimed_until := retry_at, warn_lease := None, warn_awaiting := False,
                warn_error := Some (bounded_warning_error reason)\<rparr>) (warn_actions s)\<rparr>,
      warning_action_is_current p s)"

definition await_warning_rejoin :: "pending_warning \<Rightarrow> utext \<Rightarrow> store \<Rightarrow> store \<times> bool" where
  "await_warning_rejoin p reason s =
     (s\<lparr>warn_actions := sql_update (\<lambda>r. warn_key r = pw_key p \<and> warn_held p r)
         (\<lambda>r. r\<lparr>warn_awaiting := True, warn_lease := None,
                warn_error := Some (bounded_warning_error reason)\<rparr>) (warn_actions s)\<rparr>,
      warning_action_is_current p s)"

definition awaits_rejoin :: "chat_id \<Rightarrow> user_id \<Rightarrow> store \<Rightarrow> bool" where
  "awaits_rejoin c u s \<longleftrightarrow>
     sql_exists (\<lambda>r. warn_key r = (c, u) \<and> warn_awaiting r) (warn_actions s) \<or>
     sql_exists (\<lambda>r. strict_key r = (c, u) \<and> strict_awaiting r) (strict_actions s)"

definition warn_stale :: "seconds \<Rightarrow> warn_row \<Rightarrow> bool" where
  "warn_stale before r \<longleftrightarrow> warn_lease r = None \<and>
     (warn_awaiting r \<and> warn_claimed_until r \<le> before \<or>
      \<not> warn_awaiting r \<and> 0 < warn_attempts r \<and> warn_created r \<le> before)"

definition purge_stale_warning_actions ::
  "(member \<Rightarrow> bool) \<Rightarrow> seconds \<Rightarrow> int \<Rightarrow> store \<Rightarrow> store \<times> nat" where
  "purge_stale_warning_actions locked before limit s =
     (let (t, n) = purge_page warn_key (\<lambda>r. warn_stale before r \<and> \<not> locked (warn_key r))
            (\<lambda>r. (warn_created r, warn_chat r, warn_user r))
            (nat (clamp 1 256 limit)) (warn_actions s)
      in (s\<lparr>warn_actions := t\<rparr>, n))"

definition warn_parked :: "warn_row \<Rightarrow> bool" where
  "warn_parked r \<longleftrightarrow> warn_awaiting r \<and> warn_lease r = None"

definition resume_warning_on_rejoin ::
  "chat_id \<Rightarrow> user_id \<Rightarrow> seconds \<Rightarrow> store \<Rightarrow> store \<times> bool" where
  "resume_warning_on_rejoin c u now s =
     (s\<lparr>warn_actions := sql_update (\<lambda>r. warn_key r = (c, u) \<and> warn_parked r)
         (\<lambda>r. r\<lparr>warn_awaiting := False, warn_claimed_until := now, warn_error := None\<rparr>)
         (warn_actions s)\<rparr>,
      sql_exists (\<lambda>r. warn_key r = (c, u) \<and> warn_parked r) (warn_actions s))"

definition complete_warning_action :: "pending_warning \<Rightarrow> store \<Rightarrow> store \<times> bool" where
  "complete_warning_action p s =
     (let removed = warning_action_is_current p s;
          rest = sql_delete (\<lambda>r. warn_key r = pw_key p \<and> warn_held p r) (warn_actions s)
      in (if removed
          then s\<lparr>warn_actions := rest,
                 counters := sql_update (\<lambda>r. counter_key r = pw_key p)
                   (\<lambda>r. r\<lparr>warns := 0\<rparr>) (counters s)\<rparr>
          else s\<lparr>warn_actions := rest\<rparr>, removed))"

definition terminate_warning_action :: "pending_warning \<Rightarrow> store \<Rightarrow> store \<times> bool" where
  "terminate_warning_action p s =
     (s\<lparr>warn_actions := sql_delete (\<lambda>r. warn_key r = pw_key p \<and> warn_held p r) (warn_actions s)\<rparr>,
      warning_action_is_current p s)"

section \<open>The invariant of the queue\<close>

definition warn_row_ok :: "int \<Rightarrow> warn_row \<Rightarrow> bool" where
  "warn_row_ok n r \<longleftrightarrow> warn_penalty r \<in> {''ban'', ''mute''} \<and> 0 \<le> warn_attempts r \<and>
     0 < warn_version r \<and> warn_generation r < n \<and> (warn_awaiting r \<longrightarrow> warn_lease r = None)"

definition warn_ok :: "store \<Rightarrow> bool" where
  "warn_ok s \<longleftrightarrow> queue_ok warn_key warn_lease warn_row_ok (next_token s) (warn_actions s)"

definition warn_move :: "store \<Rightarrow> store \<Rightarrow> bool" where
  "warn_move s t \<longleftrightarrow>
     queue_move warn_key warn_lease warn_claimed_until warn_row_ok
       (next_token s) (warn_actions s) (next_token t) (warn_actions t)"

lemma lease_warn_row_key [simp]: "warn_key (lease_warn_row until n r) = warn_key r"
  by (simp add: lease_warn_row_def)

interpretation warn_queue: leased_queue warn_key warn_lease warn_claimed_until warn_row_ok
  "\<lambda>r. \<not> warn_awaiting r" lease_warn_row
  by unfold_locales (auto simp: lease_warn_row_def warn_row_ok_def)

lemma warn_move_ok: "warn_move s t \<Longrightarrow> warn_ok t"
  unfolding warn_move_def warn_ok_def by (rule queue_move_ok)

lemma warn_ok_leases:
  "warn_ok s \<Longrightarrow> leases_ok warn_key warn_lease (next_token s) (warn_actions s)"
  unfolding warn_ok_def by (rule queue_ok_leases)

lemma warn_ok_unique: "warn_ok s \<Longrightarrow> unique_key warn_key (warn_actions s)"
  unfolding warn_ok_def by (rule queue_ok_unique)

lemma warn_ok_row:
  "warn_ok s \<Longrightarrow> row_at warn_key (warn_actions s) k = Some r \<Longrightarrow>
     warn_row_ok (next_token s) r \<and> warn_key r = k"
  unfolding warn_ok_def by (rule queue_ok_row)

lemma warn_move_env:
  assumes "warn_ok s" and "warn_actions t = warn_actions s" and "next_token s \<le> next_token t"
  shows "warn_move s t"
  using warn_queue.move_env assms by (simp add: warn_move_def warn_ok_def)

lemma warn_move_set:
  assumes "warn_ok s" and "\<And>r. warn_key (f r) = warn_key r"
    and "\<And>r m. P r \<Longrightarrow> warn_lease (f r) = Some m \<Longrightarrow>
      warn_lease r = Some m \<and> warn_claimed_until (f r) = warn_claimed_until r"
    and "\<And>r. P r \<Longrightarrow> warn_row_ok (next_token s) r \<Longrightarrow> warn_row_ok (next_token s) (f r)"
  shows "warn_move s (s\<lparr>warn_actions := sql_update P f (warn_actions s)\<rparr>)"
  unfolding warn_move_def
  by (simp, rule warn_queue.move_update [OF assms(1) [unfolded warn_ok_def]]) (use assms(2-4) in auto)

lemma warn_move_delete:
  assumes "warn_ok s" and "next_token s \<le> next_token t"
    and "warn_actions t = sql_delete P (warn_actions s)"
  shows "warn_move s t"
  using warn_queue.move_delete assms by (simp add: warn_move_def warn_ok_def)

lemma lease_warn_move:
  assumes "warn_ok s" and "row_at warn_key (warn_actions s) k = Some r" and "\<not> warn_awaiting r"
  shows "warn_move s (lease_warn until k s)"
  using warn_queue.move_grab assms by (simp add: warn_move_def warn_ok_def lease_warn_def)

section \<open>Every operation is a move\<close>

lemma penalty_as_db_range: "penalty_as_db a \<in> {''ban'', ''mute''}"
  by (cases a) simp_all

lemma first_warning_key [simp]: "counter_key (first_warning r) = counter_key r"
  by (simp add: first_warning_def)

lemma one_more_warning_key [simp]: "counter_key (one_more_warning r) = counter_key r"
  by (simp add: one_more_warning_def)

lemma new_warning_action_key [simp]: "warn_key (new_warning_action c u pen now n) = (c, u)"
  by (simp add: new_warning_action_def warn_key_def)

lemma increment_warning_move:
  assumes ok: "warn_ok s"
  shows "warn_move s (fst (increment_warning c u limit pen now s))"
proof (cases "row_at warn_key (warn_actions s) (c, u)")
  case (Some r)
  then show ?thesis using warn_move_env [OF ok, of s] by (simp add: increment_warning_def)
next
  case None
  have same: "warn_move s s" by (rule warn_move_env [OF ok]) simp_all
  show ?thesis
  proof (cases "upsert_counter (c, u) first_warning one_more_warning s")
    case None': None
    with None same show ?thesis by (simp add: increment_warning_def)
  next
    case (Some p)
    obtain t row where p: "p = (t, row)" by fastforce
    note fr = upsert_counter_frame(2,5) [OF Some [unfolded p]]
    have counted: "warn_move s t" using warn_move_env [OF ok] fr by simp
    have "queue_move warn_key warn_lease warn_claimed_until warn_row_ok (next_token s)
        (warn_actions s) (next_token s + 1)
        (sql_insert (new_warning_action c u pen now (next_token s)) (warn_actions s))"
      by (rule warn_queue.move_insert [OF ok [unfolded warn_ok_def]])
        (use None penalty_as_db_range [of pen] in
          \<open>simp_all add: new_warning_action_def warn_key_def warn_row_ok_def\<close>)
    then have queued: "warn_move s (t\<lparr>warn_actions := sql_insert
        (new_warning_action c u pen now (next_token t)) (warn_actions t),
        next_token := next_token t + 1\<rparr>)"
      using fr by (simp add: warn_move_def)
    show ?thesis using None Some p same counted queued
      by (auto simp: increment_warning_def split: sum.splits)
  qed
qed

lemma decrement_warning_move:
  assumes "warn_ok s"
  shows "warn_move s (fst (decrement_warning c u s))"
  by (rule warn_move_delete [OF assms]) (simp_all add: decrement_warning_def Let_def)

lemma claim_warning_action_move:
  assumes "warn_ok s"
  shows "warn_move s (fst (claim_warning_action c u now until s))"
  using warn_move_env [OF assms, of s] lease_warn_move [OF assms]
  by (auto simp: claim_warning_action_def warn_claimable_def split: option.split)

lemma row_at_lease_warn:
  "row_at warn_key (warn_actions (lease_warn until k s)) j =
     (if j = k then map_option (lease_warn_row until (next_token s))
                      (row_at warn_key (warn_actions s) k)
      else row_at warn_key (warn_actions s) j)"
  by (simp add: lease_warn_def row_at_update_key)

lemma due_warnings_rows:
  assumes "warn_ok s" and "r \<in> set (due_warnings cls locked now limit s)"
  shows "row_at warn_key (warn_actions s) (warn_key r) = Some r \<and> warn_claimable now r \<and>
    warn_in_class cls r \<and> \<not> locked (warn_key r)"
  using warn_queue.page_rows [OF assms(1) [unfolded warn_ok_def] assms(2) [unfolded due_warnings_def]]
  by simp

lemma claim_pending_warning_actions_move:
  assumes "warn_ok s" and "arranges arrange"
  shows "warn_move s (fst (claim_pending_warning_actions cls locked arrange now until limit s))"
proof -
  let ?rs = "arrange (due_warnings cls locked now limit s)"
  have "distinct (map warn_key ?rs)"
    using warn_queue.page_distinct [OF assms(1) [unfolded warn_ok_def]]
    by (simp add: due_warnings_def arranges_distinct [OF assms(2)])
  moreover have "\<forall>r \<in> set ?rs. row_at warn_key (warn_actions s) (warn_key r) = Some r \<and>
      \<not> warn_awaiting r"
    using due_warnings_rows [OF assms(1)] by (auto simp: arranges_set [OF assms(2)] warn_claimable_def)
  ultimately show ?thesis
    using warn_queue.move_lease_rows [OF assms(1) [unfolded warn_ok_def]]
    by (simp add: claim_pending_warning_actions_def warn_move_def split_beta Let_def)
qed

text \<open>The four settlements as one operation.\<close>

datatype warn_verdict =
    DeferWarning seconds utext
  | AwaitWarning utext
  | CompleteWarning
  | TerminateWarning

fun settle_warning :: "warn_verdict \<Rightarrow> pending_warning \<Rightarrow> store \<Rightarrow> store \<times> bool" where
  "settle_warning (DeferWarning at reason) p s = defer_warning_action p at reason s"
| "settle_warning (AwaitWarning reason) p s = await_warning_rejoin p reason s"
| "settle_warning CompleteWarning p s = complete_warning_action p s"
| "settle_warning TerminateWarning p s = terminate_warning_action p s"

lemma settle_warning_move:
  assumes ok: "warn_ok s"
  shows "warn_move s (fst (settle_warning w p s))"
proof (cases w)
  case (DeferWarning at reason)
  show ?thesis unfolding DeferWarning settle_warning.simps defer_warning_action_def fst_conv
    by (rule warn_move_set [OF ok]) (auto simp: warn_key_def warn_row_ok_def)
next
  case (AwaitWarning reason)
  show ?thesis unfolding AwaitWarning settle_warning.simps await_warning_rejoin_def fst_conv
    by (rule warn_move_set [OF ok]) (auto simp: warn_key_def warn_row_ok_def)
qed (rule warn_move_delete [OF ok];
     simp add: complete_warning_action_def terminate_warning_action_def Let_def)+

lemma resume_warning_on_rejoin_move:
  assumes "warn_ok s"
  shows "warn_move s (fst (resume_warning_on_rejoin c u now s))"
  unfolding resume_warning_on_rejoin_def fst_conv
  by (rule warn_move_set [OF assms]) (auto simp: warn_key_def warn_row_ok_def warn_parked_def)

lemma purge_stale_warning_actions_move:
  assumes "warn_ok s"
  shows "warn_move s (fst (purge_stale_warning_actions locked before limit s))"
  by (rule warn_move_delete [OF assms])
    (simp_all add: purge_stale_warning_actions_def purge_page_def Let_def)

lemma warn_forget_move:
  assumes "warn_ok s"
  shows "warn_move s (forget_chat_rows c s)"
  by (rule warn_move_delete [OF assms]) (simp_all add: forget_chat_rows_def)

section \<open>Steps of the program\<close>

inductive warn_step :: "store \<Rightarrow> store \<Rightarrow> bool" where
  warn_add: "warn_step s (fst (increment_warning c u limit pen now s))"
| warn_take_back: "warn_step s (fst (decrement_warning c u s))"
| warn_claim: "warn_step s (fst (claim_warning_action c u now until s))"
| warn_claim_due: "arranges arrange \<Longrightarrow>
    warn_step s (fst (claim_pending_warning_actions cls locked arrange now until limit s))"
| warn_settle: "warn_step s (fst (settle_warning w p s))"
| warn_resume: "warn_step s (fst (resume_warning_on_rejoin c u now s))"
| warn_purge: "warn_step s (fst (purge_stale_warning_actions locked before limit s))"
| warn_forget: "warn_step s (forget_chat_rows c s)"
| warn_other: "warn_actions t = warn_actions s \<Longrightarrow> next_token s \<le> next_token t \<Longrightarrow> warn_step s t"

lemma warn_step_move: "warn_step s t \<Longrightarrow> warn_ok s \<Longrightarrow> warn_move s t"
proof (induction rule: warn_step.induct)
  case (warn_other t s)
  then show ?case by (blast intro: warn_move_env)
qed (simp_all add: increment_warning_move decrement_warning_move claim_warning_action_move
      claim_pending_warning_actions_move settle_warning_move resume_warning_on_rejoin_move
      purge_stale_warning_actions_move warn_forget_move)

abbreviation warn_lease_at :: "store \<Rightarrow> member \<Rightarrow> int option" where
  "warn_lease_at s \<equiv> lease_at warn_key warn_lease (warn_actions s)"

abbreviation warn_due_at :: "store \<Rightarrow> member \<Rightarrow> seconds option" where
  "warn_due_at s \<equiv> due_at warn_key warn_claimed_until (warn_actions s)"

interpretation warn_fence: fenced_store warn_lease_at warn_due_at next_token warn_ok warn_step
  by (rule fenced_store_of_moves [OF warn_ok_leases])
    (auto dest: warn_step_move warn_move_ok simp: warn_move_def queue_move_lease)

section \<open>What claims and settlements do\<close>

lemma decode_warning_fields:
  assumes "decode_pending_warning r = Inr p"
  shows "pw_key p = warn_key r" and "warn_lease r = Some (pw_lease p)" and "warn_held p r"
  using assms
  by (auto simp: decode_pending_warning_def pw_key_def warn_key_def warn_held_def
      penalty_from_db_def split: if_splits sum.splits option.splits)

lemma warn_held_lease: "warn_held p r \<Longrightarrow> warn_lease r = Some (pw_lease p)"
  by (simp add: warn_held_def)

lemma claim_warning_action_Some:
  assumes ok: "warn_ok s" and claim: "claim_warning_action c u now until s = (t, Inr (Some p))"
  shows "pw_key p = (c, u)" and "pw_lease p = next_token s" and "next_token t = next_token s + 1"
    and "warn_lease_at t (c, u) = Some (pw_lease p)" and "warn_due_at t (c, u) = Some until"
    and "warn_ok t" and "warning_action_is_current p t"
proof -
  from claim obtain r where r: "row_at warn_key (warn_actions s) (c, u) = Some r"
    and t: "t = lease_warn until (c, u) s"
    and dec: "decode_pending_warning (lease_warn_row until (next_token s) r) = Inr p"
    by (auto simp: claim_warning_action_def split: option.splits if_splits sum.splits)
  have key: "warn_key r = (c, u)" using r row_at_Some by fastforce
  have row: "row_at warn_key (warn_actions t) (c, u) = Some (lease_warn_row until (next_token s) r)"
    by (simp add: t row_at_lease_warn r)
  note f = decode_warning_fields [OF dec]
  show kp: "pw_key p = (c, u)" using f(1) key by simp
  show "pw_lease p = next_token s" using f(2) by (simp add: lease_warn_row_def)
  show "next_token t = next_token s + 1" by (simp add: t lease_warn_def)
  show "warn_lease_at t (c, u) = Some (pw_lease p)" using row f(2) by (simp add: lease_at_def)
  show "warn_due_at t (c, u) = Some until" using row by (simp add: due_at_def lease_warn_row_def)
  show okt: "warn_ok t"
    using claim_warning_action_move [OF ok, of c u now until] claim warn_move_ok by simp
  show "warning_action_is_current p t"
    unfolding warning_action_is_current_def
    by (subst sql_exists_key [OF warn_ok_unique [OF okt]]) (use row kp f(3) in simp)
qed

lemma warning_current_lease:
  assumes "warn_ok s" and "warning_action_is_current p s"
  shows "warn_lease_at s (pw_key p) = Some (pw_lease p)"
  by (rule held_lease [OF warn_ok_unique [OF assms(1)]
        assms(2) [unfolded warning_action_is_current_def] warn_held_lease])

text \<open>The answer of every settlement is whether the claim is current.\<close>

lemma settle_warning_answer: "snd (settle_warning w p s) = warning_action_is_current p s"
  by (cases w) (simp_all add: defer_warning_action_def await_warning_rejoin_def
      complete_warning_action_def terminate_warning_action_def Let_def)

lemma settle_warning_not_current:
  assumes "\<not> warning_action_is_current p s"
  shows "settle_warning w p s = (s, False)"
proof -
  have none: "\<not> (warn_key r = pw_key p \<and> warn_held p r)" if "r \<in> set (warn_actions s)" for r
    using assms that by (auto simp: warning_action_is_current_def sql_exists_def list_ex_iff)
  have "sql_update (\<lambda>r. warn_key r = pw_key p \<and> warn_held p r) f (warn_actions s) =
      warn_actions s" for f
    by (rule sql_update_none) (use none in blast)
  moreover have "sql_delete (\<lambda>r. warn_key r = pw_key p \<and> warn_held p r) (warn_actions s) =
      warn_actions s"
    by (rule sql_delete_none) (use none in blast)
  ultimately show ?thesis using assms
    by (cases w) (simp_all add: defer_warning_action_def await_warning_rejoin_def
        complete_warning_action_def terminate_warning_action_def Let_def)
qed

lemma settle_warning_releases:
  assumes ok: "warn_ok s" and settled: "settle_warning w p s = (t, True)"
  shows "warn_lease_at t (pw_key p) = None"
proof -
  have "warning_action_is_current p s" using settle_warning_answer [of w p s] settled by simp
  then obtain r where r: "row_at warn_key (warn_actions s) (pw_key p) = Some r" "warn_held p r"
    by (auto simp: warning_action_is_current_def sql_exists_key [OF warn_ok_unique [OF ok]])
  note release = lease_at_release [where P = "warn_held p" and lease = warn_lease, OF r]
    and removed = lease_at_removed [where P = "warn_held p", OF warn_ok_unique [OF ok] r]
  show ?thesis
    using settled removed
    by (cases w) (auto simp: defer_warning_action_def await_warning_rejoin_def
        complete_warning_action_def terminate_warning_action_def Let_def intro!: release
        split: if_splits)
qed

lemma decrement_warning_at:
  assumes "warn_ok s"
  shows "row_at warn_key (warn_actions (fst (decrement_warning c u s))) j =
      (if j = (c, u) then None else row_at warn_key (warn_actions s) j)"
    and "row_at counter_key (counters (fst (decrement_warning c u s))) j =
      (if j = (c, u) then map_option (\<lambda>r. r\<lparr>warns := max (warns r - 1) 0\<rparr>)
         (row_at counter_key (counters s) j) else row_at counter_key (counters s) j)"
proof -
  show "row_at warn_key (warn_actions (fst (decrement_warning c u s))) j =
      (if j = (c, u) then None else row_at warn_key (warn_actions s) j)"
    using row_at_delete_key [where P = "\<lambda>r. True", OF warn_ok_unique [OF assms]]
    by (simp add: decrement_warning_def Let_def split: option.splits)
  show "row_at counter_key (counters (fst (decrement_warning c u s))) j =
      (if j = (c, u) then map_option (\<lambda>r. r\<lparr>warns := max (warns r - 1) 0\<rparr>)
         (row_at counter_key (counters s) j) else row_at counter_key (counters s) j)"
    by (simp add: decrement_warning_def Let_def row_at_update_key)
qed

section \<open>Examples\<close>

definition example_warn_row :: warn_row where
  "example_warn_row = \<lparr>warn_chat = -100, warn_user = 7, warn_penalty = ''mute'',
     warn_created = 10, warn_claimed_until = 10, warn_attempts = 0, warn_generation = 5,
     warn_version = 1, warn_lease = None, warn_awaiting = False, warn_error = None\<rparr>"

definition example_warn_store :: store where
  "example_warn_store = example_store\<lparr>counters := [(blank_counter (-100, 7))\<lparr>warns := 3\<rparr>],
     strict_actions := [], warn_actions := [example_warn_row], next_token := 6\<rparr>"

definition example_warn_handle :: pending_warning where
  "example_warn_handle = \<lparr>pw_chat = -100, pw_user = 7, pw_penalty = WarnMute, pw_attempts = 1,
     pw_awaiting = False, pw_generation = 5, pw_version = 2, pw_lease = 6\<rparr>"

lemma example_warn_ok: "warn_ok example_warn_store"
  by (simp add: warn_ok_def queue_ok_def leases_ok_def lease_at_def example_warn_store_def
      example_warn_row_def warn_row_ok_def unique_key_def row_at_Cons)

lemma example_warn_claim:
  "claim_warning_action (-100) 7 20 80 example_warn_store =
     (lease_warn 80 (-100, 7) example_warn_store, Inr (Some example_warn_handle))"
  by (simp add: claim_warning_action_def example_warn_store_def example_warn_row_def row_at_Cons
      warn_key_def warn_claimable_def decode_pending_warning_def lease_warn_row_def
      penalty_from_db_def int_bounds example_warn_handle_def)

section \<open>Properties\<close>

text \<open>
  C5: taking a warning back cancels the punishment in flight. Once a moderator has taken a
  warning of the member back, or the claim has been settled, or another worker has claimed the
  row, no settlement with the old handle succeeds and the attempt changes nothing, whatever
  happens in between: a cancelled punishment can no longer reset or complete anything.
\<close>

theorem warning_claim_settled_once:
  assumes "warn_ok s" and "claim_warning_action c u now until s = (s1, Inr (Some p))"
    and "warn_step\<^sup>*\<^sup>* s1 s2"
    and "settle_warning w p s2 = (s3, True) \<or> s3 = fst (decrement_warning c u s2) \<or>
      (\<exists>now' until' q. claim_warning_action c u now' until' s2 = (s3, Inr (Some q)))"
    and "warn_step\<^sup>*\<^sup>* s3 s4"
  shows "settle_warning w' p s4 = (s4, False)"
proof -
  note cl = claim_warning_action_Some [OF assms(1,2)]
  have ok2: "warn_ok s2" using warn_fence.ok_steps [OF assms(3) cl(6)] .
  have drawn: "pw_lease p < next_token s2"
    using warn_fence.sequence_steps [OF assms(3) cl(6)] cl(2,3) by simp
  have later: "warn_ok s3 \<and> next_token s2 \<le> next_token s3" if "warn_move s2 s3"
    using that warn_move_ok queue_move_le unfolding warn_move_def by blast
  have "warn_ok s3 \<and> pw_lease p < next_token s3 \<and> warn_lease_at s3 (c, u) \<noteq> Some (pw_lease p)"
    using assms(4)
  proof (elim disjE exE)
    assume w: "settle_warning w p s2 = (s3, True)"
    with later settle_warning_move [OF ok2, of w p] settle_warning_releases [OF ok2 w] cl(1) drawn
    show ?thesis by simp
  next
    assume d: "s3 = fst (decrement_warning c u s2)"
    with later decrement_warning_move [OF ok2, of c u] drawn show ?thesis
      by (simp add: lease_at_def decrement_warning_at [OF ok2])
  next
    fix now' until' q
    assume "claim_warning_action c u now' until' s2 = (s3, Inr (Some q))"
    from claim_warning_action_Some(2,3,4,6) [OF ok2 this] drawn show ?thesis by auto
  qed
  with warn_fence.stale_forever [OF assms(5)] warn_fence.ok_steps [OF assms(5)] cl(1)
    warning_current_lease [of s4 p]
  show ?thesis by (intro settle_warning_not_current) auto
qed

theorem warning_claim_settled_once_witness:
  "settle_warning CompleteWarning example_warn_handle
     (fst (decrement_warning (-100) 7 (lease_warn 80 (-100, 7) example_warn_store))) =
   (fst (decrement_warning (-100) 7 (lease_warn 80 (-100, 7) example_warn_store)), False)"
  by (rule warning_claim_settled_once [OF example_warn_ok example_warn_claim
        rtranclp.rtrancl_refl disjI2 [OF disjI1 [OF refl]] rtranclp.rtrancl_refl])

text \<open>
  C6: a warning and the punishment it earns are one transaction. A refused warning changes
  nothing. A member whose punishment is pending is not warned again: the store stays as it is and
  the answer is the pending penalty. Otherwise the warning is counted, exactly once, and the
  penalty is queued, due at once, if and only if the count has reached the limit; nobody else's
  counter or pending action changes.
\<close>

theorem increment_warning_outcome:
  assumes "warn_ok s" and "increment_warning c u limit pen now s = (t, out)"
  shows "case out of
      Inl e \<Rightarrow> t = s
    | Inr i \<Rightarrow>
        (case row_at warn_key (warn_actions s) (c, u) of
           Some r \<Rightarrow> t = s \<and> \<not> warn_added i \<and> map_option penalty_as_db (warn_pending i) = Some (warn_penalty r)
         | None \<Rightarrow> warn_added i \<and>
             (\<exists>q. row_at counter_key (counters t) (c, u) = Some q \<and> warns q = warn_count i \<and>
                warns q = 1 + (case row_at counter_key (counters s) (c, u) of None \<Rightarrow> 0 | Some q \<Rightarrow> warns q)) \<and>
             warn_pending i = (if limit \<le> warn_count i then Some pen else None) \<and>
             row_at warn_key (warn_actions t) (c, u) =
               (if limit \<le> warn_count i then Some (new_warning_action c u pen now (next_token s))
                else None)) \<and>
        (\<forall>j. j = (c, u) \<or> row_at counter_key (counters t) j = row_at counter_key (counters s) j \<and>
           row_at warn_key (warn_actions t) j = row_at warn_key (warn_actions s) j)"
proof (cases "row_at warn_key (warn_actions s) (c, u)")
  case (Some r)
  have "map_option penalty_as_db (Some x) = Some (warn_penalty r)"
    if "penalty_from_db (warn_penalty r) = Inr x" for x
    using that by (auto simp: penalty_from_db_def split: if_splits)
  with Some assms(2) show ?thesis
    by (auto simp: increment_warning_def split: sum.splits)
next
  case None
  show ?thesis
  proof (cases "upsert_counter (c, u) first_warning one_more_warning s")
    case None': None
    with None assms(2) show ?thesis by (auto simp: increment_warning_def)
  next
    case (Some p)
    obtain s1 row where p: "p = (s1, row)" by fastforce
    note up = Some [unfolded p]
    note fr = upsert_counter_frame(2,5) [OF up]
    note at = upsert_counter_at [OF up first_warning_key one_more_warning_key]
    have n: "warns row =
        1 + (case row_at counter_key (counters s) (c, u) of None \<Rightarrow> 0 | Some q \<Rightarrow> warns q)"
      using up by (auto simp: upsert_counter_def first_warning_def one_more_warning_def
          split: option.splits if_splits)
    show ?thesis
      using assms(2) None up fr at n
      by (auto simp: increment_warning_def warning_count_def row_at_insert
          split: if_splits option.splits)
  qed
qed

theorem increment_warning_outcome_witness:
  "row_at warn_key (warn_actions (fst (increment_warning (-100) 7 3 WarnBan 20
     (example_warn_store\<lparr>warn_actions := []\<rparr>)))) (-100, 7) =
   Some (new_warning_action (-100) 7 WarnBan 20 6)"
proof -
  let ?s = "example_warn_store\<lparr>warn_actions := []\<rparr>"
  have run: "increment_warning (-100) 7 3 WarnBan 20 ?s =
      (fst (increment_warning (-100) 7 3 WarnBan 20 ?s),
       Inr \<lparr>warn_count = 4, warn_pending = Some WarnBan, warn_added = True\<rparr>)"
    by (simp add: increment_warning_def upsert_counter_def example_warn_store_def example_store_def
        row_at_Cons counter_key_def blank_counter_def one_more_warning_def warning_count_def int_bounds)
  have "warn_ok ?s"
    by (simp add: warn_ok_def queue_ok_def)
  from increment_warning_outcome [OF this run] show ?thesis
    by (simp add: example_warn_store_def)
qed

text \<open>
  what becomes of the count. Completing a claim removes the pending action and sets the
  member's warnings to zero, terminating it removes the action and leaves the count, taking a
  warning back removes the action and lowers the count by one, never below zero. Nobody else's
  rows change, and a settlement that is not current does nothing.
\<close>

theorem warning_resolution_counts:
  assumes "warn_ok s"
  shows "(let t = fst (complete_warning_action p s)
      in if warning_action_is_current p s
         then row_at warn_key (warn_actions t) =
             (row_at warn_key (warn_actions s))(pw_key p := None) \<and>
           row_at counter_key (counters t) = (row_at counter_key (counters s))(pw_key p :=
             map_option (\<lambda>r. r\<lparr>warns := 0\<rparr>) (row_at counter_key (counters s) (pw_key p)))
         else t = s) \<and>
    (let t = fst (terminate_warning_action p s)
      in if warning_action_is_current p s
         then row_at warn_key (warn_actions t) =
             (row_at warn_key (warn_actions s))(pw_key p := None) \<and> counters t = counters s
         else t = s) \<and>
    (let t = fst (decrement_warning c u s)
      in row_at warn_key (warn_actions t) = (row_at warn_key (warn_actions s))((c, u) := None) \<and>
         row_at counter_key (counters t) = (row_at counter_key (counters s))((c, u) :=
           map_option (\<lambda>r. r\<lparr>warns := max (warns r - 1) 0\<rparr>)
             (row_at counter_key (counters s) (c, u))))"
proof -
  have gone: "row_at warn_key (sql_delete (\<lambda>r. warn_key r = pw_key p \<and> warn_held p r)
      (warn_actions s)) = (row_at warn_key (warn_actions s))(pw_key p := None)"
    if "warning_action_is_current p s"
    using that by (auto simp: row_at_delete_key [OF warn_ok_unique [OF assms]] fun_eq_iff
        warning_action_is_current_def sql_exists_key [OF warn_ok_unique [OF assms]])
  have stale: "\<not> warning_action_is_current p s \<Longrightarrow> complete_warning_action p s = (s, False)"
    "\<not> warning_action_is_current p s \<Longrightarrow> terminate_warning_action p s = (s, False)"
    using settle_warning_not_current [of p s CompleteWarning]
      settle_warning_not_current [of p s TerminateWarning] by simp_all
  show ?thesis
  proof (intro conjI, goal_cases)
    case 1
    show ?case using gone stale(1)
      by (cases "warning_action_is_current p s")
        (simp_all add: complete_warning_action_def Let_def fun_eq_iff row_at_update_key)
  next
    case 2
    show ?case using gone stale(2)
      by (cases "warning_action_is_current p s")
        (simp_all add: terminate_warning_action_def Let_def)
  next
    case 3
    show ?case by (simp add: Let_def fun_eq_iff decrement_warning_at [OF assms])
  qed
qed

theorem warning_resolution_counts_witness:
  "row_at counter_key (counters (fst (decrement_warning (-100) 7 example_warn_store))) (-100, 7) =
     Some ((blank_counter (-100, 7))\<lparr>warns := 2\<rparr>) \<and>
   fst (complete_warning_action example_warn_handle example_warn_store) = example_warn_store"
proof -
  have "\<not> warning_action_is_current example_warn_handle example_warn_store"
    by (simp add: warning_action_is_current_def sql_exists_def example_warn_store_def warn_held_def
        example_warn_row_def)
  moreover have "row_at counter_key (counters example_warn_store) (-100, 7) =
      Some ((blank_counter (-100, 7))\<lparr>warns := 3\<rparr>)"
    by (simp add: example_warn_store_def row_at_Cons counter_key_def blank_counter_def)
  ultimately show ?thesis
    using warning_resolution_counts [OF example_warn_ok, of example_warn_handle "-100" 7]
    by (simp add: Let_def)
qed

text \<open>
  the clean-up never takes work that somebody holds. It removes at most 256 actions, each of
  them unleased and either parked or tried at least once and at least as old as asked; a fresh
  action that was never tried stays however old it is; the oldest go first.
\<close>

theorem warning_purge_spares_live_work:
  assumes "warn_ok s" and "purge_stale_warning_actions locked before limit s = (t, n)"
  shows "n \<le> 256 \<and> length (warn_actions s) = length (warn_actions t) + n \<and>
    (\<forall>k r. row_at warn_key (warn_actions s) k = Some r \<longrightarrow>
       row_at warn_key (warn_actions t) k = Some r \<or>
       row_at warn_key (warn_actions t) k = None \<and> \<not> locked k \<and> warn_lease r = None \<and>
         (if warn_awaiting r then warn_claimed_until r \<le> before
          else 0 < warn_attempts r \<and> warn_created r \<le> before) \<and>
         (\<forall>q \<in> set (warn_actions t). warn_stale before q \<and> \<not> locked (warn_key q) \<longrightarrow>
            warn_created r \<le> warn_created q))"
proof -
  have run: "purge_page warn_key (\<lambda>r. warn_stale before r \<and> \<not> locked (warn_key r))
      (\<lambda>r. (warn_created r, warn_chat r, warn_user r)) (nat (clamp 1 256 limit)) (warn_actions s) =
      (warn_actions t, n)"
    using assms(2) by (auto simp: purge_stale_warning_actions_def split: prod.splits)
  note spec = purge_page_spec [OF warn_ok_unique [OF assms(1)] run]
  have "row_at warn_key (warn_actions t) k = Some r \<or>
       row_at warn_key (warn_actions t) k = None \<and> \<not> locked k \<and> warn_lease r = None \<and>
         (if warn_awaiting r then warn_claimed_until r \<le> before
          else 0 < warn_attempts r \<and> warn_created r \<le> before) \<and>
         (\<forall>q \<in> set (warn_actions t). warn_stale before q \<and> \<not> locked (warn_key q) \<longrightarrow>
            warn_created r \<le> warn_created q)"
    if "row_at warn_key (warn_actions s) k = Some r" for k r
    using spec(3) [OF that] row_at_Some [OF that]
    by (auto simp: warn_stale_def less_eq_prod_def)
  with spec(1,2) nat_clamp_le(2) [of limit] show ?thesis by (auto intro: order_trans)
qed

theorem warning_purge_spares_live_work_witness:
  "row_at warn_key (warn_actions (fst (purge_stale_warning_actions (\<lambda>k. False) 100 10
     example_warn_store))) (-100, 7) = Some example_warn_row"
proof -
  obtain t n where run:
    "purge_stale_warning_actions (\<lambda>k. False) 100 10 example_warn_store = (t, n)" by fastforce
  have "row_at warn_key (warn_actions example_warn_store) (-100, 7) = Some example_warn_row"
    by (simp add: example_warn_store_def example_warn_row_def row_at_Cons warn_key_def)
  moreover have "\<not> warn_awaiting example_warn_row" "\<not> 0 < warn_attempts example_warn_row"
    by (simp_all add: example_warn_row_def)
  ultimately have "row_at warn_key (warn_actions t) (-100, 7) = Some example_warn_row"
    using warning_purge_spares_live_work [OF example_warn_ok run] by meson
  with run show ?thesis by simp
qed

text \<open>The multipliers of the advisory lock are odd, so multiplying by them loses nothing.\<close>

lemma mult_word_cancel:
  fixes a b m m' :: "'a::len word"
  assumes "m * m' = 1" and "a * m = b * m"
  shows "a = b"
proof -
  have "a * m * m' = b * m * m'" using assms(2) by simp
  then show ?thesis using assms(1) by (simp add: mult.assoc)
qed

lemma chat_multiplier: "0x9e3779b97f4a7c15 * (0xf1de83e19937733d :: u64) = 1"
  by simp

lemma user_multiplier: "0xbf58476d1ce4e5b9 * (0x96de1b173f119089 :: u64) = 1"
  by simp

lemma xor_word_cancel:
  fixes a b c :: "'a::len word"
  shows "a XOR b = a XOR c \<longleftrightarrow> b = c" and "b XOR a = c XOR a \<longleftrightarrow> b = c"
proof -
  have "x = a XOR (a XOR x)" for x by (simp add: xor.assoc [symmetric])
  then show "a XOR b = a XOR c \<longleftrightarrow> b = c" by metis
  then show "b XOR a = c XOR a \<longleftrightarrow> b = c" by (simp add: xor.commute)
qed

lemma rotl_word_cancel: "word_rotl n x = word_rotl n y \<Longrightarrow> x = (y :: 'a::len word)"
  by (drule arg_cong [where f = "word_rotr n"]) simp

text \<open>
  two members of one chat, and one member in two chats, always have different advisory
  lock keys: neither argument of the key is ever lost.
\<close>

theorem rejoin_key_separates_members:
  "(durable_member_rejoin_key chat user = durable_member_rejoin_key chat user' \<longleftrightarrow> user = user') \<and>
   (durable_member_rejoin_key chat user = durable_member_rejoin_key chat' user \<longleftrightarrow> chat = chat')"
proof -
  have "word_rotl 29 user * 0xbf58476d1ce4e5b9 = word_rotl 29 user' * 0xbf58476d1ce4e5b9 \<longleftrightarrow>
      user = user'"
    using mult_word_cancel [OF user_multiplier] rotl_word_cancel by blast
  moreover have "chat * 0x9e3779b97f4a7c15 = chat' * 0x9e3779b97f4a7c15 \<longleftrightarrow> chat = chat'"
    using mult_word_cancel [OF chat_multiplier] by blast
  ultimately show ?thesis by (simp add: durable_member_rejoin_key_def xor_word_cancel)
qed

section \<open>The row budget of the counters\<close>

lemma increment_strict_counters_ok:
  assumes "counters_ok s"
  shows "counters_ok (fst (increment_strict v now s))"
proof -
  have bump: "counter_key (strict_bump v r) = counter_key r" for r by (simp add: strict_bump_def)
  have today: "counter_key (strict_today v r) = counter_key r" for r by (simp add: strict_today_def)
  have counted: "counters_ok t" if c: "count_strike v s = Some (t, n)" for t n
  proof (cases "v_limit v = 1")
    case True
    with c assms show ?thesis by (simp add: count_strike_def)
  next
    case False
    with c obtain r where "upsert_counter (v_chat v, v_user v) (strict_today v) (strict_bump v) s =
        Some (t, r)"
      by (auto simp: count_strike_def)
    from upsert_counter_ok [OF assms this today bump] show ?thesis .
  qed
  show ?thesis
    using assms counted
    by (auto simp: increment_strict_def increment_existing_def increment_new_def Let_def
        cong: counters_ok_cong split: option.splits sum.splits if_splits
        intro: counters_ok_cong [THEN iffD2])
qed

lemma increment_warning_counters_ok:
  assumes "counters_ok s"
  shows "counters_ok (fst (increment_warning c u limit pen now s))"
proof -
  have counted: "counters_ok t"
    if "upsert_counter (c, u) first_warning one_more_warning s = Some (t, r)" for t r
    using upsert_counter_ok [OF assms that first_warning_key one_more_warning_key] .
  show ?thesis
    using assms counted
    by (auto simp: increment_warning_def split: option.splits sum.splits if_splits
        intro: counters_ok_cong [THEN iffD2])
qed

lemma counters_ok_update_frame:
  assumes "counters_ok s" and "counters t = sql_update P f (counters s)"
    and "counter_rows t = counter_rows s" and "max_counter_rows t = max_counter_rows s"
    and "\<And>r. counter_key (f r) = counter_key r"
  shows "counters_ok t"
  using counters_ok_update [OF assms(1,5), of P] assms(2-4)
  by (simp add: counters_ok_def counter_limit_def)

text \<open>
  The row budget of the counters is exact. Whatever violations, warnings, settlements and
  warnings taken back run, and whatever chats are forgotten, \<open>durable_counts\<close> holds the number of rows of \<open>counters\<close>, that number
  stays within the shard's limit, every chat within its own, and no member has two rows.
\<close>

theorem counter_budget_kept:
  assumes "counters_ok s"
  shows "counters_ok (fst (increment_strict v now s)) \<and>
    counters_ok (fst (settle_strict w p s)) \<and>
    counters_ok (fst (increment_warning c u limit pen now s)) \<and>
    counters_ok (fst (decrement_warning c u s)) \<and>
    counters_ok (fst (settle_warning w' p' s)) \<and> counters_ok (forget_chat_rows c s)"
proof (intro conjI)
  show "counters_ok (forget_chat_rows c s)" by (rule forget_chat_counters_ok [OF assms])
next
  show "counters_ok (fst (increment_strict v now s))" by (rule increment_strict_counters_ok [OF assms])
  show "counters_ok (fst (increment_warning c u limit pen now s))"
    by (rule increment_warning_counters_ok [OF assms])
  show "counters_ok (fst (decrement_warning c u s))"
    by (rule counters_ok_update_frame [where f = "\<lambda>r. r\<lparr>warns := max (warns r - 1) 0\<rparr>", OF assms])
      (simp_all add: decrement_warning_def Let_def)
  have "counters_ok (fst (complete_strict_action p s))"
  proof (cases "strict_action_is_current p s")
    case True
    then show ?thesis
      by (intro counters_ok_update_frame [where f = "\<lambda>r. r\<lparr>strikes := 0, struck := 0\<rparr>", OF assms])
        (simp_all add: complete_strict_action_def Let_def)
  next
    case False
    with assms show ?thesis
      by (auto simp: complete_strict_action_def Let_def intro: counters_ok_cong [THEN iffD2])
  qed
  with assms show "counters_ok (fst (settle_strict w p s))"
    by (cases w) (auto simp: defer_strict_action_def await_strict_rejoin_def
        dead_letter_strict_action_def intro: counters_ok_cong [THEN iffD2])
  have "counters_ok (fst (complete_warning_action p' s))"
  proof (cases "warning_action_is_current p' s")
    case True
    then show ?thesis
      by (intro counters_ok_update_frame [where f = "\<lambda>r. r\<lparr>warns := 0\<rparr>", OF assms])
        (simp_all add: complete_warning_action_def Let_def)
  next
    case False
    with assms show ?thesis
      by (auto simp: complete_warning_action_def Let_def intro: counters_ok_cong [THEN iffD2])
  qed
  with assms show "counters_ok (fst (settle_warning w' p' s))"
    by (cases w') (auto simp: defer_warning_action_def await_warning_rejoin_def
        terminate_warning_action_def intro: counters_ok_cong [THEN iffD2])
qed

theorem counter_budget_kept_witness:
  "counters_ok (fst (increment_warning (-100) 8 3 WarnBan 20 example_warn_store))"
proof -
  have "counters_ok example_warn_store"
    by (simp add: counters_ok_def unique_key_def example_warn_store_def example_store_def
        counter_limit_def sql_count_def max_counter_rows_per_chat_def int_bounds)
  from counter_budget_kept [where c = "-100" and u = 8 and limit = 3 and pen = WarnBan and
      now = 20 and s = example_warn_store, OF this] show ?thesis by blast
qed

end
