(* ===== verification/CaptchaQueue.thy ===== *)
theory CaptchaQueue
  imports Counters
begin

text \<open>
  Pending captchas, \<open>src/src/state/captcha.rs\<close>. A joining member gets a row in state
  \<open>arming\<close>; when the challenge message is out the row is \<open>pending\<close>; a right answer in time makes
  it \<open>passing\<close>, running out of time \<open>expiring\<close>, and a leased worker finishes it. Rows that fail too
  often are quarantined and retried in a queue of their own. \<open>captcha_counts\<close> holds the number of
  rows, which reservations check against the shard's limit.
\<close>

section \<open>Phases and handles\<close>

datatype failure_action = FailKick | FailMute

fun failure_as_db :: "failure_action \<Rightarrow> string" where
  "failure_as_db FailKick = ''kick''"
| "failure_as_db FailMute = ''mute''"

definition failure_from_db :: "string \<Rightarrow> failure_action outcome" where
  "failure_from_db v =
     (if v = ''kick'' then Inr FailKick
      else if v = ''mute'' then Inr FailMute
      else Inl (Protocol ''invalid pending captcha failure action''))"

datatype captcha_phase = Arming | Passing | Expiring

fun phase_as_db :: "captcha_phase \<Rightarrow> string" where
  "phase_as_db Arming = ''arming''"
| "phase_as_db Passing = ''passing''"
| "phase_as_db Expiring = ''expiring''"

definition phase_from_db :: "string \<Rightarrow> captcha_phase outcome" where
  "phase_from_db v =
     (if v = ''arming'' then Inr Arming
      else if v = ''passing'' then Inr Passing
      else if v = ''expiring'' then Inr Expiring
      else Inl (Protocol ''invalid leased pending captcha state''))"

lemma captcha_codecs [codec_simps]:
  "failure_from_db (failure_as_db a) = Inr a" "phase_from_db (phase_as_db p) = Inr p"
  by (cases a; simp add: failure_from_db_def) (cases p; simp add: phase_from_db_def)

record captcha_work =
  cw_chat :: chat_id
  cw_user :: user_id
  cw_message :: "int option"
  cw_due :: seconds
  cw_failure :: failure_action
  cw_phase :: captcha_phase
  cw_attempts :: int
  cw_restriction :: "int option"
  cw_quarantined :: "seconds option"
  cw_reason :: "utext option"
  cw_source :: int
  cw_kick :: "int option"
  cw_generation :: int
  cw_version :: int
  cw_lease :: int

record captcha_reservation =
  cr_chat :: chat_id
  cr_user :: user_id
  cr_restriction :: int
  cr_superseded :: "int option"
  cr_generation :: int

datatype reservation_outcome =
    Reserved captcha_reservation
  | Resume captcha_reservation
  | Duplicate
  | CapacityReached

datatype answer_claim =
    Missing
  | NotReady
  | Incorrect
  | Expired
  | AlreadyClaimed
  | Claimed captcha_work

datatype captcha_class = CaptchaFresh | CaptchaRetry | CaptchaQuarantine

definition decode_captcha :: "captcha_row \<Rightarrow> captcha_work outcome" where
  "decode_captcha r =
     (case failure_from_db (captcha_action r) of
        Inl e \<Rightarrow> Inl e
      | Inr a \<Rightarrow>
          (case phase_from_db (captcha_state r) of
             Inl e \<Rightarrow> Inl e
           | Inr p \<Rightarrow>
               if \<not> (0 \<le> captcha_attempts r \<and> captcha_attempts r \<le> u32_max)
               then Inl (Protocol ''negative captcha attempt count'')
               else
                 (case captcha_lease r of
                    None \<Rightarrow> Inl (Protocol ''unexpected null'')
                  | Some n \<Rightarrow>
                      Inr \<lparr>cw_chat = captcha_chat r, cw_user = captcha_user r,
                        cw_message = captcha_message r, cw_due = captcha_due r, cw_failure = a,
                        cw_phase = p, cw_attempts = captcha_attempts r,
                        cw_restriction = captcha_restriction r,
                        cw_quarantined = captcha_quarantined r, cw_reason = captcha_reason r,
                        cw_source = captcha_source r, cw_kick = captcha_kick r,
                        cw_generation = captcha_generation r, cw_version = captcha_version r,
                        cw_lease = n\<rparr>)))"

section \<open>Reservations\<close>

record reservation_input =
  ri_chat :: chat_id
  ri_user :: user_id
  ri_answer :: int
  ri_source :: int
  ri_due :: seconds
  ri_retry :: seconds
  ri_restriction :: int
  ri_failure :: failure_action

definition max_pending_captchas_per_chat :: int where
  "max_pending_captchas_per_chat = 256"

definition captcha_limit :: "store \<Rightarrow> int" where
  "captcha_limit s = (case max_captcha_rows s of None \<Rightarrow> i64_max div 2 | Some n \<Rightarrow> n)"

definition new_captcha :: "reservation_input \<Rightarrow> int \<Rightarrow> captcha_row" where
  "new_captcha i n = \<lparr>captcha_chat = ri_chat i, captcha_user = ri_user i,
     captcha_answer = ri_answer i, captcha_source = ri_source i, captcha_message = None,
     captcha_due = ri_due i, captcha_retry = ri_retry i,
     captcha_action = failure_as_db (ri_failure i), captcha_state = ''arming'',
     captcha_attempts = 0, captcha_generation = n, captcha_version = 1, captcha_lease = None,
     captcha_restriction = Some (ri_restriction i), captcha_kick = None,
     captcha_quarantined = None, captcha_reason = None\<rparr>"

definition rearm_captcha :: "reservation_input \<Rightarrow> int \<Rightarrow> captcha_row \<Rightarrow> captcha_row" where
  "rearm_captcha i n r = r\<lparr>captcha_answer := ri_answer i, captcha_source := ri_source i,
     captcha_message := None, captcha_due := ri_due i, captcha_retry := ri_retry i,
     captcha_restriction := Some (ri_restriction i),
     captcha_action := failure_as_db (ri_failure i), captcha_state := ''arming'',
     captcha_attempts := 0, captcha_generation := n, captcha_version := captcha_version r + 1,
     captcha_lease := None, captcha_quarantined := None, captcha_reason := None,
     captcha_kick := None\<rparr>"

definition reservation_of :: "reservation_input \<Rightarrow> int option \<Rightarrow> int \<Rightarrow> captcha_reservation" where
  "reservation_of i superseded n = \<lparr>cr_chat = ri_chat i, cr_user = ri_user i,
     cr_restriction = ri_restriction i, cr_superseded = superseded, cr_generation = n\<rparr>"

text \<open>
  The INSERT draws a generation even when it then conflicts or is rolled back: a sequence never
  takes a value back. Both arms of \<open>reserve_captcha\<close> therefore start one token later.
\<close>

definition reserve_new :: "reservation_input \<Rightarrow> store \<Rightarrow> store \<times> reservation_outcome" where
  "reserve_new i s =
     (let n = next_token s;
          t = s\<lparr>captchas := sql_insert (new_captcha i n) (captchas s), next_token := n + 1\<rparr>
      in if max_pending_captchas_per_chat < sql_count (\<lambda>r. captcha_chat r = ri_chat i) (captchas t) \<or>
            captcha_limit t \<le> captcha_rows t
         then (s\<lparr>next_token := n + 1\<rparr>, CapacityReached)
         else (t\<lparr>captcha_rows := captcha_rows t + 1\<rparr>, Reserved (reservation_of i None n)))"

definition reserve_again ::
  "reservation_input \<Rightarrow> captcha_row \<Rightarrow> store \<Rightarrow> store \<times> reservation_outcome outcome" where
  "reserve_again i r s =
     (let s1 = s\<lparr>next_token := next_token s + 1\<rparr>; n = next_token s1;
          k = (ri_chat i, ri_user i);
          wins = (\<lambda>q. captcha_source q < ri_source i \<or>
                      captcha_source q = ri_source i \<and> captcha_state q = ''arming'')
      in if ri_source i < captcha_source r \<or>
            captcha_source r = ri_source i \<and> captcha_state r \<noteq> ''arming''
         then (s1, Inr Duplicate)
         else if sql_exists (\<lambda>q. captcha_key q = k \<and> wins q) (captchas s1)
         then (s1\<lparr>captchas := sql_update (\<lambda>q. captcha_key q = k \<and> wins q) (rearm_captcha i n)
                      (captchas s1), next_token := n + 1\<rparr>,
               Inr (if captcha_source r = ri_source i
                    then Resume (reservation_of i (captcha_message r) n)
                    else Reserved (reservation_of i (captcha_message r) n)))
         else (s1, Inl (Protocol ''newer captcha lifecycle disappeared while holding its row lock'')))"

definition reserve_captcha ::
  "reservation_input \<Rightarrow> store \<Rightarrow> store \<times> reservation_outcome outcome" where
  "reserve_captcha i s =
     (if i32_max < ri_answer i then (s, Inl (Protocol ''captcha answer index exceeds i32''))
      else
        (case row_at captcha_key (captchas s) (ri_chat i, ri_user i) of
           None \<Rightarrow> map_prod id Inr (reserve_new i s)
         | Some r \<Rightarrow> reserve_again i r s))"

definition interrupted_captcha_users :: "chat_id \<Rightarrow> int \<Rightarrow> store \<Rightarrow> user_id list" where
  "interrupted_captcha_users c source s =
     map captcha_user (sort_key captcha_user
       (filter (\<lambda>r. captcha_chat r = c \<and> captcha_source r = source \<and> captcha_state r = ''arming'')
         (captchas s)))"

section \<open>The challenge message\<close>

definition cr_key :: "captcha_reservation \<Rightarrow> member" where
  "cr_key v = (cr_chat v, cr_user v)"

definition captcha_arming :: "captcha_reservation \<Rightarrow> captcha_row \<Rightarrow> bool" where
  "captcha_arming v r \<longleftrightarrow> captcha_generation r = cr_generation v \<and> captcha_state r = ''arming'' \<and>
     captcha_lease r = None"

definition attach_captcha_message ::
  "captcha_reservation \<Rightarrow> int \<Rightarrow> seconds \<Rightarrow> store \<Rightarrow> store \<times> bool" where
  "attach_captcha_message v msg due s =
     (s\<lparr>captchas := sql_update (\<lambda>r. captcha_key r = cr_key v \<and> captcha_arming v r)
         (\<lambda>r. r\<lparr>captcha_message := Some msg, captcha_due := due\<rparr>) (captchas s)\<rparr>,
      sql_exists (\<lambda>r. captcha_key r = cr_key v \<and> captcha_arming v r) (captchas s))"

definition captcha_armed :: "captcha_reservation \<Rightarrow> int \<Rightarrow> captcha_row \<Rightarrow> bool" where
  "captcha_armed v msg r \<longleftrightarrow> captcha_arming v r \<and> captcha_message r = Some msg"

definition activate_captcha :: "captcha_reservation \<Rightarrow> int \<Rightarrow> store \<Rightarrow> store \<times> bool" where
  "activate_captcha v msg s =
     (s\<lparr>captchas := sql_update (\<lambda>r. captcha_key r = cr_key v \<and> captcha_armed v msg r)
         (\<lambda>r. r\<lparr>captcha_state := ''pending'', captcha_retry := captcha_due r\<rparr>) (captchas s)\<rparr>,
      sql_exists (\<lambda>r. captcha_key r = cr_key v \<and> captcha_armed v msg r) (captchas s))"

text \<open>Deleting a row gives its place back.\<close>

definition remove_captcha :: "member \<Rightarrow> (captcha_row \<Rightarrow> bool) \<Rightarrow> store \<Rightarrow> store \<times> bool" where
  "remove_captcha k P s =
     (let hit = sql_exists (\<lambda>r. captcha_key r = k \<and> P r) (captchas s)
      in (s\<lparr>captchas := sql_delete (\<lambda>r. captcha_key r = k \<and> P r) (captchas s),
            captcha_rows := (if hit then max (captcha_rows s - 1) 0 else captcha_rows s)\<rparr>, hit))"

definition captcha_waiting :: "captcha_reservation \<Rightarrow> captcha_row \<Rightarrow> bool" where
  "captcha_waiting v r \<longleftrightarrow> captcha_generation r = cr_generation v \<and>
     captcha_state r \<in> {''arming'', ''pending''} \<and> captcha_lease r = None"

definition abandon_captcha :: "captcha_reservation \<Rightarrow> store \<Rightarrow> store \<times> bool" where
  "abandon_captcha v s = remove_captcha (cr_key v) (captcha_waiting v) s"

definition captcha_reservation_is_current :: "captcha_reservation \<Rightarrow> store \<Rightarrow> bool" where
  "captcha_reservation_is_current v s \<longleftrightarrow>
     sql_exists (\<lambda>r. captcha_key r = cr_key v \<and> captcha_waiting v r \<and>
       captcha_restriction r = Some (cr_restriction v)) (captchas s)"

definition cancel_captcha_for_member_override ::
  "chat_id \<Rightarrow> user_id \<Rightarrow> store \<Rightarrow> store \<times> int option" where
  "cancel_captcha_for_member_override c u s =
     (fst (remove_captcha (c, u) (\<lambda>r. True) s),
      Option.bind (row_at captcha_key (captchas s) (c, u)) captcha_message)"

section \<open>Answers and due captchas\<close>

definition answer_captcha_row :: "seconds \<Rightarrow> int \<Rightarrow> captcha_row \<Rightarrow> captcha_row" where
  "answer_captcha_row until n r = r\<lparr>captcha_state := ''passing'', captcha_attempts := 1,
     captcha_retry := until, captcha_version := captcha_version r + 1, captcha_lease := Some n\<rparr>"

text \<open>The arms of the match before the last: why an answer is not accepted.\<close>

definition answer_refusal ::
  "int \<Rightarrow> int option \<Rightarrow> seconds \<Rightarrow> captcha_row \<Rightarrow> answer_claim option" where
  "answer_refusal answer expected now r =
     (if is_some_and (\<lambda>g. g \<noteq> captcha_generation r) expected then Some Missing
      else if expected = None \<and> captcha_source r \<noteq> 0 then Some Missing
      else if captcha_state r = ''arming'' then Some NotReady
      else if captcha_state r = ''passing'' then Some AlreadyClaimed
      else if captcha_state r = ''expiring'' then Some Expired
      else if captcha_due r \<le> now then Some Expired
      else if captcha_answer r \<noteq> answer then Some Incorrect
      else None)"

definition claim_captcha_answer ::
  "chat_id \<Rightarrow> user_id \<Rightarrow> int \<Rightarrow> int option \<Rightarrow> seconds \<Rightarrow> seconds \<Rightarrow> store \<Rightarrow>
     store \<times> answer_claim outcome" where
  "claim_captcha_answer c u answer expected now until s =
     (if i32_max < answer then (s, Inl (Protocol ''captcha answer index exceeds i32''))
      else
        (case row_at captcha_key (captchas s) (c, u) of
           None \<Rightarrow> (s, Inr Missing)
         | Some r \<Rightarrow>
             (case answer_refusal answer expected now r of
                Some refusal \<Rightarrow> (s, Inr refusal)
              | None \<Rightarrow>
                  if captcha_state r \<noteq> ''pending'' then (s, Inl (Protocol ''row not found''))
                  else
                    (let n = next_token s
                     in case decode_captcha (answer_captcha_row until n r) of
                          Inl e \<Rightarrow> (s\<lparr>next_token := n + 1\<rparr>, Inl e)
                        | Inr w \<Rightarrow>
                            (s\<lparr>captchas := sql_update
                                 (\<lambda>q. captcha_key q = (c, u) \<and> captcha_state q = ''pending'')
                                 (answer_captcha_row until n) (captchas s), next_token := n + 1\<rparr>,
                             Inr (Claimed w))))))"

fun captcha_in_class :: "captcha_class \<Rightarrow> seconds \<Rightarrow> captcha_row \<Rightarrow> bool" where
  "captcha_in_class CaptchaFresh now r \<longleftrightarrow> captcha_state r = ''pending'' \<and> captcha_due r \<le> now"
| "captcha_in_class CaptchaRetry now r \<longleftrightarrow> captcha_state r \<noteq> ''pending'' \<and>
     captcha_quarantined r = None \<and> captcha_retry r \<le> now"
| "captcha_in_class CaptchaQuarantine now r \<longleftrightarrow>
     captcha_quarantined r \<noteq> None \<and> captcha_retry r \<le> now"

text \<open>Fresh work is ordered by due time only; the constants stand for the absent columns.\<close>

fun captcha_order ::
  "captcha_class \<Rightarrow> captcha_row \<Rightarrow> seconds \<times> int \<times> seconds \<times> chat_id \<times> user_id" where
  "captcha_order CaptchaFresh r = (captcha_due r, 0, 0, captcha_chat r, captcha_user r)"
| "captcha_order CaptchaRetry r =
     (captcha_retry r, captcha_attempts r, captcha_due r, captcha_chat r, captcha_user r)"
| "captcha_order CaptchaQuarantine r =
     (captcha_retry r, captcha_attempts r, captcha_due r, captcha_chat r, captcha_user r)"

definition due_captchas ::
  "captcha_class \<Rightarrow> (member \<Rightarrow> bool) \<Rightarrow> seconds \<Rightarrow> int \<Rightarrow> store \<Rightarrow> captcha_row list" where
  "due_captchas cls locked now limit s =
     sql_page (\<lambda>r. captcha_in_class cls now r \<and> \<not> locked (captcha_key r))
       (captcha_order cls) (nat (clamp 1 64 limit)) (captchas s)"

definition lease_captcha_row :: "seconds \<Rightarrow> int \<Rightarrow> captcha_row \<Rightarrow> captcha_row" where
  "lease_captcha_row until n r = r\<lparr>
     captcha_state := (if captcha_state r = ''pending'' then ''expiring'' else captcha_state r),
     captcha_attempts := captcha_attempts r + 1, captcha_retry := until,
     captcha_version := captcha_version r + 1, captcha_lease := Some n\<rparr>"

definition claim_due_captchas ::
  "captcha_class \<Rightarrow> (member \<Rightarrow> bool) \<Rightarrow> (captcha_row list \<Rightarrow> captcha_row list) \<Rightarrow> seconds \<Rightarrow> seconds \<Rightarrow>
     int \<Rightarrow> store \<Rightarrow> store \<times> captcha_work list outcome" where
  "claim_due_captchas cls locked arrange now until limit s =
     (let (n, t, rows) = lease_rows captcha_key (lease_captcha_row until)
            (arrange (due_captchas cls locked now limit s)) (next_token s) (captchas s)
      in (s\<lparr>captchas := t, next_token := n\<rparr>, collect_results (map decode_captcha rows)))"

section \<open>Settling claimed work\<close>

definition cw_key :: "captcha_work \<Rightarrow> member" where
  "cw_key w = (cw_chat w, cw_user w)"

definition captcha_held :: "captcha_work \<Rightarrow> captcha_row \<Rightarrow> bool" where
  "captcha_held w r \<longleftrightarrow> captcha_state r = phase_as_db (cw_phase w) \<and>
     captcha_generation r = cw_generation w \<and> captcha_version r = cw_version w \<and>
     captcha_lease r = Some (cw_lease w) \<and> captcha_attempts r = cw_attempts w"

definition captcha_work_is_current :: "captcha_work \<Rightarrow> store \<Rightarrow> bool" where
  "captcha_work_is_current w s \<longleftrightarrow>
     sql_exists (\<lambda>r. captcha_key r = cw_key w \<and> captcha_held w r) (captchas s)"

definition prepare_captcha_kick :: "captcha_work \<Rightarrow> int \<Rightarrow> store \<Rightarrow> store \<times> bool" where
  "prepare_captcha_kick w kick_until s =
     (s\<lparr>captchas := sql_update (\<lambda>r. captcha_key r = cw_key w \<and> captcha_held w r)
         (\<lambda>r. r\<lparr>captcha_kick := Some kick_until\<rparr>) (captchas s)\<rparr>, captcha_work_is_current w s)"

definition defer_captcha :: "captcha_work \<Rightarrow> seconds \<Rightarrow> store \<Rightarrow> store \<times> bool" where
  "defer_captcha w retry_at s =
     (s\<lparr>captchas := sql_update (\<lambda>r. captcha_key r = cw_key w \<and> captcha_held w r)
         (\<lambda>r. r\<lparr>captcha_retry := retry_at, captcha_lease := None\<rparr>) (captchas s)\<rparr>,
      captcha_work_is_current w s)"

definition quarantine_captcha ::
  "captcha_work \<Rightarrow> seconds \<Rightarrow> seconds \<Rightarrow> utext \<Rightarrow> store \<Rightarrow> store \<times> bool" where
  "quarantine_captcha w retry_at now reason s =
     (s\<lparr>captchas := sql_update (\<lambda>r. captcha_key r = cw_key w \<and> captcha_held w r)
         (\<lambda>r. r\<lparr>captcha_retry := retry_at, captcha_lease := None,
                captcha_quarantined :=
                  (case captcha_quarantined r of None \<Rightarrow> Some now | Some at \<Rightarrow> Some at),
                captcha_reason := Some reason\<rparr>) (captchas s)\<rparr>,
      captcha_work_is_current w s)"

definition finish_captcha :: "captcha_work \<Rightarrow> store \<Rightarrow> store \<times> bool" where
  "finish_captcha w s = remove_captcha (cw_key w) (captcha_held w) s"

section \<open>The invariant of the queue\<close>

text \<open>
  Beyond the CHECK constraints of the table: a row that waits for its answer is never leased.
\<close>

definition captcha_row_ok :: "int \<Rightarrow> captcha_row \<Rightarrow> bool" where
  "captcha_row_ok n r \<longleftrightarrow> captcha_action r \<in> {''kick'', ''mute''} \<and>
     captcha_state r \<in> {''arming'', ''pending'', ''passing'', ''expiring''} \<and>
     (captcha_state r = ''arming'' \<or> captcha_message r \<noteq> None) \<and>
     (captcha_state r = ''pending'' \<longrightarrow> captcha_lease r = None) \<and>
     0 \<le> captcha_attempts r \<and> 0 < captcha_version r \<and> captcha_generation r < n"

definition captcha_count_ok :: "store \<Rightarrow> bool" where
  "captcha_count_ok s \<longleftrightarrow> captcha_rows s = int (length (captchas s)) \<and>
     captcha_rows s \<le> captcha_limit s \<and>
     (\<forall>c. sql_count (\<lambda>r. captcha_chat r = c) (captchas s) \<le> max_pending_captchas_per_chat)"

definition captcha_queue_ok :: "store \<Rightarrow> bool" where
  "captcha_queue_ok s \<longleftrightarrow>
     queue_ok captcha_key captcha_lease captcha_row_ok (next_token s) (captchas s)"

definition captcha_ok :: "store \<Rightarrow> bool" where
  "captcha_ok s \<longleftrightarrow> captcha_queue_ok s \<and> captcha_count_ok s"

definition captcha_move :: "store \<Rightarrow> store \<Rightarrow> bool" where
  "captcha_move s t \<longleftrightarrow>
     queue_move captcha_key captcha_lease captcha_retry captcha_row_ok
       (next_token s) (captchas s) (next_token t) (captchas t)"

lemma lease_captcha_row_key [simp]: "captcha_key (lease_captcha_row until n r) = captcha_key r"
  by (simp add: lease_captcha_row_def)

lemma answer_captcha_row_key [simp]: "captcha_key (answer_captcha_row until n r) = captcha_key r"
  by (simp add: answer_captcha_row_def)

lemma rearm_captcha_key [simp]: "captcha_key (rearm_captcha i n r) = captcha_key r"
  by (simp add: rearm_captcha_def)

lemma new_captcha_key [simp]: "captcha_key (new_captcha i n) = (ri_chat i, ri_user i)"
  by (simp add: new_captcha_def captcha_key_def)

interpretation captcha_queue: leased_queue captcha_key captcha_lease captcha_retry captcha_row_ok
  "\<lambda>r. True" lease_captcha_row
  by unfold_locales (auto simp: lease_captcha_row_def captcha_row_ok_def)

interpretation answer_queue: leased_queue captcha_key captcha_lease captcha_retry captcha_row_ok
  "\<lambda>r. captcha_state r = ''pending''" answer_captcha_row
  by unfold_locales (auto simp: answer_captcha_row_def captcha_row_ok_def)

lemma captcha_ok_leases:
  "captcha_ok s \<Longrightarrow> leases_ok captcha_key captcha_lease (next_token s) (captchas s)"
  unfolding captcha_ok_def captcha_queue_ok_def by (blast intro: queue_ok_leases)

lemma captcha_ok_unique: "captcha_ok s \<Longrightarrow> unique_key captcha_key (captchas s)"
  unfolding captcha_ok_def captcha_queue_ok_def by (blast intro: queue_ok_unique)

lemma captcha_ok_row:
  "captcha_ok s \<Longrightarrow> row_at captcha_key (captchas s) k = Some r \<Longrightarrow>
     captcha_row_ok (next_token s) r \<and> captcha_key r = k"
  unfolding captcha_ok_def captcha_queue_ok_def by (blast dest: queue_ok_row)

lemma captcha_okI: "captcha_move s t \<Longrightarrow> captcha_count_ok t \<Longrightarrow> captcha_ok t"
  unfolding captcha_ok_def captcha_queue_ok_def captcha_move_def by (blast intro: queue_move_ok)

lemma captcha_move_le: "captcha_move s t \<Longrightarrow> next_token s \<le> next_token t"
  unfolding captcha_move_def by (rule queue_move_le)

text \<open>The rules by which an operation is a move and keeps the count.\<close>

lemma captcha_env:
  assumes "captcha_ok s" and "captchas t = captchas s" and "next_token s \<le> next_token t"
    and "captcha_rows t = captcha_rows s" and "max_captcha_rows t = max_captcha_rows s"
  shows "captcha_move s t \<and> captcha_count_ok t"
  using captcha_queue.move_env assms
  by (simp add: captcha_move_def captcha_ok_def captcha_queue_ok_def captcha_count_ok_def
      captcha_limit_def)

lemma captcha_count_update:
  assumes "captcha_count_ok s" and "captchas t = sql_update P f (captchas s)"
    and "\<And>r. captcha_key (f r) = captcha_key r"
    and "captcha_rows t = captcha_rows s" and "max_captcha_rows t = max_captcha_rows s"
  shows "captcha_count_ok t"
proof -
  have "captcha_chat (f r) = captcha_chat r" for r
    using assms(3) [of r] by (simp add: captcha_key_def)
  then show ?thesis using assms
    by (simp add: captcha_count_ok_def captcha_limit_def sql_count_update_same)
qed

lemma captcha_set:
  assumes "captcha_ok s" and "\<And>r. captcha_key (f r) = captcha_key r"
    and "\<And>r m. P r \<Longrightarrow> captcha_lease (f r) = Some m \<Longrightarrow>
      captcha_lease r = Some m \<and> captcha_retry (f r) = captcha_retry r"
    and "\<And>r. P r \<Longrightarrow> captcha_row_ok (next_token s) r \<Longrightarrow> captcha_row_ok (next_token s) (f r)"
    and "t = s\<lparr>captchas := sql_update P f (captchas s)\<rparr>"
  shows "captcha_move s t \<and> captcha_count_ok t"
proof
  show "captcha_move s t"
    unfolding captcha_move_def assms(5)
    by (simp, rule captcha_queue.move_update) (use assms in \<open>auto simp: captcha_ok_def captcha_queue_ok_def\<close>)
  show "captcha_count_ok t"
    by (rule captcha_count_update [where f = f, OF _ _ assms(2)])
      (use assms(1,5) in \<open>auto simp: captcha_ok_def\<close>)
qed

lemma remove_captcha_move:
  assumes "captcha_ok s"
  shows "captcha_move s (fst (remove_captcha k P s)) \<and> captcha_count_ok (fst (remove_captcha k P s))"
proof
  note uk = captcha_ok_unique [OF assms]
  let ?del = "sql_delete (\<lambda>r. captcha_key r = k \<and> P r) (captchas s)"
  show "captcha_move s (fst (remove_captcha k P s))"
    using captcha_queue.move_delete assms
    by (simp add: captcha_move_def remove_captcha_def Let_def captcha_ok_def captcha_queue_ok_def)
  have hit: "length (captchas s) = Suc (length ?del)"
    if ex: "sql_exists (\<lambda>r. captcha_key r = k \<and> P r) (captchas s)"
  proof -
    from ex obtain r where "row_at captcha_key (captchas s) k = Some r" "captcha_key r = k \<and> P r"
      by (auto simp: sql_exists_key [OF uk] dest: row_at_Some)
    from length_delete_key [where P = "\<lambda>r. captcha_key r = k \<and> P r", OF uk this] show ?thesis by simp
  qed
  have miss: "?del = captchas s"
    if "\<not> sql_exists (\<lambda>r. captcha_key r = k \<and> P r) (captchas s)"
    by (rule sql_delete_none) (use that in \<open>auto simp: sql_exists_def list_ex_iff\<close>)
  have "sql_count (\<lambda>r. captcha_chat r = c) ?del \<le> max_pending_captchas_per_chat" for c
    using assms sql_count_delete_le [of "\<lambda>r. captcha_chat r = c"]
    by (fastforce simp: captcha_ok_def captcha_count_ok_def intro: order_trans)
  then show "captcha_count_ok (fst (remove_captcha k P s))"
    using assms hit miss
    by (cases "sql_exists (\<lambda>r. captcha_key r = k \<and> P r) (captchas s)")
      (auto simp: remove_captcha_def Let_def captcha_ok_def captcha_count_ok_def captcha_limit_def)
qed

section \<open>Every operation keeps the invariant\<close>

lemma failure_as_db_range: "failure_as_db a \<in> {''kick'', ''mute''}"
  by (cases a) simp_all

lemma reserve_new_move:
  assumes ok: "captcha_ok s" and absent: "row_at captcha_key (captchas s) (ri_chat i, ri_user i) = None"
  shows "captcha_move s (fst (reserve_new i s)) \<and> captcha_count_ok (fst (reserve_new i s))"
proof -
  let ?t = "s\<lparr>captchas := sql_insert (new_captcha i (next_token s)) (captchas s),
      next_token := next_token s + 1\<rparr>"
  have env: "captcha_move s (s\<lparr>next_token := next_token s + 1\<rparr>) \<and>
      captcha_count_ok (s\<lparr>next_token := next_token s + 1\<rparr>)"
    by (rule captcha_env [OF ok]) simp_all
  have "queue_move captcha_key captcha_lease captcha_retry captcha_row_ok (next_token s) (captchas s)
      (next_token s + 1) (sql_insert (new_captcha i (next_token s)) (captchas s))"
    by (rule captcha_queue.move_insert)
      (use ok absent failure_as_db_range [of "ri_failure i"] in
        \<open>auto simp: captcha_ok_def captcha_queue_ok_def new_captcha_def captcha_row_ok_def captcha_key_def\<close>)
  then have mv: "captcha_move s (?t\<lparr>captcha_rows := captcha_rows s + 1\<rparr>)"
    by (simp add: captcha_move_def)
  have "captcha_count_ok (?t\<lparr>captcha_rows := captcha_rows s + 1\<rparr>)"
    if room: "\<not> (max_pending_captchas_per_chat < sql_count (\<lambda>r. captcha_chat r = ri_chat i) (captchas ?t) \<or>
        captcha_limit ?t \<le> captcha_rows ?t)"
  proof -
    have "sql_count (\<lambda>r. captcha_chat r = c) (captchas ?t) \<le> max_pending_captchas_per_chat" for c
      using room ok
      by (cases "c = ri_chat i") (auto simp: sql_count_insert new_captcha_def captcha_ok_def
          captcha_count_ok_def)
    then show ?thesis using room ok
      by (auto simp: captcha_ok_def captcha_count_ok_def captcha_limit_def)
  qed
  with mv env show ?thesis by (auto simp: reserve_new_def Let_def)
qed

lemma reserve_again_move:
  assumes ok: "captcha_ok s"
  shows "captcha_move s (fst (reserve_again i r s)) \<and> captcha_count_ok (fst (reserve_again i r s))"
proof -
  let ?s1 = "s\<lparr>next_token := next_token s + 1\<rparr>" and ?n = "next_token s + 1"
  let ?P = "\<lambda>q. captcha_key q = (ri_chat i, ri_user i) \<and> (captcha_source q < ri_source i \<or>
      captcha_source q = ri_source i \<and> captcha_state q = ''arming'')"
  let ?t = "?s1\<lparr>captchas := sql_update ?P (rearm_captcha i ?n) (captchas s), next_token := ?n + 1\<rparr>"
  have env: "captcha_move s ?s1 \<and> captcha_count_ok ?s1"
    by (rule captcha_env [OF ok]) simp_all
  have "queue_move captcha_key captcha_lease captcha_retry captcha_row_ok (next_token s) (captchas s)
      (?n + 1) (sql_update ?P (rearm_captcha i ?n) (captchas s))"
    by (rule captcha_queue.move_update)
      (use ok failure_as_db_range [of "ri_failure i"] in
        \<open>auto simp: captcha_ok_def captcha_queue_ok_def rearm_captcha_def captcha_row_ok_def\<close>)
  then have mv: "captcha_move s ?t" by (simp add: captcha_move_def add.assoc)
  have "captcha_count_ok ?t"
    by (rule captcha_count_update [where f = "rearm_captcha i ?n" and P = ?P])
      (use ok in \<open>simp_all add: captcha_ok_def\<close>)
  with mv env show ?thesis by (simp add: reserve_again_def Let_def)
qed

lemma reserve_captcha_move:
  assumes "captcha_ok s"
  shows "captcha_move s (fst (reserve_captcha i s)) \<and> captcha_count_ok (fst (reserve_captcha i s))"
  using captcha_env [OF assms, of s] reserve_new_move [OF assms] reserve_again_move [OF assms]
  by (auto simp: reserve_captcha_def split: option.split)

lemma attach_captcha_message_move:
  assumes "captcha_ok s" and "t = fst (attach_captcha_message v msg due s)"
  shows "captcha_move s t \<and> captcha_count_ok t"
  by (rule captcha_set [OF assms(1)])
    (auto simp: assms(2) attach_captcha_message_def captcha_row_ok_def captcha_arming_def)

lemma activate_captcha_move:
  assumes "captcha_ok s" and "t = fst (activate_captcha v msg s)"
  shows "captcha_move s t \<and> captcha_count_ok t"
  by (rule captcha_set [where f = "\<lambda>r. r\<lparr>captcha_state := ''pending'', captcha_retry := captcha_due r\<rparr>",
        OF assms(1)])
    (auto simp: assms(2) activate_captcha_def captcha_row_ok_def captcha_armed_def captcha_arming_def)

lemma cancel_captcha_move:
  assumes "captcha_ok s"
  shows "captcha_move s (fst (cancel_captcha_for_member_override c u s)) \<and>
    captcha_count_ok (fst (cancel_captcha_for_member_override c u s))"
  using remove_captcha_move [OF assms] by (simp add: cancel_captcha_for_member_override_def)

lemma answer_update_move:
  assumes ok: "captcha_ok s" and r: "row_at captcha_key (captchas s) k = Some r"
    "captcha_state r = ''pending''"
    and t: "t = s\<lparr>captchas := sql_update (\<lambda>q. captcha_key q = k \<and> captcha_state q = ''pending'')
      (answer_captcha_row until (next_token s)) (captchas s), next_token := next_token s + 1\<rparr>"
  shows "captcha_move s t \<and> captcha_count_ok t"
proof
  have "(captcha_key q = k \<and> captcha_state q = ''pending'') = (captcha_key q = k)"
    if "q \<in> set (captchas s)" for q
    using row_at_in [OF captcha_ok_unique [OF ok] that] r by auto
  then have same: "sql_update (\<lambda>q. captcha_key q = k \<and> captcha_state q = ''pending'')
      (answer_captcha_row until (next_token s)) (captchas s) =
      sql_update (\<lambda>q. captcha_key q = k) (answer_captcha_row until (next_token s)) (captchas s)"
    by (simp add: sql_update_def)
  show "captcha_move s t"
    using answer_queue.move_grab r ok
    by (simp add: captcha_move_def t same captcha_ok_def captcha_queue_ok_def)
  show "captcha_count_ok t"
    by (rule captcha_count_update [where f = "answer_captcha_row until (next_token s)"
          and P = "\<lambda>q. captcha_key q = k \<and> captcha_state q = ''pending''"])
      (use ok in \<open>simp_all add: t captcha_ok_def\<close>)
qed

text \<open>The one way an answer is accepted.\<close>

lemma answer_refusal_not_claimed: "answer_refusal a e now r \<noteq> Some (Claimed w)"
  by (simp add: answer_refusal_def)

lemma answer_refusal_None:
  assumes "answer_refusal a e now r = None"
  shows "captcha_answer r = a" and "now < captcha_due r" and "captcha_state r \<noteq> ''arming''"
    and "e = None \<and> captcha_source r = 0 \<or> e = Some (captcha_generation r)"
  using assms by (cases e; simp add: answer_refusal_def split: if_splits)+

lemma claim_captcha_answer_cases:
  assumes run: "claim_captcha_answer c u answer expected now until s = (t, out)"
  obtains (kept) "captchas t = captchas s" "captcha_rows t = captcha_rows s"
      "max_captcha_rows t = max_captcha_rows s" "next_token s \<le> next_token t" "\<And>w. out \<noteq> Inr (Claimed w)"
  | (claimed) r w where "row_at captcha_key (captchas s) (c, u) = Some r"
      "captcha_state r = ''pending''" "answer_refusal answer expected now r = None"
      "decode_captcha (answer_captcha_row until (next_token s) r) = Inr w" "out = Inr (Claimed w)"
      "t = s\<lparr>captchas := sql_update (\<lambda>q. captcha_key q = (c, u) \<and> captcha_state q = ''pending'')
         (answer_captcha_row until (next_token s)) (captchas s), next_token := next_token s + 1\<rparr>"
proof (cases "row_at captcha_key (captchas s) (c, u)")
  case None
  with run show ?thesis by (intro kept) (auto simp: claim_captcha_answer_def split: if_splits)
next
  case (Some r)
  show ?thesis
  proof (cases "answer_refusal answer expected now r")
    case (Some x)
    with run \<open>row_at _ _ _ = _\<close> answer_refusal_not_claimed [of answer expected now r] show ?thesis
      by (intro kept) (auto simp: claim_captcha_answer_def split: if_splits)
  next
    case None
    with run Some show ?thesis
      by (cases "decode_captcha (answer_captcha_row until (next_token s) r)")
        (auto simp: claim_captcha_answer_def Let_def split: if_splits intro: kept claimed)
  qed
qed

lemma claim_captcha_answer_move:
  assumes "captcha_ok s"
  shows "captcha_move s (fst (claim_captcha_answer c u answer expected now until s)) \<and>
    captcha_count_ok (fst (claim_captcha_answer c u answer expected now until s))"
proof -
  obtain t out where run: "claim_captcha_answer c u answer expected now until s = (t, out)"
    by fastforce
  show ?thesis using run
  proof (cases rule: claim_captcha_answer_cases)
    case kept
    with captcha_env [OF assms] run show ?thesis by simp
  next
    case (claimed r w)
    with answer_update_move [OF assms claimed(1,2)] run show ?thesis by simp
  qed
qed

lemma due_captchas_rows:
  assumes "captcha_ok s" and "r \<in> set (due_captchas cls locked now limit s)"
  shows "row_at captcha_key (captchas s) (captcha_key r) = Some r \<and> captcha_in_class cls now r \<and>
    \<not> locked (captcha_key r) \<and> captcha_row_ok (next_token s) r"
  using captcha_queue.page_rows [OF assms(1) [unfolded captcha_ok_def captcha_queue_ok_def, THEN conjunct1]
      assms(2) [unfolded due_captchas_def]]
  by simp

lemma due_captchas_distinct:
  assumes "captcha_ok s"
  shows "distinct (map captcha_key (due_captchas cls locked now limit s))"
  unfolding due_captchas_def
  by (rule captcha_queue.page_distinct [of "next_token s"])
    (use assms in \<open>simp add: captcha_ok_def captcha_queue_ok_def\<close>)

lemma lease_rows_captcha_count:
  "captcha_count_ok s \<Longrightarrow> max_captcha_rows t = max_captcha_rows s \<Longrightarrow> captcha_rows t = captcha_rows s \<Longrightarrow>
   captchas t = fst (snd (lease_rows captcha_key (lease_captcha_row until) rs n (captchas s))) \<Longrightarrow>
   captcha_count_ok t"
proof (induction rs arbitrary: n s)
  case Nil
  then show ?case by (simp add: captcha_count_ok_def captcha_limit_def)
next
  case (Cons r rs)
  let ?s = "s\<lparr>captchas := sql_update (\<lambda>q. captcha_key q = captcha_key r) (lease_captcha_row until n)
      (captchas s)\<rparr>"
  have "captcha_count_ok ?s"
    by (rule captcha_count_update [where f = "lease_captcha_row until n", OF Cons.prems(1)]) simp_all
  from Cons.IH [of ?s "n + 1", OF this] Cons.prems(2-4) show ?case
    by (simp add: split_beta Let_def)
qed

lemma claim_due_captchas_move:
  assumes ok: "captcha_ok s" and "arranges arrange"
    and t: "t = fst (claim_due_captchas cls locked arrange now until limit s)"
  shows "captcha_move s t \<and> captcha_count_ok t"
proof
  let ?rs = "arrange (due_captchas cls locked now limit s)"
  have "distinct (map captcha_key ?rs)"
    using due_captchas_distinct [OF ok] by (simp add: arranges_distinct [OF assms(2)])
  moreover have "\<forall>r \<in> set ?rs. row_at captcha_key (captchas s) (captcha_key r) = Some r \<and> True"
    using due_captchas_rows [OF ok] by (auto simp: arranges_set [OF assms(2)])
  ultimately show "captcha_move s t"
    using captcha_queue.move_lease_rows [of "next_token s" "captchas s" ?rs until] ok
    by (simp add: t claim_due_captchas_def captcha_move_def split_beta Let_def captcha_ok_def
        captcha_queue_ok_def)
  show "captcha_count_ok t"
    by (rule lease_rows_captcha_count [of s])
      (use ok in \<open>simp_all add: t claim_due_captchas_def split_beta Let_def captcha_ok_def\<close>)
qed

text \<open>The three settlements as one operation.\<close>

datatype captcha_verdict =
    DeferCaptcha seconds
  | QuarantineCaptcha seconds seconds utext
  | FinishCaptcha

fun settle_captcha :: "captcha_verdict \<Rightarrow> captcha_work \<Rightarrow> store \<Rightarrow> store \<times> bool" where
  "settle_captcha (DeferCaptcha at) w s = defer_captcha w at s"
| "settle_captcha (QuarantineCaptcha at now reason) w s = quarantine_captcha w at now reason s"
| "settle_captcha FinishCaptcha w s = finish_captcha w s"

lemma settle_captcha_move:
  assumes ok: "captcha_ok s"
  shows "captcha_move s (fst (settle_captcha v w s)) \<and> captcha_count_ok (fst (settle_captcha v w s))"
proof (cases v)
  case (DeferCaptcha at)
  show ?thesis
    by (rule captcha_set [where P = "\<lambda>r. captcha_key r = cw_key w \<and> captcha_held w r" and
          f = "\<lambda>r. r\<lparr>captcha_retry := at, captcha_lease := None\<rparr>", OF ok])
      (auto simp: DeferCaptcha defer_captcha_def captcha_row_ok_def)
next
  case (QuarantineCaptcha at now reason)
  show ?thesis
    by (rule captcha_set [where P = "\<lambda>r. captcha_key r = cw_key w \<and> captcha_held w r" and
          f = "\<lambda>r. r\<lparr>captcha_retry := at, captcha_lease := None, captcha_quarantined :=
            (case captcha_quarantined r of None \<Rightarrow> Some now | Some at \<Rightarrow> Some at),
            captcha_reason := Some reason\<rparr>", OF ok])
      (auto simp: QuarantineCaptcha quarantine_captcha_def captcha_row_ok_def)
next
  case FinishCaptcha
  with remove_captcha_move [OF ok] show ?thesis by (simp add: finish_captcha_def)
qed

lemma prepare_captcha_kick_move:
  assumes "captcha_ok s" and "t = fst (prepare_captcha_kick w kick s)"
  shows "captcha_move s t \<and> captcha_count_ok t"
  by (rule captcha_set [OF assms(1)])
    (auto simp: assms(2) prepare_captcha_kick_def captcha_row_ok_def)

lemma captcha_forget_move:
  assumes ok: "captcha_ok s"
  shows "captcha_move s (forget_chat_rows c s) \<and> captcha_count_ok (forget_chat_rows c s)"
proof
  let ?del = "sql_delete (\<lambda>r. captcha_chat r = c) (captchas s)"
  show "captcha_move s (forget_chat_rows c s)"
    using captcha_queue.move_delete ok
    by (simp add: captcha_move_def forget_chat_rows_def captcha_ok_def captcha_queue_ok_def)
  have "sql_count (\<lambda>r. captcha_chat r = d) ?del \<le> max_pending_captchas_per_chat" for d
    using ok sql_count_delete_le [of "\<lambda>r. captcha_chat r = d" "\<lambda>r. captcha_chat r = c" "captchas s"]
    by (auto simp: captcha_ok_def captcha_count_ok_def intro: order_trans)
  moreover have "int (length ?del) \<le> captcha_limit s"
    using ok length_delete_le [of "\<lambda>r. captcha_chat r = c" "captchas s"]
    by (simp add: captcha_ok_def captcha_count_ok_def)
  moreover have "captcha_limit (forget_chat_rows c s) = captcha_limit s"
    by (simp add: captcha_limit_def forget_chat_rows_def)
  ultimately show "captcha_count_ok (forget_chat_rows c s)"
    using ok sql_delete_length [of "captchas s" "\<lambda>r. captcha_chat r = c"]
    by (simp add: captcha_ok_def captcha_count_ok_def) (simp add: forget_chat_rows_def)
qed

lemma captcha_forget_at:
  assumes "captcha_ok s" and "row_at captcha_key (captchas (forget_chat_rows c s)) k = Some q"
  shows "row_at captcha_key (captchas s) k = Some q"
  using row_at_delete_Some [OF captcha_ok_unique [OF assms(1)]] assms(2)
  by (simp add: forget_chat_rows_def)

section \<open>Steps of the program\<close>

inductive captcha_step :: "store \<Rightarrow> store \<Rightarrow> bool" where
  captcha_reserve: "captcha_step s (fst (reserve_captcha i s))"
| captcha_attach: "captcha_step s (fst (attach_captcha_message v msg due s))"
| captcha_activate: "captcha_step s (fst (activate_captcha v msg s))"
| captcha_abandon: "captcha_step s (fst (abandon_captcha v s))"
| captcha_cancel: "captcha_step s (fst (cancel_captcha_for_member_override c u s))"
| captcha_answer: "captcha_step s (fst (claim_captcha_answer c u answer expected now until s))"
| captcha_claim_due: "arranges arrange \<Longrightarrow>
    captcha_step s (fst (claim_due_captchas cls locked arrange now until limit s))"
| captcha_prepare: "captcha_step s (fst (prepare_captcha_kick w kick s))"
| captcha_settle: "captcha_step s (fst (settle_captcha verdict w s))"
| captcha_forget: "captcha_step s (forget_chat_rows c s)"
| captcha_other: "captchas t = captchas s \<Longrightarrow> captcha_rows t = captcha_rows s \<Longrightarrow>
    max_captcha_rows t = max_captcha_rows s \<Longrightarrow> next_token s \<le> next_token t \<Longrightarrow> captcha_step s t"

lemma captcha_step_move: "captcha_step s t \<Longrightarrow> captcha_ok s \<Longrightarrow> captcha_move s t \<and> captcha_count_ok t"
proof (induction rule: captcha_step.induct)
  case (captcha_other t s)
  then show ?case by (intro captcha_env) simp_all
qed (simp_all add: reserve_captcha_move attach_captcha_message_move activate_captcha_move
      abandon_captcha_def remove_captcha_move cancel_captcha_move claim_captcha_answer_move
      claim_due_captchas_move prepare_captcha_kick_move settle_captcha_move captcha_forget_move)

abbreviation captcha_lease_at :: "store \<Rightarrow> member \<Rightarrow> int option" where
  "captcha_lease_at s \<equiv> lease_at captcha_key captcha_lease (captchas s)"

abbreviation captcha_due_at :: "store \<Rightarrow> member \<Rightarrow> seconds option" where
  "captcha_due_at s \<equiv> due_at captcha_key captcha_retry (captchas s)"

interpretation captcha_fence:
  fenced_store captcha_lease_at captcha_due_at next_token captcha_ok captcha_step
  by (rule fenced_store_of_moves [OF captcha_ok_leases])
    (auto dest: captcha_step_move captcha_okI simp: captcha_move_def queue_move_lease)

section \<open>What the operations do\<close>

lemma decode_captcha_fields:
  assumes "decode_captcha r = Inr w"
  shows "cw_key w = captcha_key r" and "captcha_lease r = Some (cw_lease w)" and "captcha_held w r"
    and "cw_generation w = captcha_generation r" and "phase_as_db (cw_phase w) = captcha_state r"
  using assms
  by (auto simp: decode_captcha_def cw_key_def captcha_key_def captcha_held_def phase_from_db_def
      split: sum.splits if_splits option.splits)

lemma captcha_held_lease: "captcha_held w r \<Longrightarrow> captcha_lease r = Some (cw_lease w)"
  by (simp add: captcha_held_def)

lemma captcha_current_lease:
  assumes "captcha_ok s" and "captcha_work_is_current w s"
  shows "captcha_lease_at s (cw_key w) = Some (cw_lease w)"
  by (rule held_lease [OF captcha_ok_unique [OF assms(1)]
        assms(2) [unfolded captcha_work_is_current_def] captcha_held_lease])

lemma settle_captcha_answer: "snd (settle_captcha v w s) = captcha_work_is_current w s"
  by (cases v) (simp_all add: defer_captcha_def quarantine_captcha_def finish_captcha_def
      remove_captcha_def captcha_work_is_current_def Let_def)

lemma settle_captcha_not_current:
  assumes "\<not> captcha_work_is_current w s"
  shows "settle_captcha v w s = (s, False)"
proof -
  have none: "\<not> (captcha_key r = cw_key w \<and> captcha_held w r)" if "r \<in> set (captchas s)" for r
    using assms that by (auto simp: captcha_work_is_current_def sql_exists_def list_ex_iff)
  have "sql_update (\<lambda>r. captcha_key r = cw_key w \<and> captcha_held w r) f (captchas s) = captchas s" for f
    by (rule sql_update_none) (use none in blast)
  moreover have "sql_delete (\<lambda>r. captcha_key r = cw_key w \<and> captcha_held w r) (captchas s) = captchas s"
    by (rule sql_delete_none) (use none in blast)
  ultimately show ?thesis using assms
    by (cases v) (simp_all add: defer_captcha_def quarantine_captcha_def finish_captcha_def
        remove_captcha_def captcha_work_is_current_def Let_def)
qed

lemma remove_captcha_at:
  assumes "captcha_ok s"
  shows "row_at captcha_key (captchas (fst (remove_captcha k P s))) j =
    (if j = k then (case row_at captcha_key (captchas s) k of None \<Rightarrow> None
       | Some r \<Rightarrow> if P r then None else Some r) else row_at captcha_key (captchas s) j)"
  by (simp add: remove_captcha_def Let_def row_at_delete_key [OF captcha_ok_unique [OF assms]])

lemma settle_captcha_releases:
  assumes ok: "captcha_ok s" and settled: "settle_captcha v w s = (t, True)"
  shows "captcha_lease_at t (cw_key w) = None"
proof -
  have "captcha_work_is_current w s" using settle_captcha_answer [of v w s] settled by simp
  then obtain r where r: "row_at captcha_key (captchas s) (cw_key w) = Some r" "captcha_held w r"
    by (auto simp: captcha_work_is_current_def sql_exists_key [OF captcha_ok_unique [OF ok]])
  note release = lease_at_release [where P = "captcha_held w" and lease = captcha_lease, OF r]
  show ?thesis
  proof (cases v)
    case FinishCaptcha
    with settled have t: "t = fst (remove_captcha (cw_key w) (captcha_held w) s)"
      by (simp add: finish_captcha_def)
    show ?thesis by (simp add: t lease_at_def remove_captcha_at [OF ok] r)
  qed (use settled in \<open>auto simp: defer_captcha_def quarantine_captcha_def intro!: release\<close>)
qed

lemma reserve_captcha_outcome:
  assumes ok: "captcha_ok s" and run: "reserve_captcha i s = (t, Inr out)"
  defines "k \<equiv> (ri_chat i, ri_user i)"
  shows "case out of
      Duplicate \<Rightarrow> captchas t = captchas s \<and> captcha_rows t = captcha_rows s \<and>
        (\<exists>r. row_at captcha_key (captchas s) k = Some r \<and> (ri_source i < captcha_source r \<or>
           captcha_source r = ri_source i \<and> captcha_state r \<noteq> ''arming''))
    | CapacityReached \<Rightarrow> captchas t = captchas s \<and> captcha_rows t = captcha_rows s \<and>
        row_at captcha_key (captchas s) k = None \<and>
        (sql_count (\<lambda>r. captcha_chat r = ri_chat i) (captchas s) = max_pending_captchas_per_chat \<or>
         captcha_rows s = captcha_limit s)
    | Reserved v \<Rightarrow> next_token s \<le> cr_generation v \<and> cr_key v = k \<and>
        cr_restriction v = ri_restriction i \<and>
        (row_at captcha_key (captchas s) k = None \<longrightarrow> captcha_rows s < captcha_limit s \<and>
           sql_count (\<lambda>r. captcha_chat r = ri_chat i) (captchas s) < max_pending_captchas_per_chat) \<and>
        row_at captcha_key (captchas t) =
          (row_at captcha_key (captchas s))(k \<mapsto> (case row_at captcha_key (captchas s) k of
             None \<Rightarrow> new_captcha i (cr_generation v)
           | Some r \<Rightarrow> rearm_captcha i (cr_generation v) r)) \<and>
        cr_superseded v = Option.bind (row_at captcha_key (captchas s) k) captcha_message \<and>
        (\<forall>r. row_at captcha_key (captchas s) k = Some r \<longrightarrow> captcha_source r < ri_source i)
    | Resume v \<Rightarrow> next_token s \<le> cr_generation v \<and> cr_key v = k \<and>
        cr_restriction v = ri_restriction i \<and>
        (\<exists>r. row_at captcha_key (captchas s) k = Some r \<and> captcha_source r = ri_source i \<and>
           captcha_state r = ''arming'' \<and> cr_superseded v = captcha_message r \<and>
           row_at captcha_key (captchas t) =
             (row_at captcha_key (captchas s))(k \<mapsto> rearm_captcha i (cr_generation v) r))"
proof (cases "row_at captcha_key (captchas s) k")
  case None
  have count: "captcha_rows s \<le> captcha_limit s"
    "sql_count (\<lambda>r. captcha_chat r = ri_chat i) (captchas s) \<le> max_pending_captchas_per_chat"
    using ok by (auto simp: captcha_ok_def captcha_count_ok_def)
  from None run have run': "reserve_new i s = (t, out)"
    by (cases "reserve_new i s") (auto simp: reserve_captcha_def k_def split: if_splits)
  show ?thesis
    using run' None count
    by (auto simp: reserve_new_def Let_def k_def sql_count_insert new_captcha_def captcha_limit_def
        row_at_insert reservation_of_def cr_key_def fun_eq_iff captcha_key_def
        split: if_splits option.splits)
next
  case (Some r)
  note uk = captcha_ok_unique [OF ok]
  from Some run have run': "reserve_again i r s = (t, Inr out)"
    by (auto simp: reserve_captcha_def k_def split: if_splits)
  show ?thesis
    using run' Some
    by (auto simp: reserve_again_def Let_def k_def reservation_of_def cr_key_def fun_eq_iff
        row_at_update_key(2) split: if_splits)
qed

lemma reserve_captcha_never_fails:
  assumes "captcha_ok s" and "ri_answer i \<le> i32_max"
  shows "\<exists>t out. reserve_captcha i s = (t, Inr out)"
proof (cases "row_at captcha_key (captchas s) (ri_chat i, ri_user i)")
  case None
  with assms(2) show ?thesis
    by (cases "reserve_new i s") (simp add: reserve_captcha_def)
next
  case (Some r)
  with assms(2) show ?thesis
    by (auto simp: reserve_captcha_def reserve_again_def Let_def not_less
        sql_exists_key [OF captcha_ok_unique [OF assms(1)]])
qed

lemma claim_due_handles:
  assumes "arranges arrange"
    and "claim_due_captchas cls locked arrange now until limit s = (t, Inr ws)" and "w \<in> set ws"
  shows "\<exists>q m. q \<in> set (due_captchas cls locked now limit s) \<and>
    decode_captcha (lease_captcha_row until m q) = Inr w"
proof -
  obtain x where x: "x \<in> set (snd (snd (lease_rows captcha_key (lease_captcha_row until)
      (arrange (due_captchas cls locked now limit s)) (next_token s) (captchas s))))"
    "decode_captcha x = Inr w"
    using collect_results_in [of decode_captcha _ ws w] assms(2,3)
    by (fastforce simp: claim_due_captchas_def split_beta Let_def)
  from lease_rows_out [OF x(1)] x(2) show ?thesis
    by (auto simp: arranges_set [OF assms(1)])
qed

section \<open>The life of a challenge\<close>

text \<open>What may become of a row without a new reservation.\<close>

definition phase_follows :: "captcha_row \<Rightarrow> captcha_row \<Rightarrow> bool" where
  "phase_follows r q \<longleftrightarrow> captcha_generation q = captcha_generation r \<and>
     (captcha_state q = captcha_state r \<or> captcha_state r = ''arming'' \<or>
      captcha_state r = ''pending'' \<and> captcha_state q \<noteq> ''arming'')"

lemma phase_follows_refl: "phase_follows r r"
  by (simp add: phase_follows_def)

lemma phase_follows_order: "reflp phase_follows" "transp phase_follows"
  by (auto simp: phase_follows_def intro!: reflpI transpI)

lemma phase_follows_lease: "phase_follows r (lease_captcha_row until n r)"
  by (simp add: phase_follows_def lease_captcha_row_def)

lemma captcha_update_follows:
  assumes "row_at captcha_key (captchas t) k = Some q"
    and "captchas t = sql_update P f (captchas s)" and "\<And>r. captcha_key (f r) = captcha_key r"
    and "\<And>r. P r \<Longrightarrow> phase_follows r (f r)"
  shows "\<exists>r. row_at captcha_key (captchas s) k = Some r \<and> phase_follows r q"
  using row_at_update_Some [where f = f and key = captcha_key, OF _ assms(3)] assms(1,2,4) phase_follows_refl
  by metis

lemma captcha_remove_follows:
  assumes "captcha_ok s" and "row_at captcha_key (captchas (fst (remove_captcha j P s))) k = Some q"
  shows "\<exists>r. row_at captcha_key (captchas s) k = Some r \<and> phase_follows r q"
  using assms(2) phase_follows_refl
  by (auto simp: remove_captcha_at [OF assms(1)] split: if_splits option.splits)

lemma reserve_captcha_follows:
  assumes "captcha_ok s" and "row_at captcha_key (captchas (fst (reserve_captcha i s))) k = Some q"
  shows "next_token s \<le> captcha_generation q \<or>
    (\<exists>r. row_at captcha_key (captchas s) k = Some r \<and> phase_follows r q)"
proof (cases "ri_answer i \<le> i32_max")
  case False
  with assms(2) show ?thesis by (auto simp: reserve_captcha_def intro: phase_follows_refl)
next
  case True
  with reserve_captcha_never_fails [OF assms(1)] obtain t out
    where run: "reserve_captcha i s = (t, Inr out)" by blast
  note spec = reserve_captcha_outcome [OF assms(1) run]
  show ?thesis
    using spec assms(2) run phase_follows_refl
    by (cases out) (auto simp: new_captcha_def rearm_captcha_def split: if_splits option.splits)
qed

lemma captcha_step_follows:
  assumes "captcha_step s t" and "captcha_ok s" and "row_at captcha_key (captchas t) k = Some q"
  shows "next_token s \<le> captcha_generation q \<or>
    (\<exists>r. row_at captcha_key (captchas s) k = Some r \<and> phase_follows r q)"
  using assms
proof (induction rule: captcha_step.induct)
  case (captcha_reserve s i)
  then show ?case using reserve_captcha_follows by blast
next
  case (captcha_attach s v msg due)
  show ?case
    by (rule disjI2, rule captcha_update_follows [where f = "\<lambda>r. r\<lparr>captcha_message := Some msg, captcha_due := due\<rparr>",
          OF captcha_attach(2)])
      (auto simp: attach_captcha_message_def phase_follows_def)
next
  case (captcha_activate s v msg)
  show ?case
    by (rule disjI2, rule captcha_update_follows [where
          P = "\<lambda>r. captcha_key r = cr_key v \<and> captcha_armed v msg r" and
          f = "\<lambda>r. r\<lparr>captcha_state := ''pending'', captcha_retry := captcha_due r\<rparr>", OF captcha_activate(2)])
      (auto simp: activate_captcha_def phase_follows_def captcha_armed_def captcha_arming_def)
next
  case (captcha_abandon s v)
  then show ?case using captcha_remove_follows by (simp add: abandon_captcha_def)
next
  case (captcha_cancel s c u)
  then show ?case using captcha_remove_follows by (simp add: cancel_captcha_for_member_override_def)
next
  case (captcha_answer s c u answer expected now until)
  obtain t out where run: "claim_captcha_answer c u answer expected now until s = (t, out)"
    by fastforce
  show ?case using run
  proof (cases rule: claim_captcha_answer_cases)
    case kept
    with captcha_answer run show ?thesis by (auto intro: phase_follows_refl)
  next
    case (claimed r w)
    from captcha_answer(2) run have "row_at captcha_key (captchas t) k = Some q" by simp
    then show ?thesis
      by (intro disjI2, elim captcha_update_follows [where f = "answer_captcha_row until (next_token s)"
          and P = "\<lambda>q. captcha_key q = (c, u) \<and> captcha_state q = ''pending''"])
        (auto simp: claimed phase_follows_def answer_captcha_row_def)
  qed
next
  case (captcha_claim_due arrange s cls locked now until limit)
  show ?case
    by (rule disjI2, rule captcha_queue.row_at_lease_rows [OF _ phase_follows_order phase_follows_lease])
      (use captcha_claim_due in \<open>simp add: claim_due_captchas_def split_beta Let_def\<close>)
next
  case (captcha_prepare s w kick)
  show ?case
    by (rule disjI2, rule captcha_update_follows [where f = "\<lambda>r. r\<lparr>captcha_kick := Some kick\<rparr>",
          OF captcha_prepare(2)])
      (auto simp: prepare_captcha_kick_def phase_follows_def)
next
  case (captcha_settle s verdict w)
  show ?case
  proof (cases verdict)
    case (DeferCaptcha at)
    show ?thesis
      by (rule disjI2, rule captcha_update_follows [where f = "\<lambda>r. r\<lparr>captcha_retry := at,
            captcha_lease := None\<rparr>", OF captcha_settle(2)])
        (auto simp: DeferCaptcha defer_captcha_def phase_follows_def)
  next
    case (QuarantineCaptcha at now reason)
    show ?thesis
      by (rule disjI2, rule captcha_update_follows [where f = "\<lambda>r. r\<lparr>captcha_retry := at,
            captcha_lease := None, captcha_quarantined :=
            (case captcha_quarantined r of None \<Rightarrow> Some now | Some at \<Rightarrow> Some at),
            captcha_reason := Some reason\<rparr>", OF captcha_settle(2)])
        (auto simp: QuarantineCaptcha quarantine_captcha_def phase_follows_def)
  next
    case FinishCaptcha
    with captcha_settle captcha_remove_follows show ?thesis by (simp add: finish_captcha_def)
  qed
next
  case (captcha_forget s c)
  then show ?case using captcha_forget_at phase_follows_refl by blast
next
  case (captcha_other t s)
  then show ?case by (auto intro: phase_follows_refl)
qed

text \<open>Once decided, a challenge stays decided.\<close>

lemma captcha_decision_kept:
  assumes "captcha_step\<^sup>*\<^sup>* s t" and "captcha_ok s"
    and "row_at captcha_key (captchas s) k = Some r" and "captcha_state r \<in> {''passing'', ''expiring''}"
    and "row_at captcha_key (captchas t) k = Some q" and "captcha_generation q = captcha_generation r"
  shows "captcha_state q = captcha_state r"
  using assms(1,5,6)
proof (induction arbitrary: q rule: rtranclp_induct)
  case base
  with assms(3) show ?case by simp
next
  case (step t u)
  have old: "captcha_generation r < next_token s"
    using captcha_ok_row [OF assms(2,3)] by (simp add: captcha_row_ok_def)
  have "next_token s \<le> next_token t"
    using captcha_fence.sequence_steps [OF step.hyps(1) assms(2)] .
  with captcha_step_follows [OF step.hyps(2) captcha_fence.ok_steps [OF step.hyps(1) assms(2)]
      step.prems(1)] old step.prems(2)
  obtain p where p: "row_at captcha_key (captchas t) k = Some p" "phase_follows p q" by auto
  then have "captcha_state p = captcha_state r"
    using step.IH [of p] step.prems(2) by (simp add: phase_follows_def)
  with p(2) assms(4) show ?case by (auto simp: phase_follows_def)
qed

section \<open>Examples\<close>

definition example_input :: reservation_input where
  "example_input = \<lparr>ri_chat = -100, ri_user = 9, ri_answer = 2, ri_source = 50, ri_due = 100,
     ri_retry = 30, ri_restriction = 0, ri_failure = FailKick\<rparr>"

definition example_captcha_row :: captcha_row where
  "example_captcha_row = (new_captcha example_input 5)
     \<lparr>captcha_message := Some 60, captcha_retry := 100, captcha_state := ''pending''\<rparr>"

definition empty_store :: store where
  "empty_store = \<lparr>counters = [], counter_rows = 0, strict_actions = [], warn_actions = [],
     captchas = [], captcha_rows = 0, next_token = 5, max_counter_rows = None,
     max_captcha_rows = None\<rparr>"

definition example_captcha_store :: store where
  "example_captcha_store =
     empty_store\<lparr>captchas := [example_captcha_row], captcha_rows := 1, next_token := 6\<rparr>"

definition example_work :: captcha_work where
  "example_work = \<lparr>cw_chat = -100, cw_user = 9, cw_message = Some 60, cw_due = 100,
     cw_failure = FailKick, cw_phase = Passing, cw_attempts = 1, cw_restriction = Some 0,
     cw_quarantined = None, cw_reason = None, cw_source = 50, cw_kick = None, cw_generation = 5,
     cw_version = 2, cw_lease = 6\<rparr>"

definition answered_store :: store where
  "answered_store = example_captcha_store
     \<lparr>captchas := [answer_captcha_row 80 6 example_captcha_row], next_token := 7\<rparr>"

lemmas example_captcha_defs = example_captcha_store_def empty_store_def example_captcha_row_def
  new_captcha_def example_input_def

lemma empty_store_ok: "captcha_ok empty_store"
  by (simp add: captcha_ok_def captcha_queue_ok_def queue_ok_def captcha_count_ok_def
      captcha_limit_def empty_store_def sql_count_def max_pending_captchas_per_chat_def int_bounds)

lemma example_captcha_ok: "captcha_ok example_captcha_store"
  by (simp add: captcha_ok_def captcha_queue_ok_def queue_ok_def leases_ok_def lease_at_def
      row_at_Cons unique_key_def captcha_row_ok_def captcha_count_ok_def captcha_limit_def
      sql_count_def max_pending_captchas_per_chat_def int_bounds example_captcha_defs)

lemma example_answer:
  "claim_captcha_answer (-100) 9 2 (Some 5) 40 80 example_captcha_store =
     (answered_store, Inr (Claimed example_work))"
  by (simp add: claim_captcha_answer_def answer_refusal_def row_at_Cons captcha_key_def Let_def
      decode_captcha_def answer_captcha_row_def failure_from_db_def phase_from_db_def int_bounds
      example_work_def answered_store_def sql_update_def example_captcha_defs)

lemma answered_store_ok: "captcha_ok answered_store"
  using claim_captcha_answer_move [OF example_captcha_ok, of "-100" 9 2 "Some 5" 40 80] example_answer
  by (auto intro: captcha_okI)

lemma example_work_current: "captcha_work_is_current example_work answered_store"
  by (simp add: captcha_work_is_current_def sql_exists_def captcha_held_def answered_store_def
      answer_captcha_row_def example_work_def cw_key_def captcha_key_def example_captcha_defs)

section \<open>Properties\<close>

text \<open>
  C7: work on a captcha is settled at most once. Once a current handle has settled its row, or a
  moderator has overridden the captcha, or the member has joined again and got a new challenge,
  no later settlement with that handle succeeds and the attempt changes nothing, whatever happens
  in between.
\<close>

theorem captcha_work_settled_once:
  assumes "captcha_ok s" and "captcha_work_is_current w s" and "captcha_step\<^sup>*\<^sup>* s s1"
    and "settle_captcha v w s1 = (s2, True) \<or>
      s2 = fst (cancel_captcha_for_member_override (cw_chat w) (cw_user w) s1) \<or>
      (\<exists>i new. reserve_captcha i s1 = (s2, Inr (Reserved new)) \<and> cr_key new = cw_key w)"
    and "captcha_step\<^sup>*\<^sup>* s2 s3"
  shows "settle_captcha v' w s3 = (s3, False)"
proof -
  have held: "captcha_lease_at s (cw_key w) = Some (cw_lease w)"
    using captcha_current_lease [OF assms(1,2)] .
  have ok1: "captcha_ok s1" using captcha_fence.ok_steps [OF assms(3,1)] .
  have drawn: "cw_lease w < next_token s1"
    using captcha_fence.lease_drawn [OF assms(1) held] captcha_fence.sequence_steps [OF assms(3,1)]
    by simp
  have "captcha_step s1 s2 \<and> captcha_lease_at s2 (cw_key w) = None"
    using assms(4)
  proof (elim disjE exE conjE)
    assume a: "settle_captcha v w s1 = (s2, True)"
    show ?thesis
      using captcha_settle [of s1 v w] settle_captcha_releases [OF ok1 a] a by simp
  next
    assume a: "s2 = fst (cancel_captcha_for_member_override (cw_chat w) (cw_user w) s1)"
    have "captcha_lease_at s2 (cw_key w) = None"
      by (simp add: a cancel_captcha_for_member_override_def lease_at_def cw_key_def
          remove_captcha_at [OF ok1] split: option.splits)
    with a captcha_cancel show ?thesis by simp
  next
    fix i new
    assume a: "reserve_captcha i s1 = (s2, Inr (Reserved new))" and k: "cr_key new = cw_key w"
    from reserve_captcha_outcome [OF ok1 a] k have "captcha_lease_at s2 (cw_key w) = None"
      by (auto simp: lease_at_def new_captcha_def rearm_captcha_def split: option.splits)
    with a captcha_reserve [of s1 i] show ?thesis by simp
  qed
  then have ok2: "captcha_ok s2" and "next_token s1 \<le> next_token s2"
    and "captcha_lease_at s2 (cw_key w) = None"
    using captcha_step_move [OF _ ok1] captcha_okI captcha_move_le by blast+
  with drawn have "captcha_lease_at s3 (cw_key w) \<noteq> Some (cw_lease w)"
    by (intro captcha_fence.stale_forever [OF assms(5)]) auto
  with captcha_current_lease [of s3 w] captcha_fence.ok_steps [OF assms(5) ok2]
  show ?thesis by (intro settle_captcha_not_current) auto
qed

theorem captcha_work_settled_once_witness:
  "settle_captcha FinishCaptcha example_work
     (fst (cancel_captcha_for_member_override (-100) 9 answered_store)) =
   (fst (cancel_captcha_for_member_override (-100) 9 answered_store), False)"
  using captcha_work_settled_once [OF answered_store_ok example_work_current rtranclp.rtrancl_refl
      disjI2 [OF disjI1 [OF refl]] rtranclp.rtrancl_refl, of FinishCaptcha]
  by (simp add: example_work_def)

text \<open>
  C8: an accepted answer cannot be overtaken by the timeout. After a right answer has been
  claimed, due work on the same challenge is always the passing of the member, never the
  expiry: a member who answered in time is not kicked, whatever the rest of the program does.
\<close>

theorem captcha_answer_is_final:
  assumes "captcha_ok s" and "claim_captcha_answer c u answer expected now until s = (s1, Inr (Claimed w))"
    and "captcha_step\<^sup>*\<^sup>* s1 s2" and "arranges arrange"
    and "claim_due_captchas cls locked arrange now' until' limit s2 = (s3, Inr ws)"
    and "w' \<in> set ws" and "cw_key w' = (c, u)" and "cw_generation w' = cw_generation w"
  shows "cw_phase w' = Passing"
proof -
  obtain r where r: "row_at captcha_key (captchas s) (c, u) = Some r" "captcha_state r = ''pending''"
    and dec: "decode_captcha (answer_captcha_row until (next_token s) r) = Inr w"
    and s1: "s1 = s\<lparr>captchas := sql_update (\<lambda>q. captcha_key q = (c, u) \<and> captcha_state q = ''pending'')
         (answer_captcha_row until (next_token s)) (captchas s), next_token := next_token s + 1\<rparr>"
    using assms(2) by (cases rule: claim_captcha_answer_cases) auto
  have ok1: "captcha_ok s1"
    using claim_captcha_answer_move [OF assms(1), of c u answer expected now until] assms(2)
    by (auto intro: captcha_okI)
  have at1: "row_at captcha_key (captchas s1) (c, u) = Some (answer_captcha_row until (next_token s) r)"
    using r by (simp add: s1 row_at_update_key(2))
  have ok2: "captcha_ok s2" using captcha_fence.ok_steps [OF assms(3) ok1] .
  obtain q m where q: "q \<in> set (due_captchas cls locked now' limit s2)"
    and dq: "decode_captcha (lease_captcha_row until' m q) = Inr w'"
    using claim_due_handles [OF assms(4-6)] by blast
  note f = decode_captcha_fields [OF dq] and f0 = decode_captcha_fields [OF dec]
  have "row_at captcha_key (captchas s2) (c, u) = Some q"
    using due_captchas_rows [OF ok2 q] f(1) assms(7) by simp
  moreover have "captcha_generation q = captcha_generation (answer_captcha_row until (next_token s) r)"
    using f(4) f0(4) assms(8) by (simp add: lease_captcha_row_def)
  ultimately have "captcha_state q = ''passing''"
    using captcha_decision_kept [OF assms(3) ok1 at1] by (simp add: answer_captcha_row_def)
  with f(5) show ?thesis by (cases "cw_phase w'") (simp_all add: lease_captcha_row_def)
qed

theorem captcha_answer_is_final_witness:
  "cw_phase (example_work\<lparr>cw_attempts := 2, cw_version := 3, cw_lease := 7\<rparr>) = Passing"
proof (rule captcha_answer_is_final [OF example_captcha_ok example_answer rtranclp.rtrancl_refl])
  show "arranges (\<lambda>rs. rs)" by (simp add: arranges_def)
  show "claim_due_captchas CaptchaRetry (\<lambda>k. False) (\<lambda>rs. rs) 80 140 10 answered_store =
      (fst (claim_due_captchas CaptchaRetry (\<lambda>k. False) (\<lambda>rs. rs) 80 140 10 answered_store),
       Inr [example_work\<lparr>cw_attempts := 2, cw_version := 3, cw_lease := 7\<rparr>])"
    by (simp add: claim_due_captchas_def due_captchas_def sql_page_def clamp_def answered_store_def
        answer_captcha_row_def lease_captcha_row_def decode_captcha_def failure_from_db_def
        phase_from_db_def int_bounds example_work_def example_captcha_defs split_beta Let_def)
qed (simp_all add: example_work_def cw_key_def)

text \<open>
  And the other way round: once a worker has claimed the expiry of a challenge, no answer to
  that challenge is ever accepted.
\<close>

theorem captcha_expiry_is_final:
  assumes "captcha_ok s" and "captcha_work_is_current w s" and "cw_phase w = Expiring"
    and "captcha_step\<^sup>*\<^sup>* s s1"
    and "claim_captcha_answer (cw_chat w) (cw_user w) answer expected now until s1 = (s2, Inr (Claimed w'))"
  shows "cw_generation w' \<noteq> cw_generation w"
proof
  assume same: "cw_generation w' = cw_generation w"
  obtain r where r: "row_at captcha_key (captchas s) (cw_key w) = Some r" "captcha_held w r"
    using assms(2) by (auto simp: captcha_work_is_current_def
        sql_exists_key [OF captcha_ok_unique [OF assms(1)]])
  obtain q where q: "row_at captcha_key (captchas s1) (cw_key w) = Some q" "captcha_state q = ''pending''"
    and dec: "decode_captcha (answer_captcha_row until (next_token s1) q) = Inr w'"
    using assms(5) unfolding cw_key_def by (cases rule: claim_captcha_answer_cases) auto
  have "captcha_generation q = captcha_generation r"
    using decode_captcha_fields(4) [OF dec] same r(2)
    by (simp add: answer_captcha_row_def captcha_held_def)
  with captcha_decision_kept [OF assms(4,1) r(1) _ q(1)] r(2) assms(3) q(2)
  show False by (simp add: captcha_held_def)
qed

definition expired_store :: store where
  "expired_store = example_captcha_store
     \<lparr>captchas := [lease_captcha_row 160 6 example_captcha_row], next_token := 7\<rparr>"

definition rejoin_reservation :: captcha_reservation where
  "rejoin_reservation = \<lparr>cr_chat = -100, cr_user = 9, cr_restriction = 0, cr_superseded = Some 60,
     cr_generation = 8\<rparr>"

definition rejoined_store :: store where
  "rejoined_store = fst (activate_captcha rejoin_reservation 61
     (fst (attach_captcha_message rejoin_reservation 61 300
       (fst (reserve_captcha (example_input\<lparr>ri_source := 51\<rparr>) expired_store)))))"

definition expired_work :: captcha_work where
  "expired_work = example_work\<lparr>cw_phase := Expiring, cw_attempts := 1, cw_lease := 6\<rparr>"

lemma expired_store_ok: "captcha_ok expired_store"
proof -
  have "expired_store = fst (claim_due_captchas CaptchaFresh (\<lambda>k. False) (\<lambda>rs. rs) 100 160 10
      example_captcha_store)"
    by (simp add: claim_due_captchas_def due_captchas_def sql_page_def clamp_def expired_store_def
        sql_update_def split_beta Let_def example_captcha_defs)
  from claim_due_captchas_move [OF example_captcha_ok _ this] show ?thesis
    by (auto intro: captcha_okI simp: arranges_def)
qed

lemma rejoined_steps: "captcha_step\<^sup>*\<^sup>* expired_store rejoined_store"
proof -
  define a where "a = fst (reserve_captcha (example_input\<lparr>ri_source := 51\<rparr>) expired_store)"
  define b where "b = fst (attach_captcha_message rejoin_reservation 61 300 a)"
  have "captcha_step expired_store a" and "captcha_step a b" and "captcha_step b rejoined_store"
    unfolding rejoined_store_def a_def [symmetric] b_def [symmetric]
    by (simp_all add: a_def b_def captcha_step.intros)
  then show ?thesis by (meson r_into_rtranclp rtranclp.rtrancl_into_rtrancl)
qed

lemma rejoined_rows: "captchas rejoined_store = [example_captcha_row\<lparr>captcha_source := 51,
    captcha_message := Some 61, captcha_due := 300, captcha_retry := 300, captcha_generation := 8,
    captcha_version := 3\<rparr>]"
  by (simp add: rejoined_store_def activate_captcha_def attach_captcha_message_def reserve_captcha_def
      reserve_again_def rearm_captcha_def Let_def row_at_Cons sql_exists_def sql_update_def
      captcha_key_def cr_key_def captcha_armed_def captcha_arming_def rejoin_reservation_def
      expired_store_def lease_captcha_row_def example_captcha_defs int_bounds)

theorem captcha_expiry_is_final_witness:
  "\<exists>w'. claim_captcha_answer (-100) 9 2 (Some 8) 200 260 rejoined_store =
      (fst (claim_captcha_answer (-100) 9 2 (Some 8) 200 260 rejoined_store), Inr (Claimed w')) \<and>
    cw_generation w' \<noteq> 5"
proof -
  have current: "captcha_work_is_current expired_work expired_store"
    by (simp add: captcha_work_is_current_def sql_exists_def captcha_held_def expired_store_def
        lease_captcha_row_def expired_work_def example_work_def cw_key_def captcha_key_def
        example_captcha_defs)
  have "\<exists>w'. snd (claim_captcha_answer (-100) 9 2 (Some 8) 200 260 rejoined_store) = Inr (Claimed w')"
    by (simp add: claim_captcha_answer_def answer_refusal_def row_at_Cons rejoined_rows
        captcha_key_def Let_def decode_captcha_def answer_captcha_row_def failure_from_db_def
        phase_from_db_def int_bounds example_captcha_defs)
  then obtain w' where run: "claim_captcha_answer (-100) 9 2 (Some 8) 200 260 rejoined_store =
      (fst (claim_captcha_answer (-100) 9 2 (Some 8) 200 260 rejoined_store), Inr (Claimed w'))"
    by (metis prod.collapse)
  have "cw_generation w' \<noteq> cw_generation expired_work"
    by (rule captcha_expiry_is_final [OF expired_store_ok current _ rejoined_steps, of 2 "Some 8" 200 260])
      (use run in \<open>simp_all add: expired_work_def example_work_def\<close>)
  with run show ?thesis by (auto simp: expired_work_def example_work_def)
qed

text \<open>
  What a reservation does, case by case. A member without a row gets one, armed and current,
  unless the chat already has 256 or the shard is full, which is the only reason to refuse; a
  later join message replaces the old challenge, whose message is handed back for deletion; the
  same join message resumes a set-up that was interrupted and is otherwise a duplicate, as is an
  older one. The generation is fresh, nobody else's row changes, and no other outcome exists.
\<close>

theorem captcha_reservation_outcomes:
  assumes "captcha_ok s" and "ri_answer i \<le> i32_max" and "k = (ri_chat i, ri_user i)"
  shows "\<exists>t out. reserve_captcha i s = (t, Inr out) \<and>
    (case row_at captcha_key (captchas s) k of
       None \<Rightarrow>
         if sql_count (\<lambda>r. captcha_chat r = ri_chat i) (captchas s) = max_pending_captchas_per_chat \<or>
            captcha_rows s = captcha_limit s
         then out = CapacityReached \<and> captchas t = captchas s \<and> captcha_rows t = captcha_rows s
         else (\<exists>v. out = Reserved v \<and> cr_superseded v = None \<and> next_token s \<le> cr_generation v \<and>
                 row_at captcha_key (captchas t) =
                   (row_at captcha_key (captchas s))(k \<mapsto> new_captcha i (cr_generation v)) \<and>
                 captcha_reservation_is_current v t)
     | Some r \<Rightarrow>
         if captcha_source r < ri_source i \<or>
            captcha_source r = ri_source i \<and> captcha_state r = ''arming''
         then (\<exists>v. out = (if captcha_source r = ri_source i then Resume v else Reserved v) \<and>
                 cr_superseded v = captcha_message r \<and> next_token s \<le> cr_generation v \<and>
                 row_at captcha_key (captchas t) =
                   (row_at captcha_key (captchas s))(k \<mapsto> rearm_captcha i (cr_generation v) r) \<and>
                 captcha_reservation_is_current v t)
         else out = Duplicate \<and> captchas t = captchas s \<and> captcha_rows t = captcha_rows s)"
proof -
  obtain t out where run: "reserve_captcha i s = (t, Inr out)"
    using reserve_captcha_never_fails [OF assms(1,2)] by blast
  have okt: "captcha_ok t"
    using reserve_captcha_move [OF assms(1), of i] run by (auto intro: captcha_okI)
  have current: "captcha_reservation_is_current v t"
    if "row_at captcha_key (captchas t) k = Some q" "captcha_waiting v q" "cr_key v = k"
      "captcha_restriction q = Some (cr_restriction v)" for v q
    using that by (simp add: captcha_reservation_is_current_def sql_exists_key [OF captcha_ok_unique [OF okt]])
  have fresh: "captcha_waiting v (new_captcha i (cr_generation v))"
    "captcha_restriction (new_captcha i n) = Some (ri_restriction i)"
    "captcha_waiting v (rearm_captcha i (cr_generation v) r)"
    "captcha_restriction (rearm_captcha i n r) = Some (ri_restriction i)" for v n r
    by (simp_all add: captcha_waiting_def new_captcha_def rearm_captcha_def)
  note spec = reserve_captcha_outcome [OF assms(1) run, folded assms(3)]
  show ?thesis
    by (intro exI conjI, rule run, cases out)
      (use spec current fresh in \<open>auto split: option.splits\<close>)
qed

theorem captcha_reservation_outcomes_witness:
  "\<exists>t v. reserve_captcha example_input empty_store = (t, Inr (Reserved v)) \<and>
    captcha_reservation_is_current v t"
proof -
  have "row_at captcha_key (captchas empty_store) (ri_chat example_input, ri_user example_input) = None"
    "sql_count (\<lambda>r. captcha_chat r = ri_chat example_input) (captchas empty_store) \<noteq>
      max_pending_captchas_per_chat" "captcha_rows empty_store \<noteq> captcha_limit empty_store"
    "ri_answer example_input \<le> i32_max"
    by (simp_all add: empty_store_def example_input_def sql_count_def captcha_limit_def int_bounds
        max_pending_captchas_per_chat_def)
  with captcha_reservation_outcomes [OF empty_store_ok this(4) refl] show ?thesis by auto
qed

text \<open>
  \<open>captcha_counts\<close> is exact in every reachable state: it equals the number of pending
  captchas, that number never exceeds the shard's limit, no chat has more than 256 and no member
  two; a row that waits for an answer always has its message and is never leased.
\<close>

theorem captcha_count_exact:
  assumes "captcha_ok s" and "captcha_step\<^sup>*\<^sup>* s t"
  shows "captcha_rows t = int (length (captchas t)) \<and> captcha_rows t \<le> captcha_limit t \<and>
    sql_count (\<lambda>r. captcha_chat r = c) (captchas t) \<le> 256 \<and> distinct (map captcha_key (captchas t)) \<and>
    (\<forall>r \<in> set (captchas t). captcha_state r = ''pending'' \<longrightarrow>
       captcha_message r \<noteq> None \<and> captcha_lease r = None)"
proof -
  have ok: "captcha_ok t" using captcha_fence.ok_steps [OF assms(2,1)] .
  then have "\<forall>r \<in> set (captchas t). captcha_row_ok (next_token t) r"
    by (simp add: captcha_ok_def captcha_queue_ok_def queue_ok_def)
  with ok captcha_ok_unique [OF ok] show ?thesis
    by (auto simp: captcha_ok_def captcha_count_ok_def captcha_row_ok_def unique_key_def
        max_pending_captchas_per_chat_def)
qed

theorem captcha_count_exact_witness:
  "captcha_rows rejoined_store = 1 \<and> captcha_rows rejoined_store \<le> captcha_limit rejoined_store"
  using captcha_count_exact [OF expired_store_ok rejoined_steps, of 0]
  by (auto simp: rejoined_rows)

text \<open>
  An answer is accepted exactly when it should be: the member has a pending challenge, the
  button belongs to this challenge (an old button without a generation only to an old challenge),
  the time has not run out and the answer is the right one. Then the row is \<open>passing\<close> and leased
  with a fresh token until the time asked for. In every other case no row changes.
\<close>

theorem captcha_answer_accepted_iff:
  assumes "captcha_ok s" and "answer \<le> i32_max"
    and "claim_captcha_answer c u answer expected now until s = (t, out)"
  shows "(case row_at captcha_key (captchas s) (c, u) of
       None \<Rightarrow> out = Inr Missing \<and> t = s
     | Some r \<Rightarrow>
         if captcha_state r = ''pending'' \<and> now < captcha_due r \<and> captcha_answer r = answer \<and>
            (case expected of None \<Rightarrow> captcha_source r = 0 | Some g \<Rightarrow> captcha_generation r = g)
         then (\<exists>w. out = Inr (Claimed w) \<and> cw_key w = (c, u) \<and> cw_phase w = Passing \<and>
                 cw_lease w = next_token s \<and> captcha_work_is_current w t \<and>
                 row_at captcha_key (captchas t) = (row_at captcha_key (captchas s))
                   ((c, u) \<mapsto> answer_captcha_row until (next_token s) r))
         else (\<exists>x. out = Inr x \<and> t = s \<and> (\<forall>w. x \<noteq> Claimed w)))"
proof (cases "row_at captcha_key (captchas s) (c, u)")
  case None
  with assms(2,3) show ?thesis by (auto simp: claim_captcha_answer_def)
next
  case (Some r)
  have rok: "captcha_row_ok (next_token s) r" "captcha_key r = (c, u)"
    using captcha_ok_row [OF assms(1) Some] by auto
  show ?thesis
  proof (cases "answer_refusal answer expected now r")
    case r: (Some x)
    have "\<not> (captcha_state r = ''pending'' \<and> now < captcha_due r \<and> captcha_answer r = answer \<and>
            (case expected of None \<Rightarrow> captcha_source r = 0 | Some g \<Rightarrow> captcha_generation r = g))"
      using r by (cases expected) (auto simp: answer_refusal_def split: if_splits)
    moreover have "out = Inr x" "t = s"
      using assms(2,3) Some r by (auto simp: claim_captcha_answer_def)
    ultimately show ?thesis using Some answer_refusal_not_claimed [of answer expected now r] r
      by auto
  next
    case None
    let ?q = "answer_captcha_row until (next_token s) r"
    have pend: "captcha_state r = ''pending''"
      using None rok(1) by (cases expected) (auto simp: answer_refusal_def captcha_row_ok_def split: if_splits)
    have "\<exists>w. decode_captcha ?q = Inr w"
      using rok(1) by (auto simp: decode_captcha_def answer_captcha_row_def captcha_row_ok_def
          failure_from_db_def phase_from_db_def int_bounds)
    then obtain w where w: "decode_captcha ?q = Inr w" by blast
    have t: "t = s\<lparr>captchas := sql_update (\<lambda>q. captcha_key q = (c, u) \<and> captcha_state q = ''pending'')
         (answer_captcha_row until (next_token s)) (captchas s), next_token := next_token s + 1\<rparr>"
      and out: "out = Inr (Claimed w)"
      using assms(2,3) Some None pend w by (auto simp: claim_captcha_answer_def Let_def)
    have view: "row_at captcha_key (captchas t) = (row_at captcha_key (captchas s))((c, u) \<mapsto> ?q)"
      using Some pend by (auto simp: t fun_eq_iff row_at_update_key(2))
    have okt: "captcha_ok t"
      using answer_update_move [OF assms(1) Some pend t] by (auto intro: captcha_okI)
    note f = decode_captcha_fields [OF w]
    have "cw_phase w = Passing"
      using f(5) by (cases "cw_phase w") (simp_all add: answer_captcha_row_def)
    moreover have "captcha_work_is_current w t"
      using f(1,3) rok(2) view
      by (simp add: captcha_work_is_current_def sql_exists_key [OF captcha_ok_unique [OF okt]])
    moreover have "cw_lease w = next_token s" using f(2) by (simp add: answer_captcha_row_def)
    moreover note answer_refusal_None [OF None]
    ultimately show ?thesis using Some out view pend f(1) rok(2) by (auto split: option.splits)
  qed
qed

theorem captcha_answer_accepted_iff_witness:
  "\<exists>w. Inr (Claimed example_work) = (Inr (Claimed w) :: answer_claim outcome) \<and> cw_phase w = Passing \<and>
    captcha_work_is_current w answered_store"
proof -
  have row: "row_at captcha_key (captchas example_captcha_store) (-100, 9) = Some example_captcha_row"
    by (simp add: row_at_Cons captcha_key_def example_captcha_defs)
  from captcha_answer_accepted_iff [OF example_captcha_ok _ example_answer] row show ?thesis
    by (simp add: int_bounds) (auto simp: example_captcha_defs)
qed

text \<open>
  No overdue captcha is forgotten. A row whose time has come (the due time of a waiting row,
  the retry time of any other) and that no other transaction holds belongs to a class, and a
  claim of that class at that time contains the row, unless it returns a full page of rows that
  come before it.
\<close>

theorem overdue_captcha_is_claimable:
  assumes "r \<in> set (captchas s)" and "\<not> locked (captcha_key r)"
    and "(if captcha_state r = ''pending'' then captcha_due r else captcha_retry r) \<le> now"
  shows "\<exists>cls. captcha_in_class cls now r \<and>
    (r \<in> set (due_captchas cls locked now limit s) \<or>
     int (length (due_captchas cls locked now limit s)) = clamp 1 64 limit \<and>
     (\<forall>q \<in> set (due_captchas cls locked now limit s). captcha_order cls q \<le> captcha_order cls r))"
proof -
  define cls where "cls = (if captcha_state r = ''pending'' then CaptchaFresh
    else if captcha_quarantined r = None then CaptchaRetry else CaptchaQuarantine)"
  have "captcha_in_class cls now r" using assms(3) by (auto simp: cls_def)
  moreover have "0 \<le> clamp 1 64 limit" by (simp add: clamp_def)
  ultimately show ?thesis
    using sql_page_complete [OF assms(1), of "\<lambda>r. captcha_in_class cls now r \<and> \<not> locked (captcha_key r)"
        "captcha_order cls" "nat (clamp 1 64 limit)"] assms(2)
    unfolding due_captchas_def by (intro exI [of _ cls]) auto
qed

theorem overdue_captcha_is_claimable_witness:
  "\<exists>cls. captcha_in_class cls 100 example_captcha_row \<and>
    (example_captcha_row \<in> set (due_captchas cls (\<lambda>k. False) 100 10 example_captcha_store) \<or>
     int (length (due_captchas cls (\<lambda>k. False) 100 10 example_captcha_store)) = clamp 1 64 10 \<and>
     (\<forall>q \<in> set (due_captchas cls (\<lambda>k. False) 100 10 example_captcha_store).
        captcha_order cls q \<le> captcha_order cls example_captcha_row))"
  by (rule overdue_captcha_is_claimable) (simp_all add: example_captcha_defs)

end
