(* ===== verification/DefaultRights.thy ===== *)
theory DefaultRights
  imports LeasedQueue Utf8Text "HOL-Library.Word" "HOL-Library.AList"
begin

text \<open>
  The default rights of a group, \<open>src/src/state/default_rights.rs\<close>: what members may do, closed right by
  right, closed altogether by a manual lock, a timed lock or a nightly window. The intent of the
  administrators is a row with a revision; a worker leases the row, applies the effective rights
  to the group and acknowledges what it applied; a second lease delivers the notice of an
  automatic change. Times are local seconds, as the code passes them.
\<close>

unbundle bit_operations_syntax

section \<open>Masks and windows\<close>

type_synonym rights_mask = "16 word"

datatype rights_error =
    Database string
  | SeedRequired
  | UnknownRight nat
  | InvalidState string
  | ChatCapacity
  | UncertainState

type_synonym 'a rights_result = "rights_error + 'a"

definition right_count :: nat where
  "right_count = 14"

definition all_rights :: rights_mask where
  "all_rights = push_bit right_count 1 - 1"

definition force_fingerprint :: int where
  "force_fingerprint = push_bit right_count 1"

definition mask_from_storage :: "int \<Rightarrow> rights_mask rights_result" where
  "mask_from_storage v =
     (if \<not> (0 \<le> v \<and> v \<le> 65535)
      then Inl (InvalidState ''rights mask is negative or too large'')
      else if (word_of_int v :: rights_mask) AND NOT all_rights \<noteq> 0
      then Inl (InvalidState ''rights mask contains unknown bits'')
      else Inr (word_of_int v))"

definition mask_storage :: "rights_mask \<Rightarrow> int" where
  "mask_storage m = uint m"

definition mask_contains :: "rights_mask \<Rightarrow> nat \<Rightarrow> bool" where
  "mask_contains m b \<longleftrightarrow> b < right_count \<and> m AND push_bit b 1 \<noteq> 0"

definition mask_set :: "nat \<Rightarrow> bool \<Rightarrow> rights_mask \<Rightarrow> rights_mask rights_result" where
  "mask_set b closed m =
     (if right_count \<le> b then Inl (UnknownRight b)
      else Inr (if closed then m OR push_bit b 1 else m AND NOT (push_bit b 1)))"

record night_window =
  night_from :: int
  night_to :: int

definition night_new :: "int \<Rightarrow> int \<Rightarrow> night_window option" where
  "night_new from to =
     (if 1440 \<le> from \<or> 1440 \<le> to then None
      else if from \<noteq> to then Some \<lparr>night_from = from, night_to = to\<rparr>
      else None)"

definition night_contains :: "night_window \<Rightarrow> int \<Rightarrow> bool" where
  "night_contains w minute \<longleftrightarrow>
     (if night_from w < night_to w then night_from w \<le> minute \<and> minute < night_to w
      else night_from w \<le> minute \<or> minute < night_to w)"

record effective_rights =
  eff_base :: rights_mask
  eff_force :: bool

definition fingerprint :: "effective_rights \<Rightarrow> int" where
  "fingerprint e = mask_storage (eff_base e) OR (if eff_force e then force_fingerprint else 0)"

section \<open>Snapshots\<close>

record rights_snapshot =
  rs_chat :: chat_id
  rs_base :: rights_mask
  rs_seeded :: bool
  rs_manual :: bool
  rs_timed :: "seconds option"
  rs_night :: "night_window option"
  rs_intent_revision :: int
  rs_applied_revision :: int
  rs_applied_fingerprint :: "int option"
  rs_remote_unknown :: bool
  rs_attempts :: int
  rs_error :: "utext option"
  rs_retry :: seconds
  rs_next :: "seconds option"

definition minute_of_day :: "seconds \<Rightarrow> int" where
  "minute_of_day now = (now mod 86400) div 60"

definition effective_at :: "rights_snapshot \<Rightarrow> seconds \<Rightarrow> effective_rights" where
  "effective_at r now = \<lparr>eff_base = rs_base r,
     eff_force = (rs_manual r \<or> is_some_and (\<lambda>until. now < until) (rs_timed r) \<or>
       is_some_and (\<lambda>w. night_contains w (minute_of_day now)) (rs_night r))\<rparr>"

definition rights_pending :: "rights_snapshot \<Rightarrow> seconds \<Rightarrow> bool" where
  "rights_pending r now \<longleftrightarrow> rs_seeded r \<and>
     (rs_intent_revision r \<noteq> rs_applied_revision r \<or>
      rs_applied_fingerprint r \<noteq> Some (fingerprint (effective_at r now)))"

datatype notice_kind = TimedOpened | NightLocked | NightOpened

fun notice_as_storage :: "notice_kind \<Rightarrow> string" where
  "notice_as_storage TimedOpened = ''timed_opened''"
| "notice_as_storage NightLocked = ''night_locked''"
| "notice_as_storage NightOpened = ''night_opened''"

definition notice_from_storage :: "string \<Rightarrow> notice_kind rights_result" where
  "notice_from_storage v =
     (if v = ''timed_opened'' then Inr TimedOpened
      else if v = ''night_locked'' then Inr NightLocked
      else if v = ''night_opened'' then Inr NightOpened
      else Inl (InvalidState ''unknown rights notice kind''))"

lemma notice_codec [codec_simps]: "notice_from_storage (notice_as_storage k) = Inr k"
  by (cases k) (simp_all add: notice_from_storage_def)

record stored_rights =
  sr_snapshot :: rights_snapshot
  sr_intent_fingerprint :: int
  sr_delivery :: string
  sr_lease_token :: "int option"
  sr_lease_revision :: "int option"
  sr_lease_until :: "seconds option"
  sr_intent_notice :: "notice_kind option"
  sr_notice_kind :: "notice_kind option"
  sr_notice_revision :: "int option"
  sr_notice_token :: "int option"
  sr_notice_lease_until :: "seconds option"
  sr_notice_retry :: seconds
  sr_notice_attempts :: int
  sr_notice_error :: "utext option"

section \<open>The row of a chat\<close>

record rights_row =
  rr_chat :: chat_id
  rr_base :: int
  rr_seeded :: bool
  rr_manual :: bool
  rr_timed :: "seconds option"
  rr_night_from :: "int option"
  rr_night_to :: "int option"
  rr_intent_revision :: int
  rr_intent_fingerprint :: int
  rr_applied_revision :: int
  rr_applied_fingerprint :: "int option"
  rr_remote_unknown :: bool
  rr_delivery :: string
  rr_lease_token :: "int option"
  rr_lease_revision :: "int option"
  rr_lease_until :: "seconds option"
  rr_retry :: seconds
  rr_attempts :: int
  rr_error :: "utext option"
  rr_next :: "seconds option"
  rr_intent_notice :: "string option"
  rr_notice_kind :: "string option"
  rr_notice_revision :: "int option"
  rr_notice_token :: "int option"
  rr_notice_lease_until :: "seconds option"
  rr_notice_retry :: seconds
  rr_notice_attempts :: int
  rr_notice_error :: "utext option"

text \<open>INSERT INTO default_rights_state (chat_id): every other column takes its default.\<close>

definition blank_rights :: "chat_id \<Rightarrow> rights_row" where
  "blank_rights c = \<lparr>rr_chat = c, rr_base = 0, rr_seeded = False, rr_manual = False,
     rr_timed = None, rr_night_from = None, rr_night_to = None, rr_intent_revision = 0,
     rr_intent_fingerprint = 0, rr_applied_revision = 0, rr_applied_fingerprint = None,
     rr_remote_unknown = False, rr_delivery = ''applied'', rr_lease_token = None,
     rr_lease_revision = None, rr_lease_until = None, rr_retry = 0, rr_attempts = 0,
     rr_error = None, rr_next = None, rr_intent_notice = None, rr_notice_kind = None,
     rr_notice_revision = None, rr_notice_token = None, rr_notice_lease_until = None,
     rr_notice_retry = 0, rr_notice_attempts = 0, rr_notice_error = None\<rparr>"

definition night_from_row :: "rights_row \<Rightarrow> night_window option rights_result" where
  "night_from_row r =
     (case (rr_night_from r, rr_night_to r) of
        (None, None) \<Rightarrow> Inr None
      | (Some from, Some to) \<Rightarrow>
          if from < 0 then Inl (InvalidState ''negative night start'')
          else if to < 0 then Inl (InvalidState ''negative night end'')
          else (case night_new from to of
                  None \<Rightarrow> Inl (InvalidState ''invalid night endpoints'')
                | Some w \<Rightarrow> Inr (Some w))
      | _ \<Rightarrow> Inl (InvalidState ''night endpoints must both be present or absent''))"

fun notice_from_column :: "string option \<Rightarrow> notice_kind option rights_result" where
  "notice_from_column None = Inr None"
| "notice_from_column (Some v) = map_sum id Some (notice_from_storage v)"

definition stored_from_row :: "rights_row \<Rightarrow> stored_rights rights_result" where
  "stored_from_row r =
     (case night_from_row r of
        Inl e \<Rightarrow> Inl e
      | Inr night \<Rightarrow>
     (case mask_from_storage (rr_base r) of
        Inl e \<Rightarrow> Inl e
      | Inr base \<Rightarrow>
     (case notice_from_column (rr_intent_notice r) of
        Inl e \<Rightarrow> Inl e
      | Inr intent \<Rightarrow>
     (case notice_from_column (rr_notice_kind r) of
        Inl e \<Rightarrow> Inl e
      | Inr kind \<Rightarrow> Inr \<lparr>
          sr_snapshot = \<lparr>rs_chat = rr_chat r, rs_base = base, rs_seeded = rr_seeded r,
            rs_manual = rr_manual r, rs_timed = rr_timed r, rs_night = night,
            rs_intent_revision = rr_intent_revision r,
            rs_applied_revision = rr_applied_revision r,
            rs_applied_fingerprint = rr_applied_fingerprint r,
            rs_remote_unknown = rr_remote_unknown r, rs_attempts = rr_attempts r,
            rs_error = rr_error r, rs_retry = rr_retry r, rs_next = rr_next r\<rparr>,
          sr_intent_fingerprint = rr_intent_fingerprint r, sr_delivery = rr_delivery r,
          sr_lease_token = rr_lease_token r, sr_lease_revision = rr_lease_revision r,
          sr_lease_until = rr_lease_until r, sr_intent_notice = intent, sr_notice_kind = kind,
          sr_notice_revision = rr_notice_revision r, sr_notice_token = rr_notice_token r,
          sr_notice_lease_until = rr_notice_lease_until r, sr_notice_retry = rr_notice_retry r,
          sr_notice_attempts = rr_notice_attempts r, sr_notice_error = rr_notice_error r\<rparr>))))"

text \<open>The columns \<open>write_row\<close> sets; the key is in its WHERE clause.\<close>

definition row_of_stored :: "stored_rights \<Rightarrow> rights_row" where
  "row_of_stored st = (let n = sr_snapshot st in \<lparr>rr_chat = rs_chat n,
     rr_base = mask_storage (rs_base n), rr_seeded = rs_seeded n, rr_manual = rs_manual n,
     rr_timed = rs_timed n, rr_night_from = map_option night_from (rs_night n),
     rr_night_to = map_option night_to (rs_night n), rr_intent_revision = rs_intent_revision n,
     rr_intent_fingerprint = sr_intent_fingerprint st,
     rr_applied_revision = rs_applied_revision n,
     rr_applied_fingerprint = rs_applied_fingerprint n,
     rr_remote_unknown = rs_remote_unknown n, rr_delivery = sr_delivery st,
     rr_lease_token = sr_lease_token st, rr_lease_revision = sr_lease_revision st,
     rr_lease_until = sr_lease_until st, rr_retry = rs_retry n, rr_attempts = rs_attempts n,
     rr_error = rs_error n, rr_next = rs_next n,
     rr_intent_notice = map_option notice_as_storage (sr_intent_notice st),
     rr_notice_kind = map_option notice_as_storage (sr_notice_kind st),
     rr_notice_revision = sr_notice_revision st, rr_notice_token = sr_notice_token st,
     rr_notice_lease_until = sr_notice_lease_until st, rr_notice_retry = sr_notice_retry st,
     rr_notice_attempts = sr_notice_attempts st, rr_notice_error = sr_notice_error st\<rparr>)"

section \<open>Transitions and normal form\<close>

definition boundary_after :: "seconds \<Rightarrow> int \<Rightarrow> seconds" where
  "boundary_after now minute =
     (let boundary = sat_add (now - now mod 86400) (minute * 60)
      in if boundary \<le> now then sat_add boundary 86400 else boundary)"

definition next_transition ::
  "seconds \<Rightarrow> seconds option \<Rightarrow> night_window option \<Rightarrow> seconds option" where
  "next_transition now timed night =
     (let next0 = (case timed of Some until \<Rightarrow> if now < until then Some until else None | None \<Rightarrow> None);
          take_min = (\<lambda>next minute. Some (case next of None \<Rightarrow> boundary_after now minute
                        | Some current \<Rightarrow> min current (boundary_after now minute)))
      in case night of
           None \<Rightarrow> next0
         | Some w \<Rightarrow> take_min (take_min next0 (night_from w)) (night_to w))"

definition normalize :: "seconds \<Rightarrow> stored_rights \<Rightarrow> stored_rights" where
  "normalize now st =
     (let n = sr_snapshot st;
          timed_expired = is_some_and (\<lambda>until. until \<le> now) (rs_timed n);
          boundary_due = is_some_and (\<lambda>t. t \<le> now) (rs_next n) \<and> rs_night n \<noteq> None;
          timed = (if timed_expired then None else rs_timed n);
          n1 = n\<lparr>rs_timed := timed, rs_next := next_transition now timed (rs_night n)\<rparr>;
          fp = fingerprint (effective_at n1 now)
      in if \<not> rs_seeded n \<or> sr_intent_fingerprint st = fp then st\<lparr>sr_snapshot := n1\<rparr>
         else
           (let applied_force = map_option (\<lambda>a. a AND force_fingerprint \<noteq> 0) (rs_applied_fingerprint n1);
                target_force = (fp AND force_fingerprint \<noteq> 0)
            in st\<lparr>sr_intent_fingerprint := fp,
                 sr_intent_notice :=
                   (if is_some_and (\<lambda>a. a \<noteq> target_force) applied_force then
                      if timed_expired \<and> \<not> target_force then Some TimedOpened
                      else if boundary_due then Some (if target_force then NightLocked else NightOpened)
                      else None
                    else None),
                 sr_snapshot := n1\<lparr>rs_intent_revision := sat_add (rs_intent_revision n1) 1,
                   rs_retry := now, rs_attempts := 0, rs_error := None\<rparr>,
                 sr_delivery := (if sr_lease_token st = None then ''pending'' else sr_delivery st)\<rparr>))"

definition retry_min_seconds :: int where
  "retry_min_seconds = 5"

definition retry_max_seconds :: int where
  "retry_max_seconds = 3600"

definition lease_seconds :: int where
  "lease_seconds = 120"

definition last_error_bytes :: nat where
  "last_error_bytes = 1000"

text \<open>\<open>u32::try_from\<close> of a negative shift fails, and the failure counts as the largest shift.\<close>

definition retry_delay :: "int \<Rightarrow> int" where
  "retry_delay attempts =
     (let back = clamp i32_min i32_max (attempts - 1);
          shift = min (if back < 0 then u32_max else back) 20
      in min (sat_mul retry_min_seconds (push_bit (nat shift) 1)) retry_max_seconds)"

section \<open>The store\<close>

text \<open>
  \<open>chat_hashes\<close> is the table \<open>durable_chats\<close>, \<open>chat_mirror\<close> its copy in memory, \<open>alive\<close> whether
  this process still owns the settings; \<open>hash_setting\<close> is what the settings table says of a
  chat's access hash.
\<close>

record rights_store =
  rights :: "rights_row table"
  rights_token :: int
  chat_hashes :: "(chat_id \<times> int) list"
  chat_mirror :: "(chat_id \<times> int) list"
  alive :: bool
  max_chats :: "int option"
  hash_setting :: "chat_id \<Rightarrow> int option"

text \<open>The CHECK constraint of \<open>durable_chats\<close>: the identifiers of groups and channels.\<close>

definition durable_chat_id :: "chat_id \<Rightarrow> bool" where
  "durable_chat_id c \<longleftrightarrow> - 999999999999 \<le> c \<and> c \<le> - 1 \<or>
     - 1997852516352 \<le> c \<and> c \<le> - 1000000000001 \<or>
     - 4000000000000 \<le> c \<and> c \<le> - 2002147483649"

definition chat_is_configured :: "rights_store \<Rightarrow> chat_id \<Rightarrow> bool" where
  "chat_is_configured s c \<longleftrightarrow> c = 0 \<or> map_of (chat_mirror s) c \<noteq> None"

definition chat_count :: "rights_store \<Rightarrow> int" where
  "chat_count s = int (length (chat_mirror s))"

definition admit_chat :: "chat_id \<Rightarrow> rights_store \<Rightarrow> int" where
  "admit_chat c s =
     (let excluded = (case hash_setting s c of None \<Rightarrow> 0 | Some h \<Rightarrow> h)
      in case map_of (chat_hashes s) c of
           None \<Rightarrow> excluded
         | Some h \<Rightarrow> if excluded \<noteq> 0 then excluded else h)"

record accepted_mutation =
  am_snapshot :: rights_snapshot
  am_delivery :: bool

definition existing_locked_row :: "chat_id \<Rightarrow> rights_store \<Rightarrow> stored_rights option rights_result" where
  "existing_locked_row c s =
     (case row_at rr_chat (rights s) c of
        None \<Rightarrow> Inr None
      | Some r \<Rightarrow> map_sum id Some (stored_from_row r))"

text \<open>\<open>locked_row\<close>: the row is created first, if it is missing.\<close>

definition ensure_row :: "chat_id \<Rightarrow> rights_row table \<Rightarrow> rights_row table" where
  "ensure_row c t = (if row_at rr_chat t c = None then sql_insert (blank_rights c) t else t)"

definition locked_row :: "chat_id \<Rightarrow> rights_row table \<Rightarrow> stored_rights rights_result" where
  "locked_row c t =
     (case row_at rr_chat (ensure_row c t) c of
        None \<Rightarrow> Inl (Database ''row not found'')
      | Some r \<Rightarrow> stored_from_row r)"

definition write_row :: "stored_rights \<Rightarrow> rights_row table \<Rightarrow> rights_row table" where
  "write_row st t = sql_update (\<lambda>r. rr_chat r = rs_chat (sr_snapshot st))
     (\<lambda>r. (row_of_stored st)\<lparr>rr_chat := rr_chat r\<rparr>) t"

section \<open>Changing the intent\<close>

definition bump_unknown :: "seconds \<Rightarrow> stored_rights \<Rightarrow> stored_rights" where
  "bump_unknown now st =
     (let n = sr_snapshot st
      in if rs_remote_unknown n \<and> rs_intent_revision n = rs_applied_revision n
         then st\<lparr>sr_snapshot := n\<lparr>rs_intent_revision := sat_add (rs_intent_revision n) 1,
                                   rs_retry := now\<rparr>,
                 sr_delivery := ''pending''\<rparr>
         else st)"

definition mutate_default_rights ::
  "chat_id \<Rightarrow> seconds \<Rightarrow> (stored_rights \<Rightarrow> stored_rights rights_result) \<Rightarrow> rights_store \<Rightarrow>
     rights_store \<times> accepted_mutation rights_result" where
  "mutate_default_rights c now change s =
     (if \<not> alive s then (s, Inl UncertainState)
      else if \<not> chat_is_configured s c \<and> is_some_and (\<lambda>m. m \<le> chat_count s) (max_chats s)
      then (s, Inl ChatCapacity)
      else if \<not> durable_chat_id c then (s, Inl (Database ''check constraint''))
      else
        (case locked_row c (rights s) of
           Inl e \<Rightarrow> (s, Inl e)
         | Inr row \<Rightarrow>
             (case change (normalize now row) of
                Inl e \<Rightarrow> (s, Inl e)
              | Inr changed \<Rightarrow>
                  (let final = normalize now (bump_unknown now changed);
                       hash = admit_chat c s
                   in (s\<lparr>rights := write_row final (ensure_row c (rights s)),
                         chat_hashes := AList.update c hash (chat_hashes s),
                         chat_mirror := (if c \<noteq> 0 then AList.update c hash (chat_mirror s)
                                         else chat_mirror s)\<rparr>,
                       Inr \<lparr>am_snapshot = sr_snapshot final,
                            am_delivery = rights_pending (sr_snapshot final) now\<rparr>)))))"

definition change_seed :: "rights_mask \<Rightarrow> stored_rights \<Rightarrow> stored_rights rights_result" where
  "change_seed base st =
     (if rs_seeded (sr_snapshot st) then Inr st
      else Inr (st\<lparr>sr_snapshot := (sr_snapshot st)\<lparr>rs_seeded := True, rs_base := base\<rparr>,
                  sr_intent_fingerprint := - 1\<rparr>))"

definition if_seeded ::
  "(rights_snapshot \<Rightarrow> rights_snapshot rights_result) \<Rightarrow> stored_rights \<Rightarrow> stored_rights rights_result" where
  "if_seeded f st =
     (if \<not> rs_seeded (sr_snapshot st) then Inl SeedRequired
      else map_sum id (\<lambda>n. st\<lparr>sr_snapshot := n\<rparr>) (f (sr_snapshot st)))"

definition set_bit :: "nat \<Rightarrow> bool \<Rightarrow> rights_snapshot \<Rightarrow> rights_snapshot rights_result" where
  "set_bit b closed n = map_sum id (\<lambda>m. n\<lparr>rs_base := m\<rparr>) (mask_set b closed (rs_base n))"

fun set_bits :: "nat list \<Rightarrow> bool \<Rightarrow> rights_snapshot \<Rightarrow> rights_snapshot rights_result" where
  "set_bits [] closed n = Inr n"
| "set_bits (b # bs) closed n =
     (case set_bit b closed n of Inl e \<Rightarrow> Inl e | Inr n1 \<Rightarrow> set_bits bs closed n1)"

definition seed_default_rights ::
  "chat_id \<Rightarrow> rights_mask \<Rightarrow> seconds \<Rightarrow> rights_store \<Rightarrow> rights_store \<times> accepted_mutation rights_result" where
  "seed_default_rights c base now = mutate_default_rights c now (change_seed base)"

definition set_default_right ::
  "chat_id \<Rightarrow> nat \<Rightarrow> bool \<Rightarrow> seconds \<Rightarrow> rights_store \<Rightarrow> rights_store \<times> accepted_mutation rights_result" where
  "set_default_right c b closed now = mutate_default_rights c now (if_seeded (set_bit b closed))"

definition set_default_rights ::
  "chat_id \<Rightarrow> nat list \<Rightarrow> bool \<Rightarrow> seconds \<Rightarrow> rights_store \<Rightarrow> rights_store \<times> accepted_mutation rights_result" where
  "set_default_rights c bs closed now = mutate_default_rights c now (if_seeded (set_bits bs closed))"

definition set_manual_lock ::
  "chat_id \<Rightarrow> bool \<Rightarrow> seconds \<Rightarrow> rights_store \<Rightarrow> rights_store \<times> accepted_mutation rights_result" where
  "set_manual_lock c locked now =
     mutate_default_rights c now
       (if_seeded (\<lambda>n. Inr (n\<lparr>rs_manual := locked, rs_timed := None\<rparr>)))"

definition set_timed_lock ::
  "chat_id \<Rightarrow> seconds \<Rightarrow> seconds \<Rightarrow> rights_store \<Rightarrow> rights_store \<times> accepted_mutation rights_result" where
  "set_timed_lock c until now =
     mutate_default_rights c now
       (if_seeded (\<lambda>n. Inr (n\<lparr>rs_manual := False,
          rs_timed := (if now < until then Some until else None)\<rparr>)))"

definition set_night ::
  "chat_id \<Rightarrow> night_window option \<Rightarrow> seconds \<Rightarrow> rights_store \<Rightarrow>
     rights_store \<times> accepted_mutation rights_result" where
  "set_night c night now = mutate_default_rights c now (if_seeded (\<lambda>n. Inr (n\<lparr>rs_night := night\<rparr>)))"

definition default_rights :: "chat_id \<Rightarrow> rights_store \<Rightarrow> rights_snapshot option rights_result" where
  "default_rights c s = map_sum id (map_option sr_snapshot) (existing_locked_row c s)"

section \<open>What is due\<close>

text \<open>The three candidate queries, each with its own page, and the due page built from them.\<close>

definition intent_open :: "rights_row \<Rightarrow> bool" where
  "intent_open r \<longleftrightarrow> rr_intent_revision r \<noteq> rr_applied_revision r \<or>
     rr_applied_fingerprint r \<noteq> Some (rr_intent_fingerprint r)"

definition lease_free :: "seconds \<Rightarrow> seconds option \<Rightarrow> bool" where
  "lease_free now until \<longleftrightarrow> (case until of None \<Rightarrow> True | Some u \<Rightarrow> u \<le> now)"

definition retry_due :: "seconds \<Rightarrow> rights_row \<Rightarrow> bool" where
  "retry_due now r \<longleftrightarrow> rr_seeded r \<and> intent_open r \<and> rr_retry r \<le> now \<and>
     lease_free now (rr_lease_until r)"

definition transition_due :: "seconds \<Rightarrow> rights_row \<Rightarrow> bool" where
  "transition_due now r \<longleftrightarrow> rr_seeded r \<and> is_some_and (\<lambda>t. t \<le> now) (rr_next r) \<and>
     lease_free now (rr_lease_until r)"

definition notice_due :: "seconds \<Rightarrow> rights_row \<Rightarrow> bool" where
  "notice_due now r \<longleftrightarrow> rr_notice_kind r \<noteq> None \<and> rr_notice_retry r \<le> now \<and>
     lease_free now (rr_notice_lease_until r)"

definition candidates ::
  "(rights_row \<Rightarrow> bool) \<Rightarrow> (rights_row \<Rightarrow> seconds) \<Rightarrow> nat \<Rightarrow> chat_id list \<Rightarrow> rights_row table \<Rightarrow>
     (seconds \<times> chat_id) list" where
  "candidates P at n attempted t =
     map (\<lambda>r. (at r, rr_chat r))
       (sql_page (\<lambda>r. P r \<and> rr_chat r \<notin> set attempted) (\<lambda>r. (at r, rr_chat r)) n t)"

text \<open>GROUP BY chat with MIN(due), then the order and limit of the page.\<close>

definition earliest_due :: "(seconds \<times> chat_id) list \<Rightarrow> chat_id \<Rightarrow> seconds" where
  "earliest_due cs c = Min (fst ` {p \<in> set cs. snd p = c})"

definition default_rights_due_page ::
  "seconds \<Rightarrow> int \<Rightarrow> chat_id list \<Rightarrow> rights_store \<Rightarrow> chat_id list" where
  "default_rights_due_page now limit attempted s =
     (let n = nat (clamp 1 256 limit);
          all = candidates (retry_due now) rr_retry n attempted (rights s) @
                candidates (transition_due now) (\<lambda>r. case rr_next r of None \<Rightarrow> 0 | Some t \<Rightarrow> t)
                  n attempted (rights s) @
                candidates (notice_due now) rr_notice_retry n attempted (rights s)
      in take n (sort_key (\<lambda>c. (earliest_due all c, c)) (remdups (map snd all))))"

definition default_rights_due :: "seconds \<Rightarrow> int \<Rightarrow> rights_store \<Rightarrow> chat_id list" where
  "default_rights_due now limit = default_rights_due_page now limit []"

section \<open>Delivering the rights\<close>

record delivery_claim =
  dc_chat :: chat_id
  dc_revision :: int
  dc_token :: int

text \<open>
  A chat whose intent is applied is only brought to its normal form, which also moves the time of
  its next transition on.
\<close>

definition claim_default_rights ::
  "chat_id \<Rightarrow> seconds \<Rightarrow> rights_store \<Rightarrow> rights_store \<times> delivery_claim option rights_result" where
  "claim_default_rights c now s =
     (case existing_locked_row c s of
        Inl e \<Rightarrow> (s, Inl e)
      | Inr None \<Rightarrow> (s, Inr None)
      | Inr (Some row) \<Rightarrow>
          (let st = normalize now row in
           if \<not> rs_seeded (sr_snapshot st) \<or> \<not> rights_pending (sr_snapshot st) now
           then (s\<lparr>rights := write_row st (rights s)\<rparr>, Inr None)
           else if is_some_and (\<lambda>until. now < until) (sr_lease_until st) then (s, Inr None)
           else
             (let token = rights_token s; revision = rs_intent_revision (sr_snapshot st);
                  leased = st\<lparr>sr_delivery := ''leased'', sr_lease_token := Some token,
                    sr_lease_revision := Some revision,
                    sr_lease_until := Some (sat_add now lease_seconds)\<rparr>
              in (s\<lparr>rights := write_row leased (rights s), rights_token := token + 1\<rparr>,
                  Inr (Some \<lparr>dc_chat = c, dc_revision = revision, dc_token = token\<rparr>)))))"

definition claimed_default_rights ::
  "delivery_claim \<Rightarrow> seconds \<Rightarrow> rights_store \<Rightarrow> effective_rights option rights_result" where
  "claimed_default_rights d now s =
     (case row_at rr_chat (rights s) (dc_chat d) of
        None \<Rightarrow> Inr None
      | Some r \<Rightarrow> map_sum id (\<lambda>st.
          if sr_lease_token st = Some (dc_token d) \<and> sr_lease_revision st = Some (dc_revision d) \<and>
             rs_intent_revision (sr_snapshot st) = dc_revision d
          then Some (effective_at (sr_snapshot st) now) else None) (stored_from_row r))"

definition delivery_held :: "delivery_claim \<Rightarrow> rights_row \<Rightarrow> bool" where
  "delivery_held d r \<longleftrightarrow> rr_lease_token r = Some (dc_token d) \<and>
     rr_lease_revision r = Some (dc_revision d)"

definition ack_matches :: "delivery_claim \<Rightarrow> int \<Rightarrow> rights_row \<Rightarrow> bool" where
  "ack_matches d fp r \<longleftrightarrow> delivery_held d r \<and> rr_intent_revision r = dc_revision d \<and>
     rr_intent_fingerprint r = fp"

definition acked_row :: "delivery_claim \<Rightarrow> int \<Rightarrow> rights_row \<Rightarrow> rights_row" where
  "acked_row d fp r = (let notify = rr_intent_notice r \<noteq> None in r\<lparr>
     rr_applied_revision := dc_revision d, rr_applied_fingerprint := Some fp,
     rr_remote_unknown := False,
     rr_delivery := (if rr_intent_revision r = dc_revision d \<and> rr_intent_fingerprint r = fp
                     then ''applied'' else ''pending''),
     rr_lease_token := None, rr_lease_revision := None, rr_lease_until := None,
     rr_retry := 0, rr_attempts := 0, rr_error := None,
     rr_notice_kind := (if notify then rr_intent_notice r else rr_notice_kind r),
     rr_notice_revision := (if notify then Some (dc_revision d) else rr_notice_revision r),
     rr_notice_token := (if notify then None else rr_notice_token r),
     rr_notice_lease_until := (if notify then None else rr_notice_lease_until r),
     rr_notice_retry := (if notify then 0 else rr_notice_retry r),
     rr_notice_attempts := (if notify then 0 else rr_notice_attempts r),
     rr_notice_error := (if notify then None else rr_notice_error r),
     rr_intent_notice := None\<rparr>)"

text \<open>The two statements of \<open>ack_default_rights\<close>; they are two transactions.\<close>

definition ack_apply :: "delivery_claim \<Rightarrow> int \<Rightarrow> rights_store \<Rightarrow> rights_store \<times> bool" where
  "ack_apply d fp s =
     (s\<lparr>rights := sql_update (\<lambda>r. rr_chat r = dc_chat d \<and> ack_matches d fp r)
         (acked_row d fp) (rights s)\<rparr>,
      sql_exists (\<lambda>r. rr_chat r = dc_chat d \<and> ack_matches d fp r) (rights s))"

definition released_row :: "rights_row \<Rightarrow> rights_row" where
  "released_row r = r\<lparr>rr_delivery := ''pending'', rr_lease_token := None,
     rr_lease_revision := None, rr_lease_until := None, rr_retry := 0\<rparr>"

definition ack_release :: "delivery_claim \<Rightarrow> rights_store \<Rightarrow> rights_store" where
  "ack_release d s =
     s\<lparr>rights := sql_update (\<lambda>r. rr_chat r = dc_chat d \<and> delivery_held d r)
         released_row (rights s)\<rparr>"

definition ack_default_rights :: "delivery_claim \<Rightarrow> int \<Rightarrow> rights_store \<Rightarrow> rights_store \<times> bool" where
  "ack_default_rights d fp s =
     (let (t, changed) = ack_apply d fp s
      in if changed then (t, True) else (ack_release d t, False))"

definition retried_row :: "seconds \<Rightarrow> int \<Rightarrow> utext \<Rightarrow> rights_row \<Rightarrow> rights_row" where
  "retried_row retry_at attempts error r = r\<lparr>rr_delivery := ''pending'', rr_lease_token := None,
     rr_lease_revision := None, rr_lease_until := None, rr_retry := retry_at,
     rr_attempts := attempts, rr_error := Some error\<rparr>"

definition retry_update ::
  "delivery_claim \<Rightarrow> seconds \<Rightarrow> int \<Rightarrow> utext \<Rightarrow> rights_store \<Rightarrow> rights_store \<times> bool" where
  "retry_update d retry_at attempts error s =
     (s\<lparr>rights := sql_update (\<lambda>r. rr_chat r = dc_chat d \<and> delivery_held d r)
         (retried_row retry_at attempts error) (rights s)\<rparr>,
      sql_exists (\<lambda>r. rr_chat r = dc_chat d \<and> delivery_held d r) (rights s))"

definition one_more_attempt :: "int \<Rightarrow> int" where
  "one_more_attempt n = clamp i32_min i32_max (n + 1)"

definition retry_default_rights ::
  "delivery_claim \<Rightarrow> seconds \<Rightarrow> utext \<Rightarrow> rights_store \<Rightarrow> rights_store \<times> seconds option" where
  "retry_default_rights d now error s =
     (case find (\<lambda>r. rr_chat r = dc_chat d \<and> delivery_held d r) (rights s) of
        None \<Rightarrow> (s, None)
      | Some r \<Rightarrow>
          (let attempts = one_more_attempt (rr_attempts r);
               retry_at = sat_add now (retry_delay attempts);
               (t, changed) = retry_update d retry_at attempts (truncate_utf8 error last_error_bytes) s
           in (t, if changed then Some retry_at else None)))"

section \<open>Delivering the notices\<close>

record notice_claim =
  nc_chat :: chat_id
  nc_token :: int
  nc_revision :: int
  nc_kind :: notice_kind

definition leased_notice_row :: "int \<Rightarrow> seconds \<Rightarrow> rights_row \<Rightarrow> rights_row" where
  "leased_notice_row token until r =
     r\<lparr>rr_notice_token := Some token, rr_notice_lease_until := Some until\<rparr>"

text \<open>
  The token is drawn whether or not a notice is due. Drawing it and using it are two statements;
  nobody else can see the token in between, so they are one step here.
\<close>

definition claim_notice ::
  "chat_id \<Rightarrow> seconds \<Rightarrow> rights_store \<Rightarrow> rights_store \<times> notice_claim option rights_result" where
  "claim_notice c now s =
     (let token = rights_token s; s1 = s\<lparr>rights_token := token + 1\<rparr>;
          t = s1\<lparr>rights := sql_update (\<lambda>r. rr_chat r = c \<and> notice_due now r)
                (leased_notice_row token (sat_add now lease_seconds)) (rights s)\<rparr>
      in case row_at rr_chat (rights s) c of
           None \<Rightarrow> (s1, Inr None)
         | Some r \<Rightarrow>
             if \<not> notice_due now r then (s1, Inr None)
             else (t, case (rr_notice_kind r, rr_notice_revision r) of
                        (Some k, Some revision) \<Rightarrow>
                          map_sum id (\<lambda>kind. Some \<lparr>nc_chat = c, nc_token = token,
                            nc_revision = revision, nc_kind = kind\<rparr>) (notice_from_storage k)
                      | _ \<Rightarrow> Inl (Database ''unexpected null'')))"

definition notice_held :: "notice_claim \<Rightarrow> rights_row \<Rightarrow> bool" where
  "notice_held d r \<longleftrightarrow> rr_notice_token r = Some (nc_token d) \<and>
     rr_notice_revision r = Some (nc_revision d)"

definition no_notice_row :: "rights_row \<Rightarrow> rights_row" where
  "no_notice_row r = r\<lparr>rr_notice_kind := None, rr_notice_revision := None, rr_notice_token := None,
     rr_notice_lease_until := None, rr_notice_retry := 0, rr_notice_attempts := 0,
     rr_notice_error := None\<rparr>"

definition ack_notice :: "notice_claim \<Rightarrow> rights_store \<Rightarrow> rights_store \<times> bool" where
  "ack_notice d s =
     (s\<lparr>rights := sql_update (\<lambda>r. rr_chat r = nc_chat d \<and> notice_held d r)
         no_notice_row (rights s)\<rparr>,
      sql_exists (\<lambda>r. rr_chat r = nc_chat d \<and> notice_held d r) (rights s))"

definition retried_notice_row :: "seconds \<Rightarrow> int \<Rightarrow> utext \<Rightarrow> rights_row \<Rightarrow> rights_row" where
  "retried_notice_row retry_at attempts error r = r\<lparr>rr_notice_token := None,
     rr_notice_lease_until := None, rr_notice_retry := retry_at,
     rr_notice_attempts := attempts, rr_notice_error := Some error\<rparr>"

definition retry_notice_update ::
  "notice_claim \<Rightarrow> seconds \<Rightarrow> int \<Rightarrow> utext \<Rightarrow> rights_store \<Rightarrow> rights_store \<times> bool" where
  "retry_notice_update d retry_at attempts error s =
     (s\<lparr>rights := sql_update (\<lambda>r. rr_chat r = nc_chat d \<and> notice_held d r)
         (retried_notice_row retry_at attempts error) (rights s)\<rparr>,
      sql_exists (\<lambda>r. rr_chat r = nc_chat d \<and> notice_held d r) (rights s))"

definition retry_notice ::
  "notice_claim \<Rightarrow> seconds \<Rightarrow> utext \<Rightarrow> rights_store \<Rightarrow> rights_store \<times> seconds option" where
  "retry_notice d now error s =
     (case find (\<lambda>r. rr_chat r = nc_chat d \<and> notice_held d r) (rights s) of
        None \<Rightarrow> (s, None)
      | Some r \<Rightarrow>
          (let attempts = one_more_attempt (rr_notice_attempts r);
               retry_at = sat_add now (retry_delay attempts);
               (t, changed) = retry_notice_update d retry_at attempts
                 (truncate_utf8 error last_error_bytes) s
           in (t, if changed then Some retry_at else None)))"

section \<open>Facts on masks and fingerprints\<close>

lemma all_rights_mask: "all_rights = mask 14"
  by (simp add: all_rights_def right_count_def mask_eq_exp_minus_1 push_bit_eq_mult)

lemma force_value: "force_fingerprint = 16384"
  by (simp add: force_fingerprint_def right_count_def push_bit_eq_mult)

definition valid_mask :: "rights_mask \<Rightarrow> bool" where
  "valid_mask m \<longleftrightarrow> m AND NOT all_rights = 0"

lemma valid_mask_bit: "valid_mask m \<longleftrightarrow> (\<forall>i\<ge>14. \<not> bit m i)"
proof -
  have short: "bit m i \<Longrightarrow> i < 16" for i using bit_imp_le_length [of m i] by simp
  show ?thesis
    unfolding valid_mask_def all_rights_mask bit_eq_iff
    by (auto simp: bit_simps not_le dest: short)
qed

lemma valid_mask_bound: "valid_mask m \<longleftrightarrow> uint m < 16384"
proof -
  have "uint m < 16384 \<longleftrightarrow> take_bit 14 (uint m) = uint m"
    by (simp add: take_bit_int_eq_self_iff)
  also have "... \<longleftrightarrow> (\<forall>i\<ge>14. \<not> bit m i)"
    unfolding bit_eq_iff bit_take_bit_iff bit_uint_iff
    using bit_imp_le_length [of m] by (simp add: possible_bit_def) (meson not_le)
  finally show ?thesis by (simp add: valid_mask_bit)
qed

lemma fingerprint_sum:
  assumes "valid_mask (eff_base e)"
  shows "fingerprint e = uint (eff_base e) + (if eff_force e then 16384 else 0)"
proof -
  have "uint (eff_base e) OR 16384 = uint (eff_base e) + (16384 :: int)"
  proof (rule disjunctive_add_eq_or [symmetric])
    show "uint (eff_base e) AND 16384 = 0"
    proof (rule bit_eqI)
      fix n
      have "bit (16384 :: int) n \<longleftrightarrow> n = 14"
        using bit_exp_iff [of 14 n, where 'a = int] by auto
      then show "bit (uint (eff_base e) AND 16384) n \<longleftrightarrow> bit (0 :: int) n"
        using assms by (auto simp: valid_mask_bit bit_simps)
    qed
  qed
  then show ?thesis by (simp add: fingerprint_def mask_storage_def force_value)
qed

lemma force_bit: "x AND force_fingerprint \<noteq> 0 \<longleftrightarrow> bit x 14" for x :: int
  unfolding force_value using and_exp_eq_0_iff_not_bit [of x 14] by simp

lemma fingerprint_force:
  assumes "valid_mask (eff_base e)"
  shows "fingerprint e AND force_fingerprint \<noteq> 0 \<longleftrightarrow> eff_force e"
  unfolding force_bit
  using assms by (auto simp: fingerprint_def mask_storage_def force_fingerprint_def right_count_def
      bit_simps valid_mask_bit)

lemma fingerprint_inject:
  assumes "valid_mask (eff_base e)" and "valid_mask (eff_base e')"
  shows "fingerprint e = fingerprint e' \<longleftrightarrow> e = e'"
proof
  assume eq: "fingerprint e = fingerprint e'"
  have force: "eff_force e = eff_force e'"
    using fingerprint_force [OF assms(1)] fingerprint_force [OF assms(2)] eq by simp
  with eq have "uint (eff_base e) = uint (eff_base e')"
    by (simp add: fingerprint_sum assms split: if_splits)
  with force show "e = e'"
    by (cases e, cases e') (simp add: unsigned_word_eqI)
qed simp

lemma fingerprint_range:
  assumes "valid_mask (eff_base e)"
  shows "0 \<le> fingerprint e \<and> fingerprint e < 32768"
  using fingerprint_sum [OF assms] assms by (simp add: valid_mask_bound)

lemma mask_from_storage_Inr:
  "mask_from_storage v = Inr m \<Longrightarrow> valid_mask m \<and> mask_storage m = v"
  by (auto simp: mask_from_storage_def valid_mask_def mask_storage_def unsigned_of_int
      take_bit_int_eq_self_iff split: if_splits)

lemma mask_roundtrip:
  assumes "valid_mask m"
  shows "mask_from_storage (mask_storage m) = Inr m"
proof -
  have "0 \<le> uint m \<and> uint m \<le> 65535" using assms by (simp add: valid_mask_bound)
  with assms show ?thesis
    by (simp add: mask_from_storage_def mask_storage_def valid_mask_def)
qed

lemma mask_set_valid:
  assumes "valid_mask m" and "mask_set b closed m = Inr m'"
  shows "valid_mask m'"
  using assms by (auto simp: mask_set_def valid_mask_bit bit_simps right_count_def split: if_splits)

lemma mask_set_contains:
  assumes "mask_set b closed m = Inr m'"
  shows "mask_contains m' c \<longleftrightarrow> (if c = b then closed else mask_contains m c)"
proof -
  have c: "mask_contains x c \<longleftrightarrow> c < 14 \<and> bit x c" for x
    using and_exp_eq_0_iff_not_bit [of x c]
    by (auto simp: mask_contains_def right_count_def push_bit_eq_mult)
  from assms show ?thesis unfolding c
    by (auto simp: mask_set_def bit_simps right_count_def split: if_splits)
qed

section \<open>Facts on transitions\<close>

definition night_ok :: "night_window \<Rightarrow> bool" where
  "night_ok w \<longleftrightarrow> 0 \<le> night_from w \<and> night_from w < 1440 \<and> 0 \<le> night_to w \<and> night_to w < 1440 \<and>
     night_from w \<noteq> night_to w"

lemma night_new_ok: "0 \<le> from \<Longrightarrow> 0 \<le> to \<Longrightarrow> night_new from to = Some w \<Longrightarrow> night_ok w"
  by (auto simp: night_new_def night_ok_def split: if_splits)

text \<open>Clock times within this range do not saturate.\<close>

definition clock_ok :: "seconds \<Rightarrow> bool" where
  "clock_ok now \<longleftrightarrow> - 4611686018427387904 \<le> now \<and> now \<le> 4611686018427387904"

lemma boundary_after_value:
  assumes "clock_ok now" and "0 \<le> m" and "m < 1440"
  shows "boundary_after now m =
    now - now mod 86400 + m * 60 + (if m * 60 \<le> now mod 86400 then 86400 else 0)"
proof -
  have d: "0 \<le> now mod 86400" "now mod 86400 < 86400" by simp_all
  have "sat_add (now - now mod 86400) (m * 60) = now - now mod 86400 + m * 60"
    by (rule sat_add_id, unfold in_i64_def int_bounds)
      (use assms(2,3) assms(1) [unfolded clock_ok_def] d in linarith)
  moreover have "sat_add (now - now mod 86400 + m * 60) 86400 = now - now mod 86400 + m * 60 + 86400"
    by (rule sat_add_id, unfold in_i64_def int_bounds)
      (use assms(2,3) assms(1) [unfolded clock_ok_def] d in linarith)
  ultimately show ?thesis by (simp add: boundary_after_def Let_def)
qed

lemma boundary_after_later:
  assumes "clock_ok now" and "0 \<le> m" and "m < 1440"
  shows "now < boundary_after now m \<and> boundary_after now m \<le> now + 86400"
  using boundary_after_value [OF assms] assms(2,3) pos_mod_bound [of 86400 now] pos_mod_sign [of 86400 now]
  by (auto split: if_splits)

lemma night_contains_until_boundary:
  assumes now: "clock_ok now" and w: "night_ok w" and t: "now \<le> t"
    and "t < boundary_after now (night_from w)" and "t < boundary_after now (night_to w)"
  shows "night_contains w (minute_of_day t) = night_contains w (minute_of_day now)"
proof -
  let ?x = "now mod 86400" and ?s = "t mod 86400" and ?day = "now - now mod 86400"
  have x: "0 \<le> ?x" "?x < 86400" and s: "0 \<le> ?s" "?s < 86400" by simp_all
  have le: "m \<le> minute_of_day u \<longleftrightarrow> m * 60 \<le> u mod 86400" for m u
    unfolding minute_of_day_def by linarith
  note b = boundary_after_value [OF now]
  have bf: "t < ?day + night_from w * 60 + (if night_from w * 60 \<le> ?x then 86400 else 0)"
    and bt: "t < ?day + night_to w * 60 + (if night_to w * 60 \<le> ?x then 86400 else 0)"
    using assms(4,5) b w by (simp_all add: night_ok_def)
  have "t = ?day + ?s \<or> t = ?day + 86400 + ?s"
  proof -
    have "now div 86400 \<le> t div 86400" using t by (simp add: zdiv_mono1)
    moreover have "t div 86400 \<le> now div 86400 + 1"
    proof -
      have "t < ?day + 2 * 86400" using bf w by (auto simp: night_ok_def split: if_splits)
      moreover have "?day = now div 86400 * 86400" by (simp add: minus_mod_eq_div_mult)
      ultimately show ?thesis by linarith
    qed
    ultimately have "t div 86400 = now div 86400 \<or> t div 86400 = now div 86400 + 1" by linarith
    then show ?thesis
      using minus_mod_eq_div_mult [of t 86400] minus_mod_eq_div_mult [of now 86400] by auto
  qed
  then show ?thesis
  proof
    assume same: "t = ?day + ?s"
    have "?x \<le> ?s" using same t by linarith
    have "m * 60 \<le> ?s \<longleftrightarrow> m * 60 \<le> ?x" if "t < ?day + m * 60 + (if m * 60 \<le> ?x then 86400 else 0)" for m
      using that same \<open>?x \<le> ?s\<close> by (auto split: if_splits)
    with bf bt have "night_from w * 60 \<le> ?s \<longleftrightarrow> night_from w * 60 \<le> ?x"
      "night_to w * 60 \<le> ?s \<longleftrightarrow> night_to w * 60 \<le> ?x" by blast+
    then show ?thesis by (simp add: night_contains_def le not_le [symmetric])
  next
    assume nxt: "t = ?day + 86400 + ?s"
    have "m * 60 \<le> ?x \<and> \<not> m * 60 \<le> ?s" if "t < ?day + m * 60 + (if m * 60 \<le> ?x then 86400 else 0)" "m < 1440" for m
      using that nxt s by (auto split: if_splits)
    with bf bt w have "night_from w * 60 \<le> ?x" "\<not> night_from w * 60 \<le> ?s"
      "night_to w * 60 \<le> ?x" "\<not> night_to w * 60 \<le> ?s" by (auto simp: night_ok_def)
    then show ?thesis by (simp add: night_contains_def le not_le [symmetric])
  qed
qed

lemma next_transition_spec:
  assumes "clock_ok now" and "\<And>w. night = Some w \<Longrightarrow> night_ok w"
  shows "next_transition now timed night = Some n \<Longrightarrow> now < n"
    and "timed = Some until \<Longrightarrow> now < until \<Longrightarrow> \<exists>n \<le> until. next_transition now timed night = Some n"
    and "night = Some w \<Longrightarrow> \<exists>n. next_transition now timed night = Some n \<and>
      n \<le> boundary_after now (night_from w) \<and> n \<le> boundary_after now (night_to w)"
  using assms boundary_after_later [OF assms(1)]
  by (auto simp: next_transition_def Let_def night_ok_def split: option.splits if_splits)


section \<open>Facts on normal forms\<close>

lemma normalize_keeps [simp]:
  "rs_chat (sr_snapshot (normalize now st)) = rs_chat (sr_snapshot st)"
  "rs_base (sr_snapshot (normalize now st)) = rs_base (sr_snapshot st)"
  "rs_seeded (sr_snapshot (normalize now st)) = rs_seeded (sr_snapshot st)"
  "rs_manual (sr_snapshot (normalize now st)) = rs_manual (sr_snapshot st)"
  "rs_night (sr_snapshot (normalize now st)) = rs_night (sr_snapshot st)"
  "rs_applied_revision (sr_snapshot (normalize now st)) = rs_applied_revision (sr_snapshot st)"
  "rs_applied_fingerprint (sr_snapshot (normalize now st)) = rs_applied_fingerprint (sr_snapshot st)"
  "rs_remote_unknown (sr_snapshot (normalize now st)) = rs_remote_unknown (sr_snapshot st)"
  "sr_lease_token (normalize now st) = sr_lease_token st"
  "sr_lease_revision (normalize now st) = sr_lease_revision st"
  "sr_lease_until (normalize now st) = sr_lease_until st"
  "sr_notice_kind (normalize now st) = sr_notice_kind st"
  "sr_notice_revision (normalize now st) = sr_notice_revision st"
  "sr_notice_token (normalize now st) = sr_notice_token st"
  "sr_notice_lease_until (normalize now st) = sr_notice_lease_until st"
  by (simp_all add: normalize_def Let_def)

lemma normalize_timed:
  "rs_timed (sr_snapshot (normalize now st)) =
     (if is_some_and (\<lambda>u. u \<le> now) (rs_timed (sr_snapshot st)) then None
      else rs_timed (sr_snapshot st))"
  by (simp add: normalize_def Let_def)

lemma normalize_next:
  "rs_next (sr_snapshot (normalize now st)) =
     next_transition now (rs_timed (sr_snapshot (normalize now st))) (rs_night (sr_snapshot st))"
  by (simp add: normalize_def Let_def)

lemma effective_normalize: "effective_at (sr_snapshot (normalize now st)) now = effective_at (sr_snapshot st) now"
  by (auto simp: effective_at_def normalize_timed is_some_and_iff)

lemma effective_base: "eff_base (effective_at n now) = rs_base n"
  by (simp add: effective_at_def)

lemma effective_cong:
  "rs_base m = rs_base n \<Longrightarrow> rs_manual m = rs_manual n \<Longrightarrow> rs_night m = rs_night n \<Longrightarrow>
   rs_timed m = rs_timed n \<Longrightarrow> effective_at m now = effective_at n now"
  by (simp add: effective_at_def)

lemma normalize_fingerprint:
  "sr_intent_fingerprint (normalize now st) =
     (if rs_seeded (sr_snapshot st) then fingerprint (effective_at (sr_snapshot st) now)
      else sr_intent_fingerprint st)"
proof -
  let ?n = "sr_snapshot st"
  let ?timed = "if is_some_and (\<lambda>u. u \<le> now) (rs_timed ?n) then None else rs_timed ?n"
  have "effective_at (?n\<lparr>rs_timed := ?timed, rs_next := x\<rparr>) now = effective_at ?n now" for x
    by (auto simp: effective_at_def is_some_and_iff)
  then show ?thesis by (auto simp: normalize_def Let_def)
qed

lemma normalize_revision_eq:
  "rs_intent_revision (sr_snapshot (normalize now st)) =
     (if sr_intent_fingerprint (normalize now st) = sr_intent_fingerprint st
      then rs_intent_revision (sr_snapshot st) else sat_add (rs_intent_revision (sr_snapshot st)) 1)"
  by (simp add: normalize_def Let_def)

lemma sat_add_one_le: "a \<le> i64_max \<Longrightarrow> a \<le> sat_add a 1 \<and> sat_add a 1 \<le> i64_max"
  by (simp add: sat_add_def sat_i64_def clamp_def int_bounds)

lemma normalize_revision:
  assumes "rs_intent_revision (sr_snapshot st) \<le> i64_max"
  shows "rs_intent_revision (sr_snapshot st) \<le> rs_intent_revision (sr_snapshot (normalize now st))"
    and "rs_intent_revision (sr_snapshot (normalize now st)) \<le> i64_max"
  using assms sat_add_one_le by (auto simp: normalize_revision_eq)

text \<open>Bringing a row to its normal form twice is the same as once.\<close>

lemma normalize_idem: "normalize now (normalize now st) = normalize now st"
proof -
  let ?m = "normalize now st"
  have timed: "\<not> is_some_and (\<lambda>u. u \<le> now) (rs_timed (sr_snapshot ?m))"
    by (auto simp: normalize_timed)
  have nxt: "next_transition now (rs_timed (sr_snapshot ?m)) (rs_night (sr_snapshot ?m)) =
      rs_next (sr_snapshot ?m)"
    by (simp add: normalize_next)
  have fp: "rs_seeded (sr_snapshot ?m) \<longrightarrow>
      sr_intent_fingerprint ?m = fingerprint (effective_at (sr_snapshot ?m) now)"
    by (simp add: normalize_fingerprint effective_normalize)
  have same: "(sr_snapshot ?m)\<lparr>rs_timed := rs_timed (sr_snapshot ?m),
      rs_next := rs_next (sr_snapshot ?m)\<rparr> = sr_snapshot ?m"
    by simp
  show ?thesis
    unfolding normalize_def [of now ?m] Let_def
    using timed nxt fp same by (simp del: normalize_keeps)
qed

section \<open>Valid rows\<close>

definition night_columns_ok :: "int option \<Rightarrow> int option \<Rightarrow> bool" where
  "night_columns_ok from to \<longleftrightarrow>
     (case (from, to) of
        (None, None) \<Rightarrow> True
      | (Some f, Some t) \<Rightarrow> 0 \<le> f \<and> f < 1440 \<and> 0 \<le> t \<and> t < 1440 \<and> f \<noteq> t
      | _ \<Rightarrow> False)"

definition notice_column_ok :: "string option \<Rightarrow> bool" where
  "notice_column_ok v \<longleftrightarrow> v \<in> {None, Some ''timed_opened'', Some ''night_locked'', Some ''night_opened''}"

text \<open>
  The CHECK constraints the operations rely on, and what they add to them: no revision beyond the
  intended one is ever applied or leased, and a notice is leased only while there is one.
\<close>

definition rights_core_ok :: "rights_row \<Rightarrow> bool" where
  "rights_core_ok r \<longleftrightarrow> 0 \<le> rr_base r \<and> rr_base r < 16384 \<and>
     night_columns_ok (rr_night_from r) (rr_night_to r) \<and>
     notice_column_ok (rr_intent_notice r) \<and> notice_column_ok (rr_notice_kind r) \<and>
     0 \<le> rr_applied_revision r \<and> rr_applied_revision r \<le> rr_intent_revision r \<and>
     rr_intent_revision r \<le> i64_max \<and>
     (\<forall>v. rr_lease_revision r = Some v \<longrightarrow> v \<le> rr_intent_revision r) \<and>
     (rr_lease_revision r = None \<longleftrightarrow> rr_lease_token r = None) \<and>
     (rr_lease_until r = None \<longleftrightarrow> rr_lease_token r = None) \<and>
     (rr_notice_revision r = None \<longleftrightarrow> rr_notice_kind r = None) \<and>
     (rr_notice_lease_until r = None \<longleftrightarrow> rr_notice_token r = None) \<and>
     (rr_notice_token r \<noteq> None \<longrightarrow> rr_notice_kind r \<noteq> None) \<and>
     (\<forall>f. rr_applied_fingerprint r = Some f \<longrightarrow> 0 \<le> f \<and> f < 32768)"

definition rights_row_ok :: "rights_row \<Rightarrow> bool" where
  "rights_row_ok r \<longleftrightarrow> rights_core_ok r \<and> 0 \<le> rr_intent_fingerprint r \<and> rr_intent_fingerprint r < 32768"

definition stored_valid :: "stored_rights \<Rightarrow> bool" where
  "stored_valid st \<longleftrightarrow> valid_mask (rs_base (sr_snapshot st)) \<and>
     (\<forall>w. rs_night (sr_snapshot st) = Some w \<longrightarrow> night_ok w)"

lemma notice_column_roundtrip:
  "notice_from_column (map_option notice_as_storage k) = Inr k"
  by (cases k) (simp_all add: notice_codec)

lemma notice_column_read:
  "notice_column_ok v \<Longrightarrow> \<exists>k. notice_from_column v = Inr k \<and> map_option notice_as_storage k = v"
  by (auto simp: notice_column_ok_def notice_from_storage_def)

lemma stored_row_roundtrip:
  assumes "stored_valid st"
  shows "stored_from_row (row_of_stored st) = Inr st"
proof -
  have "night_from_row (row_of_stored st) = Inr (rs_night (sr_snapshot st))"
    using assms
    by (cases "rs_night (sr_snapshot st)")
      (auto simp: night_from_row_def row_of_stored_def Let_def stored_valid_def night_ok_def night_new_def)
  moreover have "mask_from_storage (rr_base (row_of_stored st)) = Inr (rs_base (sr_snapshot st))"
    using assms by (simp add: row_of_stored_def Let_def stored_valid_def mask_roundtrip)
  moreover have "notice_from_column (rr_intent_notice (row_of_stored st)) = Inr (sr_intent_notice st)"
    "notice_from_column (rr_notice_kind (row_of_stored st)) = Inr (sr_notice_kind st)"
    by (simp_all add: row_of_stored_def Let_def notice_column_roundtrip)
  ultimately show ?thesis
    by (simp add: stored_from_row_def) (simp add: row_of_stored_def Let_def)
qed

lemma stored_from_row_ok:
  assumes "rights_core_ok r"
  shows "\<exists>st. stored_from_row r = Inr st \<and> row_of_stored st = r \<and> stored_valid st"
proof -
  have "\<exists>w. night_from_row r = Inr w \<and> map_option night_from w = rr_night_from r \<and>
      map_option night_to w = rr_night_to r \<and> (\<forall>x. w = Some x \<longrightarrow> night_ok x)"
    using assms
    by (auto simp: rights_core_ok_def night_columns_ok_def night_from_row_def night_new_def night_ok_def
        split: option.splits)
  then obtain w where w: "night_from_row r = Inr w" "map_option night_from w = rr_night_from r"
    "map_option night_to w = rr_night_to r" "\<forall>x. w = Some x \<longrightarrow> night_ok x" by blast
  have "\<exists>m. mask_from_storage (rr_base r) = Inr m"
  proof -
    have "uint (word_of_int (rr_base r) :: rights_mask) = rr_base r"
      using assms by (simp add: rights_core_ok_def unsigned_of_int take_bit_int_eq_self_iff)
    then have "valid_mask (word_of_int (rr_base r))"
      using assms by (simp add: valid_mask_bound rights_core_ok_def)
    then show ?thesis using assms by (simp add: mask_from_storage_def valid_mask_def rights_core_ok_def)
  qed
  then obtain m where m: "mask_from_storage (rr_base r) = Inr m" by blast
  note mv = mask_from_storage_Inr [OF m]
  have cols: "notice_column_ok (rr_intent_notice r)" "notice_column_ok (rr_notice_kind r)"
    using assms by (simp_all add: rights_core_ok_def)
  obtain i where i: "notice_from_column (rr_intent_notice r) = Inr i"
    "map_option notice_as_storage i = rr_intent_notice r"
    using notice_column_read [OF cols(1)] by blast
  obtain k where k: "notice_from_column (rr_notice_kind r) = Inr k"
    "map_option notice_as_storage k = rr_notice_kind r"
    using notice_column_read [OF cols(2)] by blast
  show ?thesis
    by (cases r, simp add: stored_from_row_def w m i k) (use w m i k mv in
      \<open>simp add: row_of_stored_def stored_valid_def\<close>)
qed

section \<open>Writing a row\<close>

lemma row_of_stored_sel [simp]:
  "rr_chat (row_of_stored st) = rs_chat (sr_snapshot st)"
  "rr_base (row_of_stored st) = uint (rs_base (sr_snapshot st))"
  "rr_seeded (row_of_stored st) = rs_seeded (sr_snapshot st)"
  "rr_night_from (row_of_stored st) = map_option night_from (rs_night (sr_snapshot st))"
  "rr_night_to (row_of_stored st) = map_option night_to (rs_night (sr_snapshot st))"
  "rr_intent_revision (row_of_stored st) = rs_intent_revision (sr_snapshot st)"
  "rr_intent_fingerprint (row_of_stored st) = sr_intent_fingerprint st"
  "rr_applied_revision (row_of_stored st) = rs_applied_revision (sr_snapshot st)"
  "rr_applied_fingerprint (row_of_stored st) = rs_applied_fingerprint (sr_snapshot st)"
  "rr_lease_token (row_of_stored st) = sr_lease_token st"
  "rr_lease_revision (row_of_stored st) = sr_lease_revision st"
  "rr_lease_until (row_of_stored st) = sr_lease_until st"
  "rr_intent_notice (row_of_stored st) = map_option notice_as_storage (sr_intent_notice st)"
  "rr_notice_kind (row_of_stored st) = map_option notice_as_storage (sr_notice_kind st)"
  "rr_notice_revision (row_of_stored st) = sr_notice_revision st"
  "rr_notice_token (row_of_stored st) = sr_notice_token st"
  "rr_notice_lease_until (row_of_stored st) = sr_notice_lease_until st"
  "rr_next (row_of_stored st) = rs_next (sr_snapshot st)"
  "rr_retry (row_of_stored st) = rs_retry (sr_snapshot st)"
  by (simp_all add: row_of_stored_def Let_def mask_storage_def)

lemma notice_column_storage [simp]: "notice_column_ok (map_option notice_as_storage k)"
proof (cases k)
  case None
  then show ?thesis by (simp add: notice_column_ok_def)
next
  case (Some a)
  then show ?thesis by (cases a) (simp_all add: notice_column_ok_def)
qed

lemma core_ok_valid: "rights_core_ok (row_of_stored st) \<Longrightarrow> stored_valid st"
  by (auto simp: rights_core_ok_def stored_valid_def valid_mask_bound night_columns_ok_def night_ok_def)

lemma core_ok_normalize:
  assumes "rights_core_ok (row_of_stored st)"
  shows "rights_core_ok (row_of_stored (normalize now st))"
  using assms normalize_revision [of st now]
  by (auto simp: rights_core_ok_def intro: order_trans)

lemma row_ok_normalize:
  assumes "rights_core_ok (row_of_stored st)"
    and "\<not> rs_seeded (sr_snapshot st) \<Longrightarrow> 0 \<le> sr_intent_fingerprint st \<and> sr_intent_fingerprint st < 32768"
  shows "rights_row_ok (row_of_stored (normalize now st))"
  using core_ok_normalize [OF assms(1), of now] core_ok_valid [OF assms(1)] assms(2)
    fingerprint_range [of "effective_at (sr_snapshot st) now"]
  by (auto simp: rights_row_ok_def normalize_fingerprint effective_base stored_valid_def)

text \<open>What a change of the intent leaves alone.\<close>

definition delivery_frame where
  "delivery_frame st = ((rs_chat (sr_snapshot st), rs_intent_revision (sr_snapshot st),
     rs_applied_revision (sr_snapshot st), rs_applied_fingerprint (sr_snapshot st)),
     (sr_lease_token st, sr_lease_revision st, sr_lease_until st),
     (sr_notice_kind st, sr_notice_revision st, sr_notice_token st, sr_notice_lease_until st))"

definition change_ok :: "(stored_rights \<Rightarrow> stored_rights rights_result) \<Rightarrow> bool" where
  "change_ok change \<longleftrightarrow> (\<forall>st st'. change st = Inr st' \<longrightarrow> stored_valid st \<longrightarrow>
     stored_valid st' \<and> delivery_frame st' = delivery_frame st \<and>
     (rs_seeded (sr_snapshot st) \<or> \<not> rs_seeded (sr_snapshot st') \<longrightarrow>
       sr_intent_fingerprint st' = sr_intent_fingerprint st))"

lemma change_seed_ok: "valid_mask base \<Longrightarrow> change_ok (change_seed base)"
  by (auto simp: change_ok_def change_seed_def stored_valid_def delivery_frame_def split: if_splits)

lemma if_seeded_ok:
  assumes "\<And>n n'. f n = Inr n' \<Longrightarrow> valid_mask (rs_base n) \<Longrightarrow>
      (\<And>w. rs_night n = Some w \<Longrightarrow> night_ok w) \<Longrightarrow>
      valid_mask (rs_base n') \<and> (\<forall>w. rs_night n' = Some w \<longrightarrow> night_ok w) \<and>
      rs_chat n' = rs_chat n \<and> rs_intent_revision n' = rs_intent_revision n \<and>
      rs_applied_revision n' = rs_applied_revision n \<and>
      rs_applied_fingerprint n' = rs_applied_fingerprint n"
  shows "change_ok (if_seeded f)"
  unfolding change_ok_def
proof (intro allI impI)
  fix st st'
  assume a: "if_seeded f st = Inr st'" and v: "stored_valid st"
  then obtain n' where n': "f (sr_snapshot st) = Inr n'" "st' = st\<lparr>sr_snapshot := n'\<rparr>"
    by (cases "f (sr_snapshot st)") (auto simp: if_seeded_def split: if_splits)
  from assms [OF n'(1)] v show "stored_valid st' \<and> delivery_frame st' = delivery_frame st \<and>
     (rs_seeded (sr_snapshot st) \<or> \<not> rs_seeded (sr_snapshot st') \<longrightarrow>
       sr_intent_fingerprint st' = sr_intent_fingerprint st)"
    by (auto simp: n'(2) stored_valid_def delivery_frame_def)
qed

lemma set_bit_Inr:
  "set_bit b closed n = Inr n' \<Longrightarrow> \<exists>m. mask_set b closed (rs_base n) = Inr m \<and> n' = n\<lparr>rs_base := m\<rparr>"
  by (cases "mask_set b closed (rs_base n)") (auto simp: set_bit_def)

lemma set_bits_Inr:
  "set_bits bs closed n = Inr n' \<Longrightarrow> valid_mask (rs_base n) \<Longrightarrow>
   \<exists>m. valid_mask m \<and> n' = n\<lparr>rs_base := m\<rparr>"
proof (induction bs arbitrary: n)
  case Nil
  then show ?case by (intro exI [of _ "rs_base n"]) simp
next
  case (Cons b bs)
  then obtain n1 where n1: "set_bit b closed n = Inr n1" "set_bits bs closed n1 = Inr n'"
    by (auto split: sum.splits)
  obtain m where m: "mask_set b closed (rs_base n) = Inr m" "n1 = n\<lparr>rs_base := m\<rparr>"
    using set_bit_Inr [OF n1(1)] by blast
  then have "\<exists>m'. valid_mask m' \<and> n' = n1\<lparr>rs_base := m'\<rparr>"
    using Cons.IH [OF n1(2)] mask_set_valid [OF Cons.prems(2) m(1)] by simp
  with m(2) show ?case by auto
qed

lemma change_bit_ok: "change_ok (if_seeded (set_bit b closed))"
  by (rule if_seeded_ok, drule set_bit_Inr) (auto intro: mask_set_valid)

lemma change_bits_ok: "change_ok (if_seeded (set_bits bs closed))"
  by (rule if_seeded_ok, drule (1) set_bits_Inr) auto

lemma change_manual_ok:
  "change_ok (if_seeded (\<lambda>n. Inr (n\<lparr>rs_manual := locked, rs_timed := None\<rparr>)))"
  by (rule if_seeded_ok) auto

lemma change_timed_ok:
  "change_ok (if_seeded (\<lambda>n. Inr (n\<lparr>rs_manual := False,
     rs_timed := (if now < until then Some until else None)\<rparr>)))"
  by (rule if_seeded_ok) auto

lemma change_night_ok:
  "(\<And>w. night = Some w \<Longrightarrow> night_ok w) \<Longrightarrow> change_ok (if_seeded (\<lambda>n. Inr (n\<lparr>rs_night := night\<rparr>)))"
  by (rule if_seeded_ok) auto

lemma core_ok_frame:
  assumes "rights_core_ok (row_of_stored st)" and "delivery_frame st' = delivery_frame st"
    and "stored_valid st'"
  shows "rights_core_ok (row_of_stored st')"
  using assms
  by (auto simp: rights_core_ok_def delivery_frame_def stored_valid_def valid_mask_bound
      night_columns_ok_def night_ok_def split: option.splits)

lemma core_ok_bump:
  assumes "rights_core_ok (row_of_stored st)"
  shows "rights_core_ok (row_of_stored (bump_unknown now st))"
  using assms sat_add_one_le [of "rs_intent_revision (sr_snapshot st)"]
  by (auto simp: rights_core_ok_def bump_unknown_def Let_def intro: order_trans)


section \<open>The invariant of the store\<close>

text \<open>What a claim writes beside its token: how long it holds, and the revision it is about.\<close>

definition delivery_time :: "rights_row \<Rightarrow> seconds option \<times> int option" where
  "delivery_time r = (rr_lease_until r, rr_lease_revision r)"

definition notice_time :: "rights_row \<Rightarrow> seconds option \<times> int option" where
  "notice_time r = (rr_notice_lease_until r, rr_notice_revision r)"

definition rights_ok :: "rights_store \<Rightarrow> bool" where
  "rights_ok s \<longleftrightarrow> leases_ok rr_chat rr_lease_token (rights_token s) (rights s) \<and>
     leases_ok rr_chat rr_notice_token (rights_token s) (rights s) \<and>
     (\<forall>r \<in> set (rights s). rights_row_ok r)"

definition rights_move :: "rights_store \<Rightarrow> rights_store \<Rightarrow> bool" where
  "rights_move s t \<longleftrightarrow>
     lease_move rr_chat rr_lease_token delivery_time (rights_token s) (rights s)
       (rights_token t) (rights t) \<and>
     lease_move rr_chat rr_notice_token notice_time (rights_token s) (rights s)
       (rights_token t) (rights t) \<and>
     (\<forall>r \<in> set (rights t). rights_row_ok r)"

lemma rights_move_ok: "rights_move s t \<Longrightarrow> rights_ok t"
  by (auto simp: rights_move_def rights_ok_def dest: lease_move_ok)

lemma rights_move_le: "rights_move s t \<Longrightarrow> rights_token s \<le> rights_token t"
  by (simp add: rights_move_def lease_move_def)

lemma rights_ok_unique: "rights_ok s \<Longrightarrow> unique_key rr_chat (rights s)"
  by (auto simp: rights_ok_def intro: leases_ok_unique)

lemma rights_ok_row:
  "rights_ok s \<Longrightarrow> row_at rr_chat (rights s) c = Some r \<Longrightarrow> rights_row_ok r \<and> rr_chat r = c"
  by (auto simp: rights_ok_def dest: row_at_Some)

lemma rights_env:
  "rights_ok s \<Longrightarrow> rights t = rights s \<Longrightarrow> rights_token s \<le> rights_token t \<Longrightarrow> rights_move s t"
  by (simp add: rights_move_def rights_ok_def lease_move_refl)

lemma rights_move_trans: "rights_move s t \<Longrightarrow> rights_move t u \<Longrightarrow> rights_move s u"
  by (auto simp: rights_move_def intro: lease_move_trans)

lemma rights_rewrite:
  assumes ok: "rights_ok s" and old: "row_at rr_chat (rights s) c = Some old"
    and t: "rights t = sql_update (\<lambda>r. rr_chat r = c) f (rights s)"
    and le: "rights_token s \<le> rights_token t" and key: "\<And>r. rr_chat (f r) = rr_chat r"
    and delivery: "rr_lease_token (f old) = None \<or>
      rr_lease_token (f old) = rr_lease_token old \<and> delivery_time (f old) = delivery_time old \<or>
      rr_lease_token (f old) = Some (rights_token s) \<and> rights_token s < rights_token t"
    and notice: "rr_notice_token (f old) = None \<or>
      rr_notice_token (f old) = rr_notice_token old \<and> notice_time (f old) = notice_time old \<or>
      rr_notice_token (f old) = Some (rights_token s) \<and> rights_token s < rights_token t"
    and row: "rights_row_ok (f old)"
  shows "rights_move s t"
proof -
  have "lease_move rr_chat rr_lease_token delivery_time (rights_token s) (rights s)
      (rights_token t) (rights t)"
    unfolding t by (rule lease_move_rewrite [OF _ le old key])
      (use ok delivery in \<open>auto simp: rights_ok_def delivery_time_def\<close>)
  moreover have "lease_move rr_chat rr_notice_token notice_time (rights_token s) (rights s)
      (rights_token t) (rights t)"
    unfolding t by (rule lease_move_rewrite [OF _ le old key])
      (use ok notice in \<open>auto simp: rights_ok_def notice_time_def\<close>)
  moreover have "r = old" if "r \<in> set (rights s)" "rr_chat r = c" for r
    using row_at_in [OF rights_ok_unique [OF ok] that(1)] that(2) old by simp
  then have "\<forall>r \<in> set (rights t). rights_row_ok r"
    using ok row by (auto simp: t sql_update_def rights_ok_def)
  ultimately show ?thesis by (simp add: rights_move_def)
qed

text \<open>An UPDATE by key and condition.\<close>

lemma rights_update:
  assumes ok: "rights_ok s" and t: "rights t = sql_update (\<lambda>r. rr_chat r = c \<and> P r) f (rights s)"
    and le: "rights_token s \<le> rights_token t" and key: "\<And>r. rr_chat (f r) = rr_chat r"
    and cond: "\<And>r. P r \<Longrightarrow> rights_row_ok r \<Longrightarrow>
      (rr_lease_token (f r) = None \<or>
       rr_lease_token (f r) = rr_lease_token r \<and> delivery_time (f r) = delivery_time r) \<and>
      (rr_notice_token (f r) = None \<or>
       rr_notice_token (f r) = rr_notice_token r \<and> notice_time (f r) = notice_time r \<or>
       rr_notice_token (f r) = Some (rights_token s) \<and> rights_token s < rights_token t) \<and>
      rights_row_ok (f r)"
  shows "rights_move s t"
proof (cases "is_some_and P (row_at rr_chat (rights s) c)")
  case True
  then obtain old where old: "row_at rr_chat (rights s) c = Some old" "P old"
    by (auto simp: is_some_and_iff)
  note c = cond [OF old(2)] rights_ok_row [OF ok old(1)]
  show ?thesis
    by (rule rights_rewrite [OF ok old(1) _ le key])
      (use t True c in \<open>auto simp: sql_update_key_cases [OF rights_ok_unique [OF ok]]\<close>)
next
  case False
  with t have "rights t = rights s" by (simp add: sql_update_key_cases [OF rights_ok_unique [OF ok]])
  with rights_env [OF ok] le show ?thesis by simp
qed

lemma blank_rights_ok: "rights_row_ok (blank_rights c)"
  by (simp add: rights_row_ok_def rights_core_ok_def blank_rights_def night_columns_ok_def
      notice_column_ok_def int_bounds)

lemma ensure_row_move:
  assumes ok: "rights_ok s"
  shows "rights_move s (s\<lparr>rights := ensure_row c (rights s)\<rparr>)"
proof (cases "row_at rr_chat (rights s) c")
  case None
  have k: "rr_chat (blank_rights c) = c" "rr_lease_token (blank_rights c) = None"
    "rr_notice_token (blank_rights c) = None" by (simp_all add: blank_rights_def)
  have "\<forall>r \<in> set (sql_insert (blank_rights c) (rights s)). rights_row_ok r"
    using ok blank_rights_ok by (simp add: rights_ok_def sql_insert_def)
  with None ok k show ?thesis
    by (simp add: rights_move_def rights_ok_def ensure_row_def lease_move_insert)
next
  case (Some r)
  with ok show ?thesis by (simp add: rights_env ensure_row_def)
qed

lemma ensure_row_at: "row_at rr_chat (ensure_row c t) j =
    (if j = c \<and> row_at rr_chat t c = None then Some (blank_rights c) else row_at rr_chat t j)"
  by (auto simp: ensure_row_def row_at_insert blank_rights_def split: option.splits)


section \<open>Every operation is a move\<close>

lemma locked_row_stored:
  assumes "rights_ok s"
  shows "\<exists>st r. locked_row c (rights s) = Inr st \<and> row_at rr_chat (ensure_row c (rights s)) c = Some r \<and>
    row_of_stored st = r \<and> rights_row_ok r \<and> stored_valid st"
proof -
  have "\<exists>r. row_at rr_chat (ensure_row c (rights s)) c = Some r"
    by (cases "row_at rr_chat (rights s) c") (simp_all add: ensure_row_at)
  then obtain r where r: "row_at rr_chat (ensure_row c (rights s)) c = Some r" by blast
  from rights_ok_row [OF rights_move_ok [OF ensure_row_move [OF assms, of c]]] r
  have ok: "rights_row_ok r" by simp
  with stored_from_row_ok [of r] r show ?thesis by (auto simp: locked_row_def rights_row_ok_def)
qed

lemma existing_locked_row_stored:
  assumes "rights_ok s" and "existing_locked_row c s = Inr (Some st)"
  shows "row_at rr_chat (rights s) c = Some (row_of_stored st) \<and> rights_row_ok (row_of_stored st) \<and>
    stored_valid st \<and> rs_chat (sr_snapshot st) = c"
proof -
  from assms(2) obtain r where r: "row_at rr_chat (rights s) c = Some r" "stored_from_row r = Inr st"
    by (auto simp: existing_locked_row_def split: option.splits)
  note ok = rights_ok_row [OF assms(1) r(1)]
  with stored_from_row_ok [of r] r(2) have "row_of_stored st = r" "stored_valid st"
    by (auto simp: rights_row_ok_def)
  with ok r(1) show ?thesis by auto
qed

lemma existing_locked_row_total:
  assumes "rights_ok s"
  shows "\<exists>x. existing_locked_row c s = Inr x"
proof (cases "row_at rr_chat (rights s) c")
  case None
  then show ?thesis by (simp add: existing_locked_row_def)
next
  case (Some r)
  with rights_ok_row [OF assms] stored_from_row_ok [of r] show ?thesis
    by (auto simp: existing_locked_row_def rights_row_ok_def)
qed

text \<open>Writing back a row that was read keeps its leases where they are.\<close>

lemma write_row_move:
  assumes ok: "rights_ok s" and old: "row_at rr_chat (rights s) c = Some (row_of_stored st)"
    and new: "rights_row_ok (row_of_stored st')" "rs_chat (sr_snapshot st') = c"
    and same: "sr_lease_token st' = sr_lease_token st \<and> sr_lease_until st' = sr_lease_until st \<and>
        sr_lease_revision st' = sr_lease_revision st \<or>
      sr_lease_token st' = Some (rights_token s) \<and> rights_token s < rights_token t"
      "sr_notice_token st' = sr_notice_token st" "sr_notice_lease_until st' = sr_notice_lease_until st"
      "sr_notice_revision st' = sr_notice_revision st"
    and t: "rights t = write_row st' (rights s)" and le: "rights_token s \<le> rights_token t"
  shows "rights_move s t"
proof (rule rights_rewrite [where f = "\<lambda>r. (row_of_stored st')\<lparr>rr_chat := rr_chat r\<rparr>", OF ok old _ le])
  have c: "rs_chat (sr_snapshot st) = c" using rights_ok_row [OF ok old] by simp
  then have "(row_of_stored st')\<lparr>rr_chat := rr_chat (row_of_stored st)\<rparr> = row_of_stored st'"
    using new(2) by (simp add: row_of_stored_def Let_def)
  with new(1) show "rights_row_ok ((row_of_stored st')\<lparr>rr_chat := rr_chat (row_of_stored st)\<rparr>)" by simp
qed (use t new(2) same in \<open>auto simp: write_row_def delivery_time_def notice_time_def\<close>)

lemma mutate_move:
  assumes ok: "rights_ok s" and "change_ok change"
  shows "rights_move s (fst (mutate_default_rights c now change s))"
proof -
  obtain st r where st: "locked_row c (rights s) = Inr st"
    and r: "row_at rr_chat (ensure_row c (rights s)) c = Some r" "row_of_stored st = r" "rights_row_ok r"
      "stored_valid st"
    using locked_row_stored [OF ok] by blast
  let ?s1 = "s\<lparr>rights := ensure_row c (rights s)\<rparr>"
  have ok1: "rights_ok ?s1" using ensure_row_move [OF ok] by (rule rights_move_ok)
  have same: "rights_move s s" by (rule rights_env [OF ok]) simp_all
  show ?thesis
  proof (cases "change (normalize now st)")
    case (Inl e)
    with st same show ?thesis by (simp add: mutate_default_rights_def)
  next
    case (Inr ch)
    let ?final = "normalize now (bump_unknown now ch)"
    have core: "rights_core_ok (row_of_stored (normalize now st))"
      using r by (intro core_ok_normalize) (simp add: rights_row_ok_def)
    have ch: "stored_valid ch" "delivery_frame ch = delivery_frame (normalize now st)"
      "\<not> rs_seeded (sr_snapshot ch) \<Longrightarrow> sr_intent_fingerprint ch = sr_intent_fingerprint (normalize now st)"
      using assms(2) Inr core_ok_valid [OF core] unfolding change_ok_def by blast+
    have "rights_core_ok (row_of_stored (bump_unknown now ch))"
      by (rule core_ok_bump [OF core_ok_frame [OF core ch(2,1)]])
    moreover have "0 \<le> sr_intent_fingerprint (bump_unknown now ch) \<and> sr_intent_fingerprint (bump_unknown now ch) < 32768"
      if "\<not> rs_seeded (sr_snapshot (bump_unknown now ch))"
    proof -
      have "\<not> rs_seeded (sr_snapshot ch)" using that by (simp add: bump_unknown_def Let_def split: if_splits)
      with ch(3) have "sr_intent_fingerprint (bump_unknown now ch) = sr_intent_fingerprint (normalize now st)"
        by (simp add: bump_unknown_def Let_def)
      moreover have "rights_row_ok (row_of_stored (normalize now st))"
        using r by (intro row_ok_normalize) (auto simp: rights_row_ok_def)
      ultimately show ?thesis by (simp add: rights_row_ok_def)
    qed
    ultimately have final: "rights_row_ok (row_of_stored ?final)" by (rule row_ok_normalize)
    have frame: "sr_lease_token ?final = sr_lease_token st" "sr_lease_until ?final = sr_lease_until st"
      "sr_notice_token ?final = sr_notice_token st" "sr_notice_lease_until ?final = sr_notice_lease_until st"
      "sr_lease_revision ?final = sr_lease_revision st" "sr_notice_revision ?final = sr_notice_revision st"
      "rs_chat (sr_snapshot ?final) = rs_chat (sr_snapshot st)"
      using ch(2) by (simp_all add: delivery_frame_def bump_unknown_def Let_def)
    have c: "rs_chat (sr_snapshot st) = c"
      using rights_ok_row [OF ok1, of c r] r by auto
    have "rights_move ?s1 t" if "rights t = write_row ?final (rights ?s1)" "rights_token t = rights_token s" for t
      by (rule write_row_move [OF ok1 _ final]) (use r frame c that in simp_all)
    with rights_move_trans [OF ensure_row_move [OF ok, of c]] st same Inr show ?thesis
      by (auto simp: mutate_default_rights_def Let_def)
  qed
qed

lemma claim_default_rights_move:
  assumes ok: "rights_ok s"
  shows "rights_move s (fst (claim_default_rights c now s))"
proof -
  have same: "rights_move s s" by (rule rights_env [OF ok]) simp_all
  obtain x where x: "existing_locked_row c s = Inr x" using existing_locked_row_total [OF ok] by blast
  show ?thesis
  proof (cases x)
    case None
    with x same show ?thesis by (simp add: claim_default_rights_def)
  next
    case (Some st)
    note st = existing_locked_row_stored [OF ok x [unfolded Some]]
    have row: "rights_row_ok (row_of_stored (normalize now st))"
      using st by (intro row_ok_normalize) (auto simp: rights_row_ok_def)
    have normal: "rights_move s (s\<lparr>rights := write_row (normalize now st) (rights s)\<rparr>)"
      by (rule write_row_move [OF ok _ row]) (use st in simp_all)
    let ?leased = "(normalize now st)\<lparr>sr_delivery := ''leased'', sr_lease_token := Some (rights_token s),
      sr_lease_revision := Some (rs_intent_revision (sr_snapshot (normalize now st))),
      sr_lease_until := Some (sat_add now lease_seconds)\<rparr>"
    have "rights_row_ok (row_of_stored ?leased)"
      using row by (auto simp: rights_row_ok_def rights_core_ok_def)
    then have "rights_move s (s\<lparr>rights := write_row ?leased (rights s), rights_token := rights_token s + 1\<rparr>)"
      by (intro write_row_move [OF ok conjunct1 [OF st]]) (use st in simp_all)
    with normal same x Some show ?thesis by (simp add: claim_default_rights_def Let_def)
  qed
qed

lemma acked_row_ok:
  assumes "rights_row_ok r" and "ack_matches d fp r"
  shows "rights_row_ok (acked_row d fp r)"
  using assms
  by (auto simp: rights_row_ok_def rights_core_ok_def acked_row_def Let_def ack_matches_def
      notice_column_ok_def)

lemma notice_column_None: "notice_column_ok None"
  by (simp add: notice_column_ok_def)

text \<open>What each settlement does to the leases of its row, and that the row stays valid.\<close>

lemma settled_row_keys [simp]:
  "rr_chat (acked_row d fp r) = rr_chat r" "rr_chat (released_row r) = rr_chat r"
  "rr_chat (retried_row at n e r) = rr_chat r" "rr_chat (leased_notice_row m u r) = rr_chat r"
  "rr_chat (no_notice_row r) = rr_chat r" "rr_chat (retried_notice_row at n e r) = rr_chat r"
  by (simp_all add: acked_row_def released_row_def retried_row_def leased_notice_row_def
      no_notice_row_def retried_notice_row_def Let_def)

lemma settled_row_delivery:
  "rr_lease_token (acked_row d fp r) = None" "rr_lease_token (released_row r) = None"
  "rr_lease_token (retried_row at n e r) = None"
  "rr_lease_token (leased_notice_row m u r) = rr_lease_token r"
  "delivery_time (leased_notice_row m u r) = delivery_time r"
  "rr_lease_token (no_notice_row r) = rr_lease_token r"
  "delivery_time (no_notice_row r) = delivery_time r"
  "rr_lease_token (retried_notice_row at n e r) = rr_lease_token r"
  "delivery_time (retried_notice_row at n e r) = delivery_time r"
  by (simp_all add: delivery_time_def acked_row_def released_row_def retried_row_def leased_notice_row_def
      no_notice_row_def retried_notice_row_def Let_def)

lemma settled_row_notice:
  "rr_notice_token (acked_row d fp r) = (if rr_intent_notice r = None then rr_notice_token r else None)"
  "rr_intent_notice r = None \<Longrightarrow> notice_time (acked_row d fp r) = notice_time r"
  "rr_notice_token (released_row r) = rr_notice_token r"
  "notice_time (released_row r) = notice_time r"
  "rr_notice_token (retried_row at n e r) = rr_notice_token r"
  "notice_time (retried_row at n e r) = notice_time r"
  "rr_notice_token (leased_notice_row m u r) = Some m"
  "rr_notice_token (no_notice_row r) = None" "rr_notice_token (retried_notice_row at n e r) = None"
  by (simp_all add: notice_time_def acked_row_def released_row_def retried_row_def leased_notice_row_def
      no_notice_row_def retried_notice_row_def Let_def)

lemma settled_row_ok:
  assumes "rights_row_ok r"
  shows "rights_row_ok (released_row r)" "rights_row_ok (retried_row at n e r)"
    "rr_notice_kind r \<noteq> None \<Longrightarrow> rights_row_ok (leased_notice_row m u r)"
    "rights_row_ok (no_notice_row r)" "rights_row_ok (retried_notice_row at n e r)"
  using assms unfolding rights_row_ok_def rights_core_ok_def
  by (simp_all add: released_row_def retried_row_def leased_notice_row_def no_notice_row_def
      retried_notice_row_def notice_column_None)

lemmas settled_rows = settled_row_delivery settled_row_notice settled_row_ok acked_row_ok

lemma ack_apply_move:
  assumes "rights_ok s"
  shows "rights_move s (fst (ack_apply d fp s))"
  by (rule rights_update [where c = "dc_chat d" and P = "ack_matches d fp" and f = "acked_row d fp", OF assms])
    (simp_all add: ack_apply_def settled_rows)

lemma ack_release_move:
  assumes "rights_ok s"
  shows "rights_move s (ack_release d s)"
  by (rule rights_update [where c = "dc_chat d" and P = "delivery_held d" and f = released_row, OF assms])
    (simp_all add: ack_release_def settled_rows)

lemma ack_default_rights_move:
  assumes "rights_ok s"
  shows "rights_move s (fst (ack_default_rights d fp s))"
proof -
  have a: "rights_move s (fst (ack_apply d fp s))" by (rule ack_apply_move [OF assms])
  with rights_move_trans [OF a ack_release_move [OF rights_move_ok [OF a]]] show ?thesis
    by (simp add: ack_default_rights_def split_beta Let_def)
qed

lemma retry_update_move:
  assumes "rights_ok s"
  shows "rights_move s (fst (retry_update d at n e s))"
  by (rule rights_update [where c = "dc_chat d" and P = "delivery_held d" and f = "retried_row at n e", OF assms])
    (simp_all add: retry_update_def settled_rows)

lemma retry_default_rights_move:
  assumes "rights_ok s"
  shows "rights_move s (fst (retry_default_rights d now e s))"
  using retry_update_move [OF assms] rights_env [OF assms, of s]
  by (simp add: retry_default_rights_def Let_def split_beta split: option.split)

lemma claim_notice_move:
  assumes ok: "rights_ok s"
  shows "rights_move s (fst (claim_notice c now s))"
proof -
  let ?f = "leased_notice_row (rights_token s) (sat_add now lease_seconds)"
  let ?t = "s\<lparr>rights_token := rights_token s + 1,
      rights := sql_update (\<lambda>r. rr_chat r = c \<and> notice_due now r) ?f (rights s)\<rparr>"
  have "rights_move s ?t"
    by (rule rights_update [where c = c and P = "notice_due now" and f = ?f, OF ok])
      (simp_all add: settled_rows notice_due_def)
  moreover have "rights_move s (s\<lparr>rights_token := rights_token s + 1\<rparr>)"
    by (rule rights_env [OF ok]) simp_all
  ultimately show ?thesis by (simp add: claim_notice_def Let_def split: option.split)
qed

lemma ack_notice_move:
  assumes "rights_ok s"
  shows "rights_move s (fst (ack_notice d s))"
  by (rule rights_update [where c = "nc_chat d" and P = "notice_held d" and f = no_notice_row, OF assms])
    (simp_all add: ack_notice_def settled_rows)

lemma retry_notice_update_move:
  assumes "rights_ok s"
  shows "rights_move s (fst (retry_notice_update d at n e s))"
  by (rule rights_update [where c = "nc_chat d" and P = "notice_held d" and f = "retried_notice_row at n e", OF assms])
    (simp_all add: retry_notice_update_def settled_rows)

lemma retry_notice_move:
  assumes "rights_ok s"
  shows "rights_move s (fst (retry_notice d now e s))"
  using retry_notice_update_move [OF assms] rights_env [OF assms, of s]
  by (simp add: retry_notice_def Let_def split_beta split: option.split)

end
