(* ===== verification/RightsDelivery.thy ===== *)
theory RightsDelivery
  imports DefaultRights
begin

text \<open>
  How the default rights of \<open>src/src/state/default_rights.rs\<close> are delivered: the steps the program
  can take on the store, the two leases of a row as instances of the fencing contract, and what
  claims, acknowledgements, retries and changes of the intent guarantee over any interleaving of
  these steps.
\<close>

unbundle bit_operations_syntax

text \<open>\<open>forget_chat\<close>: the chat's row goes, and with it its place among the chats.\<close>

definition forget_rights :: "chat_id \<Rightarrow> rights_store \<Rightarrow> rights_store" where
  "forget_rights c s = s\<lparr>rights := sql_delete (\<lambda>r. rr_chat r = c) (rights s),
     chat_hashes := AList.delete c (chat_hashes s), chat_mirror := AList.delete c (chat_mirror s)\<rparr>"

lemma forget_rights_move:
  assumes "rights_ok s"
  shows "rights_move s (forget_rights c s)"
  using assms
  by (auto simp: rights_move_def rights_ok_def forget_rights_def sql_delete_def
      intro: lease_move_delete [unfolded sql_delete_def])

section \<open>Steps of the program\<close>

text \<open>
  One statement or transaction of the component with any arguments, the forgetting of a chat, or
  anything else the program does: it never writes this table and may draw tokens. The two halves
  of an acknowledgement are steps of their own, so other steps may come between them.
\<close>

inductive rights_step :: "rights_store \<Rightarrow> rights_store \<Rightarrow> bool" where
  step_seed: "valid_mask base \<Longrightarrow> rights_step s (fst (seed_default_rights c base now s))"
| step_right: "rights_step s (fst (set_default_right c b closed now s))"
| step_rights: "rights_step s (fst (set_default_rights c bs closed now s))"
| step_manual: "rights_step s (fst (set_manual_lock c locked now s))"
| step_timed: "rights_step s (fst (set_timed_lock c until now s))"
| step_night: "(\<And>w. night = Some w \<Longrightarrow> night_ok w) \<Longrightarrow> rights_step s (fst (set_night c night now s))"
| step_claim: "rights_step s (fst (claim_default_rights c now s))"
| step_ack_apply: "rights_step s (fst (ack_apply d fp s))"
| step_ack_release: "rights_step s (ack_release d s)"
| step_retry: "rights_step s (fst (retry_update d at n e s))"
| step_claim_notice: "rights_step s (fst (claim_notice c now s))"
| step_ack_notice: "rights_step s (fst (ack_notice e s))"
| step_retry_notice: "rights_step s (fst (retry_notice_update e at n err s))"
| step_forget: "rights_step s (forget_rights c s)"
| step_other: "rights t = rights s \<Longrightarrow> rights_token s \<le> rights_token t \<Longrightarrow> rights_step s t"

lemma rights_step_move: "rights_step s t \<Longrightarrow> rights_ok s \<Longrightarrow> rights_move s t"
proof (induction rule: rights_step.induct)
  case (step_night night s c now)
  then show ?case by (simp add: set_night_def mutate_move change_night_ok)
next
  case (step_other t s)
  then show ?case by (intro rights_env)
qed (simp_all add: seed_default_rights_def set_default_right_def set_default_rights_def
      set_manual_lock_def set_timed_lock_def mutate_move change_seed_ok change_bit_ok change_bits_ok
      change_manual_ok change_timed_ok claim_default_rights_move ack_apply_move ack_release_move
      retry_update_move claim_notice_move ack_notice_move retry_notice_update_move
      forget_rights_move)

abbreviation delivery_lease_at :: "rights_store \<Rightarrow> chat_id \<Rightarrow> int option" where
  "delivery_lease_at s \<equiv> lease_at rr_chat rr_lease_token (rights s)"

abbreviation notice_lease_at :: "rights_store \<Rightarrow> chat_id \<Rightarrow> int option" where
  "notice_lease_at s \<equiv> lease_at rr_chat rr_notice_token (rights s)"

lemma rights_move_leases:
  "rights_move s t \<Longrightarrow> lease_move rr_chat rr_lease_token delivery_time (rights_token s) (rights s)
     (rights_token t) (rights t)"
  "rights_move s t \<Longrightarrow> lease_move rr_chat rr_notice_token notice_time (rights_token s) (rights s)
     (rights_token t) (rights t)"
  by (simp_all add: rights_move_def)

interpretation delivery_fence: fenced_store delivery_lease_at
  "\<lambda>s. due_at rr_chat delivery_time (rights s)" rights_token rights_ok rights_step
  by (rule fenced_store_of_moves)
    (simp add: rights_ok_def, blast dest: rights_step_move rights_move_ok rights_move_leases)

interpretation notice_fence: fenced_store notice_lease_at
  "\<lambda>s. due_at rr_chat notice_time (rights s)" rights_token rights_ok rights_step
  by (rule fenced_store_of_moves)
    (simp add: rights_ok_def, blast dest: rights_step_move rights_move_ok rights_move_leases)

section \<open>What claims and acknowledgements do\<close>

lemma write_row_at:
  assumes "rights_ok s" and "row_at rr_chat (rights s) c = Some (row_of_stored st)"
    and "rs_chat (sr_snapshot st') = c"
  shows "row_at rr_chat (write_row st' (rights s)) j =
    (if j = c then Some (row_of_stored st') else row_at rr_chat (rights s) j)"
proof -
  have "(row_of_stored st')\<lparr>rr_chat := c\<rparr> = row_of_stored st'"
    using assms(3) by (simp add: row_of_stored_def Let_def)
  with assms rights_ok_row [OF assms(1,2)] show ?thesis
    by (simp add: write_row_def row_at_update_key)
qed

lemma claim_default_rights_Some:
  assumes ok: "rights_ok s" and claim: "claim_default_rights c now s = (t, Inr (Some d))"
  shows "dc_chat d = c" and "dc_token d = rights_token s" and "rights_token t = rights_token s + 1"
    and "\<exists>r. row_at rr_chat (rights t) c = Some r \<and> delivery_held d r \<and>
      rr_intent_revision r = dc_revision d \<and> rr_lease_until r = Some (sat_add now lease_seconds) \<and>
      rr_seeded r \<and> intent_open r"
    and "rights_ok t"
proof -
  obtain x where x: "existing_locked_row c s = Inr x" using existing_locked_row_total [OF ok] by blast
  with claim obtain st where st: "existing_locked_row c s = Inr (Some st)"
    by (cases x) (auto simp: claim_default_rights_def)
  let ?n = "normalize now st"
  let ?leased = "?n\<lparr>sr_delivery := ''leased'', sr_lease_token := Some (rights_token s),
      sr_lease_revision := Some (rs_intent_revision (sr_snapshot ?n)),
      sr_lease_until := Some (sat_add now lease_seconds)\<rparr>"
  note row = existing_locked_row_stored [OF ok st]
  from claim st have seeded: "rs_seeded (sr_snapshot ?n)" "rights_pending (sr_snapshot ?n) now"
    and t: "t = s\<lparr>rights := write_row ?leased (rights s), rights_token := rights_token s + 1\<rparr>"
    and d: "d = \<lparr>dc_chat = c, dc_revision = rs_intent_revision (sr_snapshot ?n), dc_token = rights_token s\<rparr>"
    by (auto simp: claim_default_rights_def Let_def split: if_splits)
  show "dc_chat d = c" "dc_token d = rights_token s" "rights_token t = rights_token s + 1"
    by (simp_all add: d t)
  have "row_at rr_chat (rights t) c = Some (row_of_stored ?leased)"
    using write_row_at [OF ok conjunct1 [OF row], of ?leased c] row by (simp add: t)
  moreover have "intent_open (row_of_stored ?leased)"
    using seeded by (auto simp: intent_open_def rights_pending_def normalize_fingerprint effective_normalize)
  ultimately show "\<exists>r. row_at rr_chat (rights t) c = Some r \<and> delivery_held d r \<and>
      rr_intent_revision r = dc_revision d \<and> rr_lease_until r = Some (sat_add now lease_seconds) \<and>
      rr_seeded r \<and> intent_open r"
    using seeded by (auto simp: d delivery_held_def)
  show "rights_ok t"
    using claim_default_rights_move [OF ok, of c now] claim rights_move_ok by simp
qed

lemma delivery_held_lease: "delivery_held d r \<Longrightarrow> rr_lease_token r = Some (dc_token d)"
  by (simp add: delivery_held_def)

lemma ack_matches_held: "ack_matches d fp r \<Longrightarrow> delivery_held d r"
  by (simp add: ack_matches_def)

text \<open>An acknowledgement, seen from the row.\<close>

lemma ack_default_rights_at:
  assumes ok: "rights_ok s"
  shows "ack_default_rights d fp s =
    (case row_at rr_chat (rights s) (dc_chat d) of
       None \<Rightarrow> (s, False)
     | Some r \<Rightarrow>
         if ack_matches d fp r
         then (s\<lparr>rights := sql_update (\<lambda>q. rr_chat q = dc_chat d) (acked_row d fp) (rights s)\<rparr>, True)
         else if delivery_held d r
         then (s\<lparr>rights := sql_update (\<lambda>q. rr_chat q = dc_chat d) released_row (rights s)\<rparr>, False)
         else (s, False))"
  by (auto simp: ack_default_rights_def ack_apply_def ack_release_def Let_def
      sql_update_key_cases [OF rights_ok_unique [OF ok]] sql_exists_key [OF rights_ok_unique [OF ok]]
      split: option.splits)

lemma ack_steps: "rights_step\<^sup>*\<^sup>* s (fst (ack_default_rights d fp s))"
proof -
  have "rights_step s (fst (ack_apply d fp s))" by (rule step_ack_apply)
  moreover have "rights_step (fst (ack_apply d fp s)) (ack_release d (fst (ack_apply d fp s)))"
    by (rule step_ack_release)
  ultimately show ?thesis
    by (auto simp: ack_default_rights_def split_beta Let_def intro: rtranclp.rtrancl_into_rtrancl)
qed

text \<open>While the token of a claim is on its row, the revision of the claim is too.\<close>

lemma claim_revision_kept:
  assumes "rights_ok s" and "claim_default_rights c now s = (s1, Inr (Some d))" and "rights_step\<^sup>*\<^sup>* s1 s2"
    and "row_at rr_chat (rights s2) c = Some r" and "rr_lease_token r = Some (dc_token d)"
  shows "delivery_held d r"
proof -
  note claim = claim_default_rights_Some [OF assms(1,2)]
  obtain q where q: "row_at rr_chat (rights s1) c = Some q" "delivery_held d q" using claim(4) by blast
  have "delivery_lease_at s1 c = Some (dc_token d)" "delivery_lease_at s2 c = Some (dc_token d)"
    using q assms(4,5) by (simp_all add: lease_at_def delivery_held_def)
  from delivery_fence.due_while_leased [OF assms(3) claim(5) this] q assms(4)
  have "delivery_time r = delivery_time q" by (simp add: due_at_def)
  with q(2) assms(5) show ?thesis by (simp add: delivery_time_def delivery_held_def)
qed

text \<open>A claim whose token is gone settles nothing.\<close>

lemma stale_delivery_noop:
  assumes "rights_ok s" and "delivery_lease_at s (dc_chat d) \<noteq> Some (dc_token d)"
  shows "ack_default_rights d fp s = (s, False)" and "retry_default_rights d now e s = (s, None)"
proof -
  have "\<not> (\<exists>r. row_at rr_chat (rights s) (dc_chat d) = Some r \<and> delivery_held d r)"
    using assms(2) by (auto simp: lease_at_def delivery_held_def)
  then show "ack_default_rights d fp s = (s, False)"
    by (auto simp: ack_default_rights_at [OF assms(1)] dest: ack_matches_held split: option.splits)
  have "find (\<lambda>r. rr_chat r = dc_chat d \<and> delivery_held d r) (rights s) = None"
    using \<open>\<not> (\<exists>r. _ r)\<close> sql_exists_key [OF rights_ok_unique [OF assms(1)], of "dc_chat d" "delivery_held d"]
    by (auto simp: find_None_iff sql_exists_def list_ex_iff)
  then show "retry_default_rights d now e s = (s, None)" by (simp add: retry_default_rights_def)
qed

text \<open>What a change of the intent leaves in the store.\<close>

lemma mutate_default_rights_Inr:
  assumes ok: "rights_ok s" and ch: "change_ok change"
    and m: "mutate_default_rights c now change s = (t, Inr am)"
  shows "\<exists>row changed. locked_row c (rights s) = Inr row \<and> change (normalize now row) = Inr changed \<and>
    am_snapshot am = sr_snapshot (normalize now (bump_unknown now changed)) \<and>
    am_delivery am = rights_pending (am_snapshot am) now \<and>
    stored_valid (normalize now (bump_unknown now changed)) \<and>
    row_at rr_chat (rights t) = (row_at rr_chat (rights s))
      (c \<mapsto> row_of_stored (normalize now (bump_unknown now changed))) \<and>
    rs_intent_revision (sr_snapshot (normalize now row)) \<le> rs_intent_revision (sr_snapshot changed) \<and>
    rs_intent_revision (sr_snapshot changed) \<le> i64_max"
proof -
  obtain row r where row: "locked_row c (rights s) = Inr row" and
    r: "row_at rr_chat (ensure_row c (rights s)) c = Some r" "row_of_stored row = r" "rights_row_ok r"
      "stored_valid row"
    using locked_row_stored [OF ok] by blast
  from m row obtain changed where changed: "change (normalize now row) = Inr changed"
    and am: "am = \<lparr>am_snapshot = sr_snapshot (normalize now (bump_unknown now changed)),
      am_delivery = rights_pending (sr_snapshot (normalize now (bump_unknown now changed))) now\<rparr>"
    and t: "rights t = write_row (normalize now (bump_unknown now changed)) (ensure_row c (rights s))"
    by (auto simp: mutate_default_rights_def Let_def split: if_splits sum.splits)
  let ?final = "normalize now (bump_unknown now changed)"
  let ?s1 = "s\<lparr>rights := ensure_row c (rights s)\<rparr>"
  have ok1: "rights_ok ?s1" using ensure_row_move [OF ok] by (rule rights_move_ok)
  have core: "rights_core_ok (row_of_stored (normalize now row))"
    using r by (intro core_ok_normalize) (simp add: rights_row_ok_def)
  have chd: "stored_valid changed" "delivery_frame changed = delivery_frame (normalize now row)"
    using ch changed core_ok_valid [OF core] unfolding change_ok_def by blast+
  have c: "rs_chat (sr_snapshot ?final) = c"
    using chd(2) rights_ok_row [OF ok1, of c r] r by (auto simp: delivery_frame_def bump_unknown_def Let_def)
  have corec: "rights_core_ok (row_of_stored changed)" by (rule core_ok_frame [OF core chd(2,1)])
  have "stored_valid ?final" using core_ok_valid [OF core_ok_normalize [OF core_ok_bump [OF corec]]] .
  moreover have "row_at rr_chat (rights t) = (row_at rr_chat (rights s))(c \<mapsto> row_of_stored ?final)"
    using write_row_at [OF ok1, of c row ?final] r c
    by (auto simp: t fun_eq_iff ensure_row_at)
  moreover have "rs_intent_revision (sr_snapshot (normalize now row)) = rs_intent_revision (sr_snapshot changed)"
    using chd(2) by (simp add: delivery_frame_def)
  moreover have "rs_intent_revision (sr_snapshot changed) \<le> i64_max"
    using corec by (simp add: rights_core_ok_def)
  ultimately show ?thesis using row changed am by auto
qed

lemma mutate_default_rights_Inl:
  "mutate_default_rights c now change s = (t, Inl e) \<Longrightarrow> t = s"
  by (auto simp: mutate_default_rights_def Let_def split: if_splits sum.splits)

lemma pending_normal:
  "rights_pending (sr_snapshot (normalize now st)) now \<longleftrightarrow>
     rr_seeded (row_of_stored (normalize now st)) \<and> intent_open (row_of_stored (normalize now st))"
  by (auto simp: rights_pending_def intent_open_def normalize_fingerprint effective_normalize)

lemma bump_unknown_fields:
  "sr_intent_fingerprint (bump_unknown now st) = sr_intent_fingerprint st"
  "rs_base (sr_snapshot (bump_unknown now st)) = rs_base (sr_snapshot st)"
  "rs_manual (sr_snapshot (bump_unknown now st)) = rs_manual (sr_snapshot st)"
  "rs_timed (sr_snapshot (bump_unknown now st)) = rs_timed (sr_snapshot st)"
  "rs_night (sr_snapshot (bump_unknown now st)) = rs_night (sr_snapshot st)"
  "rs_seeded (sr_snapshot (bump_unknown now st)) = rs_seeded (sr_snapshot st)"
  by (simp_all add: bump_unknown_def Let_def)

lemma bump_unknown_revision:
  "rs_intent_revision (sr_snapshot st) \<le> i64_max \<Longrightarrow>
   rs_intent_revision (sr_snapshot st) \<le> rs_intent_revision (sr_snapshot (bump_unknown now st)) \<and>
   rs_intent_revision (sr_snapshot (bump_unknown now st)) \<le> i64_max"
  by (auto simp: bump_unknown_def Let_def sat_add_one_le)

lemma sat_add_one_less: "a < i64_max \<Longrightarrow> a \<le> b \<Longrightarrow> b \<le> i64_max \<Longrightarrow> a < sat_add b 1"
  by (simp add: sat_add_def sat_i64_def clamp_def int_bounds)

text \<open>A new fingerprint of the intent always comes with a new revision.\<close>

lemma revision_follows_fingerprint:
  assumes row: "rs_intent_revision (sr_snapshot row) < i64_max"
    and ch: "sr_intent_fingerprint ch = sr_intent_fingerprint (normalize now row)"
      "rs_intent_revision (sr_snapshot (normalize now row)) \<le> rs_intent_revision (sr_snapshot ch)"
      "rs_intent_revision (sr_snapshot ch) \<le> i64_max"
    and fp: "sr_intent_fingerprint (normalize now (bump_unknown now ch)) \<noteq> sr_intent_fingerprint row"
  shows "rs_intent_revision (sr_snapshot row) <
    rs_intent_revision (sr_snapshot (normalize now (bump_unknown now ch)))"
proof (cases "sr_intent_fingerprint (normalize now row) = sr_intent_fingerprint row")
  case True
  with fp ch(1) have "rs_intent_revision (sr_snapshot (normalize now (bump_unknown now ch))) =
      sat_add (rs_intent_revision (sr_snapshot (bump_unknown now ch))) 1"
    by (simp add: normalize_revision_eq bump_unknown_fields)
  moreover have "rs_intent_revision (sr_snapshot row) \<le> rs_intent_revision (sr_snapshot (bump_unknown now ch))"
    using normalize_revision(1) [of row now] row ch bump_unknown_revision [OF ch(3), of now] by linarith
  ultimately show ?thesis using sat_add_one_less [OF row] bump_unknown_revision [OF ch(3)] by simp
next
  case False
  then have "rs_intent_revision (sr_snapshot row) < rs_intent_revision (sr_snapshot (normalize now row))"
    using sat_add_one_less [OF row] row by (simp add: normalize_revision_eq)
  with ch bump_unknown_revision [OF ch(3), of now] normalize_revision(1) [of "bump_unknown now ch" now]
  show ?thesis by linarith
qed

lemma locked_row_existing:
  assumes "rights_ok s" and "row_at rr_chat (rights s) c = Some q" and "locked_row c (rights s) = Inr row"
  shows "row_of_stored row = q"
  using locked_row_stored [OF assms(1), of c] assms(2,3) by (auto simp: ensure_row_at)


section \<open>Retry delays\<close>

lemma retry_delay_value:
  assumes "0 < n" and "n \<le> i32_max"
  shows "retry_delay n = min (5 * 2 ^ nat (min (n - 1) 20)) 3600"
proof -
  have "clamp i32_min i32_max (n - 1) = n - 1" using assms by (simp add: clamp_def int_bounds)
  moreover have "sat_mul 5 (2 ^ nat (min (n - 1) 20)) = 5 * 2 ^ nat (min (n - 1) 20)"
  proof -
    have "(2 :: int) ^ nat (min (n - 1) 20) \<le> 2 ^ 20" by (intro power_increasing) auto
    then have "5 * (2 :: int) ^ nat (min (n - 1) 20) \<le> i64_max" by (simp add: int_bounds)
    moreover have "0 \<le> 5 * (2 :: int) ^ nat (min (n - 1) 20)" by simp
    ultimately have "in_i64 (5 * 2 ^ nat (min (n - 1) 20))"
      unfolding in_i64_def int_bounds by linarith
    then show ?thesis by (simp add: sat_mul_def sat_i64_id)
  qed
  ultimately show ?thesis using assms
    by (simp add: retry_delay_def Let_def retry_min_seconds_def retry_max_seconds_def push_bit_eq_mult)
qed

lemma retry_delay_bounds:
  assumes "0 < n" and "n \<le> i32_max"
  shows "5 \<le> retry_delay n \<and> retry_delay n \<le> 3600"
proof -
  have "(1 :: int) \<le> 2 ^ nat (min (n - 1) 20)" by simp
  then show ?thesis unfolding retry_delay_value [OF assms] by linarith
qed

lemma retry_delay_mono:
  assumes "0 < n" and "n \<le> m" and "m \<le> i32_max"
  shows "retry_delay n \<le> retry_delay m"
proof -
  have "nat (min (n - 1) 20) \<le> nat (min (m - 1) 20)" using assms by linarith
  then have "(2 :: int) ^ nat (min (n - 1) 20) \<le> 2 ^ nat (min (m - 1) 20)"
    by (intro power_increasing) auto
  moreover have "retry_delay n = min (5 * 2 ^ nat (min (n - 1) 20)) 3600"
    "retry_delay m = min (5 * 2 ^ nat (min (m - 1) 20)) 3600"
    using assms by (simp_all add: retry_delay_value)
  ultimately show ?thesis by linarith
qed

section \<open>Setting rights one by one\<close>

lemma set_bits_exact:
  "set_bits bs closed n = Inr n' \<Longrightarrow> set bs \<subseteq> {..<right_count} \<and> (\<exists>m. n' = n\<lparr>rs_base := m\<rparr> \<and>
     (\<forall>b. mask_contains m b \<longleftrightarrow> (if b \<in> set bs then closed else mask_contains (rs_base n) b)))"
proof (induction bs arbitrary: n)
  case Nil
  then show ?case by (auto intro!: exI [of _ "rs_base n"])
next
  case (Cons b bs)
  then obtain n1 where n1: "set_bit b closed n = Inr n1" "set_bits bs closed n1 = Inr n'"
    by (auto split: sum.splits)
  obtain m1 where m1: "mask_set b closed (rs_base n) = Inr m1" "n1 = n\<lparr>rs_base := m1\<rparr>"
    using set_bit_Inr [OF n1(1)] by blast
  obtain m where m: "set bs \<subseteq> {..<right_count}" "n' = n1\<lparr>rs_base := m\<rparr>"
    "\<And>x. mask_contains m x \<longleftrightarrow> (if x \<in> set bs then closed else mask_contains m1 x)"
    using Cons.IH [OF n1(2)] m1(2) by auto
  have "b < right_count" using m1(1) by (simp add: mask_set_def split: if_splits)
  with m show ?case
    by (intro conjI exI [of _ m]) (auto simp: m1(2) mask_set_contains [OF m1(1)])
qed

section \<open>What claims of a notice do\<close>

lemma claim_notice_Some:
  assumes ok: "rights_ok s" and claim: "claim_notice c now s = (t, Inr (Some d))"
  shows "nc_chat d = c" and "nc_token d = rights_token s" and "rights_token t = rights_token s + 1"
    and "notice_lease_at t c = Some (nc_token d)" and "rights_ok t"
    and "\<exists>r. row_at rr_chat (rights s) c = Some r \<and> rr_notice_kind r = Some (notice_as_storage (nc_kind d)) \<and>
      rr_notice_revision r = Some (nc_revision d)"
proof -
  from claim obtain r k v where r: "row_at rr_chat (rights s) c = Some r" "notice_due now r"
    and k: "rr_notice_kind r = Some k" and v: "rr_notice_revision r = Some v"
    and t: "t = s\<lparr>rights_token := rights_token s + 1,
       rights := sql_update (\<lambda>q. rr_chat q = c \<and> notice_due now q)
         (leased_notice_row (rights_token s) (sat_add now lease_seconds)) (rights s)\<rparr>"
    and kind: "map_sum id (\<lambda>kind. Some \<lparr>nc_chat = c, nc_token = rights_token s, nc_revision = v,
       nc_kind = kind\<rparr>) (notice_from_storage k) = Inr (Some d)"
    by (auto simp: claim_notice_def Let_def split: option.splits if_splits)
  from kind obtain x where x: "notice_from_storage k = Inr x"
    "d = \<lparr>nc_chat = c, nc_token = rights_token s, nc_revision = v, nc_kind = x\<rparr>"
    by (cases "notice_from_storage k") auto
  then show "nc_chat d = c" "nc_token d = rights_token s" "rights_token t = rights_token s + 1"
    by (simp_all add: t)
  show "notice_lease_at t c = Some (nc_token d)"
    using r x by (simp add: lease_at_def t row_at_update_key(2) leased_notice_row_def)
  show "rights_ok t" using claim_notice_move [OF ok, of c now] claim rights_move_ok by simp
  have "k = notice_as_storage x" using x(1) by (auto simp: notice_from_storage_def split: if_splits)
  with r k v x(2) show "\<exists>r. row_at rr_chat (rights s) c = Some r \<and>
      rr_notice_kind r = Some (notice_as_storage (nc_kind d)) \<and> rr_notice_revision r = Some (nc_revision d)"
    by simp
qed

lemma stale_notice_noop:
  assumes "rights_ok s" and "notice_lease_at s (nc_chat d) \<noteq> Some (nc_token d)"
  shows "ack_notice d s = (s, False)" and "retry_notice d now e s = (s, None)"
proof -
  note stale = stale_selects_nothing [where H = "notice_held d" and lease = rr_notice_token,
      OF rights_ok_unique [OF assms(1)] assms(2)]
  have held: "\<And>r. notice_held d r \<Longrightarrow> rr_notice_token r = Some (nc_token d)" by (simp add: notice_held_def)
  show "ack_notice d s = (s, False)" by (simp add: ack_notice_def stale held)
  have "find (\<lambda>r. rr_chat r = nc_chat d \<and> notice_held d r) (rights s) = None"
    using stale(3) [OF held] by (auto simp: find_None_iff sql_exists_def list_ex_iff)
  then show "retry_notice d now e s = (s, None)" by (simp add: retry_notice_def)
qed

lemma notice_settle_lease:
  assumes ok: "rights_ok s" and ex: "sql_exists (\<lambda>r. rr_chat r = c \<and> notice_held d r) (rights s)"
    and f: "\<And>r. rr_chat (f r) = rr_chat r" "\<And>r. rr_notice_token (f r) = None"
  shows "lease_at rr_chat rr_notice_token
    (sql_update (\<lambda>r. rr_chat r = c \<and> notice_held d r) f (rights s)) c = None"
proof -
  obtain r where "row_at rr_chat (rights s) c = Some r" "notice_held d r"
    using ex sql_exists_key [OF rights_ok_unique [OF ok]] by blast
  then show ?thesis by (simp add: lease_at_def row_at_update_key(2) [where key = rr_chat, OF f(1)] f(2))
qed

lemma retry_notice_Some:
  assumes "retry_notice d now e s = (t, Some x)"
  shows "sql_exists (\<lambda>r. rr_chat r = nc_chat d \<and> notice_held d r) (rights s) \<and>
    (\<exists>n err. t = fst (retry_notice_update d x n err s))"
proof (cases "find (\<lambda>r. rr_chat r = nc_chat d \<and> notice_held d r) (rights s)")
  case None
  with assms show ?thesis by (simp add: retry_notice_def)
next
  case (Some r)
  then have "sql_exists (\<lambda>r. rr_chat r = nc_chat d \<and> notice_held d r) (rights s)"
    by (auto simp: sql_exists_def list_ex_iff find_Some_iff)
  moreover have "\<exists>n err. t = fst (retry_notice_update d x n err s)"
    using assms Some by (auto simp: retry_notice_def Let_def split_beta split: if_splits)
  ultimately show ?thesis by blast
qed

section \<open>An example\<close>

text \<open>A store in which an administrator has just locked the group \<open>-5\<close>, used as an example below.\<close>

definition blank_store :: rights_store where
  "blank_store = \<lparr>rights = [], rights_token = 1, chat_hashes = [], chat_mirror = [], alive = True,
     max_chats = Some 10, hash_setting = (\<lambda>c. None)\<rparr>"

definition locked_store :: rights_store where
  "locked_store = fst (set_manual_lock (-5) True 1001 (fst (seed_default_rights (-5) 8 1000 blank_store)))"

definition leased_store :: rights_store where
  "leased_store = fst (claim_default_rights (-5) 1002 locked_store)"

definition opened_store :: rights_store where
  "opened_store = fst (set_manual_lock (-5) False 1003 leased_store)"

definition night_stored :: stored_rights where
  "night_stored = \<lparr>sr_snapshot = \<lparr>rs_chat = - 5, rs_base = 8, rs_seeded = True, rs_manual = False,
     rs_timed = None, rs_night = Some \<lparr>night_from = 1350, night_to = 420\<rparr>, rs_intent_revision = 1,
     rs_applied_revision = 1, rs_applied_fingerprint = Some 8, rs_remote_unknown = False,
     rs_attempts = 0, rs_error = None, rs_retry = 0, rs_next = None\<rparr>,
     sr_intent_fingerprint = 8, sr_delivery = ''applied'', sr_lease_token = None,
     sr_lease_revision = None, sr_lease_until = None, sr_intent_notice = None, sr_notice_kind = None,
     sr_notice_revision = None, sr_notice_token = None, sr_notice_lease_until = None,
     sr_notice_retry = 0, sr_notice_attempts = 0, sr_notice_error = None\<rparr>"

definition locked_claim :: delivery_claim where
  "locked_claim = \<lparr>dc_chat = - 5, dc_revision = 2, dc_token = 1\<rparr>"

lemma locked_store_ok: "rights_ok locked_store"
proof -
  have 0: "rights_ok blank_store" by (simp add: rights_ok_def blank_store_def leases_ok_def lease_at_def)
  have "rights_ok (fst (seed_default_rights (-5) 8 1000 blank_store))"
    unfolding seed_default_rights_def
    by (rule rights_move_ok [OF mutate_move [OF 0 change_seed_ok]]) (simp add: valid_mask_bound)
  then show ?thesis unfolding locked_store_def set_manual_lock_def
    by (rule rights_move_ok [OF mutate_move [OF _ change_manual_ok]])
qed

lemma locked_store_claim:
  "claim_default_rights (-5) 1002 locked_store = (leased_store, Inr (Some locked_claim))"
proof -
  have "snd (claim_default_rights (-5) 1002 locked_store) = Inr (Some locked_claim)"
    by code_simp
  then show ?thesis by (simp add: leased_store_def prod_eq_iff)
qed

lemma opened_steps: "rights_step\<^sup>*\<^sup>* leased_store opened_store"
  unfolding opened_store_def by (intro r_into_rtranclp step_manual)

lemma opened_ack:
  "ack_default_rights locked_claim 16392 opened_store =
    (fst (ack_default_rights locked_claim 16392 opened_store), False)"
proof -
  have "snd (ack_default_rights locked_claim 16392 opened_store) = False"
    by code_simp
  then show ?thesis by (simp add: prod_eq_iff)
qed

section \<open>Properties\<close>

text \<open>
  C9: a worker never acknowledges rights it does not hold. An acknowledgement succeeds exactly when
  the row still carries the claim's token and the revision and fingerprint that were applied; then
  the intent is closed at that revision. Otherwise what is recorded as applied stays as it was and
  the row is released. Nobody else's row changes, and afterwards neither an acknowledgement nor a
  retry with the same claim does anything, whatever happens in between.
\<close>

theorem rights_delivery_fenced:
  assumes "rights_ok s" and "claim_default_rights c now s = (s1, Inr (Some d))"
    and "rights_step\<^sup>*\<^sup>* s1 s2" and "ack_default_rights d fp s2 = (s3, acked)" and "rights_step\<^sup>*\<^sup>* s3 s4"
  shows "(acked \<longleftrightarrow> (\<exists>r. row_at rr_chat (rights s2) c = Some r \<and> rr_lease_token r = Some (dc_token d) \<and>
        rr_intent_revision r = dc_revision d \<and> rr_intent_fingerprint r = fp)) \<and>
    (\<forall>r. row_at rr_chat (rights s3) c = Some r \<longrightarrow>
       (if acked then \<not> intent_open r \<and> rr_delivery r = ''applied'' \<and> rr_applied_revision r = dc_revision d
        else \<exists>q. row_at rr_chat (rights s2) c = Some q \<and> rr_applied_revision r = rr_applied_revision q \<and>
          rr_applied_fingerprint r = rr_applied_fingerprint q)) \<and>
    (\<forall>k. k \<noteq> c \<longrightarrow> row_at rr_chat (rights s3) k = row_at rr_chat (rights s2) k) \<and>
    ack_default_rights d fp' s4 = (s4, False) \<and> retry_default_rights d now' e s4 = (s4, None)"
proof -
  note claim = claim_default_rights_Some [OF assms(1,2)]
  have ok2: "rights_ok s2" using delivery_fence.ok_steps [OF assms(3) claim(5)] .
  have ok3: "rights_ok s3" using ack_default_rights_move [OF ok2, of d fp] assms(4) rights_move_ok by simp
  have steps3: "rights_step\<^sup>*\<^sup>* s2 s3" using ack_steps [of s2 d fp] assms(4) by simp
  note held = claim_revision_kept [OF assms(1-3)]
  have drawn: "dc_token d < rights_token s3"
    using delivery_fence.sequence_steps [OF assms(3) claim(5)]
      delivery_fence.sequence_steps [OF steps3 ok2] claim(2,3) by simp
  have at3: "row_at rr_chat (rights s3) k = (if k = c then
      map_option (\<lambda>r. if ack_matches d fp r then acked_row d fp r
        else if delivery_held d r then released_row r else r) (row_at rr_chat (rights s2) c)
      else row_at rr_chat (rights s2) k)" for k
    using assms(4) unfolding ack_default_rights_at [OF ok2] claim(1)
    by (auto simp: row_at_update_key(1) split: option.splits if_splits)
  have acked: "acked \<longleftrightarrow> (\<exists>r. row_at rr_chat (rights s2) c = Some r \<and> ack_matches d fp r)"
    using assms(4) unfolding ack_default_rights_at [OF ok2] claim(1)
    by (auto split: option.splits if_splits)
  have "delivery_lease_at s3 c \<noteq> Some (dc_token d)"
    using held by (cases "row_at rr_chat (rights s2) c")
      (auto simp: lease_at_def at3 settled_row_delivery)
  from delivery_fence.stale_forever [OF assms(5) ok3 drawn this]
  have stale: "ack_default_rights d fp' s4 = (s4, False)" "retry_default_rights d now' e s4 = (s4, None)"
    using stale_delivery_noop [OF delivery_fence.ok_steps [OF assms(5) ok3], of d] claim(1) by simp_all
  have 1: "acked \<longleftrightarrow> (\<exists>r. row_at rr_chat (rights s2) c = Some r \<and> rr_lease_token r = Some (dc_token d) \<and>
        rr_intent_revision r = dc_revision d \<and> rr_intent_fingerprint r = fp)"
    unfolding acked ack_matches_def using held by (auto simp: delivery_held_def)
  have 2: "if acked then \<not> intent_open r \<and> rr_delivery r = ''applied'' \<and> rr_applied_revision r = dc_revision d
        else \<exists>q. row_at rr_chat (rights s2) c = Some q \<and> rr_applied_revision r = rr_applied_revision q \<and>
          rr_applied_fingerprint r = rr_applied_fingerprint q" if "row_at rr_chat (rights s3) c = Some r" for r
    using that unfolding acked at3
    by (auto simp: ack_matches_def acked_row_def intent_open_def released_row_def Let_def)
  show ?thesis using 1 2 at3 stale by simp
qed

lemma rights_delivery_fenced_witness:
  "\<exists>s. ack_default_rights locked_claim 16392 s = (s, False) \<and> row_at rr_chat (rights s) (-5) \<noteq> None"
proof -
  let ?s = "fst (ack_default_rights locked_claim 16392 opened_store)"
  have "ack_default_rights locked_claim 16392 ?s = (?s, False)"
    using rights_delivery_fenced [OF locked_store_ok locked_store_claim opened_steps opened_ack
      rtranclp.rtrancl_refl, of 16392 0 "[]"] by blast
  moreover have "row_at rr_chat (rights ?s) (-5) \<noteq> None" by code_simp
  ultimately show ?thesis by blast
qed

text \<open>
  C10: a change of the intent is all or nothing. A refused change leaves the store as it was; an
  accepted one writes the row whose snapshot it answers with, touches no other row, asks for a
  delivery exactly when the written row is open, stores the fingerprint of the rights in force now,
  and draws a new revision whenever the fingerprint differs from the one before.
\<close>

theorem rights_mutation_outcome:
  assumes "rights_ok s" and "change_ok change" and "mutate_default_rights c now change s = (t, out)"
  shows "case out of
      Inl e \<Rightarrow> t = s
    | Inr am \<Rightarrow> (\<exists>r. row_at rr_chat (rights t) = (row_at rr_chat (rights s))(c \<mapsto> r) \<and>
        (\<exists>st. stored_from_row r = Inr st \<and> sr_snapshot st = am_snapshot am) \<and>
        (am_delivery am \<longleftrightarrow> rr_seeded r \<and> intent_open r) \<and>
        (rr_seeded r \<longrightarrow> rr_intent_fingerprint r = fingerprint (effective_at (am_snapshot am) now)) \<and>
        (\<forall>q. row_at rr_chat (rights s) c = Some q \<and> rr_seeded q \<and> rr_intent_revision q < i64_max \<and>
           rr_intent_fingerprint r \<noteq> rr_intent_fingerprint q \<longrightarrow>
           rr_intent_revision q < rr_intent_revision r))"
proof (cases out)
  case (Inl e)
  with assms(3) mutate_default_rights_Inl show ?thesis by simp
next
  case (Inr am)
  note m = assms(3) [unfolded Inr]
  from mutate_default_rights_Inr [OF assms(1,2) m] obtain row ch where
    facts: "locked_row c (rights s) = Inr row \<and> change (normalize now row) = Inr ch \<and>
      am_snapshot am = sr_snapshot (normalize now (bump_unknown now ch)) \<and>
      am_delivery am = rights_pending (am_snapshot am) now \<and>
      stored_valid (normalize now (bump_unknown now ch)) \<and>
      row_at rr_chat (rights t) = (row_at rr_chat (rights s))
        (c \<mapsto> row_of_stored (normalize now (bump_unknown now ch))) \<and>
      rs_intent_revision (sr_snapshot (normalize now row)) \<le> rs_intent_revision (sr_snapshot ch) \<and>
      rs_intent_revision (sr_snapshot ch) \<le> i64_max"
    by (elim exE) (rule that)
  then have row: "locked_row c (rights s) = Inr row" and ch: "change (normalize now row) = Inr ch"
    and am: "am_snapshot am = sr_snapshot (normalize now (bump_unknown now ch))"
      "am_delivery am = rights_pending (am_snapshot am) now"
    and valid: "stored_valid (normalize now (bump_unknown now ch))"
    and at: "row_at rr_chat (rights t) = (row_at rr_chat (rights s))
      (c \<mapsto> row_of_stored (normalize now (bump_unknown now ch)))"
    and rev: "rs_intent_revision (sr_snapshot (normalize now row)) \<le> rs_intent_revision (sr_snapshot ch)"
      "rs_intent_revision (sr_snapshot ch) \<le> i64_max"
    by blast+
  let ?r = "row_of_stored (normalize now (bump_unknown now ch))"
  have new: "rr_intent_revision q < rr_intent_revision ?r"
    if q: "row_at rr_chat (rights s) c = Some q" "rr_seeded q" "rr_intent_revision q < i64_max"
      "rr_intent_fingerprint ?r \<noteq> rr_intent_fingerprint q" for q
  proof -
    have rq: "row_of_stored row = q" by (rule locked_row_existing [OF assms(1) q(1) row])
    have "stored_valid row"
      using locked_row_stored [OF assms(1), of c] row by auto
    then have "stored_valid (normalize now row)" by (simp add: stored_valid_def)
    with assms(2) ch q(2) rq have "sr_intent_fingerprint ch = sr_intent_fingerprint (normalize now row)"
      unfolding change_ok_def by auto
    from revision_follows_fingerprint [OF _ this rev] q rq show ?thesis by auto
  qed
  have fp: "rr_seeded ?r \<longrightarrow> rr_intent_fingerprint ?r = fingerprint (effective_at (am_snapshot am) now)"
    by (simp add: am normalize_fingerprint effective_normalize)
  have open_r: "am_delivery am \<longleftrightarrow> rr_seeded ?r \<and> intent_open ?r"
    unfolding am(2) unfolding am(1) by (rule pending_normal)
  have st: "\<exists>st. stored_from_row ?r = Inr st \<and> sr_snapshot st = am_snapshot am"
    by (rule exI, rule conjI, rule stored_row_roundtrip [OF valid], rule am(1) [symmetric])
  show ?thesis unfolding Inr sum.case
    by (rule exI [of _ ?r], intro conjI)
      (rule at, rule st, rule open_r, rule fp, intro allI impI, elim conjE, rule new)
qed

lemma rights_mutation_outcome_witness:
  "\<exists>r am. set_manual_lock (-5) False 1003 leased_store = (opened_store, Inr am) \<and> am_delivery am \<and>
    row_at rr_chat (rights opened_store) (-5) = Some r \<and> intent_open r"
proof -
  have ok: "rights_ok leased_store"
    using claim_default_rights_Some(5) [OF locked_store_ok locked_store_claim] .
  have "case snd (set_manual_lock (-5) False 1003 leased_store) of Inl e \<Rightarrow> False | Inr am \<Rightarrow> am_delivery am"
    by code_simp
  then obtain am where am: "set_manual_lock (-5) False 1003 leased_store = (opened_store, Inr am)"
    "am_delivery am" by (auto simp: opened_store_def prod_eq_iff split: sum.splits)
  from rights_mutation_outcome [OF ok change_manual_ok am(1) [unfolded set_manual_lock_def]] am
  show ?thesis by auto
qed

text \<open>
  No change of the effective rights is missed. Between the time a row was brought to its normal
  form and its next transition the effective rights, the fingerprint and the revision stay the same,
  and the next transition lies in the future: a worker that wakes up at that time misses nothing.
\<close>

theorem rights_change_only_at_transitions:
  assumes "clock_ok now" and "stored_valid st" and "now \<le> t" and "n = sr_snapshot (normalize now st)"
    and "\<forall>x. rs_next n = Some x \<longrightarrow> t < x"
  shows "effective_at n t = effective_at n now \<and> (\<forall>x. rs_next n = Some x \<longrightarrow> now < x) \<and>
    sr_intent_fingerprint (normalize t (normalize now st)) = sr_intent_fingerprint (normalize now st) \<and>
    rs_intent_revision (sr_snapshot (normalize t (normalize now st))) = rs_intent_revision n"
proof -
  have w: "night_ok w" if "rs_night n = Some w" for w
    using assms(2,4) that by (simp add: stored_valid_def)
  have nx: "rs_next n = next_transition now (rs_timed n) (rs_night n)"
    using assms(4) by (simp add: normalize_next)
  have later: "now < x" if "rs_next n = Some x" for x
    by (rule next_transition_spec(1) [OF assms(1) w that [unfolded nx]])
  have timed: "now < u \<and> t < u" if u: "rs_timed n = Some u" for u
  proof -
    have lt: "now < u" using u assms(4) by (simp add: normalize_timed not_le split: if_splits)
    have "\<exists>x \<le> u. rs_next n = Some x"
      unfolding nx by (rule next_transition_spec(2) [OF assms(1) w u lt])
    with assms(5) lt show ?thesis by auto
  qed
  have night: "night_contains w (minute_of_day t) = night_contains w (minute_of_day now)"
    if that: "rs_night n = Some w" for w
  proof -
    have "\<exists>x. rs_next n = Some x \<and> x \<le> boundary_after now (night_from w) \<and>
        x \<le> boundary_after now (night_to w)"
      unfolding nx by (rule next_transition_spec(3) [OF assms(1) w that])
    with assms(5) show ?thesis
      by (intro night_contains_until_boundary [OF assms(1) w [OF that] assms(3)]) auto
  qed
  have eff: "effective_at n t = effective_at n now"
    using timed night assms(3) by (auto simp: effective_at_def is_some_and_iff)
  have fp: "sr_intent_fingerprint (normalize t (normalize now st)) = sr_intent_fingerprint (normalize now st)"
    using eff assms(4) by (simp add: normalize_fingerprint [of t] normalize_fingerprint [of now] effective_normalize)
  then show ?thesis using eff later assms(4) by (auto simp: normalize_revision_eq [of t])
qed

lemma rights_change_only_at_transitions_witness:
  "effective_at (sr_snapshot (normalize 80000 (night_stored))) 80999 =
   effective_at (sr_snapshot (normalize 80000 night_stored)) 80000"
proof -
  have "clock_ok 80000" by (simp add: clock_ok_def)
  moreover have "stored_valid night_stored"
    by (simp add: night_stored_def stored_valid_def valid_mask_bound night_ok_def)
  moreover have "\<forall>x. rs_next (sr_snapshot (normalize 80000 night_stored)) = Some x \<longrightarrow> 80999 < x"
  proof -
    have "rs_next (sr_snapshot (normalize 80000 night_stored)) = Some 81000" by code_simp
    then show ?thesis by simp
  qed
  ultimately show ?thesis
    using rights_change_only_at_transitions [of 80000 night_stored 80999] by simp
qed

text \<open>
  setting a list of rights changes exactly the bits of the list, to the value asked for, is
  possible only for a seeded row and known rights, and keeps the manual lock and an unexpired timed
  lock.
\<close>

theorem rights_set_exactly:
  assumes "rights_ok s" and "set_default_rights c bs closed now s = (t, Inr am)"
  shows "\<exists>r m. row_at rr_chat (rights s) c = Some r \<and> rr_seeded r \<and> mask_from_storage (rr_base r) = Inr m \<and>
    set bs \<subseteq> {..<right_count} \<and>
    (\<forall>b. mask_contains (rs_base (am_snapshot am)) b \<longleftrightarrow>
      (if b \<in> set bs then closed else mask_contains m b)) \<and>
    rs_manual (am_snapshot am) = rr_manual r \<and>
    rs_timed (am_snapshot am) = (case rr_timed r of None \<Rightarrow> None | Some u \<Rightarrow> if now < u then Some u else None)"
proof -
  from mutate_default_rights_Inr [OF assms(1) change_bits_ok assms(2) [unfolded set_default_rights_def]]
  obtain row ch where row: "locked_row c (rights s) = Inr row" and
    ch: "if_seeded (set_bits bs closed) (normalize now row) = Inr ch" and
    am: "am_snapshot am = sr_snapshot (normalize now (bump_unknown now ch))"
    by blast
  let ?n = "sr_snapshot (normalize now row)"
  obtain n' where n': "set_bits bs closed ?n = Inr n'" "ch = (normalize now row)\<lparr>sr_snapshot := n'\<rparr>"
    and seeded: "rs_seeded (sr_snapshot row)"
    using ch by (cases "set_bits bs closed ?n") (auto simp: if_seeded_def split: if_splits)
  obtain m where m: "set bs \<subseteq> {..<right_count}" "n' = ?n\<lparr>rs_base := m\<rparr>"
    "\<And>b. mask_contains m b \<longleftrightarrow> (if b \<in> set bs then closed else mask_contains (rs_base ?n) b)"
    using set_bits_exact [OF n'(1)] by blast
  have stored: "row_at rr_chat (ensure_row c (rights s)) c = Some (row_of_stored row)" "stored_valid row"
    using locked_row_stored [OF assms(1), of c] row by auto
  have "row_at rr_chat (rights s) c = Some (row_of_stored row)"
    using stored seeded by (auto simp: ensure_row_at blank_rights_def split: if_splits
        dest: arg_cong [where f = rr_seeded])
  moreover have "mask_from_storage (rr_base (row_of_stored row)) = Inr (rs_base (sr_snapshot row))"
    using stored(2) mask_roundtrip [of "rs_base (sr_snapshot row)"] by (simp add: stored_valid_def mask_storage_def)
  moreover have "rs_base (am_snapshot am) = m" "rs_manual (am_snapshot am) = rs_manual (sr_snapshot row)"
    "rs_timed (am_snapshot am) = (case rs_timed (sr_snapshot row) of None \<Rightarrow> None
       | Some u \<Rightarrow> if now < u then Some u else None)"
    by (auto simp: am n'(2) m(2) bump_unknown_fields normalize_timed split: option.splits)
  ultimately show ?thesis
    using m seeded by (intro exI [of _ "row_of_stored row"] exI [of _ "rs_base (sr_snapshot row)"])
      (simp add: row_of_stored_def Let_def)
qed

lemma rights_set_exactly_witness:
  "\<exists>am. snd (set_default_rights (-5) [0, 13] True 1004 opened_store) = Inr am \<and>
    mask_contains (rs_base (am_snapshot am)) 13 \<and> \<not> mask_contains (rs_base (am_snapshot am)) 12"
proof -
  have ok: "rights_ok leased_store"
    using claim_default_rights_Some(5) [OF locked_store_ok locked_store_claim] .
  have "case snd (set_default_rights (-5) [0, 13] True 1004 opened_store) of Inl e \<Rightarrow> False | Inr am \<Rightarrow> True"
    by code_simp
  then obtain am where snd_am: "snd (set_default_rights (-5) [0, 13] True 1004 opened_store) = Inr am"
    by (auto split: sum.splits)
  obtain t where am: "set_default_rights (-5) [0, 13] True 1004 opened_store = (t, Inr am)"
    using snd_am by (cases "set_default_rights (-5) [0, 13] True 1004 opened_store") simp
  have base: "map_option rr_base (row_at rr_chat (rights opened_store) (-5)) = Some 8" by code_simp
  obtain m where m: "mask_from_storage 8 = Inr m"
    "\<And>b. mask_contains (rs_base (am_snapshot am)) b \<longleftrightarrow> (if b \<in> set [0, 13] then True else mask_contains m b)"
    using rights_set_exactly [OF delivery_fence.ok_steps [OF opened_steps ok] am] base by auto
  have "m = 8" using m(1) by (simp add: mask_from_storage_def split: if_splits)
  moreover have "\<not> mask_contains 8 12" by code_simp
  ultimately show ?thesis using m(2) by (intro exI [of _ am]) (simp add: snd_am)
qed

text \<open>
  The fingerprint identifies the effective rights: two fingerprints are equal only for the same
  base mask and the same lock, and the lock can be read off the fingerprint.
\<close>

lemma fingerprint_identifies_rights:
  assumes "valid_mask (eff_base e)" and "valid_mask (eff_base e')"
  shows "(fingerprint e = fingerprint e' \<longleftrightarrow> e = e') \<and> 0 \<le> fingerprint e \<and> fingerprint e < 32768 \<and>
    (fingerprint e AND force_fingerprint \<noteq> 0 \<longleftrightarrow> eff_force e)"
  using fingerprint_inject [OF assms] fingerprint_range [OF assms(1)] fingerprint_force [OF assms(1)] by blast

lemma fingerprint_identifies_rights_witness:
  "fingerprint \<lparr>eff_base = 5, eff_force = True\<rparr> \<noteq> fingerprint \<lparr>eff_base = 5, eff_force = False\<rparr>"
  using fingerprint_identifies_rights [of "\<lparr>eff_base = 5, eff_force = True\<rparr>" "\<lparr>eff_base = 5, eff_force = False\<rparr>"]
  by (simp add: valid_mask_bound)

text \<open>
  C11: rows and snapshots are faithful to each other. In every reachable store the row of a chat
  decodes, and what it decodes to encodes to the same row; a valid snapshot that is written is the
  one read back.
\<close>

theorem rights_rows_roundtrip:
  assumes "rights_ok s" and "rights_step\<^sup>*\<^sup>* s t" and "row_at rr_chat (rights t) c = Some r"
    and "stored_valid st" and "rs_chat (sr_snapshot st) = c"
  shows "(\<exists>st'. existing_locked_row c t = Inr (Some st') \<and> row_of_stored st' = r) \<and>
    existing_locked_row c (t\<lparr>rights := write_row st (rights t)\<rparr>) = Inr (Some st)"
proof -
  have ok: "rights_ok t" using delivery_fence.ok_steps [OF assms(2,1)] .
  have "rights_core_ok r" using rights_ok_row [OF ok assms(3)] by (simp add: rights_row_ok_def)
  from stored_from_row_ok [OF this] obtain st' where st': "stored_from_row r = Inr st'" "row_of_stored st' = r"
    by blast
  with assms(3) have "existing_locked_row c t = Inr (Some st')" by (simp add: existing_locked_row_def)
  moreover have "row_at rr_chat (write_row st (rights t)) c = Some (row_of_stored st)"
    using write_row_at [OF ok, of c st' st c] assms(3,5) st'(2) by simp
  ultimately show ?thesis
    using st'(2) stored_row_roundtrip [OF assms(4)] by (simp add: existing_locked_row_def)
qed

lemma rights_rows_roundtrip_witness:
  "existing_locked_row (-5) (opened_store\<lparr>rights := write_row night_stored (rights opened_store)\<rparr>) =
    Inr (Some night_stored)"
proof -
  have "row_at rr_chat (rights opened_store) (-5) \<noteq> None" by code_simp
  then obtain r where r: "row_at rr_chat (rights opened_store) (-5) = Some r" by blast
  have ok: "rights_ok leased_store"
    using claim_default_rights_Some(5) [OF locked_store_ok locked_store_claim] .
  have v: "stored_valid night_stored" "rs_chat (sr_snapshot night_stored) = - 5"
    by (simp_all add: night_stored_def stored_valid_def valid_mask_bound night_ok_def)
  show ?thesis using rights_rows_roundtrip [OF ok opened_steps r v] by blast
qed

text \<open>
  a notice is settled once. After its claim was acknowledged or put back, no acknowledgement
  and no retry with the same claim does anything, whatever happens in between.
\<close>

theorem rights_notice_settled_once:
  assumes "rights_ok s" and "claim_notice c now s = (s1, Inr (Some d))" and "rights_step\<^sup>*\<^sup>* s1 s2"
    and "ack_notice d s2 = (s3, True) \<or> retry_notice d at e s2 = (s3, Some x)" and "rights_step\<^sup>*\<^sup>* s3 s4"
  shows "ack_notice d s4 = (s4, False) \<and> retry_notice d at' e' s4 = (s4, None)"
proof -
  note claim = claim_notice_Some [OF assms(1,2)]
  have ok2: "rights_ok s2" using notice_fence.ok_steps [OF assms(3) claim(5)] .
  have "rights_step s2 s3 \<and> notice_lease_at s3 (nc_chat d) = None"
    using assms(4)
  proof
    assume a: "ack_notice d s2 = (s3, True)"
    then have "sql_exists (\<lambda>r. rr_chat r = nc_chat d \<and> notice_held d r) (rights s2)"
      by (simp add: ack_notice_def)
    from notice_settle_lease [OF ok2 this, of no_notice_row] a step_ack_notice [of s2 d]
    show ?thesis by (auto simp: ack_notice_def settled_row_notice)
  next
    assume "retry_notice d at e s2 = (s3, Some x)"
    from retry_notice_Some [OF this] obtain n err
      where ex: "sql_exists (\<lambda>r. rr_chat r = nc_chat d \<and> notice_held d r) (rights s2)"
        and s3: "s3 = fst (retry_notice_update d x n err s2)" by blast
    from notice_settle_lease [OF ok2 ex, of "retried_notice_row x n err"] step_retry_notice
    show ?thesis unfolding s3 by (simp add: retry_notice_update_def settled_row_notice)
  qed
  then have step: "rights_step s2 s3" and free: "notice_lease_at s3 (nc_chat d) \<noteq> Some (nc_token d)"
    by simp_all
  have ok3: "rights_ok s3" using notice_fence.ok_step [OF ok2 step] .
  have "nc_token d < rights_token s3"
    using notice_fence.sequence_steps [OF assms(3) claim(5)] notice_fence.sequence_step [OF ok2 step]
      claim(2,3) by simp
  from notice_fence.stale_forever [OF assms(5) ok3 this free] show ?thesis
    using stale_notice_noop [OF notice_fence.ok_steps [OF assms(5) ok3]] by blast
qed

definition expired_lock_store :: rights_store where
  "expired_lock_store =
     fst (ack_default_rights \<lparr>dc_chat = - 5, dc_revision = 3, dc_token = 2\<rparr> 8
       (fst (claim_default_rights (-5) 2000
         (fst (ack_default_rights \<lparr>dc_chat = - 5, dc_revision = 2, dc_token = 1\<rparr> 16392
           (fst (claim_default_rights (-5) 1002
             (fst (set_timed_lock (-5) 2000 1001
               (fst (seed_default_rights (-5) 8 1000 blank_store)))))))))))"

definition opened_notice :: notice_claim where
  "opened_notice = \<lparr>nc_chat = - 5, nc_token = 3, nc_revision = 3, nc_kind = TimedOpened\<rparr>"

lemma expired_lock_store_ok: "rights_ok expired_lock_store"
proof -
  have 0: "rights_ok blank_store" by (simp add: rights_ok_def blank_store_def leases_ok_def lease_at_def)
  have "rights_ok (fst (seed_default_rights (-5) 8 1000 blank_store))"
    unfolding seed_default_rights_def
    by (rule rights_move_ok [OF mutate_move [OF 0 change_seed_ok]]) (simp add: valid_mask_bound)
  then show ?thesis
    unfolding expired_lock_store_def set_timed_lock_def
    by (intro rights_move_ok [OF ack_default_rights_move] rights_move_ok [OF claim_default_rights_move]
        rights_move_ok [OF mutate_move [OF _ change_timed_ok]])
qed

lemma rights_notice_settled_once_witness:
  "\<exists>s. ack_notice opened_notice s = (s, False) \<and> row_at rr_chat (rights s) (-5) \<noteq> None"
proof -
  let ?s1 = "fst (claim_notice (-5) 2001 expired_lock_store)"
  let ?s2 = "fst (ack_notice opened_notice ?s1)"
  have "snd (claim_notice (-5) 2001 expired_lock_store) = Inr (Some opened_notice)" by code_simp
  then have claim: "claim_notice (-5) 2001 expired_lock_store = (?s1, Inr (Some opened_notice))"
    by (simp add: prod_eq_iff)
  have "snd (ack_notice opened_notice ?s1) = True" by code_simp
  then have ack: "ack_notice opened_notice ?s1 = (?s2, True)" by (simp add: prod_eq_iff)
  have "ack_notice opened_notice ?s2 = (?s2, False)"
    using rights_notice_settled_once [OF expired_lock_store_ok claim rtranclp.rtrancl_refl disjI1 [OF ack]
      rtranclp.rtrancl_refl, of 0 "[]"] by blast
  moreover have "row_at rr_chat (rights ?s2) (-5) \<noteq> None" by code_simp
  ultimately show ?thesis by blast
qed

end
