(* ===== verification/Statistics.thy ===== *)
theory Statistics
  imports Counters
begin

text \<open>
  Statistics of \<open>src/src/state/durable.rs\<close>: a batch of message counts is validated, applied to the
  tallies of the chats and the counters of the members in one transaction that also leaves a
  receipt, and may put members who reached a milestone on the list of pending rank awards. The
  JSON encoding of a batch (\<open>to_json\<close>), its SHA-256 digest (\<open>sha\<close>) and the rule that decides on
  awards (\<open>rank\<close>) are arguments; the rule the program passes is \<open>rank_award_milestone\<close> of
  \<open>src/src/handlers/stats.rs\<close>.
\<close>

section \<open>Batches\<close>

type_synonym bytes = "nat list"

record bump =
  bump_chat :: chat_id
  bump_user :: user_id
  bump_name :: utext
  bump_added :: int

record stats_batch =
  sb_id :: utext
  sb_day :: int
  sb_tallies :: "(chat_id \<times> utext \<times> int) list"
  sb_counts :: "bump list"

datatype stats_error = Permanent string | Retryable string

type_synonym 'a stats_result = "stats_error + 'a"

fun is_permanent :: "stats_error \<Rightarrow> bool" where
  "is_permanent (Permanent e) \<longleftrightarrow> True"
| "is_permanent (Retryable e) \<longleftrightarrow> False"

definition max_batch_bytes :: nat where
  "max_batch_bytes = 32 * 1024 * 1024"

definition max_tally_counter_bytes :: nat where
  "max_tally_counter_bytes = 64"

definition max_tally_rows_per_chat :: int where
  "max_tally_rows_per_chat = 64"

text \<open>\<open>u8::is_ascii_hexdigit\<close>; a character beyond ASCII has no byte that is one.\<close>

definition is_ascii_hexdigit :: "nat \<Rightarrow> bool" where
  "is_ascii_hexdigit c \<longleftrightarrow> 48 \<le> c \<and> c \<le> 57 \<or> 65 \<le> c \<and> c \<le> 70 \<or> 97 \<le> c \<and> c \<le> 102"

definition validate_id :: "stats_batch \<Rightarrow> bool" where
  "validate_id b \<longleftrightarrow> sb_id b \<noteq> [] \<and> utf8_len (sb_id b) \<le> 128 \<and>
     list_all (\<lambda>c. is_ascii_hexdigit c \<or> c = 45) (sb_id b)"

definition tally_input_key :: "chat_id \<times> utext \<times> int \<Rightarrow> chat_id \<times> utext" where
  "tally_input_key x = (fst x, fst (snd x))"

definition bump_key :: "bump \<Rightarrow> member" where
  "bump_key b = (bump_chat b, bump_user b)"

definition bad_tally_name :: "utext \<Rightarrow> bool" where
  "bad_tally_name n \<longleftrightarrow> n = [] \<or> max_tally_counter_bytes < utf8_len n \<or> 58 \<in> set n"

definition encoded :: "(stats_batch \<Rightarrow> bytes) \<Rightarrow> stats_batch \<Rightarrow> string + bytes" where
  "encoded to_json b =
     (if \<not> validate_id b then Inl ''invalid statistics batch id''
      else if max_batch_bytes < length (to_json b)
      then Inl ''statistics batch exceeds disk-spool limit''
      else if list_ex (\<lambda>x. bad_tally_name (fst (snd x))) (sb_tallies b) \<or>
              \<not> distinct (map tally_input_key (sb_tallies b))
      then Inl ''statistics batch contains an invalid or duplicate tally key''
      else if \<not> distinct (map bump_key (sb_counts b))
      then Inl ''statistics batch contains a duplicate member key''
      else Inr (to_json b))"

text \<open>A rejected encoding is a permanent failure.\<close>

definition batch_digest ::
  "(stats_batch \<Rightarrow> bytes) \<Rightarrow> (bytes \<Rightarrow> bytes) \<Rightarrow> stats_batch \<Rightarrow> bytes stats_result" where
  "batch_digest to_json sha b = map_sum Permanent sha (encoded to_json b)"

definition postgres_i64 :: "int \<Rightarrow> int stats_result" where
  "postgres_i64 v = (if v \<le> i64_max then Inr v
     else Inl (Permanent ''statistics value exceeds PostgreSQL bigint''))"

section \<open>Ranks\<close>

definition milestones :: "int list" where
  "milestones = [50, 100, 250, 500, 1000, 2000, 3500, 5000, 7500, 10000, 15000, 20000, 30000,
     50000, 75000, 100000]"

text \<open>The level and the milestone of a total; the title is a display string.\<close>

definition rank_at :: "int \<Rightarrow> (nat \<times> int) option" where
  "rank_at n = map_option (\<lambda>(i, needed). (i + 1, needed))
     (find (\<lambda>(i, needed). needed \<le> n) (rev (enumerate 0 milestones)))"

definition rank_award_milestone :: "int \<Rightarrow> int \<Rightarrow> int \<Rightarrow> int option" where
  "rank_award_milestone previous n given =
     (case rank_at n of
        None \<Rightarrow> None
      | Some (level, milestone) \<Rightarrow>
          if previous < milestone \<and> given < milestone then Some milestone else None)"

section \<open>Tables\<close>

record tally_row =
  tally_chat :: chat_id
  tally_name :: utext
  tally_day :: int
  tally_count :: int

definition tally_key :: "tally_row \<Rightarrow> chat_id \<times> utext" where
  "tally_key r = (tally_chat r, tally_name r)"

record receipt =
  rc_id :: utext
  rc_digest :: "bytes option"
  rc_applied :: seconds

text \<open>A \<open>timestamptz\<close> column that may hold \<open>'-infinity'\<close> or \<open>'infinity'\<close>.\<close>

datatype stamp = Long_Ago | At seconds | Never

fun passed :: "seconds \<Rightarrow> stamp \<Rightarrow> bool" where
  "passed now Long_Ago \<longleftrightarrow> True"
| "passed now (At t) \<longleftrightarrow> t \<le> now"
| "passed now Never \<longleftrightarrow> False"

record award_row =
  aw_chat :: chat_id
  aw_user :: user_id
  aw_name :: utext
  aw_total :: int
  aw_awarded :: int
  aw_milestone :: int
  aw_version :: int
  aw_lease :: "int option"
  aw_until :: stamp
  aw_attempts :: int
  aw_terminal :: "utext option"
  aw_terminal_at :: "seconds option"
  aw_created :: seconds

definition award_key :: "award_row \<Rightarrow> member" where
  "award_key r = (aw_chat r, aw_user r)"

text \<open>
  \<open>core\<close> holds the tables of the punishments, among them the \<open>counters\<close>. A lease token is an
  opaque id \<open>l-<serial>-<random>\<close>; it is represented by its serial, of which \<open>opaque_serial\<close> is the
  next. Ids of different serials differ, and the random part separates processes.
\<close>

record stats_db =
  core :: store
  tallies :: "tally_row table"
  tally_rows :: int
  max_tally_rows :: "int option"
  receipts :: "receipt table"
  awards :: "award_row table"
  opaque_serial :: int

section \<open>Applying the tallies\<close>

fun chunks :: "nat \<Rightarrow> 'a list \<Rightarrow> 'a list list" where
  "chunks n [] = []"
| "chunks n (x # xs) =
     (if n = 0 then [] else take n (x # xs) # chunks n (drop n (x # xs)))"

definition tally_additions ::
  "(chat_id \<times> utext \<times> int) list \<Rightarrow> tally_row table \<Rightarrow> (chat_id \<times> utext) list" where
  "tally_additions rows t =
     filter (\<lambda>k. row_at tally_key t k = None) (remdups (map tally_input_key rows))"

definition largest_tally_chat :: "(chat_id \<times> utext) list \<Rightarrow> tally_row table \<Rightarrow> int" where
  "largest_tally_chat extra t =
     fold (\<lambda>k. max (sql_count (\<lambda>r. tally_chat r = fst k) t +
                    int (length (filter (\<lambda>j. fst j = fst k) extra)))) extra 0"

definition first_tally :: "int \<Rightarrow> chat_id \<times> utext \<times> int \<Rightarrow> tally_row" where
  "first_tally d x = \<lparr>tally_chat = fst x, tally_name = fst (snd x), tally_day = d, tally_count = snd (snd x)\<rparr>"

definition add_tally :: "int \<Rightarrow> chat_id \<times> utext \<times> int \<Rightarrow> tally_row \<Rightarrow> tally_row" where
  "add_tally d x q = q\<lparr>tally_count := (if tally_day q = d then tally_count q else 0) + snd (snd x),
     tally_day := d\<rparr>"

text \<open>A sum beyond \<open>bigint\<close> is SQLSTATE 22003, a permanent failure.\<close>

definition tally_chunk ::
  "int option \<Rightarrow> int \<Rightarrow> (chat_id \<times> utext \<times> int) list \<Rightarrow> tally_row table \<times> int \<times> int \<Rightarrow>
     (tally_row table \<times> int \<times> int) stats_result" where
  "tally_chunk limit d rows acc =
     (case acc of (t, current, added) \<Rightarrow>
        (let extra = tally_additions rows t; new_rows = int (length extra);
             projected = current + new_rows; t' = upsert_all tally_key tally_input_key (first_tally d) (add_tally d) rows t
         in if max_tally_rows_per_chat < largest_tally_chat extra t
            then Inl (Permanent ''statistics batch would create too many tally rows in one chat'')
            else if i64_max < projected
            then Inl (Permanent ''projected tally row count overflowed bigint'')
            else if is_some_and (\<lambda>m. m < projected) limit
            then Inl (Permanent ''statistics batch would exceed the shard limit of tally rows'')
            else if list_ex (\<lambda>x. i64_max < snd (snd x)) rows
            then Inl (Permanent ''statistics value exceeds PostgreSQL bigint'')
            else if list_ex (\<lambda>r. i64_max < tally_count r) t'
            then Inl (Permanent ''22003'')
            else Inr (t', projected, added + new_rows)))"

fun tally_chunks ::
  "int option \<Rightarrow> int \<Rightarrow> (chat_id \<times> utext \<times> int) list list \<Rightarrow> tally_row table \<times> int \<times> int \<Rightarrow>
     (tally_row table \<times> int \<times> int) stats_result" where
  "tally_chunks limit d [] acc = Inr acc"
| "tally_chunks limit d (rows # rest) acc =
     (case tally_chunk limit d rows acc of Inl e \<Rightarrow> Inl e | Inr acc' \<Rightarrow> tally_chunks limit d rest acc')"

definition tally_limit :: "stats_db \<Rightarrow> int" where
  "tally_limit db = (case max_tally_rows db of None \<Rightarrow> i64_max div 2 | Some m \<Rightarrow> m)"

definition apply_tallies :: "stats_batch \<Rightarrow> stats_db \<Rightarrow> stats_db stats_result" where
  "apply_tallies b db =
     (case tally_chunks (max_tally_rows db) (sb_day b) (chunks 1000 (sb_tallies b))
             (tallies db, tally_rows db, 0) of
        Inl e \<Rightarrow> Inl e
      | Inr (t, current, added) \<Rightarrow>
          if 0 < added \<and> \<not> tally_rows db + added \<le> tally_limit db
          then Inl (Permanent ''statistics batch would add tally rows past the shard limit'')
          else Inr (db\<lparr>tallies := t, tally_rows := tally_rows db + (if 0 < added then added else 0)\<rparr>))"

section \<open>Folding the counters\<close>

text \<open>The statement \<open>counter_fold.sql\<close>; its arguments are the batch, the day, week and month, and the two caps.\<close>

definition new_rank :: "bump list \<Rightarrow> bump \<Rightarrow> int" where
  "new_rank new b = 1 + int (length (filter (\<lambda>q. bump_chat q = bump_chat b \<and> bump_user q < bump_user b) new))"

definition existing_batch :: "bump list \<Rightarrow> counter_row table \<Rightarrow> bump list" where
  "existing_batch rows t = filter (\<lambda>b. row_at counter_key t (bump_key b) \<noteq> None) rows"

definition new_batch :: "bump list \<Rightarrow> counter_row table \<Rightarrow> bump list" where
  "new_batch rows t = filter (\<lambda>b. row_at counter_key t (bump_key b) = None) rows"

definition allowed_new :: "bump list \<Rightarrow> counter_row table \<Rightarrow> bump list" where
  "allowed_new rows t =
     (let new = new_batch rows t
      in filter (\<lambda>b. sql_count (\<lambda>r. counter_chat r = bump_chat b) t + new_rank new b
                   \<le> max_counter_rows_per_chat) new)"

definition reserved_new :: "bump list \<Rightarrow> store \<Rightarrow> bool" where
  "reserved_new rows s \<longleftrightarrow> allowed_new rows (counters s) \<noteq> [] \<and>
     counter_rows s + int (length (allowed_new rows (counters s))) \<le> counter_limit s"

definition write_batch :: "bump list \<Rightarrow> store \<Rightarrow> bump list" where
  "write_batch rows s = existing_batch rows (counters s) @
     (if reserved_new rows s then allowed_new rows (counters s) else [])"

definition first_count :: "int \<Rightarrow> int \<Rightarrow> int \<Rightarrow> bump \<Rightarrow> counter_row" where
  "first_count d w m b = (blank_counter (bump_key b))\<lparr>counter_name := bump_name b,
     total := bump_added b, today := bump_added b, day := d, week := bump_added b, week_at := w,
     month := bump_added b, month_at := m, seen := d\<rparr>"

definition add_count :: "int \<Rightarrow> int \<Rightarrow> int \<Rightarrow> bump \<Rightarrow> counter_row \<Rightarrow> counter_row" where
  "add_count d w m b r = r\<lparr>
     counter_name := (if bump_name b = [] then counter_name r else bump_name b),
     total := total r + bump_added b,
     today := (if day r = d then today r else 0) + bump_added b, day := d,
     week := (if week_at r = w then week r else 0) + bump_added b, week_at := w,
     month := (if month_at r = m then month r else 0) + bump_added b, month_at := m,
     seen := d\<rparr>"

definition counts_in_range :: "counter_row \<Rightarrow> bool" where
  "counts_in_range r \<longleftrightarrow> total r \<le> i64_max \<and> today r \<le> i64_max \<and> week r \<le> i64_max \<and> month r \<le> i64_max"

text \<open>The new store and the rows RETURNING lists.\<close>

definition counter_fold ::
  "int \<Rightarrow> int \<Rightarrow> int \<Rightarrow> bump list \<Rightarrow> store \<Rightarrow> (store \<times> counter_row list) stats_result" where
  "counter_fold d w m rows s =
     (let write = write_batch rows s; t = upsert_all counter_key bump_key (first_count d w m) (add_count d w m) write (counters s)
      in if \<not> list_all counts_in_range t then Inl (Permanent ''22003'')
         else Inr (s\<lparr>counters := t, counter_rows := counter_rows s +
                       (if reserved_new rows s then int (length (allowed_new rows (counters s))) else 0)\<rparr>,
                   List.map_filter (\<lambda>b. row_at counter_key t (bump_key b)) write))"

section \<open>Awards\<close>

record new_award =
  na_chat :: chat_id
  na_user :: user_id
  na_name :: utext
  na_total :: int
  na_awarded :: int
  na_milestone :: int

definition nonnegative_counter :: "int \<Rightarrow> int stats_result" where
  "nonnegative_counter v = (if v < 0 then Inl (Permanent ''corrupt counter field'') else Inr v)"

text \<open>The loop over the changed rows: which of them are awards.\<close>

fun collect_awards ::
  "(chat_id \<Rightarrow> int \<Rightarrow> int \<Rightarrow> int \<Rightarrow> int option) \<Rightarrow> bump list \<Rightarrow> counter_row list \<Rightarrow>
     new_award list stats_result" where
  "collect_awards rank batch [] = Inr []"
| "collect_awards rank batch (r # rs) =
     (case nonnegative_counter (total r) of Inl e \<Rightarrow> Inl e | Inr n \<Rightarrow>
     (case nonnegative_counter (awarded r) of Inl e \<Rightarrow> Inl e | Inr given \<Rightarrow>
     (case find (\<lambda>b. bump_key b = counter_key r) (rev batch) of
        None \<Rightarrow> Inl (Permanent ''counter fold returned a member outside its input batch'')
      | Some b \<Rightarrow>
          if n < bump_added b
          then Inl (Permanent ''counter fold returned a total below its accepted delta'')
          else
            (case rank (counter_chat r) (n - bump_added b) n given of
               None \<Rightarrow> collect_awards rank batch rs
             | Some milestone \<Rightarrow>
                 (case postgres_i64 milestone of Inl e \<Rightarrow> Inl e | Inr ms \<Rightarrow>
                 (case collect_awards rank batch rs of Inl e \<Rightarrow> Inl e | Inr out \<Rightarrow>
                    Inr (\<lparr>na_chat = counter_chat r, na_user = counter_user r,
                          na_name = counter_name r, na_total = total r, na_awarded = awarded r,
                          na_milestone = ms\<rparr> # out)))))))"

definition first_award :: "seconds \<Rightarrow> new_award \<Rightarrow> award_row" where
  "first_award now a = \<lparr>aw_chat = na_chat a, aw_user = na_user a, aw_name = na_name a,
     aw_total = na_total a, aw_awarded = na_awarded a, aw_milestone = na_milestone a,
     aw_version = 1, aw_lease = None, aw_until = Long_Ago, aw_attempts = 0, aw_terminal = None,
     aw_terminal_at = None, aw_created = now\<rparr>"

definition again_award :: "new_award \<Rightarrow> award_row \<Rightarrow> award_row" where
  "again_award a r = (let higher = aw_milestone r < na_milestone a in r\<lparr>
     aw_name := na_name a, aw_total := max (aw_total r) (na_total a),
     aw_awarded := max (aw_awarded r) (na_awarded a), aw_version := aw_version r + 1,
     aw_lease := (if higher then None else aw_lease r),
     aw_until := (if higher then Long_Ago else aw_until r),
     aw_attempts := (if higher then 0 else aw_attempts r),
     aw_terminal := (if higher then None else aw_terminal r),
     aw_terminal_at := (if higher then None else aw_terminal_at r),
     aw_milestone := max (aw_milestone r) (na_milestone a)\<rparr>)"

definition new_award_key :: "new_award \<Rightarrow> member" where
  "new_award_key a = (na_chat a, na_user a)"

section \<open>The transaction\<close>

definition count_chunk ::
  "(chat_id \<Rightarrow> int \<Rightarrow> int \<Rightarrow> int \<Rightarrow> int option) \<Rightarrow> seconds \<Rightarrow> int \<Rightarrow> bump list \<Rightarrow> stats_db \<Rightarrow>
     stats_db stats_result" where
  "count_chunk rank now d rows db =
     (if list_ex (\<lambda>b. i64_max < bump_added b) rows
      then Inl (Permanent ''statistics value exceeds PostgreSQL bigint'')
      else
        (case counter_fold d (d div 7) (d div 30) rows (core db) of
           Inl e \<Rightarrow> Inl e
         | Inr (s, changed) \<Rightarrow>
             (case collect_awards rank rows changed of
                Inl e \<Rightarrow> Inl e
              | Inr new \<Rightarrow> Inr (db\<lparr>core := s, awards := upsert_all award_key new_award_key (first_award now) again_award new (awards db)\<rparr>))))"

fun count_chunks ::
  "(chat_id \<Rightarrow> int \<Rightarrow> int \<Rightarrow> int \<Rightarrow> int option) \<Rightarrow> seconds \<Rightarrow> int \<Rightarrow> bump list list \<Rightarrow> stats_db \<Rightarrow>
     stats_db stats_result" where
  "count_chunks rank now d [] db = Inr db"
| "count_chunks rank now d (rows # rest) db =
     (case count_chunk rank now d rows db of
        Inl e \<Rightarrow> Inl e
      | Inr db' \<Rightarrow> count_chunks rank now d rest db')"

definition add_receipt :: "utext \<Rightarrow> bytes \<Rightarrow> seconds \<Rightarrow> stats_db \<Rightarrow> stats_db" where
  "add_receipt i digest now db =
     db\<lparr>receipts := sql_insert \<lparr>rc_id = i, rc_digest = Some digest, rc_applied = now\<rparr> (receipts db)\<rparr>"

text \<open>
  The result is \<open>True\<close> when the batch was applied now and \<open>False\<close> when its receipt was already
  there. An error rolls the transaction back.
\<close>

definition apply_stats ::
  "(stats_batch \<Rightarrow> bytes) \<Rightarrow> (bytes \<Rightarrow> bytes) \<Rightarrow> (chat_id \<Rightarrow> int \<Rightarrow> int \<Rightarrow> int \<Rightarrow> int option) \<Rightarrow> seconds \<Rightarrow>
     stats_batch \<Rightarrow> stats_db \<Rightarrow> stats_db \<times> bool stats_result" where
  "apply_stats to_json sha rank now b db =
     (case batch_digest to_json sha b of
        Inl e \<Rightarrow> (db, Inl e)
      | Inr digest \<Rightarrow>
     (case postgres_i64 (sb_day b) of
        Inl e \<Rightarrow> (db, Inl e)
      | Inr d \<Rightarrow>
     (case row_at rc_id (receipts db) (sb_id b) of
        Some r \<Rightarrow>
          (case rc_digest r of
             None \<Rightarrow> (db, Inl (Permanent ''legacy receipt without a verifiable digest''))
           | Some stored \<Rightarrow>
               if stored = digest then (db, Inr False)
               else (db, Inl (Permanent ''already applied with different content'')))
      | None \<Rightarrow>
          (case apply_tallies b (add_receipt (sb_id b) digest now db) of
             Inl e \<Rightarrow> (db, Inl e)
           | Inr db1 \<Rightarrow>
               (case count_chunks rank now d (chunks 5000 (sb_counts b)) db1 of
                  Inl e \<Rightarrow> (db, Inl e)
                | Inr db2 \<Rightarrow> (db2, Inr True))))))"

section \<open>Facts on batches\<close>

lemma concat_chunks: "0 < n \<Longrightarrow> concat (chunks n xs) = xs"
  by (induction n xs rule: chunks.induct) simp_all

lemma upsert_all_append:
  "upsert_all key kf new upd (xs @ ys) t = upsert_all key kf new upd ys (upsert_all key kf new upd xs t)"
  by (simp add: upsert_all_def)

lemma encoded_Inr:
  "encoded to_json b = Inr bs \<Longrightarrow> bs = to_json b \<and> validate_id b \<and>
     distinct (map tally_input_key (sb_tallies b)) \<and> distinct (map bump_key (sb_counts b))"
  by (simp add: encoded_def split: if_splits)

lemma batch_digest_Inr:
  "batch_digest to_json sha b = Inr dg \<Longrightarrow> dg = sha (to_json b) \<and>
     distinct (map tally_input_key (sb_tallies b)) \<and> distinct (map bump_key (sb_counts b))"
  by (cases "encoded to_json b") (auto simp: batch_digest_def dest: encoded_Inr)

section \<open>Facts on tallies\<close>

lemma tally_keys [simp]:
  "tally_key (first_tally d x) = tally_input_key x" "tally_key (add_tally d x r) = tally_key r"
  "tally_chat (first_tally d x) = fst x" "tally_chat (add_tally d x r) = tally_chat r"
  by (simp_all add: first_tally_def add_tally_def tally_key_def tally_input_key_def)

definition tallies_ok :: "stats_db \<Rightarrow> bool" where
  "tallies_ok db \<longleftrightarrow> unique_key tally_key (tallies db) \<and> tally_rows db = int (length (tallies db)) \<and>
     tally_rows db \<le> tally_limit db \<and>
     (\<forall>c. sql_count (\<lambda>r. tally_chat r = c) (tallies db) \<le> max_tally_rows_per_chat)"

definition tally_chunk_ok :: "tally_row table \<Rightarrow> int \<Rightarrow> int \<Rightarrow> bool" where
  "tally_chunk_ok t current added \<longleftrightarrow> unique_key tally_key t \<and> current = int (length t) \<and>
     (\<forall>c. sql_count (\<lambda>r. tally_chat r = c) t \<le> max_tally_rows_per_chat)"

lemma fold_max_ge:
  fixes f :: "'a \<Rightarrow> int"
  shows "a \<le> fold (\<lambda>k. max (f k)) xs a \<and> (\<forall>k \<in> set xs. f k \<le> fold (\<lambda>k. max (f k)) xs a)"
proof (induction xs arbitrary: a)
  case Nil
  then show ?case by simp
next
  case (Cons x xs)
  have "max (f x) a \<le> fold (\<lambda>k. max (f k)) xs (max (f x) a) \<and>
      (\<forall>k \<in> set xs. f k \<le> fold (\<lambda>k. max (f k)) xs (max (f x) a))"
    by (rule Cons.IH)
  then show ?case unfolding fold_Cons o_def by (auto simp only: max.bounded_iff list.set ball_simps insert_iff)
qed

lemma largest_tally_chat_ge:
  assumes "k \<in> set extra"
  shows "sql_count (\<lambda>r. tally_chat r = fst k) t + int (length (filter (\<lambda>j. fst j = fst k) extra)) \<le>
    largest_tally_chat extra t"
  unfolding largest_tally_chat_def by (rule bspec [OF conjunct2 [OF fold_max_ge] assms])

lemma tally_additions_filter:
  assumes "distinct (map tally_input_key rows)"
  shows "tally_additions rows t =
    map tally_input_key (filter (\<lambda>x. row_at tally_key t (tally_input_key x) = None) rows)"
  using assms by (simp add: tally_additions_def distinct_remdups_id filter_map o_def)

lemma tally_chunk_Inr:
  assumes "tally_chunk limit d rows (t, current, added) = Inr (t', current', added')"
    and "distinct (map tally_input_key rows)" and "tally_chunk_ok t current added"
  shows "t' = upsert_all tally_key tally_input_key (first_tally d) (add_tally d) rows t"
    and "tally_chunk_ok t' current' added'" and "current' - current = added' - added" and "added \<le> added'"
    and "is_some_and (\<lambda>m. \<not> m < current') limit \<or> limit = None"
proof -
  let ?extra = "tally_additions rows t"
  from assms(1) have t': "t' = upsert_all tally_key tally_input_key (first_tally d) (add_tally d) rows t"
    and cur: "current' = current + int (length ?extra)" "added' = added + int (length ?extra)"
    and cap: "\<not> max_tally_rows_per_chat < largest_tally_chat ?extra t"
    and lim: "\<not> is_some_and (\<lambda>m. m < current + int (length ?extra)) limit"
    by (auto simp: tally_chunk_def Let_def split: if_splits)
  show "t' = upsert_all tally_key tally_input_key (first_tally d) (add_tally d) rows t" by (rule t')
  show "current' - current = added' - added" "added \<le> added'" using cur by simp_all
  show "is_some_and (\<lambda>m. \<not> m < current') limit \<or> limit = None"
    using lim cur by (cases limit) simp_all
  note count = sql_count_upsert_all [where key = tally_key and kf = tally_input_key and xs = rows
      and new = "first_tally d" and upd = "add_tally d" and t = t, OF assms(2) tally_keys(1,2)]
  have len: "int (length t') = int (length t) + int (length ?extra)"
    using count [where P = "\<lambda>r. True"] by (simp add: t' tally_additions_filter [OF assms(2)])
  have "sql_count (\<lambda>r. tally_chat r = c) t' \<le> max_tally_rows_per_chat" for c
  proof -
    have eq: "sql_count (\<lambda>r. tally_chat r = c) t' = sql_count (\<lambda>r. tally_chat r = c) t +
        int (length (filter (\<lambda>k. fst k = c) ?extra))"
      using count [where P = "\<lambda>r. tally_chat r = c"]
      by (simp add: t' tally_additions_filter [OF assms(2)] filter_map o_def tally_input_key_def conj_commute)
    show ?thesis
    proof (cases "filter (\<lambda>k. fst k = c) ?extra")
      case Nil
      with eq assms(3) show ?thesis by (simp add: tally_chunk_ok_def)
    next
      case (Cons k ks)
      then have "k \<in> set (filter (\<lambda>k. fst k = c) ?extra)" by simp
      then have "k \<in> set ?extra" "fst k = c" by simp_all
      with largest_tally_chat_ge [of k ?extra t] cap eq show ?thesis by simp
    qed
  qed
  moreover have "unique_key tally_key t'"
    unfolding t' by (rule unique_upsert_all) (use assms(3) in \<open>simp_all add: tally_chunk_ok_def\<close>)
  ultimately show "tally_chunk_ok t' current' added'"
    using len cur assms(3) by (simp add: tally_chunk_ok_def)
qed

lemma tally_chunks_Inr:
  assumes "tally_chunks limit d rowss (t, current, added) = Inr (t', current', added')"
    and "distinct (map tally_input_key (concat rowss))" and "tally_chunk_ok t current added"
    and "is_some_and (\<lambda>m. \<not> m < current) limit \<or> limit = None"
  shows "t' = upsert_all tally_key tally_input_key (first_tally d) (add_tally d) (concat rowss) t \<and>
    tally_chunk_ok t' current' added' \<and> current' - current = added' - added \<and> added \<le> added' \<and>
    (is_some_and (\<lambda>m. \<not> m < current') limit \<or> limit = None)"
  using assms
proof (induction rowss arbitrary: t current added)
  case Nil
  then show ?case by simp
next
  case (Cons rows rest)
  then obtain t1 c1 a1 where one: "tally_chunk limit d rows (t, current, added) = Inr (t1, c1, a1)"
    and rest: "tally_chunks limit d rest (t1, c1, a1) = Inr (t', current', added')"
    by (auto split: sum.splits)
  have "distinct (map tally_input_key rows)" "distinct (map tally_input_key (concat rest))"
    using Cons.prems(2) by simp_all
  note f = tally_chunk_Inr [OF one this(1) Cons.prems(3)]
  from Cons.IH [OF rest \<open>distinct (map tally_input_key (concat rest))\<close> f(2) f(5)] f
  show ?case by (auto simp: upsert_all_append)
qed

lemma apply_tallies_Inr:
  assumes "apply_tallies b db = Inr db'" and "tallies_ok db" and "distinct (map tally_input_key (sb_tallies b))"
  shows "tallies_ok db'" and "tallies db' = upsert_all tally_key tally_input_key
      (first_tally (sb_day b)) (add_tally (sb_day b)) (sb_tallies b) (tallies db)"
    and "core db' = core db" "receipts db' = receipts db" "awards db' = awards db"
      "opaque_serial db' = opaque_serial db" "max_tally_rows db' = max_tally_rows db"
proof -
  obtain t current extra where run: "tally_chunks (max_tally_rows db) (sb_day b) (chunks 1000 (sb_tallies b))
      (tallies db, tally_rows db, 0) = Inr (t, current, extra)"
    and lim: "0 < extra \<longrightarrow> tally_rows db + extra \<le> tally_limit db"
    and db': "db' = db\<lparr>tallies := t, tally_rows := tally_rows db + (if 0 < extra then extra else 0)\<rparr>"
    using assms(1) by (auto simp: apply_tallies_def split: sum.splits if_splits)
  have c: "concat (chunks 1000 (sb_tallies b)) = sb_tallies b" by (rule concat_chunks) simp
  have f: "t = upsert_all tally_key tally_input_key (first_tally (sb_day b)) (add_tally (sb_day b))
       (sb_tallies b) (tallies db) \<and> tally_chunk_ok t current extra \<and> current - tally_rows db = extra \<and> 0 \<le> extra"
    using tally_chunks_Inr [OF run] assms(2,3)
    by (auto simp: c tallies_ok_def tally_chunk_ok_def tally_limit_def split: option.splits)
  then show "tallies db' = upsert_all tally_key tally_input_key
      (first_tally (sb_day b)) (add_tally (sb_day b)) (sb_tallies b) (tallies db)"
    by (simp add: db')
  show "tallies_ok db'"
    using f lim assms(2) by (auto simp: db' tallies_ok_def tally_chunk_ok_def tally_limit_def)
  show "core db' = core db" "receipts db' = receipts db" "awards db' = awards db"
      "opaque_serial db' = opaque_serial db" "max_tally_rows db' = max_tally_rows db"
    by (simp_all add: db')
qed

section \<open>Facts on counters\<close>

lemma count_keys [simp]:
  "counter_key (first_count d w m b) = bump_key b" "counter_key (add_count d w m b r) = counter_key r"
  "total (first_count d w m b) = bump_added b" "total (add_count d w m b r) = total r + bump_added b"
  "awarded (first_count d w m b) = 0" "awarded (add_count d w m b r) = awarded r"
  by (simp_all add: first_count_def add_count_def counter_key_def blank_counter_def bump_key_def)

lemma new_rank_inj:
  assumes "distinct (map bump_key new)" and "x \<in> set new" and "y \<in> set new"
    and "bump_chat x = bump_chat y" and "new_rank new x = new_rank new y"
  shows "x = y"
proof -
  have less: False if xy: "x \<in> set new" "bump_chat x = bump_chat y" "bump_user x < bump_user y"
    "new_rank new x = new_rank new y" for x y
  proof -
    let ?below = "\<lambda>b. filter (\<lambda>q. bump_chat q = bump_chat b \<and> bump_user q < bump_user b) new"
    have d: "distinct new" using assms(1) by (simp add: distinct_map)
    have "set (?below x) \<subset> set (?below y)"
      using xy by auto
    then have "card (set (?below x)) < card (set (?below y))" by (intro psubset_card_mono) simp_all
    then have "length (?below x) < length (?below y)"
      using distinct_card [of "?below x"] distinct_card [of "?below y"] d by simp
    with xy(4) show False by (simp add: new_rank_def)
  qed
  have "bump_user x = bump_user y"
    using less [of x y] less [of y x] assms(2-5) by (metis linorder_neqE)
  with assms(4) have "bump_key x = bump_key y" by (simp add: bump_key_def)
  with assms(1-3) show ?thesis by (auto simp: distinct_map dest: inj_onD)
qed

lemma distinct_write:
  assumes "distinct (map bump_key rows)"
  shows "distinct (map bump_key (write_batch rows s))"
proof -
  have "bump_key ` set (existing_batch rows t) \<inter> bump_key ` set (allowed_new rows t) = {}" for t
    by (auto simp: existing_batch_def allowed_new_def new_batch_def Let_def)
  moreover have "distinct (map bump_key (existing_batch rows t))" "distinct (map bump_key (allowed_new rows t))" for t
    using assms by (simp_all add: existing_batch_def allowed_new_def new_batch_def Let_def distinct_map_filter)
  ultimately show ?thesis by (simp add: write_batch_def)
qed

text \<open>No chat gets more new members than it has room for.\<close>

lemma allowed_new_room:
  assumes "distinct (map bump_key rows)" and "sql_count (\<lambda>r. counter_chat r = c) t \<le> max_counter_rows_per_chat"
  shows "sql_count (\<lambda>r. counter_chat r = c) t + int (length (filter (\<lambda>b. bump_chat b = c) (allowed_new rows t)))
    \<le> max_counter_rows_per_chat"
proof -
  let ?new = "new_batch rows t" and ?n = "sql_count (\<lambda>r. counter_chat r = c) t"
  let ?in = "filter (\<lambda>b. bump_chat b = c) (allowed_new rows t)"
  have d: "distinct (map bump_key ?new)" using assms(1) by (simp add: new_batch_def distinct_map_filter)
  then have dn: "distinct ?in" by (auto simp: allowed_new_def Let_def distinct_map)
  have inj: "inj_on (new_rank ?new) (set ?in)"
    by (rule inj_onI, rule new_rank_inj [OF d]) (auto simp: allowed_new_def Let_def)
  have "new_rank ?new ` set ?in \<subseteq> {1..max_counter_rows_per_chat - ?n}"
    by (auto simp: allowed_new_def Let_def new_rank_def)
  then have "card (set ?in) \<le> card {1..max_counter_rows_per_chat - ?n}"
    using card_mono card_image [OF inj] by (metis finite_atLeastAtMost_int)
  then have "length ?in \<le> nat (max_counter_rows_per_chat - ?n)"
    unfolding distinct_card [OF dn] by simp
  with assms(2) show ?thesis by linarith
qed

definition count_result ::
  "int \<Rightarrow> int \<Rightarrow> int \<Rightarrow> bump list \<Rightarrow> counter_row table \<Rightarrow> counter_row table \<Rightarrow> bool" where
  "count_result d w m rows t t' \<longleftrightarrow> (\<forall>k. case row_at counter_key t k of
       Some r \<Rightarrow> row_at counter_key t' k = Some (case find (\<lambda>b. bump_key b = k) rows of
         None \<Rightarrow> r | Some b \<Rightarrow> add_count d w m b r)
     | None \<Rightarrow> row_at counter_key t' k = None \<or>
         (\<exists>b. find (\<lambda>b. bump_key b = k) rows = Some b \<and> row_at counter_key t' k = Some (first_count d w m b)))"

lemma find_key_in:
  "distinct (map f xs) \<Longrightarrow> x \<in> set xs \<Longrightarrow> f x = k \<Longrightarrow> find (\<lambda>x. f x = k) xs = Some x"
  by (induction xs) auto

lemma find_key_Some: "find (\<lambda>x. f x = k) xs = Some x \<Longrightarrow> x \<in> set xs \<and> f x = k"
  by (induction xs) (auto split: if_splits)

lemma counter_fold_at:
  assumes "distinct (map bump_key rows)" and "t' = upsert_all counter_key bump_key (first_count d w m)
      (add_count d w m) (write_batch rows s) (counters s)"
  shows "count_result d w m rows (counters s) t'"
  unfolding count_result_def
proof (intro allI)
  fix k
  note dw = distinct_write [OF assms(1), of s]
  have at: "row_at counter_key t' k = (case find (\<lambda>b. bump_key b = k) (write_batch rows s) of
      None \<Rightarrow> row_at counter_key (counters s) k
    | Some b \<Rightarrow> Some (case row_at counter_key (counters s) k of
        None \<Rightarrow> first_count d w m b | Some r \<Rightarrow> add_count d w m b r))"
    unfolding assms(2) by (rule row_at_upsert_all [OF dw]) simp_all
  have sub: "b \<in> set rows" if "b \<in> set (write_batch rows s)" for b
    using that by (auto simp: write_batch_def existing_batch_def allowed_new_def new_batch_def Let_def split: if_splits)
  have found: "find (\<lambda>b. bump_key b = k) rows = Some b" if "find (\<lambda>b. bump_key b = k) (write_batch rows s) = Some b" for b
    using find_key_Some [OF that] sub find_key_in [OF assms(1)] by blast
  show "case row_at counter_key (counters s) k of
       Some r \<Rightarrow> row_at counter_key t' k = Some (case find (\<lambda>b. bump_key b = k) rows of
         None \<Rightarrow> r | Some b \<Rightarrow> add_count d w m b r)
     | None \<Rightarrow> row_at counter_key t' k = None \<or>
         (\<exists>b. find (\<lambda>b. bump_key b = k) rows = Some b \<and> row_at counter_key t' k = Some (first_count d w m b))"
  proof (cases "row_at counter_key (counters s) k")
    case None
    with at found show ?thesis by (auto split: option.splits)
  next
    case (Some r)
    have "find (\<lambda>b. bump_key b = k) (write_batch rows s) = find (\<lambda>b. bump_key b = k) rows"
    proof (cases "find (\<lambda>b. bump_key b = k) rows")
      case None
      with found show ?thesis by (cases "find (\<lambda>b. bump_key b = k) (write_batch rows s)") auto
    next
      case (Some b)
      with find_key_Some [OF Some] \<open>row_at counter_key (counters s) k = Some r\<close>
      have "b \<in> set (write_batch rows s)" by (simp add: write_batch_def existing_batch_def)
      with find_key_in [OF dw] find_key_Some [OF Some] Some show ?thesis by simp
    qed
    with at Some show ?thesis by (simp split: option.splits)
  qed
qed

lemma write_fresh:
  "filter (\<lambda>b. row_at counter_key (counters s) (bump_key b) = None \<and> P b) (write_batch rows s) =
    (if reserved_new rows s then filter P (allowed_new rows (counters s)) else [])"
proof -
  have "filter (\<lambda>b. row_at counter_key (counters s) (bump_key b) = None \<and> P b)
      (existing_batch rows (counters s)) = []"
    by (auto simp: existing_batch_def filter_empty_conv)
  moreover have "filter (\<lambda>b. row_at counter_key (counters s) (bump_key b) = None \<and> P b)
      (allowed_new rows (counters s)) = filter P (allowed_new rows (counters s))"
    by (rule filter_cong) (auto simp: allowed_new_def new_batch_def Let_def)
  ultimately show ?thesis by (simp add: write_batch_def)
qed

lemma counter_fold_Inr:
  assumes "counter_fold d w m rows s = Inr (s', changed)" and "counters_ok s" and "distinct (map bump_key rows)"
  shows "counters_ok s'" and "count_result d w m rows (counters s) (counters s')"
    and "s' = s\<lparr>counters := counters s', counter_rows := counter_rows s'\<rparr>"
    and "changed = List.map_filter (\<lambda>b. row_at counter_key (counters s') (bump_key b)) (write_batch rows s)"
proof -
  let ?written = "write_batch rows s"
  let ?t = "upsert_all counter_key bump_key (first_count d w m) (add_count d w m) ?written (counters s)"
  let ?new = "if reserved_new rows s then int (length (allowed_new rows (counters s))) else 0"
  from assms(1) have s': "s' = s\<lparr>counters := ?t, counter_rows := counter_rows s + ?new\<rparr>"
    and ch: "changed = List.map_filter (\<lambda>b. row_at counter_key ?t (bump_key b)) ?written"
    by (simp_all add: counter_fold_def Let_def split: if_splits)
  then show "s' = s\<lparr>counters := counters s', counter_rows := counter_rows s'\<rparr>"
    and "changed = List.map_filter (\<lambda>b. row_at counter_key (counters s') (bump_key b)) (write_batch rows s)"
    by simp_all
  show "count_result d w m rows (counters s) (counters s')"
    using counter_fold_at [OF assms(3)] s' by simp
  note count = sql_count_upsert_all [where key = counter_key and kf = bump_key and xs = ?written
      and new = "first_count d w m" and upd = "add_count d w m" and t = "counters s",
      OF distinct_write [OF assms(3)] count_keys(1,2)]
  have chat: "counter_chat (first_count d w m b) = bump_chat b" "counter_chat (add_count d w m b r) = counter_chat r" for b r
    by (simp_all add: counter_chat_fst bump_key_def)
  note fresh = write_fresh [of s _ rows]
  have len: "int (length ?t) = int (length (counters s)) + ?new"
    using count [where P = "\<lambda>r. True"] fresh [of "\<lambda>b. True"] by simp
  have cap: "sql_count (\<lambda>r. counter_chat r = c) ?t \<le> max_counter_rows_per_chat" for c
    using count [where P = "\<lambda>r. counter_chat r = c"] fresh [of "\<lambda>b. bump_chat b = c"]
      allowed_new_room [OF assms(3), of c "counters s"] assms(2)
    by (simp add: chat counters_ok_def split: if_splits)
  have "unique_key counter_key ?t"
    by (rule unique_upsert_all) (use assms(2) in \<open>simp_all add: counters_ok_def\<close>)
  with len cap assms(2) show "counters_ok s'"
    by (auto simp: s' counters_ok_def counter_limit_def reserved_new_def)
qed

lemma find_append: "find P (xs @ ys) = (case find P xs of None \<Rightarrow> find P ys | Some x \<Rightarrow> Some x)"
  by (induction xs) simp_all

lemma find_key_disjoint:
  assumes "distinct (map f (xs @ ys))" and "find (\<lambda>x. f x = k) ys = Some y"
  shows "find (\<lambda>x. f x = k) xs = None"
proof -
  have "k \<in> f ` set ys" using find_key_Some [OF assms(2)] by blast
  with assms(1) show ?thesis by (fastforce simp: find_None_iff)
qed

lemma count_result_trans:
  assumes "count_result d w m rows t t1" and "count_result d w m rest t1 t2"
    and "distinct (map bump_key (rows @ rest))"
  shows "count_result d w m (rows @ rest) t t2"
  unfolding count_result_def
proof (intro allI)
  fix k
  note f = find_append [of "\<lambda>b. bump_key b = k" rows rest]
    find_key_disjoint [OF assms(3), of k]
  show "case row_at counter_key t k of
       Some r \<Rightarrow> row_at counter_key t2 k = Some (case find (\<lambda>b. bump_key b = k) (rows @ rest) of
         None \<Rightarrow> r | Some b \<Rightarrow> add_count d w m b r)
     | None \<Rightarrow> row_at counter_key t2 k = None \<or>
         (\<exists>b. find (\<lambda>b. bump_key b = k) (rows @ rest) = Some b \<and> row_at counter_key t2 k = Some (first_count d w m b))"
    using assms(1) [unfolded count_result_def, rule_format, of k]
      assms(2) [unfolded count_result_def, rule_format, of k] f
    by (auto split: option.splits)
qed

lemma count_result_refl: "count_result d w m [] t t"
  by (simp add: count_result_def split: option.splits)

text \<open>What the loop over the changed rows yields.\<close>

definition award_of ::
  "(chat_id \<Rightarrow> int \<Rightarrow> int \<Rightarrow> int \<Rightarrow> int option) \<Rightarrow> bump list \<Rightarrow> counter_row \<Rightarrow> new_award option" where
  "award_of rank batch r =
     (case find (\<lambda>b. bump_key b = counter_key r) (rev batch) of
        None \<Rightarrow> None
      | Some b \<Rightarrow> map_option (\<lambda>ms. \<lparr>na_chat = counter_chat r, na_user = counter_user r,
            na_name = counter_name r, na_total = total r, na_awarded = awarded r, na_milestone = ms\<rparr>)
          (rank (counter_chat r) (total r - bump_added b) (total r) (awarded r)))"

lemma map_filter_Cons:
  "List.map_filter f (x # xs) = (case f x of None \<Rightarrow> List.map_filter f xs | Some y \<Rightarrow> y # List.map_filter f xs)"
  by (simp add: List.map_filter_def split: option.splits)

lemma collect_awards_Inr:
  "collect_awards rank batch rs = Inr out \<Longrightarrow> out = List.map_filter (award_of rank batch) rs"
proof (induction rs arbitrary: out)
  case Nil
  then show ?case by (simp add: List.map_filter_def)
next
  case (Cons r rs)
  then obtain b where b: "find (\<lambda>b. bump_key b = counter_key r) (rev batch) = Some b"
    by (auto split: sum.splits option.splits)
  show ?case
  proof (cases "rank (counter_chat r) (total r - bump_added b) (total r) (awarded r)")
    case None
    with Cons b show ?thesis
      by (auto simp: map_filter_Cons award_of_def nonnegative_counter_def split: if_splits)
  next
    case (Some m)
    with Cons b show ?thesis
      by (auto simp: map_filter_Cons award_of_def nonnegative_counter_def postgres_i64_def
          split: if_splits sum.splits)
  qed
qed

lemma award_of_key: "award_of rank batch r = Some a \<Longrightarrow> new_award_key a = counter_key r"
  by (auto simp: award_of_def new_award_key_def counter_key_def split: option.splits)

lemma changed_keys:
  assumes "counter_fold d w m rows s = Inr (s', changed)" and "counters_ok s" and "distinct (map bump_key rows)"
  shows "distinct (map counter_key changed)" and "\<forall>r \<in> set changed. row_at counter_key (counters s') (counter_key r) = Some r"
proof -
  note f = counter_fold_Inr(4) [OF assms]
  have k: "counter_key r = bump_key b" if "row_at counter_key (counters s') (bump_key b) = Some r" for r b
    using row_at_Some [OF that] by simp
  have "distinct (map counter_key (List.map_filter (\<lambda>b. row_at counter_key (counters s') (bump_key b)) bs)) \<and>
      counter_key ` set (List.map_filter (\<lambda>b. row_at counter_key (counters s') (bump_key b)) bs) \<subseteq> bump_key ` set bs"
    if "distinct (map bump_key bs)" for bs
    using that
  proof (induction bs)
    case Nil
    then show ?case by (simp add: List.map_filter_def)
  next
    case (Cons b bs)
    then show ?case using k by (auto simp: map_filter_Cons split: option.splits)
  qed
  from this [OF distinct_write [OF assms(3)]] show "distinct (map counter_key changed)"
    by (simp add: f)
  show "\<forall>r \<in> set changed. row_at counter_key (counters s') (counter_key r) = Some r"
    using k by (auto simp: f List.map_filter_def)
qed

lemma distinct_awards:
  assumes "distinct (map counter_key rs)"
  shows "distinct (map new_award_key (List.map_filter (award_of rank batch) rs)) \<and>
    new_award_key ` set (List.map_filter (award_of rank batch) rs) \<subseteq> counter_key ` set rs"
  using assms
proof (induction rs)
  case Nil
  then show ?case by (simp add: List.map_filter_def)
next
  case (Cons r rs)
  then show ?case using award_of_key by (auto simp: map_filter_Cons split: option.splits)
qed

text \<open>One chunk, and all of them.\<close>

definition counts_frame :: "stats_db \<Rightarrow> stats_db \<Rightarrow> bool" where
  "counts_frame db db' \<longleftrightarrow> tallies db' = tallies db \<and> tally_rows db' = tally_rows db \<and>
     max_tally_rows db' = max_tally_rows db \<and> receipts db' = receipts db \<and>
     opaque_serial db' = opaque_serial db"

lemma count_chunk_Inr:
  assumes "count_chunk rank now d rows db = Inr db'"
  shows "\<exists>changed. counter_fold d (d div 7) (d div 30) rows (core db) = Inr (core db', changed) \<and>
    counts_frame db db' \<and>
    awards db' = upsert_all award_key new_award_key (first_award now) again_award
      (List.map_filter (award_of rank rows) changed) (awards db)"
proof -
  obtain s changed new where "counter_fold d (d div 7) (d div 30) rows (core db) = Inr (s, changed)"
    and "collect_awards rank rows changed = Inr new"
    and "db' = db\<lparr>core := s, awards := upsert_all award_key new_award_key (first_award now) again_award new (awards db)\<rparr>"
    using assms by (auto simp: count_chunk_def split: if_splits sum.splits)
  with collect_awards_Inr [of rank rows changed new] show ?thesis by (simp add: counts_frame_def)
qed

lemma count_chunks_Inr:
  assumes "count_chunks rank now d rowss db = Inr db'" and "counters_ok (core db)"
    and "distinct (map bump_key (concat rowss))"
  shows "counters_ok (core db') \<and> counts_frame db db' \<and>
    count_result d (d div 7) (d div 30) (concat rowss) (counters (core db)) (counters (core db'))"
  using assms
proof (induction rowss arbitrary: db)
  case Nil
  then show ?case by (simp add: count_result_refl counts_frame_def)
next
  case (Cons rows rest)
  then obtain db1 where one: "count_chunk rank now d rows db = Inr db1"
    and rest: "count_chunks rank now d rest db1 = Inr db'"
    by (auto split: sum.splits)
  obtain changed where fold: "counter_fold d (d div 7) (d div 30) rows (core db) = Inr (core db1, changed)"
    and db1: "counts_frame db db1"
    using count_chunk_Inr [OF one] by blast
  have dr: "distinct (map bump_key rows)" "distinct (map bump_key (concat rest))"
    using Cons.prems(3) by simp_all
  note f = counter_fold_Inr [OF fold Cons.prems(2) dr(1)]
  note IH = Cons.IH [OF rest f(1) dr(2)]
  have "count_result d (d div 7) (d div 30) (rows @ concat rest) (counters (core db)) (counters (core db'))"
    by (rule count_result_trans [OF f(2)]) (use IH Cons.prems(3) in simp_all)
  with IH db1 show ?case by (simp add: counts_frame_def)
qed

text \<open>Every refusal is permanent.\<close>

lemma apply_tallies_Inl: "apply_tallies b db = Inl e \<Longrightarrow> is_permanent e"
proof -
  have one: "tally_chunk limit d rows acc = Inl e \<Longrightarrow> is_permanent e" for limit d rows acc
    by (auto simp: tally_chunk_def Let_def split: prod.splits if_splits)
  have "tally_chunks limit d rowss acc = Inl e \<Longrightarrow> is_permanent e" for limit d rowss acc
    by (induction limit d rowss acc rule: tally_chunks.induct) (auto dest: one split: sum.splits)
  then show "apply_tallies b db = Inl e \<Longrightarrow> is_permanent e"
    by (auto simp: apply_tallies_def split: sum.splits if_splits)
qed

lemma collect_awards_Inl: "collect_awards rank batch rs = Inl e \<Longrightarrow> is_permanent e"
  by (induction rs)
    (auto simp: nonnegative_counter_def postgres_i64_def split: sum.splits option.splits if_splits)

lemma count_chunks_Inl: "count_chunks rank now d rowss db = Inl e \<Longrightarrow> is_permanent e"
  by (induction rank now d rowss db rule: count_chunks.induct)
    (auto simp: count_chunk_def counter_fold_def Let_def dest: collect_awards_Inl
      split: sum.splits if_splits)

text \<open>The transaction as a whole.\<close>

definition stats_ok :: "stats_db \<Rightarrow> bool" where
  "stats_ok db \<longleftrightarrow> counters_ok (core db) \<and> tallies_ok db \<and> unique_key rc_id (receipts db)"

lemma apply_stats_Inr_True:
  assumes "apply_stats to_json sha rank now b db = (db', Inr True)"
  shows "\<exists>db1. row_at rc_id (receipts db) (sb_id b) = None \<and> sb_day b \<le> i64_max \<and>
    batch_digest to_json sha b = Inr (sha (to_json b)) \<and>
    apply_tallies b (add_receipt (sb_id b) (sha (to_json b)) now db) = Inr db1 \<and>
    count_chunks rank now (sb_day b) (chunks 5000 (sb_counts b)) db1 = Inr db' \<and>
    distinct (map tally_input_key (sb_tallies b)) \<and> distinct (map bump_key (sb_counts b))"
  using assms
  by (auto simp: apply_stats_def postgres_i64_def dest!: batch_digest_Inr
      split: sum.splits option.splits if_splits)

lemma apply_stats_not_True:
  assumes "apply_stats to_json sha rank now b db = (db', r)" and "r \<noteq> Inr True"
  shows "db' = db"
  using assms by (auto simp: apply_stats_def split: sum.splits option.splits if_splits)

lemma apply_stats_Inl:
  "apply_stats to_json sha rank now b db = (db', Inl e) \<Longrightarrow> is_permanent e"
  by (cases "encoded to_json b")
    (auto simp: apply_stats_def batch_digest_def postgres_i64_def
      dest: apply_tallies_Inl count_chunks_Inl split: sum.splits option.splits if_splits)

lemma apply_stats_ok:
  assumes "apply_stats to_json sha rank now b db = (db', Inr True)" and "stats_ok db"
  shows "stats_ok db'"
    and "row_at rc_id (receipts db') = (row_at rc_id (receipts db))(sb_id b \<mapsto>
      \<lparr>rc_id = sb_id b, rc_digest = Some (sha (to_json b)), rc_applied = now\<rparr>)"
    and "tallies db' = upsert_all tally_key tally_input_key (first_tally (sb_day b)) (add_tally (sb_day b))
      (sb_tallies b) (tallies db)"
    and "count_result (sb_day b) (sb_day b div 7) (sb_day b div 30) (sb_counts b)
      (counters (core db)) (counters (core db'))"
proof -
  obtain db1 where fresh: "row_at rc_id (receipts db) (sb_id b) = None"
    and t: "apply_tallies b (add_receipt (sb_id b) (sha (to_json b)) now db) = Inr db1"
    and c: "count_chunks rank now (sb_day b) (chunks 5000 (sb_counts b)) db1 = Inr db'"
    and d: "distinct (map tally_input_key (sb_tallies b))" "distinct (map bump_key (sb_counts b))"
    using apply_stats_Inr_True [OF assms(1)] by blast
  let ?db0 = "add_receipt (sb_id b) (sha (to_json b)) now db"
  have 0: "tallies_ok ?db0" "core ?db0 = core db" "tallies ?db0 = tallies db"
    using assms(2) by (simp_all add: stats_ok_def tallies_ok_def tally_limit_def add_receipt_def)
  note f = apply_tallies_Inr [OF t 0(1) d(1)]
  have ch: "concat (chunks 5000 (sb_counts b)) = sb_counts b" by (rule concat_chunks) simp
  have g: "counters_ok (core db') \<and> counts_frame db1 db' \<and> count_result (sb_day b) (sb_day b div 7)
      (sb_day b div 30) (sb_counts b) (counters (core db1)) (counters (core db'))"
    using count_chunks_Inr [OF c] f(3) assms(2) d(2) 0(2) by (simp add: ch stats_ok_def)
  have rc: "receipts db' = receipts ?db0" using g f(4) by (simp add: counts_frame_def)
  then show "row_at rc_id (receipts db') = (row_at rc_id (receipts db))(sb_id b \<mapsto>
      \<lparr>rc_id = sb_id b, rc_digest = Some (sha (to_json b)), rc_applied = now\<rparr>)"
    using fresh by (auto simp: add_receipt_def row_at_insert fun_eq_iff split: option.splits)
  show "tallies db' = upsert_all tally_key tally_input_key (first_tally (sb_day b)) (add_tally (sb_day b))
      (sb_tallies b) (tallies db)"
    using g f(2) 0(3) by (simp add: counts_frame_def)
  show "count_result (sb_day b) (sb_day b div 7) (sb_day b div 30) (sb_counts b)
      (counters (core db)) (counters (core db'))"
    using g f(3) 0(2) by simp
  have "tallies_ok db'" using f(1) g by (simp add: tallies_ok_def counts_frame_def tally_limit_def)
  moreover have "unique_key rc_id (receipts db')"
    using assms(2) fresh by (simp add: rc add_receipt_def stats_ok_def unique_insert)
  ultimately show "stats_ok db'" using g by (simp add: stats_ok_def)
qed


section \<open>Room for new members\<close>

definition room_for :: "bump list \<Rightarrow> store \<Rightarrow> bool" where
  "room_for rows s \<longleftrightarrow> counter_rows s + int (length rows) \<le> counter_limit s \<and>
     (\<forall>b \<in> set rows. sql_count (\<lambda>r. counter_chat r = bump_chat b) (counters s) + int (length rows)
        \<le> max_counter_rows_per_chat)"

lemma room_for_append:
  assumes "room_for (rows @ rest) s"
  shows "room_for rows s"
  unfolding room_for_def
proof (intro conjI ballI)
  show "counter_rows s + int (length rows) \<le> counter_limit s"
    using assms by (simp add: room_for_def)
  fix x assume "x \<in> set rows"
  then have "sql_count (\<lambda>r. counter_chat r = bump_chat x) (counters s) + int (length (rows @ rest))
      \<le> max_counter_rows_per_chat"
    using assms unfolding room_for_def by auto
  then show "sql_count (\<lambda>r. counter_chat r = bump_chat x) (counters s) + int (length rows)
      \<le> max_counter_rows_per_chat" by simp
qed

lemma allowed_new_length: "length (filter P (allowed_new rows t)) \<le> length rows"
proof -
  have "length (filter P (allowed_new rows t)) \<le> length (allowed_new rows t)" by simp
  also have "... \<le> length (new_batch rows t)" by (simp add: allowed_new_def Let_def)
  also have "... \<le> length rows" by (simp add: new_batch_def)
  finally show ?thesis .
qed

lemma counter_fold_grows:
  assumes "counter_fold d w m rows s = Inr (s', changed)" and "distinct (map bump_key rows)"
  shows "sql_count (\<lambda>r. counter_chat r = c) (counters s') \<le>
      sql_count (\<lambda>r. counter_chat r = c) (counters s) + int (length rows)"
    and "counter_rows s' \<le> counter_rows s + int (length rows)"
    and "counter_limit s' = counter_limit s"
proof -
  let ?written = "write_batch rows s"
  from assms(1) have s': "counters s' = upsert_all counter_key bump_key (first_count d w m) (add_count d w m)
        ?written (counters s)"
    and n: "counter_rows s' = counter_rows s +
      (if reserved_new rows s then int (length (allowed_new rows (counters s))) else 0)"
    and l: "max_counter_rows s' = max_counter_rows s"
    by (auto simp: counter_fold_def Let_def split: if_splits)
  show "counter_limit s' = counter_limit s" by (simp add: counter_limit_def l)
  show "counter_rows s' \<le> counter_rows s + int (length rows)"
    using n allowed_new_length [of "\<lambda>b. True" rows "counters s"] by simp
  have chat: "counter_chat (first_count d w m b) = bump_chat b" "counter_chat (add_count d w m b r) = counter_chat r" for b r
    by (simp_all add: counter_chat_fst bump_key_def)
  have "sql_count (\<lambda>r. counter_chat r = c) (counters s') = sql_count (\<lambda>r. counter_chat r = c) (counters s) +
      int (length (filter (\<lambda>b. row_at counter_key (counters s) (bump_key b) = None \<and> bump_chat b = c) ?written))"
    using sql_count_upsert_all [where key = counter_key and kf = bump_key and xs = ?written
      and new = "first_count d w m" and upd = "add_count d w m" and t = "counters s"
      and P = "\<lambda>r. counter_chat r = c", OF distinct_write [OF assms(2)] count_keys(1,2)]
    by (simp add: chat s')
  then show "sql_count (\<lambda>r. counter_chat r = c) (counters s') \<le>
      sql_count (\<lambda>r. counter_chat r = c) (counters s) + int (length rows)"
    using allowed_new_length [of "\<lambda>b. bump_chat b = c" rows "counters s"] by (simp add: write_fresh)
qed

lemma count_result_keeps:
  assumes "count_result d w m rows t t'" and "row_at counter_key t k \<noteq> None"
  shows "row_at counter_key t' k \<noteq> None"
  using assms(1) [unfolded count_result_def, rule_format, of k] assms(2) by auto

lemma counter_fold_room:
  assumes "counter_fold d w m rows s = Inr (s', changed)" and "counters_ok s"
    and "distinct (map bump_key rows)" and "room_for rows s" and "b \<in> set rows"
  shows "row_at counter_key (counters s') (bump_key b) \<noteq> None"
proof (cases "row_at counter_key (counters s) (bump_key b)")
  case None
  let ?new = "new_batch rows (counters s)"
  have rank: "new_rank ?new x \<le> int (length rows)" if "x \<in> set rows" "x \<in> set ?new" for x
  proof -
    have "length (filter (\<lambda>q. bump_chat q = bump_chat x \<and> bump_user q < bump_user x) ?new) < length ?new"
      by (rule length_filter_less [of x]) (use that in simp_all)
    also have "... \<le> length rows" by (simp add: new_batch_def)
    finally show ?thesis by (simp add: new_rank_def)
  qed
  have all: "allowed_new rows (counters s) = ?new"
    unfolding allowed_new_def Let_def
  proof (rule filter_True, rule ballI)
    fix x assume x: "x \<in> set ?new"
    then have "x \<in> set rows" by (simp add: new_batch_def)
    with rank [OF this x] assms(4)
    show "sql_count (\<lambda>r. counter_chat r = bump_chat x) (counters s) + new_rank ?new x \<le> max_counter_rows_per_chat"
      unfolding room_for_def by fastforce
  qed
  have b: "b \<in> set ?new" using None assms(5) by (simp add: new_batch_def)
  have "length ?new \<le> length rows" by (simp add: new_batch_def)
  with all b assms(4) have "reserved_new rows s"
    by (auto simp: reserved_new_def room_for_def)
  then have "b \<in> set (write_batch rows s)" using all b by (simp add: write_batch_def)
  then have "find (\<lambda>x. bump_key x = bump_key b) (write_batch rows s) = Some b"
    by (rule find_key_in [OF distinct_write [OF assms(3)] _ refl])
  moreover have "row_at counter_key (counters s') (bump_key b) =
      (case find (\<lambda>x. bump_key x = bump_key b) (write_batch rows s) of
       None \<Rightarrow> row_at counter_key (counters s) (bump_key b)
     | Some x \<Rightarrow> Some (case row_at counter_key (counters s) (bump_key b) of
         None \<Rightarrow> first_count d w m x | Some r \<Rightarrow> add_count d w m x r))"
  proof -
    have "counters s' = upsert_all counter_key bump_key (first_count d w m) (add_count d w m)
        (write_batch rows s) (counters s)"
      using assms(1) by (auto simp: counter_fold_def Let_def split: if_splits)
    then show ?thesis
      using row_at_upsert_all [where key = counter_key and new = "first_count d w m" and
        upd = "add_count d w m", OF distinct_write [OF assms(3)] count_keys(1,2)] by simp
  qed
  ultimately show ?thesis by simp
next
  case (Some r)
  show ?thesis by (rule count_result_keeps [OF counter_fold_Inr(2) [OF assms(1-3)]]) (simp add: Some)
qed

lemma count_chunks_room:
  assumes "count_chunks rank now d rowss db = Inr db'" and "counters_ok (core db)"
    and "distinct (map bump_key (concat rowss))" and "room_for (concat rowss) (core db)"
    and "b \<in> set (concat rowss)"
  shows "row_at counter_key (counters (core db')) (bump_key b) \<noteq> None"
  using assms
proof (induction rowss arbitrary: db)
  case Nil
  then show ?case by simp
next
  case (Cons rows rest)
  then obtain db1 where one: "count_chunk rank now d rows db = Inr db1"
    and rest: "count_chunks rank now d rest db1 = Inr db'"
    by (auto split: sum.splits)
  obtain changed where fold: "counter_fold d (d div 7) (d div 30) rows (core db) = Inr (core db1, changed)"
    using count_chunk_Inr [OF one] by blast
  have dr: "distinct (map bump_key rows)" "distinct (map bump_key (concat rest))"
    using Cons.prems(3) by simp_all
  note f = counter_fold_Inr [OF fold Cons.prems(2) dr(1)] and g = counter_fold_grows [OF fold dr(1)]
  show ?case
  proof (cases "b \<in> set rows")
    case True
    have "room_for rows (core db)" by (rule room_for_append [OF Cons.prems(4) [unfolded concat.simps]])
    from counter_fold_room [OF fold Cons.prems(2) dr(1) this True] count_chunks_Inr [OF rest f(1) dr(2)]
    show ?thesis by (blast dest: count_result_keeps)
  next
    case False
    have "room_for (concat rest) (core db1)"
      unfolding room_for_def
    proof (intro conjI ballI)
      show "counter_rows (core db1) + int (length (concat rest)) \<le> counter_limit (core db1)"
        using g(2,3) Cons.prems(4) by (simp add: room_for_def)
      fix x assume "x \<in> set (concat rest)"
      then have "sql_count (\<lambda>r. counter_chat r = bump_chat x) (counters (core db)) +
          int (length (concat (rows # rest))) \<le> max_counter_rows_per_chat"
        using Cons.prems(4) unfolding room_for_def by auto
      with g(1) [of "bump_chat x"]
      show "sql_count (\<lambda>r. counter_chat r = bump_chat x) (counters (core db1)) + int (length (concat rest))
          \<le> max_counter_rows_per_chat" by simp
    qed
    with Cons.IH [OF rest f(1) dr(2)] False Cons.prems(5) show ?thesis by simp
  qed
qed

section \<open>What is counted\<close>

text \<open>
  The abstract view: how much a chat's tally shows for a day, how many messages a member has, and
  what a batch adds to either.
\<close>

definition tally_on :: "stats_db \<Rightarrow> chat_id \<Rightarrow> utext \<Rightarrow> int \<Rightarrow> int" where
  "tally_on db c n d = (case row_at tally_key (tallies db) (c, n) of
     None \<Rightarrow> 0 | Some r \<Rightarrow> if tally_day r = d then tally_count r else 0)"

definition batch_tally :: "stats_batch \<Rightarrow> chat_id \<Rightarrow> utext \<Rightarrow> int" where
  "batch_tally b c n = sum_list (map (\<lambda>x. if tally_input_key x = (c, n) then snd (snd x) else 0) (sb_tallies b))"

definition messages :: "stats_db \<Rightarrow> member \<Rightarrow> int" where
  "messages db k = (case row_at counter_key (counters (core db)) k of None \<Rightarrow> 0 | Some r \<Rightarrow> total r)"

definition batch_count :: "stats_batch \<Rightarrow> member \<Rightarrow> int" where
  "batch_count b k = sum_list (map (\<lambda>x. if bump_key x = k then bump_added x else 0) (sb_counts b))"

lemma sum_list_find:
  fixes g :: "'a \<Rightarrow> int"
  assumes "distinct (map f xs)"
  shows "sum_list (map (\<lambda>x. if f x = k then g x else 0) xs) =
    (case find (\<lambda>x. f x = k) xs of None \<Rightarrow> 0 | Some x \<Rightarrow> g x)"
  using assms
proof (induction xs)
  case Nil
  then show ?case by simp
next
  case (Cons x xs)
  show ?case
  proof (cases "f x = k")
    case True
    with Cons.prems have "find (\<lambda>x. f x = k) xs = None" by (auto simp: find_None_iff image_iff)
    with Cons True show ?thesis by simp
  next
    case False
    with Cons show ?thesis by simp
  qed
qed

lemma apply_stats_distinct:
  assumes "apply_stats to_json sha rank now b db = (db', Inr True)"
  shows "distinct (map tally_input_key (sb_tallies b))" and "distinct (map bump_key (sb_counts b))"
  using apply_stats_Inr_True [OF assms] by blast+

lemma tally_on_applied:
  assumes "apply_stats to_json sha rank now b db = (db', Inr True)" and "stats_ok db"
  shows "tally_on db' c n (sb_day b) = tally_on db c n (sb_day b) + batch_tally b c n"
proof -
  let ?hit = "find (\<lambda>x. tally_input_key x = (c, n)) (sb_tallies b)"
  note d = apply_stats_distinct(1) [OF assms(1)]
  have at: "row_at tally_key (tallies db') (c, n) = (case ?hit of
      None \<Rightarrow> row_at tally_key (tallies db) (c, n)
    | Some x \<Rightarrow> Some (case row_at tally_key (tallies db) (c, n) of
        None \<Rightarrow> first_tally (sb_day b) x | Some r \<Rightarrow> add_tally (sb_day b) x r))"
    unfolding apply_stats_ok(3) [OF assms]
    by (rule row_at_upsert_all [where key = tally_key, OF d tally_keys(1,2)])
  have "batch_tally b c n = (case ?hit of None \<Rightarrow> 0 | Some x \<Rightarrow> snd (snd x))"
    unfolding batch_tally_def by (rule sum_list_find [OF d])
  then show ?thesis
    by (cases ?hit; cases "row_at tally_key (tallies db) (c, n)")
      (simp_all add: tally_on_def at first_tally_def add_tally_def)
qed

lemma messages_applied:
  assumes "apply_stats to_json sha rank now b db = (db', Inr True)" and "stats_ok db"
  shows "messages db' k = messages db k +
    (if row_at counter_key (counters (core db')) k = None then 0 else batch_count b k)"
proof -
  let ?hit = "find (\<lambda>x. bump_key x = k) (sb_counts b)"
  note at = apply_stats_ok(4) [OF assms, unfolded count_result_def, rule_format, of k]
  have sum: "batch_count b k = (case ?hit of None \<Rightarrow> 0 | Some x \<Rightarrow> bump_added x)"
    unfolding batch_count_def by (rule sum_list_find [OF apply_stats_distinct(2) [OF assms(1)]])
  show ?thesis
  proof (cases "row_at counter_key (counters (core db)) k")
    case None
    with at sum show ?thesis by (auto simp: messages_def)
  next
    case (Some r)
    with at have at': "row_at counter_key (counters (core db')) k = Some (case ?hit of
      None \<Rightarrow> r | Some b' \<Rightarrow> add_count (sb_day b) (sb_day b div 7) (sb_day b div 30) b' r)" by simp
    show ?thesis by (cases ?hit) (simp_all add: messages_def Some at' sum)
  qed
qed

lemma messages_room:
  assumes "apply_stats to_json sha rank now b db = (db', Inr True)" and "stats_ok db"
    and "room_for (sb_counts b) (core db)"
  shows "messages db' k = messages db k + batch_count b k"
proof (cases "row_at counter_key (counters (core db')) k")
  case None
  obtain db1 where t: "apply_tallies b (add_receipt (sb_id b) (sha (to_json b)) now db) = Inr db1"
    and c: "count_chunks rank now (sb_day b) (chunks 5000 (sb_counts b)) db1 = Inr db'"
    and d: "distinct (map tally_input_key (sb_tallies b))" "distinct (map bump_key (sb_counts b))"
    using apply_stats_Inr_True [OF assms(1)] by blast
  have "tallies_ok (add_receipt (sb_id b) (sha (to_json b)) now db)"
    using assms(2) by (simp add: stats_ok_def tallies_ok_def tally_limit_def add_receipt_def)
  from apply_tallies_Inr(3) [OF t this d(1)] have core: "core db1 = core db" by (simp add: add_receipt_def)
  have ch: "concat (chunks 5000 (sb_counts b)) = sb_counts b" by (rule concat_chunks) simp
  have "counters_ok (core db1)" using assms(2) core by (simp add: stats_ok_def)
  from count_chunks_room [OF c this] d(2) assms(3) core
  have "row_at counter_key (counters (core db')) (bump_key x) \<noteq> None" if "x \<in> set (sb_counts b)" for x
    using that by (simp add: ch)
  with None have "k \<notin> bump_key ` set (sb_counts b)" by (metis imageE)
  moreover have "sum_list (map (\<lambda>x. if bump_key x = k then bump_added x else 0) xs) = 0"
    if "k \<notin> bump_key ` set xs" for xs
    using that by (induction xs) auto
  ultimately have "batch_count b k = 0" by (simp add: batch_count_def)
  with messages_applied [OF assms(1,2), of k] show ?thesis by simp
next
  case (Some r)
  with messages_applied [OF assms(1,2), of k] show ?thesis by simp
qed

section \<open>Properties\<close>

text \<open>
  C12: a batch counts once. A refused batch changes nothing and the refusal is permanent; an
  accepted one was applied now exactly when it had no receipt yet, otherwise nothing changes; and
  after either, applying it again, at any time and under any rank rule, answers that it was there
  and changes nothing. The budgets of rows are kept.
\<close>

theorem statistics_applied_once:
  assumes "stats_ok db" and "apply_stats to_json sha rank now b db = (db', r)"
  shows "case r of
      Inl e \<Rightarrow> db' = db \<and> is_permanent e
    | Inr fresh \<Rightarrow> stats_ok db' \<and> (fresh \<longleftrightarrow> row_at rc_id (receipts db) (sb_id b) = None) \<and>
        (fresh \<or> db' = db) \<and> apply_stats to_json sha rank' now' b db' = (db', Inr False)"
proof (cases r)
  case (Inl e)
  with assms(2) apply_stats_not_True apply_stats_Inl show ?thesis by fastforce
next
  case (Inr fresh)
  have again: "apply_stats to_json sha rank' now' b db' = (db', Inr False)"
    if "batch_digest to_json sha b = Inr dg" "sb_day b \<le> i64_max"
      "row_at rc_id (receipts db') (sb_id b) = Some q" "rc_digest q = Some dg" for dg q
    using that by (simp add: apply_stats_def postgres_i64_def)
  show ?thesis
  proof (cases fresh)
    case True
    with assms(2) Inr have run: "apply_stats to_json sha rank now b db = (db', Inr True)" by simp
    have fresh: "row_at rc_id (receipts db) (sb_id b) = None" "sb_day b \<le> i64_max"
      "batch_digest to_json sha b = Inr (sha (to_json b))"
      using apply_stats_Inr_True [OF run] by blast+
    have "apply_stats to_json sha rank' now' b db' = (db', Inr False)"
      by (rule again [OF fresh(3,2), where q = "\<lparr>rc_id = sb_id b, rc_digest = Some (sha (to_json b)),
        rc_applied = now\<rparr>"]) (simp_all add: apply_stats_ok(2) [OF run assms(1)])
    with fresh(1) apply_stats_ok(1) [OF run assms(1)] True Inr show ?thesis by simp
  next
    case False
    with assms(2) Inr have run: "apply_stats to_json sha rank now b db = (db', Inr False)" by simp
    have same: "db' = db" using apply_stats_not_True [OF run] by simp
    obtain dg q where "batch_digest to_json sha b = Inr dg" "sb_day b \<le> i64_max"
      "row_at rc_id (receipts db) (sb_id b) = Some q" "rc_digest q = Some dg"
      using run by (auto simp: apply_stats_def postgres_i64_def split: sum.splits option.splits if_splits)
    with again same False Inr assms(1) show ?thesis by simp
  qed
qed

text \<open>
  C13: the fold of the tables refines counting. Applying a batch adds, for every tally and every
  member, exactly what the batch holds to what the tables showed for that day; a member is left
  out only together with the row that would have had to be created, and nobody is left out while
  the chats and the shard have room for the batch.
\<close>

theorem statistics_refine_counting:
  assumes "stats_ok db" and "apply_stats to_json sha rank now b db = (db', Inr True)"
  shows "tally_on db' c n (sb_day b) = tally_on db c n (sb_day b) + batch_tally b c n \<and>
    messages db' k = messages db k +
      (if row_at counter_key (counters (core db')) k = None then 0 else batch_count b k) \<and>
    (room_for (sb_counts b) (core db) \<longrightarrow> messages db' k = messages db k + batch_count b k)"
  using tally_on_applied [OF assms(2,1)] messages_applied [OF assms(2,1)] messages_room [OF assms(2,1)]
  by blast

section \<open>An example\<close>

definition example_stats :: stats_db where
  "example_stats = \<lparr>core = \<lparr>counters = [], counter_rows = 0, strict_actions = [], warn_actions = [],
       captchas = [], captcha_rows = 0, next_token = 1, max_counter_rows = None, max_captcha_rows = None\<rparr>,
     tallies = [], tally_rows = 0, max_tally_rows = Some 10, receipts = [], awards = [], opaque_serial = 0\<rparr>"

definition example_batch :: stats_batch where
  "example_batch = \<lparr>sb_id = [98, 45, 49], sb_day = 20000, sb_tallies = [(-5, [109], 49), (-5, [112], 3)],
     sb_counts = [\<lparr>bump_chat = - 5, bump_user = 7, bump_name = [65], bump_added = 51\<rparr>,
       \<lparr>bump_chat = - 5, bump_user = 8, bump_name = [], bump_added = 2\<rparr>]\<rparr>"

definition example_rank :: "chat_id \<Rightarrow> int \<Rightarrow> int \<Rightarrow> int \<Rightarrow> int option" where
  "example_rank c = rank_award_milestone"

definition counted_stats :: stats_db where
  "counted_stats = fst (apply_stats sb_id rev example_rank 100 example_batch example_stats)"

lemma example_stats_ok: "stats_ok example_stats"
  by (simp add: example_stats_def stats_ok_def counters_ok_def tallies_ok_def tally_limit_def
      counter_limit_def sql_count_def int_bounds max_tally_rows_per_chat_def max_counter_rows_per_chat_def)

lemma chunks_short: "xs \<noteq> [] \<Longrightarrow> length xs \<le> n \<Longrightarrow> chunks n xs = [xs]"
  by (cases xs) simp_all

lemma example_digest: "batch_digest sb_id rev example_batch = Inr [49, 45, 98]"
  by (simp add: batch_digest_def encoded_def validate_id_def example_batch_def is_ascii_hexdigit_def
      max_batch_bytes_def bad_tally_name_def max_tally_counter_bytes_def tally_input_key_def bump_key_def
      len_utf8_def)

lemma counted_stats_run:
  "apply_stats sb_id rev example_rank 100 example_batch example_stats = (counted_stats, Inr True)"
proof -
  have "snd (apply_stats sb_id rev example_rank 100 example_batch example_stats) = Inr True"
    unfolding apply_stats_def example_digest
    by (simp add: apply_tallies_def chunks_short example_batch_def example_stats_def postgres_i64_def
        int_bounds add_receipt_def tally_chunk_def tally_additions_def largest_tally_chat_def tally_limit_def
        tally_input_key_def bump_key_def sql_count_def max_tally_rows_per_chat_def sql_upsert_def sql_insert_def
        first_tally_def add_tally_def row_at_Cons tally_key_def counter_key_def Let_def
        count_chunk_def counter_fold_def write_batch_def existing_batch_def allowed_new_def new_batch_def
        new_rank_def reserved_new_def counter_limit_def max_counter_rows_per_chat_def first_count_def
        blank_counter_def counts_in_range_def List.map_filter_def nonnegative_counter_def
        example_rank_def rank_award_milestone_def rank_at_def milestones_def enumerate_eq_zip)
  then show ?thesis by (simp add: counted_stats_def prod_eq_iff)
qed

lemma statistics_applied_once_witness:
  "apply_stats sb_id rev (\<lambda>c p t a. None) 900 example_batch counted_stats = (counted_stats, Inr False)"
  using statistics_applied_once [OF example_stats_ok counted_stats_run, of "\<lambda>c p t a. None" 900] by simp

lemma statistics_refine_counting_witness:
  "tally_on counted_stats (-5) [109] 20000 = 49 \<and> messages counted_stats (-5, 7) = 51"
proof -
  have room: "room_for (sb_counts example_batch) (core example_stats)"
    by (simp add: room_for_def example_batch_def example_stats_def counter_limit_def sql_count_def
        int_bounds max_counter_rows_per_chat_def)
  have day: "sb_day example_batch = 20000" by (simp add: example_batch_def)
  have before: "tally_on example_stats (-5) [109] 20000 = 0" "messages example_stats (-5, 7) = 0"
    by (simp_all add: tally_on_def messages_def example_stats_def)
  have batch: "batch_tally example_batch (-5) [109] = 49" "batch_count example_batch (-5, 7) = 51"
    by (simp_all add: batch_tally_def batch_count_def example_batch_def tally_input_key_def bump_key_def)
  note counted = statistics_refine_counting [OF example_stats_ok counted_stats_run, where c = "-5" and
      n = "[109]" and k = "(-5, 7)", unfolded day before batch]
  have "messages counted_stats (-5, 7) = 0 + 51"
    by (rule mp [OF conjunct2 [OF conjunct2 [OF counted]] room])
  moreover have "tally_on counted_stats (-5) [109] 20000 = 0 + 49" by (rule conjunct1 [OF counted])
  ultimately show ?thesis by simp
qed

end
