(* ===== verification/RankAwards.thy ===== *)
theory RankAwards
  imports Statistics
begin

text \<open>
  The pending rank awards of \<open>src/src/state/durable.rs\<close>: a page of due awards is leased with one
  fresh token, each is acknowledged, put back with an exponential delay, or given up after twenty
  attempts; awards given up are forgotten after thirty days. A member who reaches a higher milestone
  in the meantime gets the award reopened.
\<close>

section \<open>Operations\<close>

definition award_lease_seconds :: int where
  "award_lease_seconds = 120"

definition max_rank_award_attempts :: int where
  "max_rank_award_attempts = 20"

definition min_rank_retry_seconds :: int where
  "min_rank_retry_seconds = 30"

definition max_rank_retry_seconds :: int where
  "max_rank_retry_seconds = 6 * 60 * 60"

record award_delivery =
  ad_chat :: chat_id
  ad_user :: user_id
  ad_name :: utext
  ad_total :: int
  ad_awarded :: int
  ad_milestone :: int
  ad_attempts :: int
  ad_version :: int
  ad_lease :: int

datatype retry_disposition = Deferred int | Terminal | Superseded

text \<open>\<open>u32::try_from\<close> of a negative exponent fails and counts as 0; \<open>checked_shl\<close> by at most 20 does not fail.\<close>

definition rank_retry_delay :: "int \<Rightarrow> int option \<Rightarrow> int" where
  "rank_retry_delay attempts requested =
     (let back = sat_add attempts (- 1); exponent = min (if 0 \<le> back \<and> back \<le> u32_max then back else 0) 20;
          exponential = min ((min_rank_retry_seconds * 2 ^ nat exponent) mod 2 ^ 64) max_rank_retry_seconds
      in min (max exponential (case requested of None \<Rightarrow> 0 | Some r \<Rightarrow> r)) max_rank_retry_seconds)"

definition award_order :: "award_row \<Rightarrow> seconds \<times> int \<times> chat_id \<times> user_id" where
  "award_order r = (aw_created r, aw_attempts r, aw_chat r, aw_user r)"

definition award_exhausted :: "seconds \<Rightarrow> award_row \<Rightarrow> bool" where
  "award_exhausted now r \<longleftrightarrow> aw_terminal r = None \<and> max_rank_award_attempts \<le> aw_attempts r \<and> passed now (aw_until r)"

definition award_due :: "seconds \<Rightarrow> award_row \<Rightarrow> bool" where
  "award_due now r \<longleftrightarrow> aw_terminal r = None \<and> aw_attempts r < max_rank_award_attempts \<and> passed now (aw_until r)"

definition terminal_award :: "utext \<Rightarrow> seconds \<Rightarrow> award_row \<Rightarrow> award_row" where
  "terminal_award reason now r = r\<lparr>aw_terminal := Some reason, aw_terminal_at := Some now,
     aw_lease := None, aw_until := Never\<rparr>"

definition lease_award :: "int \<Rightarrow> seconds \<Rightarrow> award_row \<Rightarrow> award_row" where
  "lease_award token now r = r\<lparr>aw_lease := Some token, aw_until := At (now + award_lease_seconds),
     aw_attempts := aw_attempts r + 1, aw_version := aw_version r + 1\<rparr>"

definition nonnegative_column :: "int \<Rightarrow> int outcome" where
  "nonnegative_column v = (if v < 0 then Inl (Protocol ''corrupt counter field'') else Inr v)"

definition decode_award :: "award_row \<Rightarrow> award_delivery outcome" where
  "decode_award r =
     (case nonnegative_column (aw_total r) of Inl e \<Rightarrow> Inl e | Inr n \<Rightarrow>
     (case nonnegative_column (aw_awarded r) of Inl e \<Rightarrow> Inl e | Inr given \<Rightarrow>
     (case nonnegative_column (aw_milestone r) of Inl e \<Rightarrow> Inl e | Inr ms \<Rightarrow>
        Inr \<lparr>ad_chat = aw_chat r, ad_user = aw_user r, ad_name = aw_name r, ad_total = n,
          ad_awarded = given, ad_milestone = ms, ad_attempts = aw_attempts r,
          ad_version = aw_version r, ad_lease = (case aw_lease r of None \<Rightarrow> 0 | Some l \<Rightarrow> l)\<rparr>)))"

text \<open>The reason text \<open>retry_limit_after_crash\<close>, and the prefix \<open>retry_limit:\<close>, as characters.\<close>

definition crash_reason :: utext where
  "crash_reason = map of_char ''retry_limit_after_crash''"

definition limit_prefix :: utext where
  "limit_prefix = map of_char ''retry_limit:''"

text \<open>
  \<open>locked\<close> says which rows another transaction holds, \<open>arrange\<close> in which order RETURNING lists the
  leased rows.
\<close>

definition claim_rank_awards ::
  "(member \<Rightarrow> bool) \<Rightarrow> (award_row list \<Rightarrow> award_row list) \<Rightarrow> nat \<Rightarrow> seconds \<Rightarrow> stats_db \<Rightarrow>
     stats_db \<times> award_delivery list outcome" where
  "claim_rank_awards locked arrange limit now db =
     (if limit = 0 then (db, Inr [])
      else
        (let token = opaque_serial db;
             gone = map award_key (sql_page (\<lambda>r. \<not> locked (award_key r) \<and> award_exhausted now r) award_order limit (awards db));
             t1 = sql_update (\<lambda>r. award_key r \<in> set gone) (terminal_award crash_reason now) (awards db);
             page = sql_page (\<lambda>r. \<not> locked (award_key r) \<and> award_due now r) award_order limit t1;
             t2 = sql_update (\<lambda>r. award_key r \<in> set (map award_key page)) (lease_award token now) t1
         in (db\<lparr>awards := t2, opaque_serial := token + 1\<rparr>,
             collect_results (map decode_award (arrange (map (lease_award token now) page))))))"

definition award_held :: "award_delivery \<Rightarrow> award_row \<Rightarrow> bool" where
  "award_held d r \<longleftrightarrow> aw_version r = ad_version d \<and> aw_lease r = Some (ad_lease d)"

definition delivery_key :: "award_delivery \<Rightarrow> member" where
  "delivery_key d = (ad_chat d, ad_user d)"

definition deferred_award :: "seconds \<Rightarrow> award_row \<Rightarrow> award_row" where
  "deferred_award until r = r\<lparr>aw_lease := None, aw_until := At until\<rparr>"

definition defer_rank_award ::
  "award_delivery \<Rightarrow> utext \<Rightarrow> int option \<Rightarrow> seconds \<Rightarrow> stats_db \<Rightarrow>
     stats_db \<times> retry_disposition outcome" where
  "defer_rank_award d reason requested now db =
     (if 128 < utf8_len reason then (db, Inl (Protocol ''rank retry reason exceeds storage limit''))
      else if max_rank_award_attempts \<le> ad_attempts d then
        (let hit = (\<lambda>r. award_key r = delivery_key d \<and> award_held d r)
         in (db\<lparr>awards := sql_update hit (terminal_award (limit_prefix @ reason) now) (awards db)\<rparr>,
             Inr (if sql_exists hit (awards db) then Terminal else Superseded)))
      else
        (let delay = rank_retry_delay (ad_attempts d) requested;
             hit = (\<lambda>r. award_key r = delivery_key d \<and> award_held d r \<and> aw_terminal r = None)
         in (db\<lparr>awards := sql_update hit (deferred_award (now + delay)) (awards db)\<rparr>,
             Inr (if sql_exists hit (awards db) then Deferred delay else Superseded))))"

definition ack_rank_award :: "award_delivery \<Rightarrow> int option \<Rightarrow> stats_db \<Rightarrow> stats_db \<times> bool outcome" where
  "ack_rank_award d milestone db =
     (let hit = (\<lambda>r. award_key r = delivery_key d \<and> award_held d r);
          db1 = db\<lparr>awards := sql_delete hit (awards db)\<rparr>
      in if \<not> sql_exists hit (awards db) then (db, Inr False)
         else
           (case milestone of
              None \<Rightarrow> (db1, Inr True)
            | Some m \<Rightarrow>
                if i64_max < m then (db, Inl (Protocol ''statistics value exceeds PostgreSQL bigint''))
                else (db1\<lparr>core := (core db)\<lparr>counters := sql_update (\<lambda>r. counter_key r = delivery_key d)
                             (\<lambda>r. r\<lparr>awarded := max (awarded r) m\<rparr>) (counters (core db))\<rparr>\<rparr>, Inr True)))"

definition award_stale :: "seconds \<Rightarrow> award_row \<Rightarrow> bool" where
  "award_stale now r \<longleftrightarrow> aw_terminal r \<noteq> None \<and> is_some_and (\<lambda>t. t \<le> now - 30 * 86400) (aw_terminal_at r)"

definition terminal_order :: "award_row \<Rightarrow> seconds \<times> chat_id \<times> user_id" where
  "terminal_order r = (case aw_terminal_at r of None \<Rightarrow> 0 | Some t \<Rightarrow> t, aw_chat r, aw_user r)"

definition purge_terminal_rank_awards ::
  "(member \<Rightarrow> bool) \<Rightarrow> int \<Rightarrow> seconds \<Rightarrow> stats_db \<Rightarrow> stats_db \<times> int" where
  "purge_terminal_rank_awards locked limit now db =
     (let page = sql_page (\<lambda>r. \<not> locked (award_key r) \<and> award_stale now r) terminal_order
            (nat (clamp 1 5000 limit)) (awards db);
          gone = set (map award_key page)
      in (db\<lparr>awards := sql_delete (\<lambda>r. award_key r \<in> gone) (awards db)\<rparr>, int (length page)))"

section \<open>What a transaction may do to the awards\<close>

lemma award_keys [simp]:
  "award_key (terminal_award reason now r) = award_key r" "award_key (lease_award n now r) = award_key r"
  "award_key (deferred_award until r) = award_key r" "award_key (again_award a r) = award_key r"
  "award_key (first_award now a) = new_award_key a"
  by (simp_all add: award_key_def terminal_award_def lease_award_def deferred_award_def
      again_award_def first_award_def new_award_key_def Let_def)

text \<open>
  A row has between 0 and 20 attempts; a leased one was attempted and was not given up; one that was
  given up has a date and is never due.
\<close>

definition award_row_ok :: "award_row \<Rightarrow> bool" where
  "award_row_ok r \<longleftrightarrow> 0 \<le> aw_attempts r \<and> aw_attempts r \<le> max_rank_award_attempts \<and>
     (aw_lease r \<noteq> None \<longrightarrow> 1 \<le> aw_attempts r \<and> aw_terminal r = None) \<and>
     (aw_terminal r \<noteq> None \<longrightarrow> aw_terminal_at r \<noteq> None \<and> aw_until r = Never)"

definition awards_ok :: "stats_db \<Rightarrow> bool" where
  "awards_ok db \<longleftrightarrow> drawn_ok award_key aw_lease (opaque_serial db) (awards db) \<and>
     (\<forall>r \<in> set (awards db). award_row_ok r)"

text \<open>
  Where the lease of a row came from: it has none, or it is the one it had, with the same due time
  and no lower version, or it was drawn in between.
\<close>

definition award_row_from :: "int \<Rightarrow> award_row table \<Rightarrow> int \<Rightarrow> award_row \<Rightarrow> bool" where
  "award_row_from n t n' r' \<longleftrightarrow> aw_lease r' = None \<or>
     (\<exists>r. row_at award_key t (award_key r') = Some r \<and> aw_lease r' = aw_lease r \<and> aw_until r' = aw_until r \<and>
        aw_version r \<le> aw_version r') \<or>
     (\<exists>m. aw_lease r' = Some m \<and> n \<le> m \<and> m < n')"

definition awards_move :: "int \<Rightarrow> award_row table \<Rightarrow> int \<Rightarrow> award_row table \<Rightarrow> bool" where
  "awards_move n t n' t' \<longleftrightarrow> n \<le> n' \<and> unique_key award_key t' \<and>
     (\<forall>r' \<in> set t'. award_row_ok r' \<and> award_row_from n t n' r')"

abbreviation award_move :: "stats_db \<Rightarrow> stats_db \<Rightarrow> bool" where
  "award_move s t \<equiv> awards_move (opaque_serial s) (awards s) (opaque_serial t) (awards t)"

lemma award_row_same:
  "unique_key award_key t \<Longrightarrow> r \<in> set t \<Longrightarrow> award_row_from n t n' r"
  unfolding award_row_from_def by (intro disjI2 disjI1 exI [of _ r]) (simp add: row_at_in)

lemma awards_move_refl:
  "unique_key award_key t \<Longrightarrow> \<forall>r \<in> set t. award_row_ok r \<Longrightarrow> n \<le> n' \<Longrightarrow> awards_move n t n' t"
  by (simp add: awards_move_def award_row_same)

lemma awards_move_trans:
  assumes "awards_move n t n1 t1" and "awards_move n1 t1 n2 t2"
  shows "awards_move n t n2 t2"
  unfolding awards_move_def
proof (intro conjI ballI)
  show "n \<le> n2" "unique_key award_key t2" using assms by (simp_all add: awards_move_def)
  fix r2
  assume r2: "r2 \<in> set t2"
  with assms(2) show "award_row_ok r2" by (simp add: awards_move_def)
  from assms(2) r2 have "award_row_from n1 t1 n2 r2" by (simp add: awards_move_def)
  then consider "aw_lease r2 = None"
    | r1 where "row_at award_key t1 (award_key r2) = Some r1" "aw_lease r2 = aw_lease r1"
        "aw_until r2 = aw_until r1" "aw_version r1 \<le> aw_version r2"
    | m where "aw_lease r2 = Some m" "n1 \<le> m" "m < n2"
    unfolding award_row_from_def by (elim disjE exE conjE) metis+
  then show "award_row_from n t n2 r2"
  proof cases
    case 1
    then show ?thesis by (simp add: award_row_from_def)
  next
    case 2
    then have r1: "r1 \<in> set t1" "award_key r1 = award_key r2" using row_at_Some by metis+
    with assms(1) have "award_row_from n t n1 r1" by (simp add: awards_move_def)
    moreover have "n1 \<le> n2" using assms(2) by (simp add: awards_move_def)
    ultimately show ?thesis using 2 r1(2) unfolding award_row_from_def by force
  next
    case 3
    moreover have "n \<le> n1" using assms(1) by (simp add: awards_move_def)
    ultimately show ?thesis by (simp add: award_row_from_def)
  qed
qed

lemma awards_move_update:
  assumes "unique_key award_key t" and "\<forall>r \<in> set t. award_row_ok r" and "n \<le> n'"
    and "\<And>r. award_key (f r) = award_key r"
    and "\<And>r. r \<in> set t \<Longrightarrow> P r \<Longrightarrow> award_row_ok (f r) \<and> award_row_from n t n' (f r)"
  shows "awards_move n t n' (sql_update P f t)"
  unfolding awards_move_def
proof (intro conjI ballI)
  show "unique_key award_key (sql_update P f t)" by (rule unique_update [OF assms(4,1)])
  fix r'
  assume "r' \<in> set (sql_update P f t)"
  then obtain r where "r \<in> set t" "r' = (if P r then f r else r)" by (auto simp: sql_update_def)
  then show "award_row_ok r'" "award_row_from n t n' r'"
    using assms(2,5) award_row_same [OF assms(1)] by auto
qed (rule assms(3))

lemma awards_move_delete:
  "unique_key award_key t \<Longrightarrow> \<forall>r \<in> set t. award_row_ok r \<Longrightarrow> n \<le> n' \<Longrightarrow> awards_move n t n' (sql_delete P t)"
  by (simp add: awards_move_def unique_delete award_row_same) (simp add: sql_delete_def award_row_same)

lemma awards_move_upsert_all:
  assumes "unique_key award_key t" and "\<forall>r \<in> set t. award_row_ok r"
  shows "awards_move n t n (upsert_all award_key new_award_key (first_award now) again_award new t)"
  using assms
proof (induction new arbitrary: t)
  case Nil
  then show ?case by (simp add: awards_move_refl)
next
  case (Cons a new)
  let ?t = "sql_upsert award_key (new_award_key a) (first_award now a) (again_award a) t"
  have "awards_move n t n ?t"
  proof (cases "row_at award_key t (new_award_key a)")
    case None
    have "award_row_ok (first_award now a) \<and> award_row_from n t n (first_award now a)"
      by (simp add: award_row_ok_def award_row_from_def first_award_def max_rank_award_attempts_def)
    with None Cons.prems show ?thesis
      by (auto simp: sql_upsert_def awards_move_def unique_insert award_row_same)
        (auto simp: sql_insert_def award_row_same)
  next
    case (Some r)
    have "awards_move n t n (sql_update (\<lambda>q. award_key q = new_award_key a) (again_award a) t)"
    proof (rule awards_move_update [OF Cons.prems order_refl award_keys(4)])
      fix q
      assume q: "q \<in> set t"
      have "award_row_ok (again_award a q)"
        using Cons.prems(2) q
        by (auto simp: award_row_ok_def again_award_def Let_def max_rank_award_attempts_def)
      moreover have "aw_lease (again_award a q) = None \<or> aw_lease (again_award a q) = aw_lease q \<and>
          aw_until (again_award a q) = aw_until q" "aw_version q \<le> aw_version (again_award a q)"
        by (simp_all add: again_award_def Let_def)
      then have "award_row_from n t n (again_award a q)"
        using row_at_in [OF Cons.prems(1) q] unfolding award_row_from_def award_keys by auto
      ultimately show "award_row_ok (again_award a q) \<and> award_row_from n t n (again_award a q)" ..
    qed
    with Some show ?thesis by (simp add: sql_upsert_def)
  qed
  moreover from this Cons.IH [of ?t] have "awards_move n ?t n
      (upsert_all award_key new_award_key (first_award now) again_award new ?t)"
    by (simp add: awards_move_def)
  ultimately show ?case by (simp add: awards_move_trans)
qed

text \<open>Moves keep the invariant, and are moves of leased tables.\<close>

lemma awards_move_drawn:
  assumes "drawn_ok award_key aw_lease n t" and "awards_move n t n' t'"
  shows "drawn_move award_key aw_lease aw_until n t n' t'"
proof (rule drawn_move_rows [OF assms(1)])
  show "n \<le> n'" "unique_key award_key t'" using assms(2) by (simp_all add: awards_move_def)
  fix k r'
  assume "row_at award_key t' k = Some r'"
  then have "r' \<in> set t'" "award_key r' = k" using row_at_Some by fastforce+
  with assms(2) have "award_row_from n t n' r'" by (simp add: awards_move_def)
  with \<open>award_key r' = k\<close> show "aw_lease r' = None \<or>
      (\<exists>r. row_at award_key t k = Some r \<and> aw_lease r' = aw_lease r \<and> aw_until r' = aw_until r) \<or>
      (\<exists>m. aw_lease r' = Some m \<and> n \<le> m \<and> m < n')"
    unfolding award_row_from_def by auto
qed

lemma award_move_ok:
  assumes "awards_ok s" and "award_move s t"
  shows "awards_ok t" and "drawn_move award_key aw_lease aw_until (opaque_serial s) (awards s) (opaque_serial t) (awards t)"
proof -
  show d: "drawn_move award_key aw_lease aw_until (opaque_serial s) (awards s) (opaque_serial t) (awards t)"
    by (rule awards_move_drawn) (use assms in \<open>simp_all add: awards_ok_def\<close>)
  then show "awards_ok t" using assms(2) by (simp add: awards_ok_def awards_move_def drawn_move_def)
qed

lemma awards_ok_rows:
  "awards_ok s \<Longrightarrow> unique_key award_key (awards s)" "awards_ok s \<Longrightarrow> \<forall>r \<in> set (awards s). award_row_ok r"
  by (simp_all add: awards_ok_def drawn_ok_def)

text \<open>Each operation is such a move.\<close>

lemma count_chunks_award_move:
  assumes "count_chunks rank now d rowss db = Inr db'" and "awards_ok db"
  shows "award_move db db'"
  using assms
proof (induction rowss arbitrary: db)
  case Nil
  then show ?case by (simp add: awards_move_refl awards_ok_rows)
next
  case (Cons rows rest)
  then obtain db1 where one: "count_chunk rank now d rows db = Inr db1"
    and rest: "count_chunks rank now d rest db1 = Inr db'"
    by (auto split: sum.splits)
  from count_chunk_Inr [OF one] awards_move_upsert_all [OF awards_ok_rows [OF Cons.prems(2)]]
  have m: "award_move db db1" by (auto simp: counts_frame_def)
  show ?case by (rule awards_move_trans [OF m Cons.IH [OF rest award_move_ok(1) [OF Cons.prems(2) m]]])
qed

lemma apply_tallies_awards:
  "apply_tallies b db = Inr db' \<Longrightarrow> awards db' = awards db \<and> opaque_serial db' = opaque_serial db \<and> core db' = core db"
  by (auto simp: apply_tallies_def split: sum.splits prod.splits if_splits)

lemma apply_stats_award_move:
  assumes "awards_ok db"
  shows "award_move db (fst (apply_stats to_json sha rank now b db))"
proof (cases "snd (apply_stats to_json sha rank now b db) = Inr True")
  case True
  then obtain db' where run: "apply_stats to_json sha rank now b db = (db', Inr True)" by (metis prod.collapse)
  then obtain db1 where t: "apply_tallies b (add_receipt (sb_id b) (sha (to_json b)) now db) = Inr db1"
    and c: "count_chunks rank now (sb_day b) (chunks 5000 (sb_counts b)) db1 = Inr db'"
    using apply_stats_Inr_True by blast
  have "awards db1 = awards db" "opaque_serial db1 = opaque_serial db"
    using apply_tallies_awards [OF t] by (simp_all add: add_receipt_def)
  with count_chunks_award_move [OF c] assms run show ?thesis by (simp add: awards_ok_def)
next
  case False
  then have "fst (apply_stats to_json sha rank now b db) = db"
    using apply_stats_not_True by (metis prod.collapse)
  with assms show ?thesis by (simp add: awards_move_refl awards_ok_rows)
qed

lemma claim_rank_awards_move:
  assumes "awards_ok db"
  shows "award_move db (fst (claim_rank_awards locked arrange limit now db))"
proof (cases "limit = 0")
  case True
  then show ?thesis by (simp add: claim_rank_awards_def awards_move_refl awards_ok_rows [OF assms])
next
  case False
  note ok = awards_ok_rows [OF assms]
  let ?n = "opaque_serial db"
  let ?gone = "set (map award_key (sql_page (\<lambda>r. \<not> locked (award_key r) \<and> award_exhausted now r)
    award_order limit (awards db)))"
  let ?t1 = "sql_update (\<lambda>r. award_key r \<in> ?gone) (terminal_award crash_reason now) (awards db)"
  let ?page = "sql_page (\<lambda>r. \<not> locked (award_key r) \<and> award_due now r) award_order limit ?t1"
  have m1: "awards_move ?n (awards db) ?n ?t1"
    by (rule awards_move_update [OF ok order_refl award_keys(1)])
      (use ok(2) in \<open>auto simp: award_row_ok_def award_row_from_def terminal_award_def\<close>)
  then have ok1: "unique_key award_key ?t1" "\<forall>r \<in> set ?t1. award_row_ok r"
    by (simp_all add: awards_move_def)
  have due: "award_due now r" if r: "r \<in> set ?t1" "award_key r \<in> set (map award_key ?page)" for r
    using sql_page_key [OF ok1(1) r] by simp
  have "awards_move ?n ?t1 (?n + 1) (sql_update (\<lambda>r. award_key r \<in> set (map award_key ?page)) (lease_award ?n now) ?t1)"
  proof (rule awards_move_update [OF ok1 _ award_keys(2)])
    fix r
    assume r: "r \<in> set ?t1" "award_key r \<in> set (map award_key ?page)"
    have "award_row_ok (lease_award ?n now r)"
      using ok1(2) r(1) due [OF r] by (auto simp: award_row_ok_def award_due_def lease_award_def)
    moreover have "award_row_from ?n ?t1 (?n + 1) (lease_award ?n now r)"
      by (simp add: award_row_from_def lease_award_def)
    ultimately show "award_row_ok (lease_award ?n now r) \<and> award_row_from ?n ?t1 (?n + 1) (lease_award ?n now r)" ..
  qed simp
  with m1 have "awards_move ?n (awards db) (?n + 1)
      (sql_update (\<lambda>r. award_key r \<in> set (map award_key ?page)) (lease_award ?n now) ?t1)"
    by (rule awards_move_trans)
  with False show ?thesis by (simp add: claim_rank_awards_def Let_def)
qed

lemma defer_rank_award_move:
  assumes "awards_ok db"
  shows "award_move db (fst (defer_rank_award d reason requested now db))"
proof -
  note ok = awards_ok_rows [OF assms]
  have t: "awards_move n (awards db) n (sql_update P (terminal_award reasons now) (awards db))" for n P reasons
    by (rule awards_move_update [OF ok order_refl award_keys(1)])
      (use ok(2) in \<open>auto simp: award_row_ok_def award_row_from_def terminal_award_def\<close>)
  have e: "awards_move n (awards db) n (sql_update (\<lambda>r. award_key r = k \<and> award_held d r \<and> aw_terminal r = None)
      (deferred_award until) (awards db))" for n k until
    by (rule awards_move_update [OF ok order_refl award_keys(3)])
      (use ok(2) in \<open>auto simp: award_row_ok_def award_row_from_def deferred_award_def\<close>)
  show ?thesis using t e awards_move_refl [OF ok] by (simp add: defer_rank_award_def Let_def)
qed

lemma ack_rank_award_move:
  assumes "awards_ok db"
  shows "award_move db (fst (ack_rank_award d milestone db))"
  using awards_move_delete [OF awards_ok_rows [OF assms]] awards_move_refl [OF awards_ok_rows [OF assms]]
  by (auto simp: ack_rank_award_def Let_def split: option.splits)

lemma purge_rank_awards_move:
  assumes "awards_ok db"
  shows "award_move db (fst (purge_terminal_rank_awards locked limit now db))"
  by (simp add: purge_terminal_rank_awards_def Let_def awards_move_delete [OF awards_ok_rows [OF assms]])

section \<open>Runs of the program\<close>

text \<open>
  What happens to the awards: batches are applied, awards are claimed and settled, old ones purged,
  a chat is forgotten with its awards. Whatever else the program does leaves the table alone and may
  draw ids.
\<close>

inductive award_step :: "stats_db \<Rightarrow> stats_db \<Rightarrow> bool" where
  award_apply: "award_step db (fst (apply_stats to_json sha rank now b db))"
| award_claim: "arranges arrange \<Longrightarrow> award_step db (fst (claim_rank_awards locked arrange limit now db))"
| award_defer: "award_step db (fst (defer_rank_award d reason requested now db))"
| award_ack: "award_step db (fst (ack_rank_award d milestone db))"
| award_purge: "award_step db (fst (purge_terminal_rank_awards locked limit now db))"
| award_forget: "award_step db (db\<lparr>awards := sql_delete (\<lambda>r. aw_chat r = c) (awards db)\<rparr>)"
| award_other: "awards t = awards s \<Longrightarrow> opaque_serial s \<le> opaque_serial t \<Longrightarrow> award_step s t"

lemma award_step_move: "award_step s t \<Longrightarrow> awards_ok s \<Longrightarrow> award_move s t"
  by (induction rule: award_step.induct)
    (simp_all add: apply_stats_award_move claim_rank_awards_move defer_rank_award_move ack_rank_award_move
      purge_rank_awards_move awards_move_delete awards_move_refl awards_ok_rows)

abbreviation award_lease_at :: "stats_db \<Rightarrow> member \<Rightarrow> int option" where
  "award_lease_at s \<equiv> lease_at award_key aw_lease (awards s)"

abbreviation award_until_at :: "stats_db \<Rightarrow> member \<Rightarrow> stamp option" where
  "award_until_at s \<equiv> due_at award_key aw_until (awards s)"

interpretation award_fence: fenced_leases award_lease_at award_until_at opaque_serial awards_ok award_step
  by (rule fenced_leases_of_moves) (use awards_ok_def award_step_move award_move_ok in blast)+

section \<open>Handles\<close>

text \<open>The row a claim hands out, as the claim leaves it.\<close>

lemma claim_rank_awards_Inr:
  assumes "awards_ok s" and "arranges arrange" and "claim_rank_awards locked arrange limit now s = (s', Inr ds)"
    and "d \<in> set ds"
  shows "ad_lease d = opaque_serial s" and "opaque_serial s' = opaque_serial s + 1"
    and "\<exists>r. row_at award_key (awards s') (delivery_key d) = Some r \<and> award_held d r \<and> aw_terminal r = None \<and>
      aw_until r = At (now + award_lease_seconds) \<and> aw_attempts r = ad_attempts d \<and> aw_milestone r = ad_milestone d"
    and "\<exists>r. row_at award_key (awards s) (delivery_key d) = Some r \<and> award_due now r \<and>
      aw_attempts r + 1 = ad_attempts d"
proof -
  let ?n = "opaque_serial s"
  have pos: "limit \<noteq> 0" using assms(3,4) by (intro notI) (auto simp: claim_rank_awards_def)
  let ?gone = "set (map award_key (sql_page (\<lambda>r. \<not> locked (award_key r) \<and> award_exhausted now r)
    award_order limit (awards s)))"
  let ?t1 = "sql_update (\<lambda>r. award_key r \<in> ?gone) (terminal_award crash_reason now) (awards s)"
  let ?page = "sql_page (\<lambda>r. \<not> locked (award_key r) \<and> award_due now r) award_order limit ?t1"
  have s': "awards s' = sql_update (\<lambda>r. award_key r \<in> set (map award_key ?page)) (lease_award ?n now) ?t1"
    "opaque_serial s' = ?n + 1"
    and ds: "collect_results (map decode_award (arrange (map (lease_award ?n now) ?page))) = Inr ds"
    using assms(3) pos by (auto simp: claim_rank_awards_def Let_def)
  show "opaque_serial s' = opaque_serial s + 1" by (rule s'(2))
  obtain x where x: "x \<in> set (arrange (map (lease_award ?n now) ?page))" "decode_award x = Inr d"
    using collect_results_in [OF ds assms(4)] by blast
  then obtain q where q: "q \<in> set ?page" "x = lease_award ?n now q"
    using arranges_set [OF assms(2)] by auto
  note qp = sql_page_set [OF q(1)]
  have dec: "delivery_key d = award_key x" "ad_version d = aw_version x" "ad_attempts d = aw_attempts x"
    "ad_milestone d = aw_milestone x" "ad_lease d = (case aw_lease x of None \<Rightarrow> 0 | Some l \<Rightarrow> l)"
    using x(2) by (auto simp: decode_award_def nonnegative_column_def delivery_key_def award_key_def
        split: if_splits)
  then show "ad_lease d = opaque_serial s" by (simp add: q(2) lease_award_def)
  have uk: "unique_key award_key ?t1"
    by (rule unique_update) (simp_all add: awards_ok_rows [OF assms(1)])
  have qt: "row_at award_key ?t1 (award_key q) = Some q" using row_at_in [OF uk] qp by blast
  from row_at_update_Some [OF qt] obtain r where "row_at award_key (awards s) (award_key q) = Some r"
    "q = r \<or> q = terminal_award crash_reason now r"
    by auto
  with qp dec(1,3) q(2) show "\<exists>r. row_at award_key (awards s) (delivery_key d) = Some r \<and> award_due now r \<and>
      aw_attempts r + 1 = ad_attempts d"
    by (auto simp: award_due_def terminal_award_def lease_award_def award_key_def)
  from qt have "row_at award_key (awards s') (delivery_key d) = Some x"
    unfolding s'(1) using q dec(1) by (simp add: row_at_update [where key = award_key, OF award_keys(2)])
  moreover have "aw_lease x = Some ?n" "aw_terminal x = None" "aw_until x = At (now + award_lease_seconds)"
    using qp by (simp_all add: q(2) lease_award_def award_due_def)
  ultimately show "\<exists>r. row_at award_key (awards s') (delivery_key d) = Some r \<and> award_held d r \<and> aw_terminal r = None \<and>
      aw_until r = At (now + award_lease_seconds) \<and> aw_attempts r = ad_attempts d \<and> aw_milestone r = ad_milestone d"
    using dec by (simp add: award_held_def)
qed

text \<open>A delivery that can no longer settle: its token was drawn and its row has lost it or has moved on.\<close>

definition spent :: "award_delivery \<Rightarrow> stats_db \<Rightarrow> bool" where
  "spent d s \<longleftrightarrow> ad_lease d < opaque_serial s \<and>
     (\<forall>r. row_at award_key (awards s) (delivery_key d) = Some r \<longrightarrow> aw_lease r = Some (ad_lease d) \<longrightarrow>
        ad_version d < aw_version r)"

lemma spent_move:
  assumes "spent d s" and "award_move s t"
  shows "spent d t"
  unfolding spent_def
proof (intro conjI allI impI)
  have le: "opaque_serial s \<le> opaque_serial t" using assms(2) by (simp add: awards_move_def)
  with assms(1) show "ad_lease d < opaque_serial t" by (simp add: spent_def)
  fix r'
  assume r': "row_at award_key (awards t) (delivery_key d) = Some r'" "aw_lease r' = Some (ad_lease d)"
  then have "award_key r' = delivery_key d" "r' \<in> set (awards t)" using row_at_Some by fastforce+
  with assms(2) have "award_row_from (opaque_serial s) (awards s) (opaque_serial t) r'"
    by (simp add: awards_move_def)
  with r' \<open>award_key r' = delivery_key d\<close> assms(1) show "ad_version d < aw_version r'"
    by (fastforce simp: award_row_from_def spent_def)
qed

lemma spent_steps:
  assumes "award_step\<^sup>*\<^sup>* s t" and "awards_ok s" and "spent d s"
  shows "spent d t"
  using assms
proof (induction rule: rtranclp_induct)
  case base
  then show ?case by simp
next
  case (step t u)
  then show ?case using spent_move award_step_move award_fence.ok_steps by blast
qed

lemma spent_unheld:
  assumes "spent d s" and "awards_ok s"
  shows "\<not> sql_exists (\<lambda>r. award_key r = delivery_key d \<and> award_held d r \<and> P r) (awards s)"
    and "sql_update (\<lambda>r. award_key r = delivery_key d \<and> award_held d r \<and> P r) f (awards s) = awards s"
proof -
  have no: "\<not> (award_key r = delivery_key d \<and> award_held d r \<and> P r)" if "r \<in> set (awards s)" for r
    using assms(1) row_at_in [OF awards_ok_rows(1) [OF assms(2)] that] by (auto simp: spent_def award_held_def)
  show "\<not> sql_exists (\<lambda>r. award_key r = delivery_key d \<and> award_held d r \<and> P r) (awards s)"
    using no by (auto simp: sql_exists_def list_ex_iff)
  show "sql_update (\<lambda>r. award_key r = delivery_key d \<and> award_held d r \<and> P r) f (awards s) = awards s"
    using no by (rule sql_update_none)
qed

lemma spent_settles_nothing:
  assumes "spent d s" and "awards_ok s"
  shows "ack_rank_award d milestone s = (s, Inr False)"
    and "utf8_len reason \<le> 128 \<Longrightarrow> defer_rank_award d reason requested now s = (s, Inr Superseded)"
  using spent_unheld [OF assms, where P = "\<lambda>r. True"]
    spent_unheld [OF assms, where P = "\<lambda>r. aw_terminal r = None"]
  by (simp_all add: ack_rank_award_def defer_rank_award_def Let_def)

text \<open>A delivery is settled by an acknowledgement or a deferral that counted, or by a later claim.\<close>

definition award_settled :: "award_delivery \<Rightarrow> stats_db \<Rightarrow> stats_db \<Rightarrow> bool" where
  "award_settled d s t \<longleftrightarrow> (\<exists>milestone. ack_rank_award d milestone s = (t, Inr True)) \<or>
     (\<exists>reason requested now x. defer_rank_award d reason requested now s = (t, Inr x) \<and> x \<noteq> Superseded) \<or>
     (\<exists>locked arrange limit now ds d'. arranges arrange \<and>
        claim_rank_awards locked arrange limit now s = (t, Inr ds) \<and> d' \<in> set ds \<and> delivery_key d' = delivery_key d)"

lemma ack_rank_award_True:
  assumes "ack_rank_award d milestone s = (t, Inr True)"
  shows "awards t = sql_delete (\<lambda>r. award_key r = delivery_key d \<and> award_held d r) (awards s)"
    and "opaque_serial t = opaque_serial s"
    and "sql_exists (\<lambda>r. award_key r = delivery_key d \<and> award_held d r) (awards s)"
  using assms by (auto simp: ack_rank_award_def Let_def split: if_splits option.splits)

lemma settled_spent:
  assumes "awards_ok s" and "ad_lease d < opaque_serial s" and "award_settled d s t"
  shows "spent d t \<and> awards_ok t"
proof -
  note ok = awards_ok_rows [OF assms(1)]
  from assms(3) [unfolded award_settled_def] show ?thesis
  proof (elim disjE exE conjE)
    fix milestone
    assume 1: "ack_rank_award d milestone s = (t, Inr True)"
    obtain r where "row_at award_key (awards s) (delivery_key d) = Some r" "award_held d r"
      using ack_rank_award_True(3) [OF 1] sql_exists_key [OF ok(1), of "delivery_key d" "award_held d"] by auto
    then have "row_at award_key (awards t) (delivery_key d) = None"
      by (simp add: ack_rank_award_True(1) [OF 1] row_at_delete_key [OF ok(1)])
    with assms(2) ack_rank_award_True(2) [OF 1] have "spent d t" by (simp add: spent_def)
    with award_move_ok(1) [OF assms(1) ack_rank_award_move [OF assms(1), of d milestone]] 1
    show ?thesis by simp
  next
    fix reason requested now x
    assume 2: "defer_rank_award d reason requested now s = (t, Inr x)" "x \<noteq> Superseded"
    have un: "row_at award_key (sql_update (\<lambda>r. award_key r = delivery_key d \<and> award_held d r \<and> P r) f (awards s))
        (delivery_key d) = map_option (\<lambda>r. if award_held d r \<and> P r then f r else r)
        (row_at award_key (awards s) (delivery_key d))" if "\<And>r. award_key (f r) = award_key r" for f P
      using row_at_update_key(2) [where key = award_key and f = f, OF that] by simp
    have "spent d t"
    proof (cases "max_rank_award_attempts \<le> ad_attempts d")
      case True
      with 2 have t: "t = s\<lparr>awards := sql_update (\<lambda>r. award_key r = delivery_key d \<and> award_held d r \<and> True)
          (terminal_award (limit_prefix @ reason) now) (awards s)\<rparr>"
        and hit: "sql_exists (\<lambda>r. award_key r = delivery_key d \<and> award_held d r) (awards s)"
        by (auto simp: defer_rank_award_def Let_def split: if_splits)
      from hit obtain r where "row_at award_key (awards s) (delivery_key d) = Some r" "award_held d r"
        using sql_exists_key [OF ok(1), of "delivery_key d" "award_held d"] by auto
      with assms(2) un [where P = "\<lambda>r. True" and f = "terminal_award (limit_prefix @ reason) now", OF award_keys(1), simplified] show ?thesis
        by (simp add: t spent_def) (simp add: terminal_award_def)
    next
      case False
      with 2 obtain until where t: "t = s\<lparr>awards := sql_update (\<lambda>r. award_key r = delivery_key d \<and> award_held d r \<and>
          aw_terminal r = None) (deferred_award until) (awards s)\<rparr>"
        and hit: "sql_exists (\<lambda>r. award_key r = delivery_key d \<and> award_held d r \<and> aw_terminal r = None) (awards s)"
        by (auto simp: defer_rank_award_def Let_def split: if_splits)
      from hit obtain r where "row_at award_key (awards s) (delivery_key d) = Some r" "award_held d r" "aw_terminal r = None"
        using sql_exists_key [OF ok(1), of "delivery_key d" "\<lambda>r. award_held d r \<and> aw_terminal r = None"] by auto
      with assms(2) un [where P = "\<lambda>r. aw_terminal r = None" and f = "deferred_award until", OF award_keys(3)] show ?thesis
        by (simp add: t spent_def) (simp add: deferred_award_def)
    qed
    with award_move_ok(1) [OF assms(1) defer_rank_award_move [OF assms(1), of d reason requested now]] 2
    show ?thesis by simp
  next
    fix locked arrange limit now ds d'
    assume 3: "arranges arrange" "claim_rank_awards locked arrange limit now s = (t, Inr ds)"
        "d' \<in> set ds" "delivery_key d' = delivery_key d"
    note c = claim_rank_awards_Inr [OF assms(1) 3(1,2,3)]
    from c(3) 3(4) obtain r where "row_at award_key (awards t) (delivery_key d) = Some r" "award_held d' r" by auto
    with c(1,2) assms(2) have "spent d t" by (auto simp: spent_def award_held_def)
    with award_move_ok(1) [OF assms(1) claim_rank_awards_move [OF assms(1), of locked arrange limit now]] 3
    show ?thesis by simp
  qed
qed

section \<open>Milestones that were announced\<close>

text \<open>The rule the program passes: ranks are awarded in the chats that have them switched on.\<close>

definition chat_rank :: "(chat_id \<Rightarrow> bool) \<Rightarrow> chat_id \<Rightarrow> int \<Rightarrow> int \<Rightarrow> int \<Rightarrow> int option" where
  "chat_rank ranks_on c previous n given = (if ranks_on c then rank_award_milestone previous n given else None)"

lemma chat_rank_above: "chat_rank ranks_on c previous n given = Some m \<Longrightarrow> given < m"
  by (auto simp: chat_rank_def rank_award_milestone_def split: if_splits option.splits)

text \<open>The counter of a member remembers the milestone, and only higher ones are on the list.\<close>

definition announced :: "int \<Rightarrow> member \<Rightarrow> stats_db \<Rightarrow> bool" where
  "announced m k s \<longleftrightarrow>
     (\<exists>q. row_at counter_key (counters (core s)) k = Some q \<and> m \<le> awarded q) \<and>
     (\<forall>r. row_at award_key (awards s) k = Some r \<longrightarrow> m < aw_milestone r)"

lemma award_of_awarded:
  "award_of rank batch r = Some a \<Longrightarrow> na_awarded a = awarded r \<and>
    (\<exists>b :: bump. rank (counter_chat r) (total r - bump_added b) (total r) (awarded r) = Some (na_milestone a))"
  by (auto simp: award_of_def split: option.splits)

lemma announced_counter:
  assumes "count_result d w mo rows t t'" and "row_at counter_key t k = Some q"
  shows "\<exists>q'. row_at counter_key t' k = Some q' \<and> awarded q' = awarded q"
  using assms(1) [unfolded count_result_def, rule_format, of k] assms(2) by (auto split: option.splits)

lemma count_chunk_announced:
  assumes "count_chunk (chat_rank ranks_on) now d rows db = Inr db'" and "counters_ok (core db)"
    and "distinct (map bump_key rows)" and "announced m k db"
  shows "announced m k db'"
proof -
  obtain changed where fold: "counter_fold d (d div 7) (d div 30) rows (core db) = Inr (core db', changed)"
    and aw: "awards db' = upsert_all award_key new_award_key (first_award now) again_award
      (List.map_filter (award_of (chat_rank ranks_on) rows) changed) (awards db)"
    using count_chunk_Inr [OF assms(1)] by blast
  let ?new = "List.map_filter (award_of (chat_rank ranks_on) rows) changed"
  note f = counter_fold_Inr [OF fold assms(2,3)] and ck = changed_keys [OF fold assms(2,3)]
  obtain q where q: "row_at counter_key (counters (core db)) k = Some q" "m \<le> awarded q"
    using assms(4) by (auto simp: announced_def)
  obtain q' where q': "row_at counter_key (counters (core db')) k = Some q'" "awarded q' = awarded q"
    using announced_counter [OF f(2) q(1)] by blast
  have above: "m < na_milestone a" if a: "a \<in> set ?new" "new_award_key a = k" for a
  proof -
    obtain r where r: "r \<in> set changed" "award_of (chat_rank ranks_on) rows r = Some a"
      using a(1) by (auto simp: List.map_filter_def)
    have "counter_key r = k" using award_of_key [OF r(2)] a(2) by simp
    then have "awarded r = awarded q" using bspec [OF ck(2) r(1)] q' by simp
    with award_of_awarded [OF r(2)] chat_rank_above q(2) show ?thesis by fastforce
  qed
  have at: "row_at award_key (awards db') k = (case find (\<lambda>a. new_award_key a = k) ?new of
       None \<Rightarrow> row_at award_key (awards db) k
     | Some a \<Rightarrow> Some (case row_at award_key (awards db) k of None \<Rightarrow> first_award now a | Some r \<Rightarrow> again_award a r))"
    unfolding aw by (rule row_at_upsert_all) (simp_all add: distinct_awards ck(1))
  have "m < aw_milestone r" if r: "row_at award_key (awards db') k = Some r" for r
  proof (cases "find (\<lambda>a. new_award_key a = k) ?new")
    case None
    with at r assms(4) show ?thesis by (simp add: announced_def)
  next
    case (Some a)
    with find_key_Some [OF Some] above have "m < na_milestone a" by blast
    with at r Some show ?thesis
      by (auto simp: first_award_def again_award_def Let_def split: option.splits)
  qed
  with q q' show ?thesis by (auto simp: announced_def)
qed

lemma count_chunks_announced:
  assumes "count_chunks (chat_rank ranks_on) now d rowss db = Inr db'" and "counters_ok (core db)"
    and "distinct (map bump_key (concat rowss))" and "announced m k db"
  shows "announced m k db'"
  using assms
proof (induction rowss arbitrary: db)
  case Nil
  then show ?case by simp
next
  case (Cons rows rest)
  then obtain db1 where one: "count_chunk (chat_rank ranks_on) now d rows db = Inr db1"
    and rest: "count_chunks (chat_rank ranks_on) now d rest db1 = Inr db'"
    by (auto split: sum.splits)
  obtain changed where fold: "counter_fold d (d div 7) (d div 30) rows (core db) = Inr (core db1, changed)"
    using count_chunk_Inr [OF one] by blast
  have d: "distinct (map bump_key rows)" "distinct (map bump_key (concat rest))"
    using Cons.prems(3) by simp_all
  show ?case
    by (rule Cons.IH [OF rest counter_fold_Inr(1) [OF fold Cons.prems(2) d(1)] d(2)
          count_chunk_announced [OF one Cons.prems(2) d(1) Cons.prems(4)]])
qed

lemma apply_stats_announced:
  assumes "stats_ok s" and "announced m k s"
  shows "announced m k (fst (apply_stats to_json sha (chat_rank ranks_on) now b s)) \<and>
    stats_ok (fst (apply_stats to_json sha (chat_rank ranks_on) now b s))"
proof (cases "snd (apply_stats to_json sha (chat_rank ranks_on) now b s) = Inr True")
  case True
  then obtain t where run: "apply_stats to_json sha (chat_rank ranks_on) now b s = (t, Inr True)" by (metis prod.collapse)
  then obtain u where t: "apply_tallies b (add_receipt (sb_id b) (sha (to_json b)) now s) = Inr u"
    and c: "count_chunks (chat_rank ranks_on) now (sb_day b) (chunks 5000 (sb_counts b)) u = Inr t"
    and d: "distinct (map bump_key (sb_counts b))"
    using apply_stats_Inr_True by blast
  have u: "core u = core s" "awards u = awards s"
    using apply_tallies_awards [OF t] by (simp_all add: add_receipt_def)
  have ch: "concat (chunks 5000 (sb_counts b)) = sb_counts b" by (rule concat_chunks) simp
  have "announced m k t"
    by (rule count_chunks_announced [OF c]) (use assms u d ch in \<open>simp_all add: stats_ok_def announced_def\<close>)
  with apply_stats_ok(1) [OF run assms(1)] run show ?thesis by simp
next
  case False
  then have "fst (apply_stats to_json sha (chat_rank ranks_on) now b s) = s"
    using apply_stats_not_True by (metis prod.collapse)
  with assms show ?thesis by simp
qed

text \<open>The program counts and awards; nothing deletes the counter of the member in between.\<close>

inductive rank_step :: "stats_db \<Rightarrow> stats_db \<Rightarrow> bool" where
  rank_apply: "rank_step db (fst (apply_stats to_json sha (chat_rank ranks_on) now b db))"
| rank_claim: "arranges arrange \<Longrightarrow> rank_step db (fst (claim_rank_awards locked arrange limit now db))"
| rank_defer: "rank_step db (fst (defer_rank_award d reason requested now db))"
| rank_ack: "rank_step db (fst (ack_rank_award d milestone db))"
| rank_purge: "rank_step db (fst (purge_terminal_rank_awards locked limit now db))"

text \<open>Updates and deletions of awards keep the milestones of the list.\<close>

lemma announced_update:
  assumes "announced m k s" and "\<And>r. award_key (f r) = award_key r" and "\<And>r. aw_milestone (f r) = aw_milestone r"
  shows "announced m k (s\<lparr>awards := sql_update P f (awards s)\<rparr>)"
  using assms(1) row_at_update_Some [where key = award_key and f = f, OF _ assms(2)]
  by (auto simp: announced_def assms(3) dest!: row_at_update_Some [where key = award_key and f = f, OF _ assms(2)])

lemma announced_delete:
  assumes "announced m k s" and "unique_key award_key (awards s)"
  shows "announced m k (s\<lparr>awards := sql_delete P (awards s)\<rparr>)"
  using assms(1) by (auto simp: announced_def dest: row_at_delete_Some [OF assms(2)])


lemma announced_keep: "core t = core s \<Longrightarrow> awards t = awards s \<Longrightarrow> announced m k s \<Longrightarrow> announced m k t"
  by (simp add: announced_def)

lemma claim_announced:
  "announced m k db \<Longrightarrow> announced m k (fst (claim_rank_awards locked arrange limit now db))"
proof (cases "limit = 0")
  case False
  assume a: "announced m k db"
  have ms: "aw_milestone (terminal_award crash_reason now r) = aw_milestone r"
    "aw_milestone (lease_award n now r) = aw_milestone r" for r n
    by (simp_all add: terminal_award_def lease_award_def)
  have "announced m k (db\<lparr>awards := sql_update Q (lease_award n now)
      (sql_update P (terminal_award crash_reason now) (awards db))\<rparr>)" for P Q n
    using announced_update [where f = "lease_award n now" and P = Q,
      OF announced_update [where P = P, OF a award_keys(1) ms(1)] award_keys(2) ms(2)] by simp
  with False show ?thesis by (simp add: claim_rank_awards_def Let_def announced_def)
qed (simp add: claim_rank_awards_def)

lemma defer_announced:
  "announced m k db \<Longrightarrow> announced m k (fst (defer_rank_award d reason requested now db))"
  using announced_update [of m k db "terminal_award (limit_prefix @ reason) now", OF _ award_keys(1)]
    announced_update [of m k db "deferred_award until" for until, OF _ award_keys(3)]
  by (simp add: defer_rank_award_def Let_def) (simp add: terminal_award_def deferred_award_def)

lemma ack_announced:
  assumes "announced m k db" and "unique_key award_key (awards db)"
  shows "announced m k (fst (ack_rank_award d milestone db))"
proof -
  let ?db1 = "db\<lparr>awards := sql_delete (\<lambda>r. award_key r = delivery_key d \<and> award_held d r) (awards db)\<rparr>"
  note a = announced_delete [OF assms, of "\<lambda>r. award_key r = delivery_key d \<and> award_held d r"]
  have "counter_key (r\<lparr>awarded := v\<rparr>) = counter_key r" for r v by (simp add: counter_key_def)
  note up = row_at_update_key(1) [where key = counter_key and f = "\<lambda>r. r\<lparr>awarded := max (awarded r) v\<rparr>" for v, OF this]
  have "announced m k (?db1\<lparr>core := (core db)\<lparr>counters := sql_update (\<lambda>r. counter_key r = delivery_key d)
                             (\<lambda>r. r\<lparr>awarded := max (awarded r) v\<rparr>) (counters (core db))\<rparr>\<rparr>)" for v
    using a by (auto simp: announced_def up)
  with a assms(1) show ?thesis by (auto simp: ack_rank_award_def Let_def split: option.splits)
qed

lemma ack_stats_ok:
  assumes "stats_ok db"
  shows "stats_ok (fst (ack_rank_award d milestone db))"
proof -
  have k: "counter_key (r\<lparr>awarded := v\<rparr>) = counter_key r" for r v by (simp add: counter_key_def)
  have "counters_ok (s\<lparr>counters := sql_update P (\<lambda>r. r\<lparr>awarded := max (awarded r) v\<rparr>) (counters s)\<rparr>)"
    if "counters_ok s" for s P v
    using that by (simp add: counters_ok_def unique_update k sql_count_update_same counter_limit_def)
  with assms show ?thesis
    by (auto simp: ack_rank_award_def Let_def stats_ok_def tallies_ok_def tally_limit_def split: option.splits)
qed

lemma rank_step_announced:
  assumes "rank_step s t" and "stats_ok s" and "awards_ok s" and "announced m k s"
  shows "stats_ok t \<and> awards_ok t \<and> announced m k t"
  using assms
proof (induction rule: rank_step.induct)
  case (rank_apply db to_json sha ranks_on now b)
  then show ?case using apply_stats_announced award_move_ok(1) [OF _ apply_stats_award_move] by blast
next
  case (rank_claim arrange db locked limit now)
  have "stats_ok (fst (claim_rank_awards locked arrange limit now db))"
    using rank_claim by (simp add: claim_rank_awards_def Let_def stats_ok_def tallies_ok_def tally_limit_def)
  with rank_claim show ?case using claim_announced award_move_ok(1) [OF _ claim_rank_awards_move] by blast
next
  case (rank_defer db d reason requested now)
  have "stats_ok (fst (defer_rank_award d reason requested now db))"
    using rank_defer by (simp add: defer_rank_award_def Let_def stats_ok_def tallies_ok_def tally_limit_def)
  with rank_defer show ?case using defer_announced award_move_ok(1) [OF _ defer_rank_award_move] by blast
next
  case (rank_ack db d milestone)
  then show ?case
    using ack_announced ack_stats_ok award_move_ok(1) [OF _ ack_rank_award_move] awards_ok_rows(1) by blast
next
  case (rank_purge db locked limit now)
  have "stats_ok (fst (purge_terminal_rank_awards locked limit now db))"
    using rank_purge by (simp add: purge_terminal_rank_awards_def Let_def stats_ok_def tallies_ok_def tally_limit_def)
  moreover have "announced m k (fst (purge_terminal_rank_awards locked limit now db))"
    using announced_delete [OF rank_purge(3) awards_ok_rows(1) [OF rank_purge(2)]]
    by (simp add: purge_terminal_rank_awards_def Let_def)
  ultimately show ?case
    using rank_purge award_move_ok(1) [OF _ purge_rank_awards_move] by blast
qed

lemma rank_steps_announced:
  assumes "rank_step\<^sup>*\<^sup>* s t" and "stats_ok s" and "awards_ok s" and "announced m k s"
  shows "stats_ok t \<and> awards_ok t \<and> announced m k t"
  using assms by (induction rule: rtranclp_induct) (use rank_step_announced in blast)+

text \<open>An acknowledged milestone is announced.\<close>

lemma ack_announces:
  assumes "ack_rank_award d (Some m) s = (t, Inr True)" and "awards_ok s"
    and "row_at counter_key (counters (core s)) (delivery_key d) = Some q"
  shows "announced m (delivery_key d) t"
proof -
  have k: "counter_key (r\<lparr>awarded := v\<rparr>) = counter_key r" for r v by (simp add: counter_key_def)
  note uk = awards_ok_rows(1) [OF assms(2)]
  have "counters (core t) = sql_update (\<lambda>r. counter_key r = delivery_key d) (\<lambda>r. r\<lparr>awarded := max (awarded r) m\<rparr>)
      (counters (core s))"
    using assms(1) by (auto simp: ack_rank_award_def Let_def split: if_splits)
  then have "row_at counter_key (counters (core t)) (delivery_key d) = Some (q\<lparr>awarded := max (awarded q) m\<rparr>)"
    using assms(3) by (simp add: row_at_update_key(1) [where key = counter_key and
      f = "\<lambda>r. r\<lparr>awarded := max (awarded r) m\<rparr>", OF k])
  moreover have "row_at award_key (awards t) (delivery_key d) = None"
    using ack_rank_award_True(1,3) [OF assms(1)] sql_exists_key [OF uk, of "delivery_key d" "award_held d"]
    by (auto simp: row_at_delete_key [OF uk])
  ultimately show ?thesis by (simp add: announced_def)
qed

section \<open>An example\<close>

definition example_awards :: stats_db where
  "example_awards = example_stats\<lparr>
     core := (core example_stats)\<lparr>counters := [(blank_counter (-5, 7))\<lparr>total := 51\<rparr>], counter_rows := 1\<rparr>,
     awards := [\<lparr>aw_chat = - 5, aw_user = 7, aw_name = [65], aw_total = 51, aw_awarded = 0,
       aw_milestone = 50, aw_version = 1, aw_lease = None, aw_until = Long_Ago, aw_attempts = 0,
       aw_terminal = None, aw_terminal_at = None, aw_created = 100\<rparr>],
     opaque_serial := 3\<rparr>"

definition example_delivery :: award_delivery where
  "example_delivery = \<lparr>ad_chat = - 5, ad_user = 7, ad_name = [65], ad_total = 51, ad_awarded = 0,
     ad_milestone = 50, ad_attempts = 1, ad_version = 2, ad_lease = 3\<rparr>"

definition claimed_awards :: stats_db where
  "claimed_awards = fst (claim_rank_awards (\<lambda>k. False) (\<lambda>xs. xs) 8 200 example_awards)"

lemma arranges_id [simp]: "arranges (\<lambda>xs. xs)"
  by (simp add: arranges_def)

lemma example_awards_ok: "awards_ok example_awards" "stats_ok example_awards"
  by (simp_all add: awards_ok_def drawn_ok_def example_awards_def award_row_ok_def lease_at_def row_at_Cons
      award_key_def unique_key_def max_rank_award_attempts_def stats_ok_def counters_ok_def tallies_ok_def
      tally_limit_def counter_limit_def sql_count_def int_bounds max_tally_rows_per_chat_def
      max_counter_rows_per_chat_def example_stats_def blank_counter_def counter_key_def)

lemma example_claim_awards:
  "claim_rank_awards (\<lambda>k. False) (\<lambda>xs. xs) 8 200 example_awards = (claimed_awards, Inr [example_delivery])"
proof -
  have "snd (claim_rank_awards (\<lambda>k. False) (\<lambda>xs. xs) 8 200 example_awards) = Inr [example_delivery]"
    by (simp add: claim_rank_awards_def example_awards_def Let_def sql_page_def award_exhausted_def award_due_def
        sql_update_def lease_award_def decode_award_def nonnegative_column_def example_delivery_def
        max_rank_award_attempts_def)
  then show ?thesis by (simp add: claimed_awards_def prod_eq_iff)
qed

lemma claimed_awards_row:
  "\<exists>r. row_at award_key (awards claimed_awards) (-5, 7) = Some r \<and> award_held example_delivery r \<and>
     aw_terminal r = None \<and> aw_attempts r = 1 \<and> aw_until r = At 320"
  using claim_rank_awards_Inr(3) [OF example_awards_ok(1) arranges_id example_claim_awards, of example_delivery]
  by (auto simp: example_delivery_def delivery_key_def award_lease_seconds_def)

lemma claimed_awards_ok: "awards_ok claimed_awards" "stats_ok claimed_awards"
proof -
  show "awards_ok claimed_awards"
    using award_move_ok(1) [OF example_awards_ok(1) claim_rank_awards_move [OF example_awards_ok(1)]]
    by (simp add: claimed_awards_def)
  show "stats_ok claimed_awards"
    using example_awards_ok(2)
    by (simp add: claimed_awards_def claim_rank_awards_def Let_def stats_ok_def tallies_ok_def tally_limit_def)
qed

definition acked_awards :: stats_db where
  "acked_awards = fst (ack_rank_award example_delivery (Some 50) claimed_awards)"

lemma example_ack: "ack_rank_award example_delivery (Some 50) claimed_awards = (acked_awards, Inr True)"
proof -
  have "sql_exists (\<lambda>r. award_key r = delivery_key example_delivery \<and> award_held example_delivery r) (awards claimed_awards)"
    using claimed_awards_row sql_exists_key [OF awards_ok_rows(1) [OF claimed_awards_ok(1)], of "(-5, 7)"]
    by (auto simp: delivery_key_def example_delivery_def)
  then show ?thesis by (simp add: acked_awards_def ack_rank_award_def Let_def int_bounds)
qed

lemma acked_awards_value:
  "acked_awards = example_awards\<lparr>awards := [], opaque_serial := 4,
     core := (core example_stats)\<lparr>counters := [(blank_counter (-5, 7))\<lparr>total := 51, awarded := 50\<rparr>], counter_rows := 1\<rparr>\<rparr>"
  by (simp add: acked_awards_def ack_rank_award_def claimed_awards_def claim_rank_awards_def example_awards_def Let_def
      sql_page_def award_exhausted_def award_due_def sql_update_def lease_award_def example_delivery_def
      max_rank_award_attempts_def sql_exists_def sql_delete_def award_key_def delivery_key_def award_held_def
      int_bounds blank_counter_def counter_key_def example_stats_def)

definition second_batch :: stats_batch where
  "second_batch = \<lparr>sb_id = [98, 45, 50], sb_day = 20001, sb_tallies = [],
     sb_counts = [\<lparr>bump_chat = - 5, bump_user = 7, bump_name = [65], bump_added = 60\<rparr>]\<rparr>"

definition second_awards :: stats_db where
  "second_awards = fst (apply_stats sb_id rev (chat_rank (\<lambda>c. True)) 300 second_batch acked_awards)"

definition second_delivery :: award_delivery where
  "second_delivery = \<lparr>ad_chat = - 5, ad_user = 7, ad_name = [65], ad_total = 111, ad_awarded = 50,
     ad_milestone = 100, ad_attempts = 1, ad_version = 2, ad_lease = 4\<rparr>"

lemma second_digest: "batch_digest sb_id rev second_batch = Inr [50, 45, 98]"
  by (simp add: batch_digest_def encoded_def validate_id_def second_batch_def is_ascii_hexdigit_def
      max_batch_bytes_def bad_tally_name_def max_tally_counter_bytes_def tally_input_key_def bump_key_def
      len_utf8_def)

lemma second_awards_list:
  "awards second_awards = [\<lparr>aw_chat = - 5, aw_user = 7, aw_name = [65], aw_total = 111, aw_awarded = 50,
     aw_milestone = 100, aw_version = 1, aw_lease = None, aw_until = Long_Ago, aw_attempts = 0,
     aw_terminal = None, aw_terminal_at = None, aw_created = 300\<rparr>]" "opaque_serial second_awards = 4"
  unfolding second_awards_def apply_stats_def second_digest acked_awards_value
  by (simp_all add: apply_tallies_def chunks_short second_batch_def example_awards_def example_stats_def postgres_i64_def
      int_bounds add_receipt_def sql_upsert_def sql_insert_def sql_update_def row_at_Cons counter_key_def Let_def
      count_chunk_def counter_fold_def write_batch_def existing_batch_def allowed_new_def new_batch_def bump_key_def
      reserved_new_def counter_limit_def add_count_def award_key_def new_award_key_def first_award_def
      blank_counter_def counts_in_range_def List.map_filter_def nonnegative_counter_def
      chat_rank_def rank_award_milestone_def rank_at_def milestones_def enumerate_eq_zip)

lemma second_claim:
  "claim_rank_awards (\<lambda>k. False) (\<lambda>xs. xs) 8 400 second_awards =
    (fst (claim_rank_awards (\<lambda>k. False) (\<lambda>xs. xs) 8 400 second_awards), Inr [second_delivery])"
proof -
  have "snd (claim_rank_awards (\<lambda>k. False) (\<lambda>xs. xs) 8 400 second_awards) = Inr [second_delivery]"
    by (simp add: claim_rank_awards_def second_awards_list Let_def sql_page_def award_exhausted_def award_due_def
        sql_update_def lease_award_def decode_award_def nonnegative_column_def second_delivery_def
        max_rank_award_attempts_def)
  then show ?thesis by (simp add: prod_eq_iff)
qed

lemma rank_retry_delay_bounds:
  assumes "1 \<le> a" and "a \<le> 20"
  shows "rank_retry_delay a requested =
    min 21600 (max (30 * 2 ^ nat (a - 1)) (case requested of None \<Rightarrow> 0 | Some x \<Rightarrow> x))"
proof -
  have "(2::int) ^ nat (a - 1) \<le> 2 ^ 19" by (rule power_increasing) (use assms in simp_all)
  then have "(30 * 2 ^ nat (a - 1)) mod 2 ^ 64 = 30 * (2::int) ^ nat (a - 1)" by (intro mod_pos_pos_trivial) simp_all
  moreover have "sat_add a (- 1) = a - 1" "min (a - 1) 20 = a - 1" using assms by (simp_all add: sat_add_def sat_i64_def int_bounds clamp_def)
  ultimately show ?thesis using assms
    by (simp add: rank_retry_delay_def Let_def min_rank_retry_seconds_def max_rank_retry_seconds_def int_bounds
        min_def max_def split: option.splits)
qed

section \<open>Properties\<close>

text \<open>
  C14: a delivery settles at most once. Whatever happens to the store between its claim and its
  settlement, and afterwards, once it was acknowledged, deferred or given up, or the member was
  claimed again, neither an acknowledgement nor a deferral with it changes anything.
\<close>

theorem rank_award_settled_once:
  assumes "awards_ok s" and "arranges arrange"
    and "claim_rank_awards locked arrange limit now s = (s1, Inr ds)" and "d \<in> set ds"
    and "award_step\<^sup>*\<^sup>* s1 s2" and "award_settled d s2 s3" and "award_step\<^sup>*\<^sup>* s3 s4"
  shows "ack_rank_award d milestone s4 = (s4, Inr False) \<and>
    (utf8_len reason \<le> 128 \<longrightarrow> defer_rank_award d reason requested now' s4 = (s4, Inr Superseded))"
proof -
  note c = claim_rank_awards_Inr [OF assms(1-4)]
  have ok1: "awards_ok s1"
    using award_move_ok(1) [OF assms(1) claim_rank_awards_move [OF assms(1), of locked arrange limit now]] assms(3)
    by simp
  have ok2: "awards_ok s2" by (rule award_fence.ok_steps [OF assms(5) ok1])
  have "ad_lease d < opaque_serial s2"
    using award_fence.sequence_steps [OF assms(5) ok1] c(1,2) by simp
  then have 3: "spent d s3 \<and> awards_ok s3" using settled_spent [OF ok2 _ assms(6)] by blast
  then have "spent d s4" "awards_ok s4"
    using spent_steps [OF assms(7)] award_fence.ok_steps [OF assms(7)] by blast+
  then show ?thesis using spent_settles_nothing by blast
qed

lemma rank_award_settled_once_witness:
  "ack_rank_award example_delivery (Some 50) acked_awards = (acked_awards, Inr False)"
proof -
  have "award_settled example_delivery claimed_awards acked_awards"
    using example_ack by (auto simp: award_settled_def)
  from rank_award_settled_once [OF example_awards_ok(1) arranges_id example_claim_awards _ rtranclp.rtrancl_refl
      this rtranclp.rtrancl_refl, of "Some 50" "[]" None 0]
  show ?thesis by simp
qed

text \<open>
  No double announcement while a worker is at it. From the claim on, and until its lease of
  120 seconds has run out or it has settled, no other claim hands out an award of the same member.
\<close>

theorem rank_award_lease_excludes_others:
  assumes "awards_ok s" and "arranges arrange"
    and "claim_rank_awards locked arrange limit now s = (s1, Inr ds)" and "d \<in> set ds"
    and "award_step\<^sup>*\<^sup>* s1 s2" and "award_lease_at s2 (delivery_key d) = Some (ad_lease d)"
    and "now' < now + 120" and "arranges arrange'"
    and "claim_rank_awards locked' arrange' limit' now' s2 = (s3, Inr ds')" and "d' \<in> set ds'"
  shows "delivery_key d' \<noteq> delivery_key d"
proof
  assume same: "delivery_key d' = delivery_key d"
  note c = claim_rank_awards_Inr [OF assms(1-4)]
  have ok1: "awards_ok s1"
    using award_move_ok(1) [OF assms(1) claim_rank_awards_move [OF assms(1), of locked arrange limit now]] assms(3)
    by simp
  have ok2: "awards_ok s2" by (rule award_fence.ok_steps [OF assms(5) ok1])
  have "award_lease_at s1 (delivery_key d) = Some (ad_lease d)"
    using c(3) by (auto simp: lease_at_def award_held_def)
  then have until: "award_until_at s2 (delivery_key d) = Some (At (now + 120))"
    using award_fence.due_while_leased [OF assms(5) ok1 _ assms(6)] c(3)
    by (auto simp: due_at_def award_lease_seconds_def)
  then obtain r where r: "row_at award_key (awards s2) (delivery_key d) = Some r" "aw_until r = At (now + 120)"
    by (auto simp: due_at_def)
  have busy: "\<not> passed now' (aw_until r)" using assms(7) by (simp add: r(2))
  from claim_rank_awards_Inr(4) [OF ok2 assms(8-10)] same r(1) have "award_due now' r" by auto
  with busy show False by (simp add: award_due_def)
qed

lemma rank_award_lease_excludes_others_witness:
  "(-5, 7) \<notin> delivery_key ` set (case snd (claim_rank_awards (\<lambda>k. False) (\<lambda>xs. xs) 8 319 claimed_awards) of
     Inr ds \<Rightarrow> ds | Inl e \<Rightarrow> [])"
proof -
  have "award_lease_at claimed_awards (delivery_key example_delivery) = Some (ad_lease example_delivery)"
    using claimed_awards_row by (auto simp: lease_at_def delivery_key_def example_delivery_def award_held_def)
  note ex = rank_award_lease_excludes_others [OF example_awards_ok(1) arranges_id example_claim_awards _ rtranclp.rtrancl_refl
      this _ arranges_id, of 319 "\<lambda>k. False" 8]
  have "delivery_key example_delivery = (-5, 7)" by (simp add: delivery_key_def example_delivery_def)
  then show ?thesis using ex
    by (cases "claim_rank_awards (\<lambda>k. False) (\<lambda>xs. xs) 8 319 claimed_awards") (force split: sum.splits)
qed

text \<open>
  Retries are bounded. The holder of a live award had between 1 and 20 attempts; deferring it
  after the twentieth gives it up for good, before that puts it back for 30 seconds doubled per
  attempt, or for as long as the server asked if that is longer, and never for more than 6 hours.
\<close>

theorem rank_award_retry_bounds:
  assumes "awards_ok s" and "row_at award_key (awards s) (delivery_key d) = Some r" and "award_held d r"
    and "ad_attempts d = aw_attempts r" and "utf8_len reason \<le> 128"
  shows "1 \<le> aw_attempts r \<and> aw_attempts r \<le> 20 \<and>
    (if aw_attempts r = 20
     then snd (defer_rank_award d reason requested now s) = Inr Terminal \<and>
       row_at award_key (awards (fst (defer_rank_award d reason requested now s))) (delivery_key d) =
         Some (r\<lparr>aw_terminal := Some (limit_prefix @ reason), aw_terminal_at := Some now, aw_lease := None, aw_until := Never\<rparr>)
     else \<exists>delay. snd (defer_rank_award d reason requested now s) = Inr (Deferred delay) \<and>
       delay = min 21600 (max (30 * 2 ^ nat (aw_attempts r - 1)) (case requested of None \<Rightarrow> 0 | Some x \<Rightarrow> x)) \<and>
       30 \<le> delay \<and> delay \<le> 21600 \<and>
       row_at award_key (awards (fst (defer_rank_award d reason requested now s))) (delivery_key d) =
         Some (r\<lparr>aw_lease := None, aw_until := At (now + delay)\<rparr>))"
proof -
  note uk = awards_ok_rows(1) [OF assms(1)]
  have "award_row_ok r" using awards_ok_rows(2) [OF assms(1)] row_at_Some [OF assms(2)] by blast
  then have r: "1 \<le> aw_attempts r" "aw_attempts r \<le> 20" "aw_terminal r = None"
    using assms(3) by (simp_all add: award_row_ok_def award_held_def max_rank_award_attempts_def)
  have hit: "sql_exists (\<lambda>q. award_key q = delivery_key d \<and> award_held d q) (awards s)"
    "sql_exists (\<lambda>q. award_key q = delivery_key d \<and> award_held d q \<and> aw_terminal q = None) (awards s)"
    using sql_exists_key [OF uk, of "delivery_key d" "award_held d"] assms(2,3) r(3)
      sql_exists_key [OF uk, of "delivery_key d" "\<lambda>q. award_held d q \<and> aw_terminal q = None"] by auto
  show ?thesis
  proof (cases "aw_attempts r = 20")
    case True
    with r assms hit show ?thesis
      by (simp add: defer_rank_award_def Let_def max_rank_award_attempts_def
          row_at_update_key(2) [where key = award_key, OF award_keys(1)]) (simp add: terminal_award_def)
  next
    case False
    let ?delay = "rank_retry_delay (aw_attempts r) requested"
    have "row_at award_key (sql_update (\<lambda>q. award_key q = delivery_key d \<and> award_held d q \<and> aw_terminal q = None)
        (deferred_award until) (awards s)) (delivery_key d) = Some (deferred_award until r)" for until
      using row_at_update_key(2) [where key = award_key and f = "deferred_award until", OF award_keys(3)] assms(2,3) r(3)
      by simp
    moreover have "?delay = min 21600 (max (30 * 2 ^ nat (aw_attempts r - 1)) (case requested of None \<Rightarrow> 0 | Some x \<Rightarrow> x))"
      by (rule rank_retry_delay_bounds [OF r(1,2)])
    moreover have "30 \<le> max (30 * 2 ^ nat (aw_attempts r - 1)) x" for x :: int
      using one_le_power [of "2 :: int" "nat (aw_attempts r - 1)"] by linarith
    ultimately show ?thesis
      using False r assms hit by (simp add: defer_rank_award_def Let_def max_rank_award_attempts_def deferred_award_def)
  qed
qed

text \<open>
  A milestone is announced once. After an award was acknowledged with its milestone, batches,
  claims, deferrals, acknowledgements and purges never lead to a delivery for that member at that
  milestone or a lower one.
\<close>

theorem rank_milestone_announced_once:
  assumes "stats_ok s" and "awards_ok s" and "row_at counter_key (counters (core s)) (delivery_key d) = Some q"
    and "ack_rank_award d (Some m) s = (s1, Inr True)" and "rank_step\<^sup>*\<^sup>* s1 s2" and "arranges arrange"
    and "claim_rank_awards locked arrange limit now s2 = (s3, Inr ds)" and "d' \<in> set ds"
    and "delivery_key d' = delivery_key d"
  shows "m < ad_milestone d'"
proof -
  have 1: "stats_ok s1" "awards_ok s1" "announced m (delivery_key d) s1"
    using ack_stats_ok [OF assms(1), of d "Some m"] award_move_ok(1) [OF assms(2) ack_rank_award_move [OF assms(2)], of d "Some m"]
      ack_announces [OF assms(4,2,3)] assms(4) by simp_all
  have 2: "awards_ok s2" "announced m (delivery_key d) s2"
    using rank_steps_announced [OF assms(5) 1] by blast+
  have "announced m (delivery_key d) s3"
    using claim_announced [OF 2(2), of locked arrange limit now] assms(7) by simp
  with claim_rank_awards_Inr(3) [OF 2(1) assms(6-8)] assms(9) show ?thesis by (auto simp: announced_def)
qed


lemma rank_milestone_announced_once_witness: "50 < ad_milestone second_delivery"
proof -
  have d: "delivery_key example_delivery = (-5, 7)" "delivery_key second_delivery = (-5, 7)"
    by (simp_all add: delivery_key_def example_delivery_def second_delivery_def)
  have q: "row_at counter_key (counters (core claimed_awards)) (delivery_key example_delivery) =
      Some ((blank_counter (-5, 7))\<lparr>total := 51\<rparr>)"
    by (simp add: d claimed_awards_def claim_rank_awards_def Let_def example_awards_def row_at_Cons blank_counter_def counter_key_def)
  have step: "rank_step\<^sup>*\<^sup>* acked_awards second_awards"
    unfolding second_awards_def by (rule r_into_rtranclp) (rule rank_apply)
  show ?thesis
    by (rule rank_milestone_announced_once [OF claimed_awards_ok(2,1) q example_ack step arranges_id second_claim])
      (simp_all add: d)
qed

lemma rank_award_retry_bounds_witness:
  "snd (defer_rank_award example_delivery [] (Some 45) 210 claimed_awards) = Inr (Deferred 45)"
proof -
  have d: "delivery_key example_delivery = (-5, 7)" "ad_attempts example_delivery = 1"
    by (simp_all add: delivery_key_def example_delivery_def)
  obtain r where r: "row_at award_key (awards claimed_awards) (delivery_key example_delivery) = Some r"
    "award_held example_delivery r" "aw_attempts r = 1"
    using claimed_awards_row by (auto simp: d)
  have "utf8_len ([] :: utext) \<le> 128" by simp
  from rank_award_retry_bounds [OF claimed_awards_ok(1) r(1,2) _ this, of "Some 45" 210] r(3) d(2) show ?thesis by simp
qed

end
