(* ===== verification/CrashRuns.thy ===== *)
theory CrashRuns
  imports Main
begin

text \<open>
  Runs that may be cut off: a run takes a state and yields the states it passed through after
  each effect, the state it ended in and its result or error. A crash leaves one of the states
  passed through (\<open>crash_points\<close>). \<open>run_ok I m s Q\<close> says that every state passed through
  satisfies \<open>I\<close> and that result and final state satisfy \<open>Q\<close>; its rules follow the structure of a
  run, so a proof about crashes is a walk through the program.
\<close>

type_synonym ('s, 'e, 'a) run = "'s \<Rightarrow> 's list \<times> 's \<times> ('e + 'a)"

definition run_return :: "'a \<Rightarrow> ('s, 'e, 'a) run" where
  "run_return x s = ([], s, Inr x)"

definition run_fail :: "'e \<Rightarrow> ('s, 'e, 'a) run" where
  "run_fail e s = ([], s, Inl e)"

definition run_get :: "('s \<Rightarrow> 'a) \<Rightarrow> ('s, 'e, 'a) run" where
  "run_get f s = ([], s, Inr (f s))"

definition run_step :: "('s \<Rightarrow> 's) \<Rightarrow> ('s, 'e, unit) run" where
  "run_step f s = ([f s], f s, Inr ())"

definition run_bind :: "('s, 'e, 'a) run \<Rightarrow> ('a \<Rightarrow> ('s, 'e, 'b) run) \<Rightarrow> ('s, 'e, 'b) run" where
  "run_bind m k s = (case m s of
     (v, t, Inl e) \<Rightarrow> (v, t, Inl e)
   | (v, t, Inr x) \<Rightarrow> (case k x t of (w, u, r) \<Rightarrow> (v @ w, u, r)))"

definition run_then :: "('s, 'e, 'a) run \<Rightarrow> ('s, 'e, 'b) run \<Rightarrow> ('s, 'e, 'b) run" where
  "run_then m k = run_bind m (\<lambda>x. k)"

text \<open>A handler for errors, as in a \<open>match\<close> on the result of a call.\<close>

definition run_catch :: "('s, 'e, 'a) run \<Rightarrow> ('e \<Rightarrow> ('s, 'e, 'a) run) \<Rightarrow> ('s, 'e, 'a) run" where
  "run_catch m h s = (case m s of
     (v, t, Inl e) \<Rightarrow> (case h e t of (w, u, r) \<Rightarrow> (v @ w, u, r))
   | (v, t, Inr x) \<Rightarrow> (v, t, Inr x))"

primrec run_each :: "('x \<Rightarrow> ('s, 'e, 'a) run) \<Rightarrow> 'x list \<Rightarrow> ('s, 'e, 'a list) run" where
  "run_each m [] = run_return []"
| "run_each m (x # xs) = run_bind (m x) (\<lambda>a. run_bind (run_each m xs) (\<lambda>as. run_return (a # as)))"

text \<open>A run on the second component of a pair.\<close>

definition on_snd :: "('s, 'e, 'a) run \<Rightarrow> ('t \<times> 's, 'e, 'a) run" where
  "on_snd m p = (case m (snd p) of (v, s, r) \<Rightarrow> (map (Pair (fst p)) v, (fst p, s), r))"

definition crash_points :: "('s, 'e, 'a) run \<Rightarrow> 's \<Rightarrow> 's set" where
  "crash_points m s = insert s (set (fst (m s)))"

definition run_final :: "('s, 'e, 'a) run \<Rightarrow> 's \<Rightarrow> 's" where
  "run_final m s = fst (snd (m s))"

definition run_result :: "('s, 'e, 'a) run \<Rightarrow> 's \<Rightarrow> 'e + 'a" where
  "run_result m s = snd (snd (m s))"

section \<open>Rules\<close>

definition run_ok :: "('s \<Rightarrow> bool) \<Rightarrow> ('s, 'e, 'a) run \<Rightarrow> 's \<Rightarrow> ('e + 'a \<Rightarrow> 's \<Rightarrow> bool) \<Rightarrow> bool" where
  "run_ok I m s Q \<longleftrightarrow> (\<forall>v \<in> set (fst (m s)). I v) \<and> Q (run_result m s) (run_final m s)"

lemma run_okD:
  assumes "run_ok I m s Q"
  shows "Q (run_result m s) (run_final m s)" and "I s \<Longrightarrow> v \<in> crash_points m s \<Longrightarrow> I v"
  using assms by (auto simp: run_ok_def crash_points_def)

lemma run_ok_return: "Q (Inr x) s \<Longrightarrow> run_ok I (run_return x) s Q"
  by (simp add: run_ok_def run_return_def run_result_def run_final_def)

lemma run_ok_fail: "Q (Inl e) s \<Longrightarrow> run_ok I (run_fail e) s Q"
  by (simp add: run_ok_def run_fail_def run_result_def run_final_def)

lemma run_ok_get: "Q (Inr (f s)) s \<Longrightarrow> run_ok I (run_get f) s Q"
  by (simp add: run_ok_def run_get_def run_result_def run_final_def)

lemma run_ok_step: "I (f s) \<Longrightarrow> Q (Inr ()) (f s) \<Longrightarrow> run_ok I (run_step f) s Q"
  by (simp add: run_ok_def run_step_def run_result_def run_final_def)

lemma run_ok_bind:
  assumes "run_ok I m s (\<lambda>r t. case r of Inl e \<Rightarrow> Q (Inl e) t | Inr x \<Rightarrow> run_ok I (k x) t Q)"
  shows "run_ok I (run_bind m k) s Q"
  using assms by (auto simp: run_ok_def run_bind_def run_result_def run_final_def split: prod.splits sum.splits)

lemma run_ok_then:
  assumes "run_ok I m s (\<lambda>r t. case r of Inl e \<Rightarrow> Q (Inl e) t | Inr x \<Rightarrow> run_ok I k t Q)"
  shows "run_ok I (run_then m k) s Q"
  unfolding run_then_def by (rule run_ok_bind) (rule assms)

lemma run_ok_catch:
  assumes "run_ok I m s (\<lambda>r t. case r of Inl e \<Rightarrow> run_ok I (h e) t Q | Inr x \<Rightarrow> Q (Inr x) t)"
  shows "run_ok I (run_catch m h) s Q"
  using assms by (auto simp: run_ok_def run_catch_def run_result_def run_final_def split: prod.splits sum.splits)

lemma run_ok_weaken:
  assumes "run_ok I m s Q" and "\<And>v. I v \<Longrightarrow> J v" and "\<And>r t. Q r t \<Longrightarrow> R r t"
  shows "run_ok J m s R"
  using assms by (simp add: run_ok_def)

lemma run_ok_conj:
  assumes "run_ok I m s Q" and "run_ok J m s R"
  shows "run_ok (\<lambda>v. I v \<and> J v) m s (\<lambda>r t. Q r t \<and> R r t)"
  using assms by (auto simp: run_ok_def)

lemma run_ok_on_snd:
  assumes "run_ok (\<lambda>v. I (fst p, v)) m (snd p) (\<lambda>r t. Q r (fst p, t))"
  shows "run_ok I (on_snd m) p Q"
  using assms by (auto simp: run_ok_def on_snd_def run_result_def run_final_def split: prod.splits)

text \<open>A loop: each round starts from \<open>P\<close> with the items left and the results so far, and an error ends it.\<close>

lemma run_ok_each:
  assumes "P xs [] s"
    and "\<And>x rest acc t. P (x # rest) acc t \<Longrightarrow>
      run_ok I (m x) t (\<lambda>r u. case r of Inl e \<Rightarrow> E e u | Inr a \<Rightarrow> P rest (acc @ [a]) u)"
  shows "run_ok I (run_each m xs) s (\<lambda>r t. case r of Inl e \<Rightarrow> E e t | Inr as \<Rightarrow> P [] as t)"
proof -
  have "run_ok I (run_each m rest) t (\<lambda>r u. case r of Inl e \<Rightarrow> E e u | Inr as \<Rightarrow> P [] (acc @ as) u)"
    if "P rest acc t" for rest acc t
    using that
  proof (induction rest arbitrary: acc t)
    case Nil
    then show ?case by (simp add: run_ok_return)
  next
    case (Cons x rest)
    have "run_ok I (m x) t (\<lambda>r u. case r of Inl e \<Rightarrow> E e u | Inr a \<Rightarrow> P rest (acc @ [a]) u)"
      by (rule assms(2)) (use Cons.prems in simp_all)
    then have "run_ok I (m x) t (\<lambda>r u. case r of Inl e \<Rightarrow> E e u
      | Inr a \<Rightarrow> run_ok I (run_each m rest) u (\<lambda>r u. case r of Inl e \<Rightarrow> E e u | Inr as \<Rightarrow> P [] ((acc @ [a]) @ as) u))"
    proof (rule run_ok_weaken)
      fix r u
      assume "case r of Inl e \<Rightarrow> E e u | Inr a \<Rightarrow> P rest (acc @ [a]) u"
      then show "case r of Inl e \<Rightarrow> E e u
        | Inr a \<Rightarrow> run_ok I (run_each m rest) u (\<lambda>r u. case r of Inl e \<Rightarrow> E e u | Inr as \<Rightarrow> P [] ((acc @ [a]) @ as) u)"
        using Cons.IH by (cases r) simp_all
    qed simp
    then show ?case
      by (auto simp: run_ok_def run_bind_def run_return_def run_result_def run_final_def
          split: prod.splits sum.splits)
  qed
  from this [OF assms(1), unfolded append_Nil] show ?thesis .
qed

text \<open>If both the states passed through and the state at the end satisfy \<open>I\<close>, so do all crash points.\<close>

lemma crash_points_ok:
  assumes "run_ok I m s Q" and "I s" and "v \<in> crash_points m s"
  shows "I v"
  using run_okD(2) [OF assms] .

end
