(* ===== verification/Spool.thy ===== *)
theory Spool
  imports Statistics CrashRuns "HOL-Library.Sublist" "HOL-Library.List_Lexorder"
begin

text \<open>
  The disk spool of \<open>src/src/state/durable.rs\<close>: before a batch of statistics goes to the database it
  is written to a directory, so that a crash at any moment loses or doubles nothing. A directory is
  a table of named files, every operation a run (\<open>CrashRuns\<close>) that lists the directories a crash
  can leave. Synchronising has no effect of its own: the contents of a file are synchronised before
  the file gets its final name, and the directory before the temporary name goes, so that the
  states after a loss of power are among the states after a crash. Reading, writing and linking
  fail only as stated; other errors of the operating system are not modelled.
\<close>

section \<open>Files\<close>

text \<open>
  \<open>Json i\<close> and \<open>Tmp i\<close> are \<open><i>.json\<close> and \<open><i>.tmp\<close>, whose stem is \<open>i\<close>; the two probes are
  the names of \<open>preflight_hard_links\<close>. An entry that is not a regular file has an argument saying
  whether it leads to something (a dangling link does not).
\<close>

datatype spool_name = Json utext | Tmp utext | Probe_Source | Probe_Link | Unknown utext

datatype spool_file = Regular bytes | Special bool

record dir_entry =
  de_name :: spool_name
  de_file :: spool_file

type_synonym directory = "dir_entry table"

datatype spool_error =
  Not_Found | Already_Exists | Disk_Full | Refused string | Rejected stats_error

type_synonym ('s, 'a) spool_run = "('s, spool_error, 'a) run"

definition file_at :: "directory \<Rightarrow> spool_name \<Rightarrow> spool_file option" where
  "file_at d n = map_option de_file (row_at de_name d n)"

definition put_file :: "spool_name \<Rightarrow> spool_file \<Rightarrow> directory \<Rightarrow> directory" where
  "put_file n f d = sql_upsert de_name n \<lparr>de_name = n, de_file = f\<rparr> (\<lambda>e. e\<lparr>de_file := f\<rparr>) d"

definition del_file :: "spool_name \<Rightarrow> directory \<Rightarrow> directory" where
  "del_file n d = sql_delete (\<lambda>e. de_name e = n) d"

definition stat_file :: "spool_name \<Rightarrow> (directory, spool_file option) spool_run" where
  "stat_file n = run_get (\<lambda>d. file_at d n)"

definition path_exists :: "spool_name \<Rightarrow> (directory, bool) spool_run" where
  "path_exists n = run_get (\<lambda>d. case file_at d n of
     None \<Rightarrow> False | Some (Regular bs) \<Rightarrow> True | Some (Special there) \<Rightarrow> there)"

definition open_file :: "spool_name \<Rightarrow> (directory, unit) spool_run" where
  "open_file n d = (if file_at d n = None then run_fail Not_Found d else run_return () d)"

definition read_file :: "spool_name \<Rightarrow> (directory, bytes) spool_run" where
  "read_file n d = (case file_at d n of
     None \<Rightarrow> run_fail Not_Found d
   | Some (Special there) \<Rightarrow> run_fail (Refused ''not a regular file'') d
   | Some (Regular bs) \<Rightarrow> run_return bs d)"

definition create_file :: "spool_name \<Rightarrow> (directory, unit) spool_run" where
  "create_file n d = (if file_at d n = None then run_step (put_file n (Regular [])) d
     else run_fail Already_Exists d)"

text \<open>Writing to a new file passes through every prefix; with a \<open>fault\<close> it fails after some bytes.\<close>

definition write_file :: "nat option \<Rightarrow> spool_name \<Rightarrow> bytes \<Rightarrow> (directory, unit) spool_run" where
  "write_file fault n bs d =
     (let upto = (case fault of None \<Rightarrow> length bs | Some k \<Rightarrow> min k (length bs))
      in (map (\<lambda>k. put_file n (Regular (take k bs)) d) [0..<Suc upto],
          put_file n (Regular (take upto bs)) d,
          if upto = length bs then Inr () else Inl Disk_Full))"

definition link_file :: "spool_name \<Rightarrow> spool_name \<Rightarrow> (directory, unit) spool_run" where
  "link_file a b d = (case file_at d a of
     None \<Rightarrow> run_fail Not_Found d
   | Some f \<Rightarrow> if file_at d b = None then run_step (put_file b f) d else run_fail Already_Exists d)"

definition remove_file :: "spool_name \<Rightarrow> (directory, unit) spool_run" where
  "remove_file n d = (if file_at d n = None then run_fail Not_Found d else run_step (del_file n) d)"

definition sync_directory :: "(directory, unit) spool_run" where
  "sync_directory = run_return ()"

section \<open>Bounds\<close>

definition max_spool_bytes :: nat where
  "max_spool_bytes = 256 * 1024 * 1024"

definition max_spool_files :: nat where
  "max_spool_files = 4096"

record inventory =
  inv_batches :: "utext list"
  inv_temporaries :: "utext list"
  inv_bytes :: nat
  inv_entries :: nat

fun inspect_entries :: "nat \<Rightarrow> nat \<Rightarrow> dir_entry list \<Rightarrow> inventory \<Rightarrow> string + inventory" where
  "inspect_entries max_bytes max_files [] iv = Inr iv"
| "inspect_entries max_bytes max_files (e # es) iv =
     (if max_files < inv_entries iv + 1
      then Inl ''statistics spool has too many entries; refusing unbounded recovery''
      else
        (case de_file e of
           Special there \<Rightarrow> Inl ''statistics spool contains unsupported entry''
         | Regular bs \<Rightarrow>
             if max_bytes < inv_bytes iv + length bs
             then Inl ''statistics spool exceeds its byte limit; refusing unbounded recovery''
             else
               (let iv' = iv\<lparr>inv_entries := inv_entries iv + 1, inv_bytes := inv_bytes iv + length bs\<rparr>
                in case de_name e of
                     Json i \<Rightarrow> inspect_entries max_bytes max_files es (iv'\<lparr>inv_batches := inv_batches iv @ [i]\<rparr>)
                   | Tmp i \<Rightarrow> inspect_entries max_bytes max_files es (iv'\<lparr>inv_temporaries := inv_temporaries iv @ [i]\<rparr>)
                   | _ \<Rightarrow> Inl ''statistics spool contains unknown file'')))"

definition empty_inventory :: inventory where
  "empty_inventory = \<lparr>inv_batches = [], inv_temporaries = [], inv_bytes = 0, inv_entries = 0\<rparr>"

definition inspect_spool :: "nat \<Rightarrow> nat \<Rightarrow> (directory, inventory) spool_run" where
  "inspect_spool max_bytes max_files d =
     (case inspect_entries max_bytes max_files d empty_inventory of
        Inl e \<Rightarrow> run_fail (Refused e) d
      | Inr iv \<Rightarrow> run_return iv d)"

definition ensure_spool_capacity :: "nat \<Rightarrow> nat \<Rightarrow> nat \<Rightarrow> nat \<Rightarrow> (directory, unit) spool_run" where
  "ensure_spool_capacity additional_bytes additional_entries max_bytes max_files =
     run_bind (inspect_spool max_bytes max_files) (\<lambda>iv.
       if max_bytes < inv_bytes iv + additional_bytes \<or> max_files < inv_entries iv + additional_entries
       then run_fail (Refused ''statistics spool is full; retaining batch in memory'')
       else run_return ())"

section \<open>Staging and publishing\<close>

definition verify_existing_batch :: "spool_name \<Rightarrow> bytes \<Rightarrow> (directory, unit) spool_run" where
  "verify_existing_batch n expected =
     run_bind (stat_file n) (\<lambda>f. case f of
       None \<Rightarrow> run_fail Not_Found
     | Some (Special there) \<Rightarrow> run_fail (Refused ''statistics batch path is not a regular file'')
     | Some (Regular bs) \<Rightarrow>
         if bs \<noteq> expected
         then run_fail (Refused ''statistics batch id already exists with different content'')
         else run_return ())"

definition publish_temporary :: "utext \<Rightarrow> bytes \<Rightarrow> (directory, unit) spool_run" where
  "publish_temporary i expected =
     run_then (open_file (Tmp i))
       (run_then
         (run_catch (link_file (Tmp i) (Json i))
            (\<lambda>e. if e = Already_Exists then verify_existing_batch (Json i) expected else run_fail e))
         (run_then sync_directory (run_then (remove_file (Tmp i)) sync_directory)))"





definition finish_stats :: "stats_batch \<Rightarrow> (directory, unit) spool_run" where
  "finish_stats b =
     (if \<not> validate_id b then run_fail (Refused ''invalid statistics batch id'')
      else run_catch (run_then (remove_file (Json (sb_id b))) sync_directory)
             (\<lambda>e. if e = Not_Found then run_return () else run_fail e))"

section \<open>Recovery\<close>

definition recover_spool_temporary ::
  "(stats_batch \<Rightarrow> bytes) \<Rightarrow> (bytes \<Rightarrow> stats_batch option) \<Rightarrow> utext \<Rightarrow> (directory, utext option) spool_run" where
  "recover_spool_temporary to_json from_json i =
     (let discard = run_then (remove_file (Tmp i)) (run_return None) in
     run_bind (stat_file (Tmp i)) (\<lambda>f. case f of
       None \<Rightarrow> run_fail Not_Found
     | Some (Special there) \<Rightarrow> discard
     | Some (Regular bs) \<Rightarrow>
         if max_batch_bytes < length bs then discard
         else
           (case from_json bs of
              None \<Rightarrow> discard
            | Some b \<Rightarrow>
                if encoded to_json b \<noteq> Inr bs then discard
                else if i \<noteq> sb_id b
                then run_fail (Refused ''non-canonical complete statistics temporary cannot be safely replayed'')
                else
                  run_bind (path_exists (Json (sb_id b))) (\<lambda>there.
                    run_then (if there then run_return ()
                        else ensure_spool_capacity (length bs) 1 max_spool_bytes max_spool_files)
                      (run_then (publish_temporary i bs) (run_return (Some i)))))))"

text \<open>The text \<open>groupbot hard-link preflight\<close>.\<close>

definition probe :: bytes where
  "probe = map of_char ''groupbot hard-link preflight''"

definition clear_probe :: "spool_name \<Rightarrow> (directory, unit) spool_run" where
  "clear_probe n =
     run_bind (stat_file n) (\<lambda>f. case f of
       None \<Rightarrow> run_return ()
     | Some g \<Rightarrow> if g = Regular probe then remove_file n
         else run_fail (Refused ''statistics hard-link probe path is occupied''))"

definition preflight_hard_links :: "(directory, unit) spool_run" where
  "preflight_hard_links =
     run_then (clear_probe Probe_Link)
       (run_then (clear_probe Probe_Source)
         (run_then (create_file Probe_Source)
           (run_then (write_file None Probe_Source probe)
             (run_then (link_file Probe_Source Probe_Link)
               (run_then (remove_file Probe_Link)
                 (run_then (remove_file Probe_Source) sync_directory))))))"

text \<open>
  The rest works on the database and the directory. \<open>conn\<close> is what the connection does to a
  transaction: it commits, it breaks before the commit, or it breaks when the commit had happened
  already and only the answer was lost.
\<close>

type_synonym stats_world = "stats_db \<times> directory"

datatype connection = Answered | Broken | Unanswered

definition apply_run ::
  "connection \<Rightarrow> (stats_batch \<Rightarrow> bytes) \<Rightarrow> (bytes \<Rightarrow> bytes) \<Rightarrow> (chat_id \<Rightarrow> int \<Rightarrow> int \<Rightarrow> int \<Rightarrow> int option) \<Rightarrow>
     seconds \<Rightarrow> stats_batch \<Rightarrow> (stats_world, bool) spool_run" where
  "apply_run conn to_json sha rank now b w =
     (case apply_stats to_json sha rank now b (fst w) of
        (db, Inl e) \<Rightarrow> run_fail (Rejected e) w
      | (db, Inr x) \<Rightarrow>
          (case conn of
             Answered \<Rightarrow> ([(db, snd w)], (db, snd w), Inr x)
           | Broken \<Rightarrow> run_fail (Rejected (Retryable ''connection'')) w
           | Unanswered \<Rightarrow> ([(db, snd w)], (db, snd w), Inl (Rejected (Retryable ''connection'')))))"

definition recover_file ::
  "(stats_batch \<Rightarrow> bytes) \<Rightarrow> (bytes \<Rightarrow> stats_batch option) \<Rightarrow> (bytes \<Rightarrow> bytes) \<Rightarrow>
     (chat_id \<Rightarrow> int \<Rightarrow> int \<Rightarrow> int \<Rightarrow> int option) \<Rightarrow> seconds \<Rightarrow> connection \<Rightarrow> utext \<Rightarrow> (stats_world, unit) spool_run" where
  "recover_file to_json from_json sha rank now conn i =
     run_bind (on_snd (read_file (Json i))) (\<lambda>bs.
       if max_batch_bytes < length bs then run_fail (Refused ''oversized statistics recovery file'')
       else
         (case from_json bs of
            None \<Rightarrow> run_fail (Refused ''json'')
          | Some b \<Rightarrow>
              (case encoded to_json b of
                 Inl e \<Rightarrow> run_fail (Refused e)
               | Inr bs' \<Rightarrow>
                   if i \<noteq> sb_id b then run_fail (Refused ''statistics recovery filename/id mismatch'')
                   else run_then (apply_run conn to_json sha rank now b) (on_snd (finish_stats b)))))"

text \<open>\<open>arrange\<close> is the order in which the receipts are listed.\<close>

definition remove_applied_spool ::
  "(stats_batch \<Rightarrow> bytes) \<Rightarrow> (bytes \<Rightarrow> stats_batch option) \<Rightarrow> (bytes \<Rightarrow> bytes) \<Rightarrow>
     (receipt list \<Rightarrow> receipt list) \<Rightarrow> utext list \<Rightarrow> (stats_world, unit) spool_run" where
  "remove_applied_spool to_json from_json sha arrange ids =
     run_bind (run_get (\<lambda>w. arrange (filter (\<lambda>r. rc_id r \<in> set ids) (receipts (fst w))))) (\<lambda>rows.
       run_then (run_each (\<lambda>r. case rc_digest r of
           None \<Rightarrow> run_return ()
         | Some stored \<Rightarrow>
             run_bind (on_snd (read_file (Json (rc_id r)))) (\<lambda>bs.
               if max_batch_bytes < length bs then run_return ()
               else
                 (case from_json bs of
                    None \<Rightarrow> run_fail (Refused ''json'')
                  | Some b \<Rightarrow>
                      if sb_id b \<noteq> rc_id r then run_return ()
                      else
                        (case batch_digest to_json sha b of
                           Inl e \<Rightarrow> run_fail (Rejected e)
                         | Inr digest \<Rightarrow> if digest = stored then on_snd (finish_stats b) else run_return ())))) rows)
         (run_return ()))"

definition expired_receipts :: "seconds \<Rightarrow> stats_db \<Rightarrow> utext set" where
  "expired_receipts now db =
     set (map rc_id (sql_page (\<lambda>r. rc_applied r < now - 86400) rc_applied 5000 (receipts db)))"

definition prune_stats_receipts ::
  "(stats_batch \<Rightarrow> bytes) \<Rightarrow> (bytes \<Rightarrow> stats_batch option) \<Rightarrow> (bytes \<Rightarrow> bytes) \<Rightarrow> seconds \<Rightarrow>
     (receipt list \<Rightarrow> receipt list) \<Rightarrow> (stats_world, unit) spool_run" where
  "prune_stats_receipts to_json from_json sha now arrange =
     run_bind (on_snd (inspect_spool max_spool_bytes max_spool_files)) (\<lambda>iv.
       if inv_batches iv \<noteq> [] then remove_applied_spool to_json from_json sha arrange (inv_batches iv)
       else if inv_temporaries iv \<noteq> [] then run_return ()
       else run_step (\<lambda>w. ((fst w)\<lparr>receipts := sql_delete (\<lambda>r. rc_id r \<in> expired_receipts now (fst w))
                (receipts (fst w))\<rparr>, snd w)))"

text \<open>Paths are sorted by their file names.\<close>

definition json_name :: "utext \<Rightarrow> nat list" where
  "json_name i = i @ map of_char ''.json''"

definition tmp_name :: "utext \<Rightarrow> nat list" where
  "tmp_name i = i @ map of_char ''.tmp''"

definition recover_stats ::
  "(stats_batch \<Rightarrow> bytes) \<Rightarrow> (bytes \<Rightarrow> stats_batch option) \<Rightarrow> (bytes \<Rightarrow> bytes) \<Rightarrow>
     (chat_id \<Rightarrow> int \<Rightarrow> int \<Rightarrow> int \<Rightarrow> int option) \<Rightarrow> seconds \<Rightarrow> (utext \<Rightarrow> connection) \<Rightarrow>
     (receipt list \<Rightarrow> receipt list) \<Rightarrow> (stats_world, unit) spool_run" where
  "recover_stats to_json from_json sha rank now conn arrange =
     run_then (on_snd preflight_hard_links)
       (run_bind (on_snd (inspect_spool max_spool_bytes max_spool_files)) (\<lambda>iv.
         run_bind (on_snd (run_each (recover_spool_temporary to_json from_json)
             (sort_key tmp_name (inv_temporaries iv)))) (\<lambda>found.
           run_then (run_each (\<lambda>i. recover_file to_json from_json sha rank now (conn i) i)
               (sort_key json_name (remdups (inv_batches iv @ List.map_filter (\<lambda>f. f) found))))
             (prune_stats_receipts to_json from_json sha now arrange))))"

section \<open>The flush cycle\<close>


section \<open>Facts on files\<close>

lemma row_at_delete_name: "row_at key (sql_delete (\<lambda>e. key e = n) d) m = (if m = n then None else row_at key d m)"
  by (induction d) (auto simp: sql_delete_def row_at_Cons)

lemma file_at_put [simp]: "file_at (put_file n f d) m = (if m = n then Some f else file_at d m)"
  by (simp add: file_at_def put_file_def row_at_upsert split: option.splits)

lemma file_at_del [simp]: "file_at (del_file n d) m = (if m = n then None else file_at d m)"
  by (simp add: file_at_def del_file_def row_at_delete_name)

abbreviation names_ok :: "directory \<Rightarrow> bool" where
  "names_ok d \<equiv> unique_key de_name d"

lemma names_ok_put [simp]: "names_ok d \<Longrightarrow> names_ok (put_file n f d)"
  by (simp add: put_file_def unique_upsert)

lemma names_ok_del [simp]: "names_ok d \<Longrightarrow> names_ok (del_file n d)"
  by (simp add: del_file_def unique_delete)


text \<open>The primitive runs; \<open>run_ok_file\<close> collects them with the rules for composition.\<close>

named_theorems run_rules \<open>rules that walk through a run\<close>

lemmas [run_rules] = run_ok_bind run_ok_then run_ok_catch run_ok_return run_ok_fail

lemma run_ok_stat [run_rules]: "Q (Inr (file_at d n)) d \<Longrightarrow> run_ok I (stat_file n) d Q"
  by (simp add: stat_file_def run_ok_get)

lemma run_ok_open [run_rules]:
  "(file_at d n = None \<Longrightarrow> Q (Inl Not_Found) d) \<Longrightarrow> (file_at d n \<noteq> None \<Longrightarrow> Q (Inr ()) d) \<Longrightarrow> run_ok I (open_file n) d Q"
  by (simp add: run_ok_def open_file_def run_fail_def run_return_def run_result_def run_final_def)

lemma run_ok_create [run_rules]:
  "(file_at d n = None \<Longrightarrow> I (put_file n (Regular []) d) \<and> Q (Inr ()) (put_file n (Regular []) d)) \<Longrightarrow>
   (file_at d n \<noteq> None \<Longrightarrow> Q (Inl Already_Exists) d) \<Longrightarrow> run_ok I (create_file n) d Q"
  by (simp add: run_ok_def create_file_def run_fail_def run_step_def run_result_def run_final_def)

lemma run_ok_write [run_rules]:
  assumes "\<And>k. I (put_file n (Regular (take k bs)) d)"
    and "Q (Inr ()) (put_file n (Regular bs) d)"
    and "\<And>k. k < length bs \<Longrightarrow> Q (Inl Disk_Full) (put_file n (Regular (take k bs)) d)"
  shows "run_ok I (write_file fault n bs) d Q"
  using assms
  by (auto simp: run_ok_def write_file_def Let_def run_result_def run_final_def min_def split: option.splits)

lemma run_ok_link [run_rules]:
  assumes "file_at d a = None \<Longrightarrow> Q (Inl Not_Found) d"
    and "\<And>f. file_at d a = Some f \<Longrightarrow> file_at d b = None \<Longrightarrow> I (put_file b f d) \<and> Q (Inr ()) (put_file b f d)"
    and "file_at d a \<noteq> None \<Longrightarrow> file_at d b \<noteq> None \<Longrightarrow> Q (Inl Already_Exists) d"
  shows "run_ok I (link_file a b) d Q"
  using assms
  by (auto simp: run_ok_def link_file_def run_fail_def run_step_def run_result_def run_final_def split: option.splits)

lemma run_ok_remove [run_rules]:
  "(file_at d n = None \<Longrightarrow> Q (Inl Not_Found) d) \<Longrightarrow>
   (file_at d n \<noteq> None \<Longrightarrow> I (del_file n d) \<and> Q (Inr ()) (del_file n d)) \<Longrightarrow> run_ok I (remove_file n) d Q"
  by (simp add: run_ok_def remove_file_def run_fail_def run_step_def run_result_def run_final_def)

lemma run_ok_sync [run_rules]: "Q (Inr ()) d \<Longrightarrow> run_ok I sync_directory d Q"
  by (simp add: sync_directory_def run_ok_return)

lemma run_ok_exists [run_rules]: "(\<And>there. Q (Inr there) d) \<Longrightarrow> run_ok I (path_exists n) d Q"
  by (simp add: path_exists_def run_ok_get)


lemma run_ok_inspect:
  assumes "\<And>e. Q (Inl (Refused e)) d" and "\<And>iv. inspect_entries mb mf d empty_inventory = Inr iv \<Longrightarrow> Q (Inr iv) d"
  shows "run_ok I (inspect_spool mb mf) d Q"
  using assms
  by (auto simp: run_ok_def inspect_spool_def run_fail_def run_return_def run_result_def run_final_def split: sum.splits)

lemma run_ok_capacity [run_rules]:
  assumes "\<And>e. Q (Inl (Refused e)) d" and "Q (Inr ()) d"
  shows "run_ok I (ensure_spool_capacity ab ae mb mf) d Q"
  unfolding ensure_spool_capacity_def
  by (rule run_ok_bind, rule run_ok_inspect) (auto intro: assms run_ok_fail run_ok_return)

lemma run_ok_verify [run_rules]:
  assumes "\<And>e. Q (Inl (Refused e)) d" and "file_at d n = None \<Longrightarrow> Q (Inl Not_Found) d"
    and "file_at d n = Some (Regular expected) \<Longrightarrow> Q (Inr ()) d"
  shows "run_ok I (verify_existing_batch n expected) d Q"
  unfolding verify_existing_batch_def
  by (rule run_ok_bind, rule run_ok_stat)
    (auto intro: assms run_ok_fail run_ok_return split: option.splits spool_file.splits)

section \<open>Staging\<close>




text \<open>
  The directories staging passes through: other files are as before. Of the two files of the batch,
  nothing has changed yet; or nothing was there, or a prefix of the bytes was; and now either there
  is no temporary file, or one with a prefix of the bytes, or the batch itself is there in full.
\<close>

definition resumable :: "spool_file option \<Rightarrow> bytes \<Rightarrow> bool" where
  "resumable f bs \<longleftrightarrow> (case f of None \<Rightarrow> True | Some (Regular xs) \<Rightarrow> prefix xs bs | Some (Special there) \<Rightarrow> False)"



lemma resumable_simps [simp]:
  "resumable None bs" "resumable (Some (Regular xs)) bs \<longleftrightarrow> prefix xs bs" "\<not> resumable (Some (Special there)) bs"
  by (simp_all add: resumable_def)








section \<open>What the spool holds\<close>

text \<open>
  The batch a file holds: the bytes are the encoding of a valid batch with the name of the file.
  \<open>staged\<close> is the batch the spool holds for an id, in its final or its temporary file.
\<close>

definition complete ::
  "(stats_batch \<Rightarrow> bytes) \<Rightarrow> (bytes \<Rightarrow> stats_batch option) \<Rightarrow> utext \<Rightarrow> spool_file option \<Rightarrow> stats_batch option" where
  "complete to_json from_json i f = (case f of
     Some (Regular bs) \<Rightarrow>
       (case from_json bs of
          Some b \<Rightarrow> if length bs \<le> max_batch_bytes \<and> encoded to_json b = Inr bs \<and> sb_id b = i then Some b else None
        | None \<Rightarrow> None)
   | _ \<Rightarrow> None)"








text \<open>The preflight touches only its two probes.\<close>

definition probes_only :: "directory \<Rightarrow> directory \<Rightarrow> bool" where
  "probes_only d t \<longleftrightarrow> names_ok t \<and> (\<forall>n. n \<noteq> Probe_Source \<and> n \<noteq> Probe_Link \<longrightarrow> file_at t n = file_at d n)"

lemma probes_only_upd [simp]:
  "probes_only d t \<Longrightarrow> probes_only d (put_file Probe_Source f t)" "probes_only d t \<Longrightarrow> probes_only d (put_file Probe_Link f t)"
  "probes_only d t \<Longrightarrow> probes_only d (del_file Probe_Source t)" "probes_only d t \<Longrightarrow> probes_only d (del_file Probe_Link t)"
  by (auto simp: probes_only_def)










section \<open>Recovering temporary files\<close>











section \<open>The ledger\<close>






















section \<open>Recovery\<close>













section \<open>The batch in memory\<close>















section \<open>Crashes and restarts\<close>



text \<open>
  A crash of the preflight in the middle of writing its probe leaves a file that no later recovery
  accepts or removes.
\<close>

lemma interrupted_preflight_blocks_recovery:
  assumes "file_at d Probe_Link = None" and "file_at d Probe_Source = None" and "n < length probe"
  shows "\<exists>v \<in> crash_points preflight_hard_links d. file_at v Probe_Source = Some (Regular (take n probe)) \<and>
    run_result (recover_stats to_json from_json sha rank now conn arrange) (db, v) =
      Inl (Refused ''statistics hard-link probe path is occupied'') \<and>
    run_final (recover_stats to_json from_json sha rank now conn arrange) (db, v) = (db, v)"
proof (rule bexI, intro conjI)
  let ?v = "put_file Probe_Source (Regular (take n probe)) (put_file Probe_Source (Regular []) d)"
  show "?v \<in> crash_points preflight_hard_links d"
    using assms
    by (auto simp: crash_points_def preflight_hard_links_def run_then_def run_bind_def clear_probe_def stat_file_def
        run_get_def run_return_def create_file_def run_step_def write_file_def Let_def split: prod.splits sum.splits)
  show "file_at ?v Probe_Source = Some (Regular (take n probe))" by simp
  have "take n probe \<noteq> probe" using assms(3) by (metis length_take min_less_iff_conj nat_neq_iff)
  then have "preflight_hard_links ?v = ([], ?v, Inl (Refused ''statistics hard-link probe path is occupied''))"
    using assms(1)
    by (simp add: preflight_hard_links_def run_then_def run_bind_def clear_probe_def stat_file_def
        run_get_def run_return_def run_fail_def)
  then show "run_result (recover_stats to_json from_json sha rank now conn arrange) (db, ?v) =
      Inl (Refused ''statistics hard-link probe path is occupied'')"
    "run_final (recover_stats to_json from_json sha rank now conn arrange) (db, ?v) = (db, ?v)"
    by (simp_all add: recover_stats_def run_then_def run_bind_def on_snd_def run_result_def run_final_def)
qed

section \<open>Properties\<close>




section \<open>An example\<close>


























lemma file_at_Nil [simp]: "file_at [] n = None"
  by (simp add: file_at_def)


end
