(* ===== verification/RasterKind.thy ===== *)
theory RasterKind
  imports Prelude "HOL-Library.Word" "HOL-Library.Sublist"
begin

text \<open>
  The container sniffer \<open>src/src/handlers/nsfw/raster_kind.rs\<close>: from the first bytes of a PNG or WebP
  file and its declared size it says whether the picture is animated, or that it cannot tell yet.
  Bytes are 8-bit words and the values read from them 32-bit words, a \<open>usize\<close> is a natural number below
  \<open>2 ^ 64\<close>, and an index that the program may not use without a check is \<open>None\<close> of \<open>slice\<close>: a
  result \<open>None\<close> of the loop is a panic.
\<close>

unbundle bit_operations_syntax

section \<open>The checksum\<close>

datatype raster_answer = Static | Animated | Unsure

definition crc_bit :: "32 word \<Rightarrow> 32 word" where
  "crc_bit value = (if value AND 1 = 1 then drop_bit 1 value XOR 0xedb88320 else drop_bit 1 value)"

definition crc_table :: "32 word list" where
  "crc_table = map (\<lambda>at. (crc_bit ^^ 8) (word_of_nat at)) [0..<256]"

definition crc_byte :: "8 word \<Rightarrow> 32 word \<Rightarrow> 32 word" where
  "crc_byte byte value = drop_bit 8 value XOR (crc_table ! unat (ucast value XOR byte))"

definition png_crc :: "8 word list \<Rightarrow> 32 word" where
  "png_crc bytes = NOT (fold crc_byte bytes (NOT 0))"

section \<open>Reading bytes\<close>

definition checked_add :: "nat \<Rightarrow> nat \<Rightarrow> nat option" where
  "checked_add a b = (if a + b < usize_limit then Some (a + b) else None)"

text \<open>\<open>bytes.get(a..b)\<close>, and \<open>bytes[a..b]\<close> where \<open>None\<close> is a panic.\<close>

definition slice :: "'a list \<Rightarrow> nat \<Rightarrow> nat \<Rightarrow> 'a list option" where
  "slice xs a b = (if a \<le> b \<and> b \<le> length xs then Some (take (b - a) (drop a xs)) else None)"

definition u32_be :: "8 word list \<Rightarrow> 32 word" where
  "u32_be bs = fold (\<lambda>b acc. push_bit 8 acc OR ucast b) bs 0"

definition u32_le :: "8 word list \<Rightarrow> 32 word" where
  "u32_le bs = u32_be (rev bs)"

definition is_ascii_alphabetic :: "8 word \<Rightarrow> bool" where
  "is_ascii_alphabetic b \<longleftrightarrow> 65 \<le> b \<and> b \<le> 90 \<or> 97 \<le> b \<and> b \<le> 122"

definition chars :: "string \<Rightarrow> 8 word list" where
  "chars s = map of_char s"

section \<open>PNG\<close>

definition png_signature :: "8 word list" where
  "png_signature = 137 # chars ''PNG'' @ [13, 10, 26, 10]"

text \<open>What a chunk with a right checksum says: a result, or where the next chunk starts.\<close>

definition png_content :: "8 word list \<Rightarrow> nat \<Rightarrow> nat \<Rightarrow> 8 word list \<Rightarrow> nat \<Rightarrow> raster_answer option + nat" where
  "png_content bytes at len kind stop =
     (if kind = chars ''IHDR'' then
        (case slice bytes (at + 8) (at + 12) of
           None \<Rightarrow> Inl None
         | Some width \<Rightarrow>
        (case slice bytes (at + 12) (at + 16) of
           None \<Rightarrow> Inl None
         | Some height \<Rightarrow> if u32_be width = 0 \<or> u32_be height = 0 then Inl (Some Unsure) else Inr stop))
      else if kind = chars ''acTL'' then
        if len \<noteq> 8 then Inl (Some Unsure)
        else
          (case slice bytes (at + 8) (at + 12) of
             None \<Rightarrow> Inl None
           | Some frames \<Rightarrow> if u32_be frames = 0 then Inl (Some Unsure) else Inl (Some Animated))
      else if kind = chars ''IEND'' then Inl (Some Unsure)
      else Inr stop)"

definition png_chunk :: "8 word list \<Rightarrow> nat \<Rightarrow> nat \<Rightarrow> 8 word list \<Rightarrow> nat \<Rightarrow> raster_answer option + nat" where
  "png_chunk bytes at len kind stop =
     (case slice bytes (at + 4) (stop - 4) of
        None \<Rightarrow> Inl (Some Unsure)
      | Some chunk \<Rightarrow>
     (case slice bytes (stop - 4) stop of
        None \<Rightarrow> Inl (Some Unsure)
      | Some crc_bytes \<Rightarrow>
          if png_crc chunk \<noteq> u32_be crc_bytes then Inl (Some Unsure) else png_content bytes at len kind stop))"

text \<open>One round of the loop.\<close>

definition png_step :: "8 word list \<Rightarrow> nat \<Rightarrow> nat \<Rightarrow> bool \<Rightarrow> raster_answer option + nat" where
  "png_step bytes declared at first =
     (case slice bytes at (saturating_usize_add at 8) of
        None \<Rightarrow> Inl (Some Unsure)
      | Some header \<Rightarrow>
     (let len = unat (u32_be (take 4 header)); kind = drop 4 header in
      case Option.bind (checked_add at 12) (\<lambda>n. checked_add n len) of
        None \<Rightarrow> Inl (Some Unsure)
      | Some stop \<Rightarrow>
          if declared < stop \<or> \<not> list_all is_ascii_alphabetic kind then Inl (Some Unsure)
          else if (if first then kind \<noteq> chars ''IHDR'' \<or> len \<noteq> 13 else kind = chars ''IHDR'') then Inl (Some Unsure)
          else if kind = chars ''IDAT'' then Inl (Some Static)
          else png_chunk bytes at len kind stop))"

lemma slice_Some: "slice xs a b = Some s \<longleftrightarrow> a \<le> b \<and> b \<le> length xs \<and> s = take (b - a) (drop a xs)"
  by (auto simp: slice_def)

lemma checked_size: "Option.bind (checked_add at 12) (\<lambda>n. checked_add n len) = Some stop \<Longrightarrow> stop = at + 12 + len"
  by (auto simp: checked_add_def bind_eq_Some_conv split: if_splits)

lemma png_content_Inr: "png_content bytes at len kind stop = Inr next \<Longrightarrow> next = stop"
  by (auto simp: png_content_def split: option.splits if_splits)

lemma png_chunk_Inr: "png_chunk bytes at len kind stop = Inr next \<Longrightarrow> next = stop \<and> stop \<le> length bytes"
  by (auto simp: png_chunk_def slice_Some dest: png_content_Inr split: option.splits if_splits)

lemma png_step_cases:
  obtains "png_step bytes declared at first = Inl (Some Unsure)" | "png_step bytes declared at first = Inl (Some Static)"
  | len kind where "png_step bytes declared at first = png_chunk bytes at len kind (at + 12 + len)"
      "kind = chars ''IHDR'' \<Longrightarrow> len = 13"
proof (cases "slice bytes at (saturating_usize_add at 8)")
  case None
  then show thesis by (intro that(1)) (simp add: png_step_def)
next
  case (Some header)
  let ?len = "unat (u32_be (take 4 header))"
  show thesis
  proof (cases "Option.bind (checked_add at 12) (\<lambda>n. checked_add n ?len)")
    case None
    with Some show thesis by (intro that(1)) (simp add: png_step_def Let_def)
  next
    case stop: (Some stop)
    note st = checked_size [OF stop]
    have eq: "png_step bytes declared at first =
       (if declared < stop \<or> \<not> list_all is_ascii_alphabetic (drop 4 header) then Inl (Some Unsure)
          else if (if first then drop 4 header \<noteq> chars ''IHDR'' \<or> ?len \<noteq> 13 else drop 4 header = chars ''IHDR'') then Inl (Some Unsure)
          else if drop 4 header = chars ''IDAT'' then Inl (Some Static)
          else png_chunk bytes at ?len (drop 4 header) stop)"
      using Some stop by (simp add: png_step_def Let_def)
    show thesis
      using that(1,2) that(3) [of ?len "drop 4 header"] eq st by (auto split: if_splits)
  qed
qed

lemma png_step_Inr: "png_step bytes declared at first = Inr stop \<Longrightarrow> at + 12 \<le> stop \<and> stop \<le> length bytes"
  by (rule png_step_cases [of bytes declared at first]) (auto dest: png_chunk_Inr)

function png_loop :: "8 word list \<Rightarrow> nat \<Rightarrow> nat \<Rightarrow> bool \<Rightarrow> raster_answer option" where
  "png_loop bytes declared at first =
     (case png_step bytes declared at first of Inl r \<Rightarrow> r | Inr stop \<Rightarrow> png_loop bytes declared stop False)"
  by pat_completeness auto

termination png_loop
  by (relation "measure (\<lambda>(bytes, declared, at, first). length bytes + 1 - at)") (auto dest: png_step_Inr)

declare png_loop.simps [simp del]

definition png_kind :: "8 word list \<Rightarrow> nat \<Rightarrow> raster_answer option" where
  "png_kind bytes declared = png_loop bytes declared 8 True"

section \<open>WebP\<close>

definition webp_chunk :: "8 word list \<Rightarrow> nat \<Rightarrow> 8 word list \<Rightarrow> raster_answer option" where
  "webp_chunk bytes len kind =
     (if kind = chars ''VP8X'' \<and> len = 10 then
        (case slice bytes 20 30 of
           None \<Rightarrow> Some Unsure
         | Some payload \<Rightarrow>
             if payload ! 0 AND 0xc1 \<noteq> 0 \<or> take 3 (drop 1 payload) \<noteq> [0, 0, 0] then Some Unsure
             else if payload ! 0 AND 2 \<noteq> 0 then Some Animated else Some Static)
      else if (kind = chars ''VP8 '' \<or> kind = chars ''VP8L'') \<and> 0 < len then Some Static
      else Some Unsure)"

definition webp_kind :: "8 word list \<Rightarrow> nat \<Rightarrow> raster_answer option" where
  "webp_kind bytes declared =
     (case slice bytes 0 20 of
        None \<Rightarrow> Some Unsure
      | Some header \<Rightarrow>
     (if take 4 (drop 8 header) \<noteq> chars ''WEBP'' then Some Unsure
      else if checked_add (unat (u32_le (take 4 (drop 4 header)))) 8 \<noteq> Some declared then Some Unsure
      else
        (let len = unat (u32_le (take 4 (drop 16 header))) in
         case Option.bind (checked_add 20 len) (\<lambda>n. checked_add n (len mod 2)) of
           None \<Rightarrow> Some Unsure
         | Some stop \<Rightarrow>
             if declared < stop then Some Unsure else webp_chunk bytes len (take 4 (drop 12 header)))))"

section \<open>The sniffer\<close>

definition raster_kind :: "8 word list \<Rightarrow> nat \<Rightarrow> raster_answer option" where
  "raster_kind prfx declared =
     (if declared = 0 \<or> declared < length prfx then Some Unsure
      else if prefix png_signature prfx then png_kind prfx declared
      else if prefix (chars ''RIFF'') prfx then webp_kind prfx declared
      else Some Unsure)"

section \<open>Longer prefixes\<close>

lemma slice_longer: "slice p a b = Some s \<Longrightarrow> prefix p q \<Longrightarrow> slice q a b = Some s"
  by (auto simp: slice_Some prefix_def)

lemma slice_in: "a \<le> b \<Longrightarrow> b \<le> length xs \<Longrightarrow> slice xs a b = Some (take (b - a) (drop a xs))"
  by (simp add: slice_def)

text \<open>The loop never indexes out of range, whatever the bytes are.\<close>

lemma png_chunk_no_panic:
  assumes "kind = chars ''IHDR'' \<Longrightarrow> len = 13"
  shows "png_chunk bytes at len kind (at + 12 + len) \<noteq> Inl None"
proof (cases "at + 12 + len \<le> length bytes")
  case True
  have "png_content bytes at len kind (at + 12 + len) \<noteq> Inl None"
    using assms True by (auto simp: png_content_def slice_def)
  then show ?thesis by (simp add: png_chunk_def split: option.split)
qed (simp add: png_chunk_def slice_def)

lemma png_step_no_panic: "png_step bytes declared at first \<noteq> Inl None"
  by (rule png_step_cases [of bytes declared at first]) (use png_chunk_no_panic in auto)

lemma png_loop_no_panic: "png_loop bytes declared at first \<noteq> None"
proof (induction bytes declared at first rule: png_loop.induct)
  case (1 bytes declared at first)
  show ?case
    by (subst png_loop.simps)
      (use 1 png_step_no_panic [of bytes declared at first] in \<open>auto split: sum.splits\<close>)
qed

text \<open>A round that does not end in doubt is the same on longer prefixes.\<close>

lemma png_content_longer:
  assumes "png_content p at len kind stop \<noteq> Inl (Some Unsure)" and "png_content p at len kind stop \<noteq> Inl None" and "prefix p q"
  shows "png_content q at len kind stop = png_content p at len kind stop"
  using assms(1,2)
  by (auto simp: png_content_def dest!: slice_longer [OF _ assms(3)] split: option.splits if_splits)

lemma png_chunk_longer:
  assumes "png_chunk p at len kind stop \<noteq> Inl (Some Unsure)" and "png_chunk p at len kind stop \<noteq> Inl None" and "prefix p q"
  shows "png_chunk q at len kind stop = png_chunk p at len kind stop"
proof (cases "slice p (at + 4) (stop - 4)")
  case (Some chunk)
  show ?thesis
  proof (cases "slice p (stop - 4) stop")
    case crc: (Some crc)
    show ?thesis
      using assms(1,2) png_content_longer [OF _ _ assms(3), of at len kind stop]
      by (simp add: png_chunk_def Some crc slice_longer [OF Some assms(3)] slice_longer [OF crc assms(3)] split: if_splits)
  qed (use assms(1) in \<open>simp add: png_chunk_def Some\<close>)
qed (use assms(1) in \<open>simp add: png_chunk_def\<close>)

lemma png_step_longer:
  assumes "png_step p declared at first \<noteq> Inl (Some Unsure)" and "prefix p q"
  shows "png_step q declared at first = png_step p declared at first"
proof (cases "slice p at (saturating_usize_add at 8)")
  case (Some header)
  note h = Some slice_longer [OF Some assms(2)]
  let ?len = "unat (u32_be (take 4 header))"
  show ?thesis
  proof (cases "Option.bind (checked_add at 12) (\<lambda>n. checked_add n ?len)")
    case stop: (Some stop)
    let ?kind = "drop 4 header"
    have no: "png_step p declared at first \<noteq> Inl None" by (rule png_step_no_panic)
    show ?thesis
      using assms(1) no png_chunk_longer [OF _ _ assms(2), of at ?len ?kind stop]
      by (simp add: png_step_def Let_def h stop split: if_splits)
  qed (use assms(1) in \<open>simp add: png_step_def h\<close>)
qed (use assms(1) in \<open>simp add: png_step_def\<close>)

lemma png_loop_longer:
  assumes "png_loop p declared at first \<noteq> Some Unsure" and "prefix p q"
  shows "png_loop q declared at first = png_loop p declared at first"
  using assms
proof (induction p declared at first rule: png_loop.induct)
  case (1 p declared at first)
  have "png_step p declared at first \<noteq> Inl (Some Unsure)"
    using 1(2) by (subst (asm) png_loop.simps) auto
  then have "png_step q declared at first = png_step p declared at first" by (rule png_step_longer) (rule 1(3))
  then show ?case
    using 1 by (subst (1 2) png_loop.simps) (auto split: sum.splits simp: png_loop.simps [of p declared at first])
qed

lemma webp_chunk_longer:
  assumes "webp_chunk p len kind \<noteq> Some Unsure" and "prefix p q"
  shows "webp_chunk q len kind = webp_chunk p len kind"
proof (cases "slice p 20 30")
  case (Some payload)
  then show ?thesis by (simp add: webp_chunk_def slice_longer [OF Some assms(2)])
next
  case None
  with assms(1) show ?thesis by (auto simp: webp_chunk_def)
qed

lemma webp_kind_longer:
  assumes "webp_kind p declared \<noteq> Some Unsure" and "prefix p q"
  shows "webp_kind q declared = webp_kind p declared"
proof (cases "slice p 0 20")
  case (Some header)
  note h = Some slice_longer [OF Some assms(2)]
  let ?len = "unat (u32_le (take 4 (drop 16 header)))"
  show ?thesis
  proof (cases "Option.bind (checked_add 20 ?len) (\<lambda>n. checked_add n (?len mod 2))")
    case stop: (Some stop)
    show ?thesis
      using assms(1) webp_chunk_longer [OF _ assms(2), of ?len "take 4 (drop 12 header)"]
      by (simp add: webp_kind_def Let_def h stop split: if_splits)
  qed (use assms(1) in \<open>simp add: webp_kind_def Let_def h split: if_splits\<close>)
qed (use assms(1) in \<open>simp add: webp_kind_def\<close>)

lemma webp_no_panic: "webp_kind bytes declared \<noteq> None"
  by (simp add: webp_kind_def webp_chunk_def Let_def split: option.split)

section \<open>The checksum is the bitwise CRC-32\<close>

definition crc_byte_bitwise :: "8 word \<Rightarrow> 32 word \<Rightarrow> 32 word" where
  "crc_byte_bitwise byte value = (crc_bit ^^ 8) (value XOR ucast byte)"

definition crc_bitwise :: "8 word list \<Rightarrow> 32 word" where
  "crc_bitwise bytes = NOT (fold crc_byte_bitwise bytes (NOT 0))"

lemma crc_bit_alt: "crc_bit v = drop_bit 1 v XOR (if bit v 0 then 0xedb88320 else 0)"
  by (simp add: crc_bit_def and_one_eq bit_0 mod_2_eq_odd)

lemma crc_bit_linear: "crc_bit (x XOR y) = crc_bit x XOR crc_bit y"
  by (cases "bit x 0"; cases "bit y 0")
    (simp_all add: crc_bit_alt bit_xor_iff drop_bit_xor xor.assoc xor.commute xor.left_commute)

lemma crc_bits_linear: "(crc_bit ^^ n) (x XOR y) = (crc_bit ^^ n) x XOR (crc_bit ^^ n) y"
  by (induction n) (simp_all add: crc_bit_linear)

lemma crc_bits_low_zero: "take_bit n x = 0 \<Longrightarrow> (crc_bit ^^ n) x = drop_bit n x"
proof (induction n arbitrary: x)
  case 0
  then show ?case by simp
next
  case (Suc n)
  have "\<not> bit x 0" using Suc.prems by (metis bit_0_eq bit_take_bit_iff zero_less_Suc bot_apply bot_bool_def)
  then have one: "crc_bit x = drop_bit 1 x" by (simp add: crc_bit_alt)
  have "take_bit n (drop_bit 1 x) = drop_bit 1 (take_bit (Suc n) x)"
    by (simp add: drop_bit_take_bit)
  then have "take_bit n (drop_bit 1 x) = 0" using Suc.prems by simp
  from Suc.IH [OF this] show ?case by (simp add: funpow_swap1 one del: funpow.simps add: funpow_Suc_right)
qed

lemma crc_byte_is_bitwise: "crc_byte b v = crc_byte_bitwise b v"
proof -
  let ?x = "v XOR ucast b" and ?hi = "(v XOR ucast b) AND NOT (mask 8)"
  have split: "?x = ?hi XOR take_bit 8 ?x"
    by (rule bit_eqI) (auto simp: bit_simps)
  have "take_bit 8 ?hi = 0" by (rule bit_eqI) (auto simp: bit_simps)
  then have "(crc_bit ^^ 8) ?hi = drop_bit 8 ?hi" by (rule crc_bits_low_zero)
  also have "... = drop_bit 8 v"
    by (rule bit_eqI) (auto simp: bit_simps dest: bit_imp_le_length)
  finally have hi: "(crc_bit ^^ 8) ?hi = drop_bit 8 v" .
  let ?i = "ucast v XOR b :: 8 word"
  have "unat ?i < 2 ^ 8" using unsigned_less [of ?i] by simp
  then have "crc_table ! unat ?i = (crc_bit ^^ 8) (word_of_nat (unat ?i))"
    by (simp add: crc_table_def)
  also have "word_of_nat (unat ?i) = (ucast ?i :: 32 word)" by simp
  also have "ucast ?i = take_bit 8 ?x"
    using bit_imp_le_length [of b] by (intro bit_eqI) (auto simp: bit_simps)
  finally have "crc_table ! unat ?i = (crc_bit ^^ 8) (take_bit 8 ?x)" .
  then show ?thesis
    using crc_bits_linear [of 8 ?hi "take_bit 8 ?x"] split hi
    by (simp add: crc_byte_def crc_byte_bitwise_def)
qed

lemma png_crc_bitwise: "png_crc bytes = crc_bitwise bytes"
  by (simp add: png_crc_def crc_bitwise_def crc_byte_is_bitwise [abs_def])

section \<open>The chunks of a PNG file\<close>

definition be32 :: "32 word \<Rightarrow> 8 word list" where
  "be32 w = [ucast (drop_bit 24 w), ucast (drop_bit 16 w), ucast (drop_bit 8 w), ucast w]"

lemma u32_be_be32 [simp]: "u32_be (be32 w) = w"
proof (rule bit_word_eqI)
  fix n assume "n < LENGTH(32)"
  then have "n < 32" by simp
  then have "n < 8 \<or> n = 8 + (n - 8) \<and> n - 8 < 8 \<or> n = 16 + (n - 16) \<and> n - 16 < 8 \<or> n = 24 + (n - 24) \<and> n - 24 < 8"
    by arith
  then consider "n < 8" | m where "n = 8 + m" "m < 8" | m where "n = 16 + m" "m < 8" | m where "n = 24 + m" "m < 8"
    by blast
  then show "bit (u32_be (be32 w)) n = bit w n"
    by cases (auto simp: u32_be_def be32_def bit_simps)
qed

lemma length_be32 [simp]: "length (be32 w) = 4"
  by (simp add: be32_def)

text \<open>A chunk is its four-letter kind and its payload; in the file the length precedes and the checksum follows.\<close>

type_synonym chunk = "8 word list \<times> 8 word list"

definition chunk_ok :: "chunk \<Rightarrow> bool" where
  "chunk_ok = (\<lambda>(kind, payload). length kind = 4 \<and> length payload < 2 ^ 32)"

definition chunk_bytes :: "chunk \<Rightarrow> 8 word list" where
  "chunk_bytes = (\<lambda>(kind, payload).
     be32 (word_of_nat (length payload)) @ kind @ payload @ be32 (crc_bitwise (kind @ payload)))"

definition png_file :: "chunk list \<Rightarrow> 8 word list" where
  "png_file cs = png_signature @ concat (map chunk_bytes cs)"

text \<open>The decision on the chunks: the first of \<open>IDAT\<close>, \<open>acTL\<close> and \<open>IEND\<close> counts.\<close>

fun scan_chunks :: "chunk list \<Rightarrow> raster_answer" where
  "scan_chunks [] = Unsure"
| "scan_chunks ((kind, payload) # cs) =
     (if \<not> list_all is_ascii_alphabetic kind \<or> kind = chars ''IHDR'' \<or> kind = chars ''IEND'' then Unsure
      else if kind = chars ''IDAT'' then Static
      else if kind = chars ''acTL'' then
        if length payload = 8 \<and> u32_be (take 4 payload) \<noteq> 0 then Animated else Unsure
      else scan_chunks cs)"

fun png_verdict :: "chunk list \<Rightarrow> raster_answer" where
  "png_verdict [] = Unsure"
| "png_verdict ((kind, payload) # cs) =
     (if kind = chars ''IHDR'' \<and> length payload = 13
         \<and> u32_be (take 4 payload) \<noteq> 0 \<and> u32_be (take 4 (drop 4 payload)) \<noteq> 0
      then scan_chunks cs else Unsure)"

lemma slice_append: "xs = a @ b @ c \<Longrightarrow> i = length a \<Longrightarrow> j = length a + length b \<Longrightarrow> slice xs i j = Some b"
  by (simp add: slice_def)

lemma slice_within:
  assumes "xs = a @ b @ c" and "i = length a + m" and "j = i + n" and "m + n \<le> length b"
  shows "slice xs i j = Some (take n (drop m b))"
  using assms by (simp add: slice_def)

text \<open>A chunk within a file, and what the program reads there.\<close>

definition chunk_at :: "8 word list \<Rightarrow> nat \<Rightarrow> chunk \<Rightarrow> bool" where
  "chunk_at bytes at = (\<lambda>(kind, payload).
     \<exists>before behind. bytes = before @ chunk_bytes (kind, payload) @ behind \<and> length before = at)"

lemma length_chunk_bytes: "length (chunk_bytes (kind, payload)) = length kind + length payload + 8"
  by (simp add: chunk_bytes_def)

lemma chunk_slices:
  assumes "chunk_at bytes at (kind, payload)" and "chunk_ok (kind, payload)"
  shows "slice bytes at (at + 8) = Some (be32 (word_of_nat (length payload)) @ kind)"
    and "slice bytes (at + 4) (at + length payload + 8) = Some (kind @ payload)"
    and "slice bytes (at + length payload + 8) (at + 12 + length payload) = Some (be32 (crc_bitwise (kind @ payload)))"
    and "m + n \<le> length payload \<Longrightarrow> slice bytes (at + 8 + m) (at + 8 + m + n) = Some (take n (drop m payload))"
    and "at + 12 + length payload \<le> length bytes"
proof -
  let ?n = "be32 (word_of_nat (length payload))" and ?crc = "be32 (crc_bitwise (kind @ payload))"
  from assms(1) obtain before behind
    where b: "bytes = before @ ?n @ kind @ payload @ ?crc @ behind" and at: "length before = at"
    by (auto simp: chunk_at_def chunk_bytes_def)
  have k: "length kind = 4" using assms(2) by (simp add: chunk_ok_def)
  show "slice bytes at (at + 8) = Some (?n @ kind)"
    by (rule slice_append [where a = before and c = "payload @ ?crc @ behind"]) (simp_all add: b at k)
  show "slice bytes (at + 4) (at + length payload + 8) = Some (kind @ payload)"
    by (rule slice_append [where a = "before @ ?n" and c = "?crc @ behind"]) (simp_all add: b at k)
  show "slice bytes (at + length payload + 8) (at + 12 + length payload) = Some ?crc"
    by (rule slice_append [where a = "before @ ?n @ kind @ payload" and c = behind]) (simp_all add: b at k)
  show "slice bytes (at + 8 + m) (at + 8 + m + n) = Some (take n (drop m payload))" if "m + n \<le> length payload"
    by (rule slice_within [where a = "before @ ?n @ kind" and c = "?crc @ behind"]) (simp_all add: b at k that)
  show "at + 12 + length payload \<le> length bytes" by (simp add: b at k)
qed

lemma png_step_chunk:
  assumes c: "chunk_at bytes at (kind, payload)" "chunk_ok (kind, payload)"
    and d: "length bytes \<le> declared" "declared < usize_limit"
  shows "png_step bytes declared at first =
     (if \<not> list_all is_ascii_alphabetic kind \<or>
         (if first then kind \<noteq> chars ''IHDR'' \<or> length payload \<noteq> 13 else kind = chars ''IHDR'') then Inl (Some Unsure)
      else if kind = chars ''IDAT'' then Inl (Some Static)
      else png_content bytes at (length payload) kind (at + 12 + length payload))"
proof -
  let ?stop = "at + 12 + length payload"
  note s = chunk_slices [OF c]
  have k: "length kind = 4" and n: "length payload < 2 ^ 32" using c(2) by (simp_all add: chunk_ok_def)
  have stop: "?stop \<le> declared" using s(5) d(1) by simp
  have u: "unat (word_of_nat (length payload) :: 32 word) = length payload"
    using n by (simp add: unsigned_of_nat take_bit_nat_eq_self)
  have sat: "saturating_usize_add at 8 = at + 8"
    using stop d(2) by (simp add: saturating_usize_add_def)
  have chk: "Option.bind (checked_add at 12) (\<lambda>n. checked_add n (length payload)) = Some ?stop"
    using stop d(2) by (simp add: checked_add_def)
  have minus: "?stop - 4 = at + length payload + 8" by simp
  have chunk: "png_chunk bytes at (length payload) kind ?stop = png_content bytes at (length payload) kind ?stop"
    by (simp add: png_chunk_def minus s(2,3) png_crc_bitwise)
  show ?thesis
    using stop by (simp add: png_step_def sat s(1) u chk chunk Let_def)
qed

lemma png_content_chunk:
  assumes c: "chunk_at bytes at (kind, payload)" "chunk_ok (kind, payload)"
    and "kind = chars ''IHDR'' \<Longrightarrow> length payload = 13"
  shows "png_content bytes at (length payload) kind stop =
     (if kind = chars ''IHDR'' then
        if u32_be (take 4 payload) = 0 \<or> u32_be (take 4 (drop 4 payload)) = 0 then Inl (Some Unsure) else Inr stop
      else if kind = chars ''acTL'' then
        Inl (Some (if length payload = 8 \<and> u32_be (take 4 payload) \<noteq> 0 then Animated else Unsure))
      else if kind = chars ''IEND'' then Inl (Some Unsure)
      else Inr stop)"
  using assms(3) chunk_slices(4) [OF c, of 0 4] chunk_slices(4) [OF c, of 4 4]
  by (auto simp: png_content_def add.assoc)

lemma chunk_kinds_distinct:
  "chars ''IEND'' \<noteq> chars ''IDAT''" "chars ''IEND'' \<noteq> chars ''acTL''" "chars ''IHDR'' \<noteq> chars ''IDAT''"
  "list_all is_ascii_alphabetic (chars ''IHDR'')"
  by code_simp+

lemma png_step_later:
  assumes "chunk_at bytes at (kind, payload)" "chunk_ok (kind, payload)"
    and "length bytes \<le> declared" "declared < usize_limit"
  shows "png_step bytes declared at False =
     (if \<not> list_all is_ascii_alphabetic kind \<or> kind = chars ''IHDR'' \<or> kind = chars ''IEND'' then Inl (Some Unsure)
      else if kind = chars ''IDAT'' then Inl (Some Static)
      else if kind = chars ''acTL'' then
        Inl (Some (if length payload = 8 \<and> u32_be (take 4 payload) \<noteq> 0 then Animated else Unsure))
      else Inr (at + 12 + length payload))"
proof (cases "kind = chars ''IHDR''")
  case True
  then show ?thesis by (simp add: png_step_chunk [OF assms])
next
  case False
  then have "png_content bytes at (length payload) kind (at + 12 + length payload) =
     (if kind = chars ''acTL'' then
        Inl (Some (if length payload = 8 \<and> u32_be (take 4 payload) \<noteq> 0 then Animated else Unsure))
      else if kind = chars ''IEND'' then Inl (Some Unsure) else Inr (at + 12 + length payload))"
    by (simp add: png_content_chunk [OF assms(1,2)])
  with False chunk_kinds_distinct(1,2) show ?thesis
    by (auto simp: png_step_chunk [OF assms])
qed

lemma png_step_first:
  assumes "chunk_at bytes at (kind, payload)" "chunk_ok (kind, payload)"
    and "length bytes \<le> declared" "declared < usize_limit"
  shows "png_step bytes declared at True =
     (if kind = chars ''IHDR'' \<and> length payload = 13
         \<and> u32_be (take 4 payload) \<noteq> 0 \<and> u32_be (take 4 (drop 4 payload)) \<noteq> 0
      then Inr (at + 12 + length payload) else Inl (Some Unsure))"
proof (cases "kind = chars ''IHDR'' \<and> length payload = 13")
  case True
  then show ?thesis
    using chunk_kinds_distinct(3,4) png_content_chunk [OF assms(1,2), of "at + 12 + length payload"]
    by (simp add: png_step_chunk [OF assms])
next
  case False
  then show ?thesis by (auto simp add: png_step_chunk [OF assms])
qed

lemma png_step_end:
  assumes "at = length bytes" and "length bytes < usize_limit"
  shows "png_step bytes declared at first = Inl (Some Unsure)"
proof (cases "at + 8 < usize_limit")
  case True
  then show ?thesis by (simp add: png_step_def slice_def saturating_usize_add_def assms(1))
next
  case False
  then have "checked_add at 12 = None" by (simp add: checked_add_def)
  then show ?thesis by (simp add: png_step_def Let_def split: option.split)
qed

lemma png_loop_chunks:
  assumes "list_all chunk_ok cs" and "bytes = before @ concat (map chunk_bytes cs)" and "at = length before"
    and d: "length bytes \<le> declared" "declared < usize_limit"
  shows "png_loop bytes declared at False = Some (scan_chunks cs)"
  using assms(1-3)
proof (induction cs arbitrary: before at)
  case Nil
  then show ?case using png_step_end [of at bytes declared False] d by (simp add: png_loop.simps)
next
  case (Cons c cs)
  obtain kind payload where [simp]: "c = (kind, payload)" by (cases c)
  have ok: "chunk_ok (kind, payload)" and rest: "list_all chunk_ok cs" using Cons.prems(1) by simp_all
  have c: "chunk_at bytes at (kind, payload)" using Cons.prems(2,3) by (auto simp: chunk_at_def)
  have "png_loop bytes declared (at + 12 + length payload) False = Some (scan_chunks cs)"
    by (rule Cons.IH [of "before @ chunk_bytes c"])
      (use Cons.prems ok rest in \<open>simp_all add: length_chunk_bytes chunk_ok_def\<close>)
  moreover have "png_step bytes declared at False =
     (if \<not> list_all is_ascii_alphabetic kind \<or> kind = chars ''IHDR'' \<or> kind = chars ''IEND'' then Inl (Some Unsure)
      else if kind = chars ''IDAT'' then Inl (Some Static)
      else if kind = chars ''acTL'' then
        Inl (Some (if length payload = 8 \<and> u32_be (take 4 payload) \<noteq> 0 then Animated else Unsure))
      else Inr (at + 12 + length payload))"
    by (rule png_step_later [OF c ok d])
  ultimately show ?case by (subst png_loop.simps) (simp split del: if_split, simp)
qed

lemma png_kind_chunks:
  assumes "list_all chunk_ok cs" and d: "length (png_file cs) \<le> declared" "declared < usize_limit"
  shows "png_kind (png_file cs) declared = Some (png_verdict cs)"
proof (cases cs)
  case Nil
  then show ?thesis
    using png_step_end [of 8 "png_file cs" declared True] d
    by (simp add: png_kind_def png_loop.simps png_file_def png_signature_def chars_def)
next
  case (Cons c rest)
  obtain kind payload where [simp]: "c = (kind, payload)" by (cases c)
  have ok: "chunk_ok (kind, payload)" and all: "list_all chunk_ok rest" using assms(1) Cons by simp_all
  have sig: "length png_signature = 8" by (simp add: png_signature_def chars_def)
  have c: "chunk_at (png_file cs) 8 (kind, payload)"
    unfolding chunk_at_def prod.case by (intro exI [of _ png_signature] exI [of _ "concat (map chunk_bytes rest)"]) (simp add: png_file_def Cons sig)
  have "png_loop (png_file cs) declared (8 + 12 + length payload) False = Some (scan_chunks rest)"
    by (rule png_loop_chunks [OF all _ _ d, of "png_signature @ chunk_bytes c"])
      (use ok in \<open>simp_all add: png_file_def Cons sig length_chunk_bytes chunk_ok_def\<close>)
  moreover have "png_verdict cs =
     (if kind = chars ''IHDR'' \<and> length payload = 13
         \<and> u32_be (take 4 payload) \<noteq> 0 \<and> u32_be (take 4 (drop 4 payload)) \<noteq> 0
      then scan_chunks rest else Unsure)"
    by (simp add: Cons)
  ultimately show ?thesis
    by (auto simp: png_kind_def png_loop.simps [of "png_file cs" declared 8 True] png_step_first [OF c ok d])
qed

section \<open>What the sniffer promises\<close>

lemma raster_no_panic: "raster_kind p declared \<noteq> None"
  using png_loop_no_panic [of p declared 8 True] webp_no_panic [of p declared]
  by (simp add: raster_kind_def png_kind_def del: not_None_eq)

text \<open>The loop with a budget of rounds.\<close>

fun png_rounds :: "nat \<Rightarrow> 8 word list \<Rightarrow> nat \<Rightarrow> nat \<Rightarrow> bool \<Rightarrow> raster_answer option" where
  "png_rounds 0 bytes declared at first = None"
| "png_rounds (Suc n) bytes declared at first =
     (case png_step bytes declared at first of Inl r \<Rightarrow> r | Inr stop \<Rightarrow> png_rounds n bytes declared stop False)"

lemma png_rounds_enough:
  "length bytes < at + 12 * Suc n \<Longrightarrow> png_rounds (Suc n) bytes declared at first = png_loop bytes declared at first"
proof (induction n arbitrary: at first)
  case 0
  have "png_step bytes declared at first \<noteq> Inr stop" for stop
    using 0 png_step_Inr [of bytes declared at first stop] by auto
  then show ?case by (subst png_loop.simps) (simp split: sum.split)
next
  case (Suc n)
  have "png_rounds (Suc n) bytes declared stop False = png_loop bytes declared stop False"
    if "png_step bytes declared at first = Inr stop" for stop
    by (rule Suc.IH) (use Suc.prems png_step_Inr [OF that] in simp)
  then show ?case
    by (subst png_loop.simps) (simp split: sum.split del: png_rounds.simps(2) add: png_rounds.simps(2) [of "Suc n"])
qed

lemma raster_kind_longer:
  assumes "raster_kind p declared \<noteq> Some Unsure" and "prefix p q" and "length q \<le> declared"
  shows "raster_kind q declared = raster_kind p declared"
proof -
  have d: "0 < declared" "length p \<le> declared" using assms(1) by (auto simp: raster_kind_def split: if_splits)
  have pre: "prefix s q \<longleftrightarrow> prefix s p" if "length s \<le> length p" for s :: "8 word list"
    using that assms(2) by (meson prefix_length_prefix prefix_order.trans)
  consider "prefix png_signature p" | "\<not> prefix png_signature p" "prefix (chars ''RIFF'') p"
    using assms(1) by (auto simp: raster_kind_def split: if_splits)
  then show ?thesis
  proof cases
    case 1
    then have "prefix png_signature q" using assms(2) by (rule prefix_order.trans)
    then show ?thesis
      using 1 d assms png_loop_longer [OF _ assms(2), of declared 8 True] by (simp add: raster_kind_def png_kind_def)
  next
    case 2
    have riff: "prefix (chars ''RIFF'') q" using 2(2) assms(2) by (rule prefix_order.trans)
    have "\<not> (prefix (chars ''RIFF'') q \<and> prefix png_signature q)"
      by (cases q) (auto simp: png_signature_def chars_def)
    then show ?thesis
      using 2 riff d assms webp_kind_longer [OF _ assms(2), of declared] by (simp add: raster_kind_def)
  qed
qed

lemma raster_kind_png_file:
  assumes "list_all chunk_ok cs" and d: "length (png_file cs) \<le> declared" "declared < usize_limit"
  shows "raster_kind (png_file cs) declared = Some (png_verdict cs)"
proof -
  have "0 < declared" and "prefix png_signature (png_file cs)"
    using d by (auto simp: png_file_def png_signature_def)
  then show ?thesis using d png_kind_chunks [OF assms] by (simp add: raster_kind_def)
qed

text \<open>
  C17: The sniffer always answers: for every prefix and every declared size it returns one of its three
  kinds, so that no index and no \<open>unwrap\<close> panics, and its loop over the chunks of a PNG ends within one
  round for every twelve bytes it was given, and one more.
\<close>

theorem raster_sniffer_total:
  "(\<exists>k. raster_kind prfx declared = Some k) \<and>
   png_rounds (Suc (length prfx div 12)) prfx declared 8 True = png_kind prfx declared"
proof
  show "\<exists>k. raster_kind prfx declared = Some k" using raster_no_panic [of prfx declared] by simp
  have "length prfx < 8 + 12 * Suc (length prfx div 12)" by presburger
  from png_rounds_enough [OF this, of declared True]
  show "png_rounds (Suc (length prfx div 12)) prfx declared 8 True = png_kind prfx declared"
    by (simp only: png_kind_def)
qed

text \<open>
  C18: The decision is final and right. Whatever prefix of a file the sniffer was given, an answer other
  than \<open>Unknown\<close> is the answer for every longer prefix. On a PNG file made of the chunks \<open>cs\<close>, each
  written with its big-endian length, its kind and the bitwise CRC-32 of kind and payload, the whole file gets the
  verdict of its chunks (\<open>Animated\<close> for an \<open>acTL\<close> chunk announcing frames before the first
  \<open>IDAT\<close>, \<open>Static\<close> for an \<open>IDAT\<close> first, \<open>Unknown\<close> otherwise), and a prefix never gets
  another decision.
\<close>

theorem raster_decision_matches_chunks:
  assumes "list_all chunk_ok cs" and "length (png_file cs) = declared" and "declared < 2 ^ 64"
  shows "raster_kind (png_file cs) declared = Some (png_verdict cs) \<and>
    (\<forall>p. prefix p (png_file cs) \<longrightarrow> raster_kind p declared \<in> {Some Unsure, Some (png_verdict cs)}) \<and>
    (\<forall>p q. prefix p q \<and> length q \<le> declared \<and> raster_kind p declared \<noteq> Some Unsure \<longrightarrow>
       raster_kind q declared = raster_kind p declared)"
proof (intro conjI allI impI)
  show all: "raster_kind (png_file cs) declared = Some (png_verdict cs)"
    by (rule raster_kind_png_file) (use assms in \<open>simp_all add: usize_limit_def\<close>)
  show "raster_kind p declared \<in> {Some Unsure, Some (png_verdict cs)}" if "prefix p (png_file cs)" for p
    using raster_kind_longer [OF _ that, of declared] assms(2) all
    by (cases "raster_kind p declared = Some Unsure") simp_all
  show "raster_kind q declared = raster_kind p declared"
    if "prefix p q \<and> length q \<le> declared \<and> raster_kind p declared \<noteq> Some Unsure" for p q
    using raster_kind_longer [of p declared q] that by simp
qed

definition sample_header :: "8 word list" where
  "sample_header = [0, 0, 0, 1, 0, 0, 0, 1, 8, 2, 0, 0, 0]"

definition sample_chunks :: "chunk list" where
  "sample_chunks = [(chars ''IHDR'', sample_header), (chars ''acTL'', [0, 0, 0, 2, 0, 0, 0, 0]), (chars ''IDAT'', [1])]"

lemma sample_facts:
  "list_all chunk_ok sample_chunks" "length (png_file sample_chunks) = 66"
  by (simp_all add: sample_chunks_def sample_header_def chunk_ok_def chars_def png_file_def length_chunk_bytes png_signature_def)

lemma sample_verdict: "png_verdict sample_chunks = Animated"
  by code_simp

theorem raster_decision_matches_chunks_witness:
  "raster_kind (png_file sample_chunks) 66 = Some Animated"
  using raster_decision_matches_chunks [OF sample_facts] sample_verdict by simp

end
