(* ===== verification/ChatRows.thy ===== *)
theory ChatRows
  imports Utf8Text "HOL-Library.List_Lexorder"
begin

text \<open>
  \<open>ChatRows\<close> of \<open>src/src/state.rs\<close>: the settings of one chat in memory, a vector of key and value
  texts sorted by key and searched by bisection. Texts compare as \<open>str\<close> does; on UTF-8 the order of
  the bytes is the order of the characters. The locale \<open>key_value_map\<close> states what a
  map of settings promises; the vector is one instance and the table of the database another, and
  what a batch of changes does to a map is proved once for both.
\<close>

section \<open>Maps of settings\<close>

text \<open>Changing keys one after the other: \<open>Some\<close> writes a value, \<open>None\<close> removes the key.\<close>

type_synonym ('k, 'v) change = "'k \<times> 'v option"

definition apply_changes ::
  "('k \<Rightarrow> 'v \<Rightarrow> 'm \<Rightarrow> 'm) \<Rightarrow> ('k \<Rightarrow> 'm \<Rightarrow> 'm) \<Rightarrow> ('k, 'v) change list \<Rightarrow> 'm \<Rightarrow> 'm" where
  "apply_changes put del = fold (\<lambda>(k, v). case v of None \<Rightarrow> del k | Some x \<Rightarrow> put k x)"

lemma apply_changes_simps [simp]:
  "apply_changes put del [] m = m"
  "apply_changes put del ((k, Some x) # cs) m = apply_changes put del cs (put k x m)"
  "apply_changes put del ((k, None) # cs) m = apply_changes put del cs (del k m)"
  by (simp_all add: apply_changes_def)

definition changed :: "('k, 'v) change list \<Rightarrow> ('k \<Rightarrow> 'v option) \<Rightarrow> 'k \<Rightarrow> 'v option" where
  "changed cs f k = (case map_of cs k of None \<Rightarrow> f k | Some v \<Rightarrow> v)"

lemma changed_Nil [simp]: "changed [] f = f"
  by (simp add: changed_def fun_eq_iff)

lemma changed_Cons:
  assumes "k \<notin> fst ` set cs"
  shows "changed ((k, v) # cs) f = changed cs (f(k := v))"
proof -
  have "map_of cs k = None" using assms by (simp add: map_of_eq_None_iff)
  then show ?thesis by (auto simp: changed_def fun_eq_iff split: option.split)
qed

text \<open>What a map weighs, row by row; with weight 1 it is the number of its rows.\<close>

definition weight_of :: "('k \<Rightarrow> 'v \<Rightarrow> nat) \<Rightarrow> 'k \<Rightarrow> 'v option \<Rightarrow> nat" where
  "weight_of w k v = (case v of None \<Rightarrow> 0 | Some x \<Rightarrow> w k x)"

lemma weight_of_simps [simp]: "weight_of w k None = 0" "weight_of w k (Some x) = w k x"
  by (simp_all add: weight_of_def)

definition map_weight :: "('k \<Rightarrow> 'v \<Rightarrow> nat) \<Rightarrow> ('k \<Rightarrow> 'v option) \<Rightarrow> nat" where
  "map_weight w f = (\<Sum>k \<in> dom f. weight_of w k (f k))"

lemma map_weight_upd:
  assumes "finite (dom f)"
  shows "map_weight w (f(k := v)) + weight_of w k (f k) = map_weight w f + weight_of w k v"
proof -
  have sup: "map_weight w g = (\<Sum>j \<in> insert k (dom f). weight_of w j (g j))" if "dom g \<subseteq> insert k (dom f)" for g
    unfolding map_weight_def using assms that by (intro sum.mono_neutral_left) (auto simp: weight_of_def split: option.split)
  have "map_weight w (f(k := v)) = weight_of w k v + (\<Sum>j \<in> dom f - {k}. weight_of w j (f j))"
    using assms by (subst sup) (auto simp: sum.insert_remove)
  moreover have "map_weight w f = weight_of w k (f k) + (\<Sum>j \<in> dom f - {k}. weight_of w j (f j))"
    using assms by (subst sup) (auto simp: sum.insert_remove)
  ultimately show ?thesis by simp
qed

lemma finite_changed: "finite (dom f) \<Longrightarrow> finite (dom (changed cs f))"
proof (rule finite_subset)
  show "dom (changed cs f) \<subseteq> dom f \<union> dom (map_of cs)"
    by (auto simp: changed_def split: option.splits)
qed (simp add: finite_dom_map_of)

lemma map_weight_changed:
  assumes "finite (dom f)" and "distinct (map fst cs)"
  shows "map_weight w (changed cs f) + (\<Sum>(k, v) \<leftarrow> cs. weight_of w k (f k)) =
    map_weight w f + (\<Sum>(k, v) \<leftarrow> cs. weight_of w k v)"
  using assms
proof (induction cs arbitrary: f)
  case (Cons c cs)
  obtain k v where c: "c = (k, v)" by (cases c)
  have "(\<Sum>(j, u) \<leftarrow> cs. weight_of w j ((f(k := v)) j)) = (\<Sum>(j, u) \<leftarrow> cs. weight_of w j (f j))"
    using Cons.prems(2) c by (intro arg_cong [where f = sum_list] map_cong refl) (auto simp: image_iff)
  moreover have "changed (c # cs) f = changed cs (f(k := v))"
    using Cons.prems(2) c by (simp add: changed_Cons)
  moreover have "finite (dom (f(k := v)))" and "distinct (map fst cs)" using Cons.prems by simp_all
  moreover note Cons.IH [OF this]
  ultimately show ?case
    using Cons.prems map_weight_upd [OF Cons.prems(1), of w k v] c
    by (simp del: fun_upd_apply)
qed simp

locale key_value_map =
  fixes good :: "'m \<Rightarrow> bool" and lookup :: "'m \<Rightarrow> 'k \<Rightarrow> 'v option"
    and put :: "'k \<Rightarrow> 'v \<Rightarrow> 'm \<Rightarrow> 'm" and del :: "'k \<Rightarrow> 'm \<Rightarrow> 'm"
  assumes good_put: "good m \<Longrightarrow> good (put k v m)"
    and good_del: "good m \<Longrightarrow> good (del k m)"
    and lookup_put: "good m \<Longrightarrow> lookup (put k v m) = (lookup m)(k := Some v)"
    and lookup_del: "good m \<Longrightarrow> lookup (del k m) = (lookup m)(k := None)"
begin

lemma good_changes: "good m \<Longrightarrow> good (apply_changes put del cs m)"
proof (induction cs arbitrary: m)
  case (Cons c cs)
  then show ?case by (cases c; cases "snd c") (auto simp: good_put good_del)
qed simp

lemma lookup_changes:
  "good m \<Longrightarrow> distinct (map fst cs) \<Longrightarrow> lookup (apply_changes put del cs m) = changed cs (lookup m)"
proof (induction cs arbitrary: m)
  case (Cons c cs)
  then show ?case
    by (cases c; cases "snd c") (auto simp: good_put good_del lookup_put lookup_del changed_Cons)
qed simp

end

section \<open>The sorted vector\<close>

type_synonym chat_rows = "(utext \<times> utext) list"

text \<open>The loop of \<open>slice::binary_search_by\<close>, and its answer: \<open>Inr\<close> the index, \<open>Inl\<close> where to insert.\<close>

function bisect :: "chat_rows \<Rightarrow> utext \<Rightarrow> nat \<Rightarrow> nat \<Rightarrow> nat" where
  "bisect rows key base n =
     (if n \<le> 1 then base
      else (let half = n div 2; mid = base + half
            in bisect rows key (if key < fst (rows ! mid) then base else mid) (n - half)))"
  by pat_completeness auto

termination bisect
  by (relation "measure (\<lambda>(rows, key, base, n). n)") auto

declare bisect.simps [simp del]

definition chat_rows_find :: "chat_rows \<Rightarrow> utext \<Rightarrow> nat + nat" where
  "chat_rows_find rows key =
     (if rows = [] then Inl 0
      else (let base = bisect rows key 0 (length rows); held = fst (rows ! base)
            in if held = key then Inr base else Inl (base + (if held < key then 1 else 0))))"

definition chat_rows_get :: "chat_rows \<Rightarrow> utext \<Rightarrow> utext option" where
  "chat_rows_get rows key =
     (case chat_rows_find rows key of Inl at \<Rightarrow> None | Inr at \<Rightarrow> Some (snd (rows ! at)))"

definition chat_rows_insert :: "utext \<Rightarrow> utext \<Rightarrow> chat_rows \<Rightarrow> chat_rows \<times> utext option" where
  "chat_rows_insert key value rows =
     (case chat_rows_find rows key of
        Inr at \<Rightarrow> (rows[at := (fst (rows ! at), value)], Some (snd (rows ! at)))
      | Inl at \<Rightarrow> (take at rows @ (key, value) # drop at rows, None))"

definition chat_rows_remove :: "utext \<Rightarrow> chat_rows \<Rightarrow> chat_rows \<times> utext option" where
  "chat_rows_remove key rows =
     (case chat_rows_find rows key of
        Inl at \<Rightarrow> (rows, None)
      | Inr at \<Rightarrow> (take at rows @ drop (Suc at) rows, Some (snd (rows ! at))))"

definition chat_rows_collect :: "(utext \<times> utext) list \<Rightarrow> chat_rows" where
  "chat_rows_collect pairs = fold (\<lambda>(key, value) rows. fst (chat_rows_insert key value rows)) pairs []"

section \<open>Bisection finds the key\<close>

definition rows_sorted :: "chat_rows \<Rightarrow> bool" where
  "rows_sorted rows \<longleftrightarrow> sorted_wrt (<) (map fst rows)"

lemma rows_sorted_less: "rows_sorted rows \<Longrightarrow> i < j \<Longrightarrow> j < length rows \<Longrightarrow> fst (rows ! i) < fst (rows ! j)"
  by (simp add: rows_sorted_def sorted_wrt_iff_nth_less)

lemma rows_sorted_distinct: "rows_sorted rows \<Longrightarrow> distinct (map fst rows)"
  by (simp add: rows_sorted_def strict_sorted_iff)

lemma bisect_bounds:
  assumes "rows_sorted rows" and "0 < n" and "base + n \<le> length rows"
    and "base = 0 \<or> fst (rows ! base) \<le> key"
    and "\<And>j. base + n \<le> j \<Longrightarrow> j < length rows \<Longrightarrow> key < fst (rows ! j)"
  shows "bisect rows key base n < length rows \<and>
    (bisect rows key base n = 0 \<or> fst (rows ! bisect rows key base n) \<le> key) \<and>
    (\<forall>j. bisect rows key base n < j \<and> j < length rows \<longrightarrow> key < fst (rows ! j))"
  using assms(2-)
proof (induction n arbitrary: base rule: less_induct)
  case (less n)
  show ?case
  proof (cases "n \<le> 1")
    case True
    with less.prems show ?thesis by (subst (1 2 3 4) bisect.simps) (auto simp: Suc_le_eq)
  next
    case False
    let ?mid = "base + n div 2"
    let ?base = "if key < fst (rows ! ?mid) then base else ?mid"
    have mid: "?mid < length rows" using False less.prems by auto
    have above: "key < fst (rows ! j)" if "?base + (n - n div 2) \<le> j" and "j < length rows" for j
    proof (cases "key < fst (rows ! ?mid)")
      case True
      then have "?mid \<le> j" using that(1) False by auto
      then show ?thesis
        using True rows_sorted_less [OF assms(1), of ?mid j] that(2) by (cases "?mid = j") auto
    next
      case False
      then show ?thesis using that less.prems(4) by auto
    qed
    have step: "bisect rows key base n = bisect rows key ?base (n - n div 2)"
      using False by (subst bisect.simps) (simp add: Let_def)
    show ?thesis unfolding step
    proof (rule less.IH [OF _ _ _ _ above])
      show "n - n div 2 < n" "0 < n - n div 2" "?base + (n - n div 2) \<le> length rows"
        using False less.prems(1,2) by auto
      show "?base = 0 \<or> fst (rows ! ?base) \<le> key"
        using less.prems(3) by (simp add: not_less)
    qed
  qed
qed

text \<open>The answer splits the vector into smaller keys, the key itself if it is there, and greater keys.\<close>

lemma chat_rows_find_cases:
  assumes "rows_sorted rows"
  obtains (found) lo v hi where "rows = lo @ (key, v) # hi" "chat_rows_find rows key = Inr (length lo)"
      "\<And>p. p \<in> set lo \<Longrightarrow> fst p < key" "\<And>p. p \<in> set hi \<Longrightarrow> key < fst p"
  | (absent) lo hi where "rows = lo @ hi" "chat_rows_find rows key = Inl (length lo)"
      "\<And>p. p \<in> set lo \<Longrightarrow> fst p < key" "\<And>p. p \<in> set hi \<Longrightarrow> key < fst p"
proof (cases "rows = []")
  case True
  then show thesis by (intro absent [of "[]" "[]"]) (simp_all add: chat_rows_find_def)
next
  case False
  obtain b where b: "b < length rows" "b = 0 \<or> fst (rows ! b) \<le> key"
      "\<And>j. b < j \<Longrightarrow> j < length rows \<Longrightarrow> key < fst (rows ! j)"
    and find: "chat_rows_find rows key =
      (if fst (rows ! b) = key then Inr b else Inl (b + (if fst (rows ! b) < key then 1 else 0)))"
    using bisect_bounds [OF assms, of "length rows" 0 key] False
    by (auto simp: chat_rows_find_def Let_def)
  obtain lo x hi where rows: "rows = lo @ x # hi" and len: "length lo = b"
    using id_take_nth_drop [OF b(1)] b(1) by (metis length_take min.absorb4)
  have x: "rows ! b = x" using rows len by (metis nth_append_length)
  have lo: "fst p < fst x" if p: "p \<in> set lo" for p
  proof -
    obtain i where "i < length lo" "lo ! i = p" using p by (auto simp: in_set_conv_nth)
    then show ?thesis using rows_sorted_less [OF assms, of i b] b(1) x len rows by (auto simp: nth_append)
  qed
  have hi: "key < fst p" if p: "p \<in> set hi" for p
  proof -
    obtain i where "i < length hi" "hi ! i = p" using p by (auto simp: in_set_conv_nth)
    then show ?thesis using b(3) [of "b + Suc i"] len rows by (auto simp: nth_append)
  qed
  consider "fst x = key" | "fst x < key" | "key < fst x" by force
  then show thesis
  proof cases
    case 1
    then show thesis
      by (intro found [of lo "snd x" hi]) (use rows find x lo hi len in auto)
  next
    case 2
    then show thesis
      by (intro absent [of "lo @ [x]" hi]) (use rows find x lo hi len in \<open>auto dest: order.strict_trans\<close>)
  next
    case 3
    then have "lo = []" using b(2) x len by auto
    with 3 show thesis
      by (intro absent [of "[]" rows]) (use rows find x hi len in auto)
  qed
qed

section \<open>The vector is a map\<close>

lemma rows_sorted_append:
  "rows_sorted (lo @ hi) \<longleftrightarrow> rows_sorted lo \<and> rows_sorted hi \<and> (\<forall>p \<in> set lo. \<forall>q \<in> set hi. fst p < fst q)"
  by (auto simp: rows_sorted_def sorted_wrt_append)

lemma rows_sorted_Cons:
  "rows_sorted (p # hi) \<longleftrightarrow> rows_sorted hi \<and> (\<forall>q \<in> set hi. fst p < fst q)"
  by (auto simp: rows_sorted_def)

lemma rows_sorted_Nil [simp]: "rows_sorted []"
  by (simp add: rows_sorted_def)

lemma map_of_greater: "(\<And>p. p \<in> set hi \<Longrightarrow> key < fst p) \<Longrightarrow> map_of hi (key :: 'a :: linorder) = None"
  by (metis image_iff less_irrefl map_of_eq_None_iff)

lemma map_of_less: "(\<And>p. p \<in> set lo \<Longrightarrow> fst p < key) \<Longrightarrow> map_of lo (key :: 'a :: linorder) = None"
  by (metis image_iff less_irrefl map_of_eq_None_iff)

lemma chat_rows_get_map_of:
  assumes "rows_sorted rows"
  shows "chat_rows_get rows key = map_of rows key"
  using assms
proof (cases rule: chat_rows_find_cases [where key = key])
  case (found lo v hi)
  then show ?thesis by (simp add: chat_rows_get_def found(2)) (simp add: found(1) map_add_def map_of_less [OF found(3)])
next
  case (absent lo hi)
  then show ?thesis
    by (simp add: chat_rows_get_def absent(2)) (simp add: absent(1) map_add_def map_of_less [OF absent(3)] map_of_greater [OF absent(4)])
qed

lemma chat_rows_insert_facts:
  assumes "rows_sorted rows"
  shows "rows_sorted (fst (chat_rows_insert key value rows)) \<and>
    map_of (fst (chat_rows_insert key value rows)) = (map_of rows)(key := Some value) \<and>
    snd (chat_rows_insert key value rows) = map_of rows key \<and>
    set (fst (chat_rows_insert key value rows)) \<subseteq> insert (key, value) (set rows)"
  using assms
proof (cases rule: chat_rows_find_cases [where key = key])
  case (found lo v hi)
  have ins: "chat_rows_insert key value rows = (lo @ (key, value) # hi, Some v)"
    by (simp add: chat_rows_insert_def found(2)) (simp add: found(1))
  have "rows_sorted (fst (chat_rows_insert key value rows))"
    using assms unfolding ins by (simp add: found(1) rows_sorted_append rows_sorted_Cons)
  moreover have "map_of (fst (chat_rows_insert key value rows)) = (map_of rows)(key := Some value)"
    unfolding ins by (auto simp: found(1) map_add_def fun_eq_iff map_of_greater [OF found(4)] map_of_less [OF found(3)] split: option.split)
  moreover have "snd (chat_rows_insert key value rows) = map_of rows key"
    unfolding ins by (simp add: found(1) map_add_def map_of_less [OF found(3)])
  moreover have "set (fst (chat_rows_insert key value rows)) \<subseteq> insert (key, value) (set rows)"
    unfolding ins by (auto simp: found(1))
  ultimately show ?thesis by blast
next
  case (absent lo hi)
  have ins: "chat_rows_insert key value rows = (lo @ (key, value) # hi, None)"
    by (simp add: chat_rows_insert_def absent(2)) (simp add: absent(1))
  have "rows_sorted (fst (chat_rows_insert key value rows))"
    using assms absent(3,4) unfolding ins by (auto simp: absent(1) rows_sorted_append rows_sorted_Cons)
  moreover have "map_of (fst (chat_rows_insert key value rows)) = (map_of rows)(key := Some value)"
    unfolding ins by (auto simp: absent(1) map_add_def fun_eq_iff map_of_greater [OF absent(4)] map_of_less [OF absent(3)] split: option.split)
  moreover have "snd (chat_rows_insert key value rows) = map_of rows key"
    unfolding ins by (simp add: absent(1) map_add_def map_of_less [OF absent(3)] map_of_greater [OF absent(4)])
  moreover have "set (fst (chat_rows_insert key value rows)) \<subseteq> insert (key, value) (set rows)"
    unfolding ins by (auto simp: absent(1))
  ultimately show ?thesis by blast
qed

lemma chat_rows_insert_sorted:
  assumes "rows_sorted rows"
  shows "rows_sorted (fst (chat_rows_insert key value rows))"
    and "map_of (fst (chat_rows_insert key value rows)) = (map_of rows)(key := Some value)"
    and "snd (chat_rows_insert key value rows) = map_of rows key"
    and "set (fst (chat_rows_insert key value rows)) \<subseteq> insert (key, value) (set rows)"
  using chat_rows_insert_facts [OF assms] by blast+

lemma chat_rows_remove_facts:
  assumes "rows_sorted rows"
  shows "rows_sorted (fst (chat_rows_remove key rows)) \<and>
    map_of (fst (chat_rows_remove key rows)) = (map_of rows)(key := None) \<and>
    snd (chat_rows_remove key rows) = map_of rows key \<and>
    set (fst (chat_rows_remove key rows)) \<subseteq> set rows"
  using assms
proof (cases rule: chat_rows_find_cases [where key = key])
  case (found lo v hi)
  have del: "chat_rows_remove key rows = (lo @ hi, Some v)"
    by (simp add: chat_rows_remove_def found(2)) (simp add: found(1))
  have "rows_sorted (fst (chat_rows_remove key rows))"
    using assms unfolding del by (simp add: found(1) rows_sorted_append rows_sorted_Cons)
  moreover have "map_of (fst (chat_rows_remove key rows)) = (map_of rows)(key := None)"
    unfolding del by (auto simp: found(1) map_add_def fun_eq_iff map_of_greater [OF found(4)] map_of_less [OF found(3)]
        split: option.split)
  moreover have "snd (chat_rows_remove key rows) = map_of rows key"
    unfolding del by (simp add: found(1) map_add_def map_of_less [OF found(3)])
  moreover have "set (fst (chat_rows_remove key rows)) \<subseteq> set rows"
    unfolding del by (auto simp: found(1))
  ultimately show ?thesis by blast
next
  case (absent lo hi)
  have none: "map_of rows key = None"
    by (simp add: absent(1) map_add_def map_of_less [OF absent(3)] map_of_greater [OF absent(4)])
  have del: "chat_rows_remove key rows = (rows, None)"
    by (simp add: chat_rows_remove_def absent(2))
  have "rows_sorted (fst (chat_rows_remove key rows))" using assms by (simp add: del)
  moreover have "map_of (fst (chat_rows_remove key rows)) = (map_of rows)(key := None)"
    using none by (simp add: del fun_upd_idem)
  moreover have "snd (chat_rows_remove key rows) = map_of rows key" using none by (simp add: del)
  moreover have "set (fst (chat_rows_remove key rows)) \<subseteq> set rows" by (simp add: del)
  ultimately show ?thesis by blast
qed

lemma chat_rows_remove_sorted:
  assumes "rows_sorted rows"
  shows "rows_sorted (fst (chat_rows_remove key rows))"
    and "map_of (fst (chat_rows_remove key rows)) = (map_of rows)(key := None)"
    and "snd (chat_rows_remove key rows) = map_of rows key"
    and "set (fst (chat_rows_remove key rows)) \<subseteq> set rows"
  using chat_rows_remove_facts [OF assms] by blast+

interpretation rows: key_value_map rows_sorted chat_rows_get
  "\<lambda>k v m. fst (chat_rows_insert k v m)" "\<lambda>k m. fst (chat_rows_remove k m)"
  by unfold_locales (simp_all add: chat_rows_insert_sorted chat_rows_remove_sorted chat_rows_get_map_of fun_eq_iff)

lemma chat_rows_collect_sorted:
  "rows_sorted (chat_rows_collect pairs) \<and> map_of (chat_rows_collect pairs) = map_of (rev pairs)"
proof (induction pairs rule: rev_induct)
  case Nil
  then show ?case by (simp add: chat_rows_collect_def)
next
  case (snoc p pairs)
  obtain k v where p: "p = (k, v)" by (cases p)
  have step: "chat_rows_collect (pairs @ [p]) = fst (chat_rows_insert k v (chat_rows_collect pairs))"
    by (simp add: chat_rows_collect_def p)
  show ?case
    using snoc chat_rows_insert_sorted(1,2) [OF conjunct1 [OF snoc], of k v] unfolding step by (simp add: p fun_eq_iff)
qed



lemma map_weight_rows:
  "distinct (map fst xs) \<Longrightarrow> map_weight w (map_of xs) = (\<Sum>(k, v) \<leftarrow> xs. w k v)"
proof (induction xs)
  case (Cons x xs)
  obtain k v where x: "x = (k, v)" by (cases x)
  have "map_of xs k = None" using Cons.prems x by (simp add: map_of_eq_None_iff)
  then show ?case
    using Cons map_weight_upd [of "map_of xs" w k "Some v"] x
    by (simp add: finite_dom_map_of del: fun_upd_apply)
qed (simp add: map_weight_def)


section \<open>The vector refines a finite map\<close>

definition rows_after :: "(utext, utext) change list \<Rightarrow> chat_rows" where
  "rows_after cs = apply_changes (\<lambda>k v m. fst (chat_rows_insert k v m)) (\<lambda>k m. fst (chat_rows_remove k m)) cs []"

definition map_after :: "(utext, utext) change list \<Rightarrow> utext \<Rightarrow> utext option" where
  "map_after cs = apply_changes (\<lambda>k v f. f(k := Some v)) (\<lambda>k f. f(k := None)) cs (\<lambda>k. None)"

lemma changes_refine:
  "rows_sorted rows \<Longrightarrow> map_of rows = f \<Longrightarrow>
   rows_sorted (apply_changes (\<lambda>k v m. fst (chat_rows_insert k v m)) (\<lambda>k m. fst (chat_rows_remove k m)) cs rows) \<and>
   map_of (apply_changes (\<lambda>k v m. fst (chat_rows_insert k v m)) (\<lambda>k m. fst (chat_rows_remove k m)) cs rows) =
     apply_changes (\<lambda>k v f. f(k := Some v)) (\<lambda>k f. f(k := None)) cs f"
proof (induction cs arbitrary: rows f)
  case (Cons c cs)
  obtain k v where c: "c = (k, v)" by (cases c)
  show ?case
    using Cons.IH chat_rows_insert_sorted(1,2) [OF Cons.prems(1), of k] chat_rows_remove_sorted(1,2) [OF Cons.prems(1), of k]
      Cons.prems(2)
    by (cases v) (simp_all add: c del: fun_upd_apply)
qed simp

text \<open>
  C19: the vector of one chat, sorted by key and searched by bisection, is a finite map: after any
  sequence of insertions and removals it is strictly sorted, a lookup finds what was written last, the
  value an insertion or removal hands back is the one the map held, and its length is the number of keys.
\<close>

theorem chat_rows_refine_map:
  "sorted_wrt (\<lambda>p q. fst p < fst q) (rows_after cs) \<and> chat_rows_get (rows_after cs) key = map_after cs key \<and>
   snd (chat_rows_insert key value (rows_after cs)) = map_after cs key \<and>
   snd (chat_rows_remove key (rows_after cs)) = map_after cs key \<and>
   length (rows_after cs) = card (dom (map_after cs))"
proof -
  have ok: "rows_sorted (rows_after cs)" "map_of (rows_after cs) = map_after cs"
    unfolding rows_after_def map_after_def using changes_refine [of "[]" "\<lambda>k. None" cs] by simp_all
  have "length (rows_after cs) = card (dom (map_after cs))"
    using distinct_card [OF rows_sorted_distinct [OF ok(1)]] by (simp add: ok(2) [symmetric] dom_map_of_conv_image_fst)
  then show ?thesis
    using ok chat_rows_get_map_of [OF ok(1)] chat_rows_insert_sorted(3) [OF ok(1)] chat_rows_remove_sorted(3) [OF ok(1)]
    by (simp add: rows_sorted_def sorted_wrt_map)
qed

end
