(* ===== verification/ResponseKinds.thy ===== *)
theory ResponseKinds
  imports Utf8Text "HOL-Library.Sublist"
begin

text \<open>
  The kinds of answers the bot sends and what \<open>src/src/response.rs\<close> says of each: the name it
  has in a setting, whether it has to be public or private, and which \<open>response:\<close> settings are
  accepted.
\<close>

section \<open>ASCII literals\<close>

definition ascii :: "string \<Rightarrow> utext" where
  "ascii s = map of_char s"

lemma of_ascii: "map char_of (ascii s) = s"
  by (simp add: ascii_def comp_def)

lemma ascii_eq [simp]: "ascii s = ascii t \<longleftrightarrow> s = t"
  by (metis of_ascii)

lemma ascii_append: "ascii (s @ t) = ascii s @ ascii t"
  by (simp add: ascii_def)

lemma ascii_Nil [simp]: "ascii s = [] \<longleftrightarrow> s = []" "[] = ascii s \<longleftrightarrow> s = []"
  by (simp_all add: ascii_def)

lemma prefix_ascii [simp]: "prefix (ascii s) (ascii t) \<longleftrightarrow> prefix s t"
proof
  assume "prefix (ascii s) (ascii t)"
  then have "prefix (map char_of (ascii s)) (map char_of (ascii t))" by (rule map_mono_prefix)
  then show "prefix s t" by (simp add: of_ascii)
qed (simp add: ascii_def map_mono_prefix)

text \<open>\<open>str::strip_prefix\<close>.\<close>

definition str_strip_prefix :: "utext \<Rightarrow> utext \<Rightarrow> utext option" where
  "str_strip_prefix p t = (if prefix p t then Some (drop (length p) t) else None)"

lemma str_strip_prefix_append [simp]: "str_strip_prefix p (p @ t) = Some t"
  by (simp add: str_strip_prefix_def)

section \<open>Kinds and categories\<close>

datatype noise_mode = NoiseOff | Balanced | PrivateFirst | CustomMode

definition noise_mode_from_str :: "utext \<Rightarrow> noise_mode option" where
  "noise_mode_from_str v =
     (if v = ascii ''off'' then Some NoiseOff
      else if v = ascii ''balanced'' then Some Balanced
      else if v = ascii ''private_first'' then Some PrivateFirst
      else if v = ascii ''custom'' then Some CustomMode
      else None)"

datatype visibility_override = DefaultVisibility | PublicVisibility | PrivateVisibility

fun visibility_as_str :: "visibility_override \<Rightarrow> utext" where
  "visibility_as_str DefaultVisibility = ascii ''default''"
| "visibility_as_str PublicVisibility = ascii ''public''"
| "visibility_as_str PrivateVisibility = ascii ''private''"

definition visibility_from_str :: "utext \<Rightarrow> visibility_override option" where
  "visibility_from_str v =
     (if v = ascii ''default'' then Some DefaultVisibility
      else if v = ascii ''public'' then Some PublicVisibility
      else if v = ascii ''private'' then Some PrivateVisibility
      else None)"

lemma visibility_roundtrip [simp]: "visibility_from_str (visibility_as_str v) = Some v"
  by (cases v) (simp_all add: visibility_from_str_def)

datatype response_category =
  C_CommandErrors | C_PermissionDenied | C_Settings | C_Help | C_AdminTools
| C_MemberLookups | C_Statistics | C_Warnings | C_Moderation | C_FilterManagement
| C_LockManagement | C_AntiSpam | C_Welcome | C_Verification | C_Utilities
| C_PersonalInformation | C_CallbackMenus

definition all_categories :: "response_category list" where
  "all_categories =
     [C_CommandErrors, C_PermissionDenied, C_Settings, C_Help, C_AdminTools,
      C_MemberLookups, C_Statistics, C_Warnings, C_Moderation, C_FilterManagement,
      C_LockManagement, C_AntiSpam, C_Welcome, C_Verification, C_Utilities,
      C_PersonalInformation, C_CallbackMenus]"

fun category_as_str :: "response_category \<Rightarrow> string" where
  "category_as_str C_CommandErrors = ''command_errors''"
| "category_as_str C_PermissionDenied = ''permission_denied''"
| "category_as_str C_Settings = ''settings''"
| "category_as_str C_Help = ''help''"
| "category_as_str C_AdminTools = ''admin_tools''"
| "category_as_str C_MemberLookups = ''member_lookups''"
| "category_as_str C_Statistics = ''statistics''"
| "category_as_str C_Warnings = ''warnings''"
| "category_as_str C_Moderation = ''moderation''"
| "category_as_str C_FilterManagement = ''filter_management''"
| "category_as_str C_LockManagement = ''lock_management''"
| "category_as_str C_AntiSpam = ''anti_spam''"
| "category_as_str C_Welcome = ''welcome''"
| "category_as_str C_Verification = ''verification''"
| "category_as_str C_Utilities = ''utilities''"
| "category_as_str C_PersonalInformation = ''personal_information''"
| "category_as_str C_CallbackMenus = ''callback_menus''"

definition category_parse :: "utext \<Rightarrow> response_category option" where
  "category_parse v = find (\<lambda>c. ascii (category_as_str c) = v) all_categories"

datatype visibility_class =
  V_PublicRequired | V_PrivatePreferred | V_Configurable | V_ContextDependent | V_PrivacyRequired

datatype response_kind =
  CommandError | PermissionDenied | SettingsView | SettingsChanged
| Help | AdminTool | MemberLookup | Statistics
| WarningLookup | ModerationConfirmation | ModerationAnnouncement | WarningNotice
| FilterManagement | LockManagement | AntiSpamControl | WelcomeSetup
| WelcomeNotice | VerificationSetup | VerificationChallenge | UtilityResult
| PersonalInformation | CleanerAuthentication | ModerationCaseDetails | CallbackFeedback
| GroupAnnouncement | SecurityAlert | AuditLog | ScheduledReport
| AutoAnswer | ContentRemovalNotice | ContextualAiResponse

record response_semantics =
  sem_class :: visibility_class
  sem_category :: response_category
  sem_balanced_private :: bool

definition overridable :: "response_kind list" where
  "overridable = [ContentRemovalNotice, WelcomeNotice]"

fun kind_as_str :: "response_kind \<Rightarrow> string" where
  "kind_as_str CommandError = ''command_error''"
| "kind_as_str PermissionDenied = ''permission_denied''"
| "kind_as_str SettingsView = ''settings_view''"
| "kind_as_str SettingsChanged = ''settings_changed''"
| "kind_as_str Help = ''help''"
| "kind_as_str AdminTool = ''admin_tool''"
| "kind_as_str MemberLookup = ''member_lookup''"
| "kind_as_str Statistics = ''statistics''"
| "kind_as_str WarningLookup = ''warning_lookup''"
| "kind_as_str ModerationConfirmation = ''moderation_confirmation''"
| "kind_as_str ModerationAnnouncement = ''moderation_announcement''"
| "kind_as_str WarningNotice = ''warning_notice''"
| "kind_as_str FilterManagement = ''filter_management''"
| "kind_as_str LockManagement = ''lock_management''"
| "kind_as_str AntiSpamControl = ''anti_spam_control''"
| "kind_as_str WelcomeSetup = ''welcome_setup''"
| "kind_as_str WelcomeNotice = ''welcome_notice''"
| "kind_as_str VerificationSetup = ''verification_setup''"
| "kind_as_str VerificationChallenge = ''verification_challenge''"
| "kind_as_str UtilityResult = ''utility_result''"
| "kind_as_str PersonalInformation = ''personal_information''"
| "kind_as_str CleanerAuthentication = ''cleaner_authentication''"
| "kind_as_str ModerationCaseDetails = ''moderation_case_details''"
| "kind_as_str CallbackFeedback = ''callback_feedback''"
| "kind_as_str GroupAnnouncement = ''group_announcement''"
| "kind_as_str SecurityAlert = ''security_alert''"
| "kind_as_str AuditLog = ''audit_log''"
| "kind_as_str ScheduledReport = ''scheduled_report''"
| "kind_as_str AutoAnswer = ''auto_answer''"
| "kind_as_str ContentRemovalNotice = ''content_removal_notice''"
| "kind_as_str ContextualAiResponse = ''contextual_ai_response''"

definition kind_parse :: "utext \<Rightarrow> response_kind option" where
  "kind_parse v = find (\<lambda>k. ascii (kind_as_str k) = v) overridable"

fun semantics :: "response_kind \<Rightarrow> response_semantics" where
  "semantics CommandError = \<lparr>sem_class = V_PrivatePreferred, sem_category = C_CommandErrors, sem_balanced_private = True\<rparr>"
| "semantics PermissionDenied = \<lparr>sem_class = V_PrivatePreferred, sem_category = C_PermissionDenied, sem_balanced_private = True\<rparr>"
| "semantics SettingsView = \<lparr>sem_class = V_Configurable, sem_category = C_Settings, sem_balanced_private = True\<rparr>"
| "semantics SettingsChanged = \<lparr>sem_class = V_Configurable, sem_category = C_Settings, sem_balanced_private = True\<rparr>"
| "semantics Help = \<lparr>sem_class = V_Configurable, sem_category = C_Help, sem_balanced_private = True\<rparr>"
| "semantics AdminTool = \<lparr>sem_class = V_Configurable, sem_category = C_AdminTools, sem_balanced_private = True\<rparr>"
| "semantics MemberLookup = \<lparr>sem_class = V_Configurable, sem_category = C_MemberLookups, sem_balanced_private = True\<rparr>"
| "semantics Statistics = \<lparr>sem_class = V_Configurable, sem_category = C_Statistics, sem_balanced_private = True\<rparr>"
| "semantics WarningLookup = \<lparr>sem_class = V_Configurable, sem_category = C_Warnings, sem_balanced_private = True\<rparr>"
| "semantics ModerationConfirmation = \<lparr>sem_class = V_Configurable, sem_category = C_Moderation, sem_balanced_private = True\<rparr>"
| "semantics ModerationAnnouncement = \<lparr>sem_class = V_PublicRequired, sem_category = C_Moderation, sem_balanced_private = False\<rparr>"
| "semantics WarningNotice = \<lparr>sem_class = V_PublicRequired, sem_category = C_Moderation, sem_balanced_private = False\<rparr>"
| "semantics FilterManagement = \<lparr>sem_class = V_Configurable, sem_category = C_FilterManagement, sem_balanced_private = True\<rparr>"
| "semantics LockManagement = \<lparr>sem_class = V_Configurable, sem_category = C_LockManagement, sem_balanced_private = True\<rparr>"
| "semantics AntiSpamControl = \<lparr>sem_class = V_Configurable, sem_category = C_AntiSpam, sem_balanced_private = True\<rparr>"
| "semantics WelcomeSetup = \<lparr>sem_class = V_Configurable, sem_category = C_Welcome, sem_balanced_private = True\<rparr>"
| "semantics WelcomeNotice = \<lparr>sem_class = V_ContextDependent, sem_category = C_Welcome, sem_balanced_private = False\<rparr>"
| "semantics VerificationSetup = \<lparr>sem_class = V_Configurable, sem_category = C_Verification, sem_balanced_private = True\<rparr>"
| "semantics VerificationChallenge = \<lparr>sem_class = V_PublicRequired, sem_category = C_Verification, sem_balanced_private = False\<rparr>"
| "semantics UtilityResult = \<lparr>sem_class = V_Configurable, sem_category = C_Utilities, sem_balanced_private = True\<rparr>"
| "semantics PersonalInformation = \<lparr>sem_class = V_PrivacyRequired, sem_category = C_PersonalInformation, sem_balanced_private = True\<rparr>"
| "semantics CleanerAuthentication = \<lparr>sem_class = V_PrivacyRequired, sem_category = C_PersonalInformation, sem_balanced_private = True\<rparr>"
| "semantics ModerationCaseDetails = \<lparr>sem_class = V_PrivacyRequired, sem_category = C_PersonalInformation, sem_balanced_private = True\<rparr>"
| "semantics CallbackFeedback = \<lparr>sem_class = V_PrivatePreferred, sem_category = C_CallbackMenus, sem_balanced_private = True\<rparr>"
| "semantics GroupAnnouncement = \<lparr>sem_class = V_PublicRequired, sem_category = C_AdminTools, sem_balanced_private = False\<rparr>"
| "semantics SecurityAlert = \<lparr>sem_class = V_PublicRequired, sem_category = C_AdminTools, sem_balanced_private = False\<rparr>"
| "semantics AuditLog = \<lparr>sem_class = V_PublicRequired, sem_category = C_AdminTools, sem_balanced_private = False\<rparr>"
| "semantics ScheduledReport = \<lparr>sem_class = V_PublicRequired, sem_category = C_AdminTools, sem_balanced_private = False\<rparr>"
| "semantics AutoAnswer = \<lparr>sem_class = V_ContextDependent, sem_category = C_Utilities, sem_balanced_private = False\<rparr>"
| "semantics ContentRemovalNotice = \<lparr>sem_class = V_PrivatePreferred, sem_category = C_LockManagement, sem_balanced_private = True\<rparr>"
| "semantics ContextualAiResponse = \<lparr>sem_class = V_ContextDependent, sem_category = C_Utilities, sem_balanced_private = False\<rparr>"

section \<open>Settings of the policy\<close>

definition mode_key :: utext where
  "mode_key = ascii ''response:mode''"

definition category_prefix :: utext where
  "category_prefix = ascii ''response:category:''"

definition kind_prefix :: utext where
  "kind_prefix = ascii ''response:kind:''"

definition category_key :: "response_category \<Rightarrow> utext" where
  "category_key c = category_prefix @ ascii (category_as_str c)"

definition kind_key :: "response_kind \<Rightarrow> utext" where
  "kind_key k = kind_prefix @ ascii (kind_as_str k)"

definition legacy_kind_names :: "string list" where
  "legacy_kind_names =
     [''settings_changed'', ''help'', ''admin_tool'', ''member_lookup'', ''statistics'', ''warning_lookup'',
      ''moderation_confirmation'', ''filter_management'', ''lock_management'', ''anti_spam_control'',
      ''welcome_setup'', ''utility_result'']"

text \<open>\<open>validate_setting\<close>: the error says what was expected.\<close>

definition validate_response_setting :: "utext \<Rightarrow> utext \<Rightarrow> string + unit" where
  "validate_response_setting key v =
     (if key = mode_key then
        (case noise_mode_from_str v of
           Some _ \<Rightarrow> Inr () | None \<Rightarrow> Inl ''off, balanced, private_first, or custom'')
      else
        (case str_strip_prefix category_prefix key of
           Some category \<Rightarrow>
             (if category_parse category = None then Inl ''a known response category''
              else (case visibility_from_str v of
                      Some _ \<Rightarrow> Inr () | None \<Rightarrow> Inl ''default, public, or private''))
         | None \<Rightarrow>
        (case str_strip_prefix kind_prefix key of
           Some kind \<Rightarrow>
             (if kind_parse kind = None \<and> \<not> list_ex (\<lambda>n. ascii n = kind) legacy_kind_names
              then Inl ''a known overridable response kind''
              else (case visibility_from_str v of
                      Some _ \<Rightarrow> Inr () | None \<Rightarrow> Inl ''default, public, or private''))
         | None \<Rightarrow> Inl ''a known response-policy key'')))"

lemma kind_as_str_inj: "kind_as_str k = kind_as_str j \<Longrightarrow> k = j"
  by (cases k; cases j) simp_all

lemma category_as_str_inj: "category_as_str c = category_as_str d \<Longrightarrow> c = d"
  by (cases c; cases d) simp_all

lemma kind_parse_overridable: "k \<in> set overridable \<Longrightarrow> kind_parse (ascii (kind_as_str k)) = Some k"
  by (auto simp: kind_parse_def overridable_def)

lemma category_parse_roundtrip: "category_parse (ascii (category_as_str c)) = Some c"
  by (cases c) (simp_all add: category_parse_def all_categories_def)

text \<open>A kind that can be set is accepted with every visibility.\<close>

lemma kind_key_not_category: "\<not> prefix category_prefix (kind_key k)" "kind_key k \<noteq> mode_key"
  by (simp_all add: kind_key_def category_prefix_def kind_prefix_def mode_key_def ascii_def)

lemma validate_overridable:
  "k \<in> set overridable \<Longrightarrow> validate_response_setting (kind_key k) (visibility_as_str v) = Inr ()"
  using kind_key_not_category [of k]
  by (simp add: validate_response_setting_def str_strip_prefix_def [of category_prefix])
    (simp add: kind_key_def kind_parse_overridable)

end
