(* ===== verification/SettingsCheck.thy ===== *)
theory SettingsCheck
  imports ChatRows ResponseKinds
begin

text \<open>
  The typed settings of \<open>src/src/state.rs\<close>: what a stored value has to look like
  (\<open>validate_persisted_setting\<close>) and the getters that read it back. A getter that relies on the
  check and would panic on a bad value is a partial function: \<open>None\<close> is the panic.
\<close>

section \<open>Integers in texts\<close>

text \<open>\<open>str::parse\<close> of an integer type: an optional sign, then digits only, within the range of the type.\<close>

fun digits_value :: "nat \<Rightarrow> utext \<Rightarrow> nat option" where
  "digits_value n [] = Some n"
| "digits_value n (c # t) = (if 48 \<le> c \<and> c \<le> 57 then digits_value (10 * n + (c - 48)) t else None)"

definition digits :: "utext \<Rightarrow> nat option" where
  "digits t = (if t = [] then None else digits_value 0 t)"

definition parse_unsigned :: "int \<Rightarrow> utext \<Rightarrow> int option" where
  "parse_unsigned hi t =
     (case digits (if t \<noteq> [] \<and> hd t = 43 then tl t else t) of
        None \<Rightarrow> None
      | Some n \<Rightarrow> if int n \<le> hi then Some (int n) else None)"

definition parse_signed :: "int \<Rightarrow> int \<Rightarrow> utext \<Rightarrow> int option" where
  "parse_signed lo hi t =
     (if t \<noteq> [] \<and> hd t = 45
      then (case digits (tl t) of
              None \<Rightarrow> None
            | Some n \<Rightarrow> if lo \<le> - int n then Some (- int n) else None)
      else parse_unsigned hi t)"

abbreviation "parse_u16 \<equiv> parse_unsigned 65535"
abbreviation "parse_u32 \<equiv> parse_unsigned u32_max"
abbreviation "parse_u64 \<equiv> parse_unsigned u64_max"
abbreviation "parse_i32 \<equiv> parse_signed i32_min i32_max"
abbreviation "parse_i64 \<equiv> parse_signed i64_min i64_max"

lemma parse_unsigned_range: "parse_unsigned hi t = Some n \<Longrightarrow> 0 \<le> n \<and> n \<le> hi"
  by (auto simp: parse_unsigned_def split: option.splits if_splits)

lemma parse_unsigned_narrow:
  "parse_unsigned hi t = Some n \<Longrightarrow> n \<le> m \<Longrightarrow> parse_unsigned m t = Some n"
  by (auto simp: parse_unsigned_def split: option.splits if_splits)

lemma parse_unsigned_Nil [simp]: "parse_unsigned hi [] = None"
  by (simp add: parse_unsigned_def digits_def)

lemma parse_signed_Nil [simp]: "parse_signed lo hi [] = None"
  by (simp add: parse_signed_def)

lemma parse_signed_range: "parse_signed lo hi t = Some n \<Longrightarrow> lo \<le> 0 \<Longrightarrow> 0 \<le> hi \<Longrightarrow> lo \<le> n \<and> n \<le> hi"
  by (auto simp: parse_signed_def split: option.splits if_splits dest: parse_unsigned_range)

section \<open>Values that do not fit\<close>

text \<open>What a message says was expected: the range of an integer, or a phrase.\<close>

datatype expectation = IntegerIn int int | Phrase string

record corrupt_setting =
  corrupt_key :: utext
  corrupt_value :: utext
  corrupt_expected :: expectation

definition corrupt :: "utext \<Rightarrow> utext \<Rightarrow> expectation \<Rightarrow> corrupt_setting + 'a" where
  "corrupt key v e = Inl \<lparr>corrupt_key = key, corrupt_value = v, corrupt_expected = e\<rparr>"

lemma corrupt_not_Inr [simp]: "corrupt key v e \<noteq> Inr x"
  by (simp add: corrupt_def)

definition parse_bounded_setting :: "utext \<Rightarrow> utext \<Rightarrow> int \<Rightarrow> int \<Rightarrow> corrupt_setting + unit" where
  "parse_bounded_setting key v minimum maximum =
     (case parse_u64 v of
        None \<Rightarrow> corrupt key v (IntegerIn minimum maximum)
      | Some parsed \<Rightarrow>
          if minimum \<le> parsed \<and> parsed \<le> maximum then Inr ()
          else corrupt key v (IntegerIn minimum maximum))"

definition check_that :: "bool \<Rightarrow> utext \<Rightarrow> utext \<Rightarrow> string \<Rightarrow> corrupt_setting + unit" where
  "check_that ok key v phrase = (if ok then Inr () else corrupt key v (Phrase phrase))"

lemma check_that_Inr [simp]: "check_that ok key v p = Inr u \<longleftrightarrow> ok"
  by (simp add: check_that_def)

text \<open>\<open>str::split_once('|')\<close>.\<close>

definition split_once :: "nat \<Rightarrow> utext \<Rightarrow> (utext \<times> utext) option" where
  "split_once c t =
     (if c \<in> set t then Some (takeWhile (\<lambda>x. x \<noteq> c) t, tl (dropWhile (\<lambda>x. x \<noteq> c) t)) else None)"

definition night_setting_ok :: "utext \<Rightarrow> bool" where
  "night_setting_ok v =
     (case split_once 124 v of
        None \<Rightarrow> False
      | Some (a, b) \<Rightarrow>
          (case (parse_u16 a, parse_u16 b) of
             (Some from_minute, Some to_minute) \<Rightarrow>
               \<not> (1439 < from_minute \<or> 1439 < to_minute \<or> from_minute = to_minute)
           | _ \<Rightarrow> False))"

definition one_of :: "string list \<Rightarrow> utext \<Rightarrow> bool" where
  "one_of names v \<longleftrightarrow> list_ex (\<lambda>n. ascii n = v) names"

text \<open>The integer settings with their ranges.\<close>

definition bounded_settings :: "(string \<times> int \<times> int) list" where
  "bounded_settings =
     [(''strict_limit'', 1, 20), (''strict_time'', 0, 10080), (''captcha_timeout'', 30, 900),
      (''captcha_choices'', 2, 6), (''warn_limit'', 1, 100), (''add_required'', 0, 1000),
      (''gate_every'', 0, 3600), (''gate_ttl'', 0, 3600), (''report_at'', 0, 1439),
      (''auto_purge_at'', 0, 1439), (''auto_purge_count'', 0, 100000), (''raid_limit'', 2, 200),
      (''raid_window'', 5, 600), (''raid_time'', 1, 10080), (''flood_limit'', 2, 50),
      (''flood_window'', 2, 120), (''cq_lim'', 5, 60), (''tmed_min'', 1, 1440), (''trade_lim'', 30, 60)]"

definition validate_persisted_setting :: "utext \<Rightarrow> utext \<Rightarrow> corrupt_setting + unit" where
  "validate_persisted_setting key v =
     (if prefix (ascii ''response:'') key then
        (case validate_response_setting key v of
           Inl expected \<Rightarrow> corrupt key v (Phrase expected) | Inr _ \<Rightarrow> Inr ())
      else
        (case find (\<lambda>(n, _). ascii n = key) bounded_settings of
           Some (_, lo, hi) \<Rightarrow> parse_bounded_setting key v lo hi
         | None \<Rightarrow>
            if one_of [''strict_action'', ''warn_action''] key then
              check_that (one_of [''ban'', ''mute''] v) key v ''ban or mute''
            else if key = ascii ''captcha_action'' then
              check_that (one_of [''kick'', ''mute''] v) key v ''kick or mute''
            else if one_of [''report_day'', ''auto_purge_day'', ''left_day'', ''checked_day'', ''pruned_day''] key then
              check_that (parse_u64 v \<noteq> None) key v ''a non-negative day number''
            else if key = ascii ''cln_checked_slot'' then
              check_that (parse_u64 v \<noteq> None) key v ''a non-negative schedule slot''
            else if key = ascii ''pin_kept'' then
              check_that (is_some_and (\<lambda>m. 0 < m) (parse_i32 v)) key v ''a positive Telegram message id''
            else if key = ascii ''owner'' then
              check_that (is_some_and (\<lambda>u. 0 < u) (parse_i64 v)) key v ''a positive Telegram user id''
            else if key = ascii ''hash'' then
              check_that (parse_i64 v \<noteq> None) key v ''a signed Telegram access hash''
            else if key = ascii ''glock_until'' then
              check_that (is_some_and (\<lambda>u. 0 < u) (parse_i64 v)) key v ''a positive Unix deadline''
            else if key = ascii ''night_state'' then
              check_that (one_of [''on'', ''off'', ''pending_on'', ''pending_off''] v) key v
                ''on, off, pending_on, or pending_off''
            else if key = ascii ''night'' then
              check_that (night_setting_ok v) key v ''two distinct minutes as FROM|TO''
            else Inr ()))"

definition validated_setting_keys :: "string list" where
  "validated_setting_keys =
     [''left_day'', ''checked_day'', ''pruned_day'', ''strict_limit'', ''strict_time'', ''strict_action'',
      ''captcha_timeout'', ''captcha_choices'', ''captcha_action'', ''warn_limit'', ''warn_action'',
      ''add_required'', ''gate_every'', ''gate_ttl'', ''pin_kept'', ''owner'', ''hash'', ''night'',
      ''night_state'', ''glock_until'', ''report_at'', ''report_day'', ''auto_purge_at'',
      ''auto_purge_count'', ''auto_purge_day'', ''cln_checked_slot'', ''raid_limit'', ''raid_window'',
      ''raid_time'', ''flood_limit'', ''flood_window'', ''cq_lim'', ''tmed_min'', ''trade_lim'']"

section \<open>Reading a chat's settings\<close>

text \<open>\<open>ChatSettings\<close>: the rows of a chat, if it has any.\<close>

type_synonym chat_settings = "chat_rows option"

definition setting_text :: "chat_settings \<Rightarrow> utext \<Rightarrow> utext option" where
  "setting_text cs key = Option.bind cs (\<lambda>rows. chat_rows_get rows key)"

definition setting_is_locked :: "chat_settings \<Rightarrow> utext \<Rightarrow> bool" where
  "setting_is_locked cs key \<longleftrightarrow> is_some_and (\<lambda>v. v = []) (setting_text cs key)"

definition setting_value :: "chat_settings \<Rightarrow> utext \<Rightarrow> utext option" where
  "setting_value cs key =
     (case setting_text cs key of None \<Rightarrow> None | Some v \<Rightarrow> if v = [] then None else Some v)"

definition setting_parsed ::
  "(utext \<Rightarrow> 'a option) \<Rightarrow> chat_settings \<Rightarrow> utext \<Rightarrow> corrupt_setting + 'a option" where
  "setting_parsed parse cs key =
     (case setting_text cs key of
        None \<Rightarrow> Inr None
      | Some v \<Rightarrow>
          if v = [] then corrupt key v (Phrase ''a non-empty typed value'')
          else (case parse v of
                  None \<Rightarrow> corrupt key v (Phrase ''a value of the requested type'')
                | Some x \<Rightarrow> Inr (Some x)))"

definition setting_number_checked ::
  "chat_settings \<Rightarrow> utext \<Rightarrow> int \<Rightarrow> int \<times> int \<Rightarrow> corrupt_setting + int" where
  "setting_number_checked cs key dflt bounds =
     (case setting_parsed parse_u32 cs key of
        Inl e \<Rightarrow> Inl e
      | Inr None \<Rightarrow> Inr dflt
      | Inr (Some n) \<Rightarrow>
          if fst bounds \<le> n \<and> n \<le> snd bounds then Inr n
          else corrupt key (case setting_text cs key of None \<Rightarrow> [] | Some v \<Rightarrow> v)
                 (IntegerIn (fst bounds) (snd bounds)))"

text \<open>The getters that assert and expect: \<open>None\<close> is a panic.\<close>

definition setting_number :: "chat_settings \<Rightarrow> utext \<Rightarrow> int \<Rightarrow> int \<times> int \<Rightarrow> int option" where
  "setting_number cs key dflt bounds =
     (if \<not> one_of validated_setting_keys key then None
      else (case setting_number_checked cs key dflt bounds of Inl e \<Rightarrow> None | Inr n \<Rightarrow> Some n))"

definition setting_value_parsed ::
  "(utext \<Rightarrow> 'a option) \<Rightarrow> chat_settings \<Rightarrow> utext \<Rightarrow> 'a option option" where
  "setting_value_parsed parse cs key =
     (if \<not> one_of validated_setting_keys key then None
      else (case setting_parsed parse cs key of Inl e \<Rightarrow> None | Inr x \<Rightarrow> Some x))"

text \<open>The places that call \<open>number\<close>: key, default and range.\<close>

definition flood_limit_call :: "string \<times> int \<times> int \<times> int" where
  "flood_limit_call = (''flood_limit'', 8, 2, 50)"

definition flood_window_call :: "string \<times> int \<times> int \<times> int" where
  "flood_window_call = (''flood_window'', 10, 2, 120)"

definition concept_limit_call :: "string \<times> int \<times> int \<times> int" where
  "concept_limit_call = (''cq_lim'', 20, 5, 60)"

definition media_minutes_call :: "string \<times> int \<times> int \<times> int" where
  "media_minutes_call = (''tmed_min'', 20, 1, 1440)"

definition trade_limit_call :: "string \<times> int \<times> int \<times> int" where
  "trade_limit_call = (''trade_lim'', 30, 30, 60)"

definition number_calls :: "(string \<times> int \<times> int \<times> int) list" where
  "number_calls =
     [flood_limit_call, flood_window_call, concept_limit_call, media_minutes_call, trade_limit_call]"

text \<open>The keys read by \<open>value_parsed\<close>, by the type they are read at.\<close>

definition parsed_u32_keys :: "string list" where
  "parsed_u32_keys =
     [''report_at'', ''auto_purge_at'', ''auto_purge_count'', ''gate_every'', ''gate_ttl'', ''captcha_choices'',
      ''captcha_timeout'', ''raid_limit'', ''raid_window'', ''raid_time'', ''warn_limit'', ''strict_limit'',
      ''strict_time'']"

definition parsed_u64_keys :: "string list" where
  "parsed_u64_keys = [''add_required'', ''report_day'', ''auto_purge_day'', ''pruned_day'', ''cln_checked_slot'']"

definition parsed_i64_keys :: "string list" where
  "parsed_i64_keys = [''hash'', ''owner'']"

definition parsed_i32_keys :: "string list" where
  "parsed_i32_keys = [''pin_kept'']"

section \<open>Checked values are typed values\<close>

definition checked_settings :: "(utext \<Rightarrow> utext option) \<Rightarrow> bool" where
  "checked_settings f \<longleftrightarrow> (\<forall>k v. f k = Some v \<longrightarrow> validate_persisted_setting k v = Inr ())"

lemma checked_settingsD: "checked_settings f \<Longrightarrow> f k = Some v \<Longrightarrow> validate_persisted_setting k v = Inr ()"
  by (simp add: checked_settings_def)

lemma one_of_ascii [simp]: "one_of names (ascii n) \<longleftrightarrow> n \<in> set names"
  by (auto simp: one_of_def list_ex_iff)

text \<open>Facts on the tables of keys, by evaluation.\<close>

lemma bounded_settings_table:
  "list_all (\<lambda>(n, lo, hi). find (\<lambda>(m, _). m = n) bounded_settings = Some (n, lo, hi)
     \<and> \<not> prefix ''response:'' n \<and> hi \<le> u32_max) bounded_settings"
  by code_simp

lemma number_calls_table:
  "list_all (\<lambda>(n, d, lo, hi). (n, lo, hi) \<in> set bounded_settings \<and> n \<in> set validated_setting_keys
     \<and> lo \<le> d \<and> d \<le> hi) number_calls"
  by code_simp

lemma parsed_u32_table:
  "list_all (\<lambda>n. n \<in> set (map fst bounded_settings) \<and> n \<in> set validated_setting_keys) parsed_u32_keys"
  by code_simp

lemma parsed_keys_table:
  "list_all (\<lambda>n. n \<in> set validated_setting_keys \<and> \<not> prefix ''response:'' n
     \<and> (n = ''add_required'' \<or> find (\<lambda>(m, _). m = n) bounded_settings = None))
   (parsed_u64_keys @ parsed_i64_keys @ parsed_i32_keys)"
  by code_simp

lemma bounded_setting_value:
  assumes "(n, lo, hi) \<in> set bounded_settings" and "validate_persisted_setting (ascii n) v = Inr ()"
  shows "\<exists>x. parse_u64 v = Some x \<and> lo \<le> x \<and> x \<le> hi"
proof -
  have "find (\<lambda>(m, _). m = n) bounded_settings = Some (n, lo, hi)" "\<not> prefix ''response:'' n"
    using bspec [OF bounded_settings_table [unfolded list_all_iff] assms(1)] by simp_all
  then have "validate_persisted_setting (ascii n) v = parse_bounded_setting (ascii n) v lo hi"
    by (simp add: validate_persisted_setting_def)
  with assms(2) show ?thesis by (auto simp: parse_bounded_setting_def split: option.splits if_splits)
qed

lemma bounded_setting_u32:
  assumes "(n, lo, hi) \<in> set bounded_settings" and "validate_persisted_setting (ascii n) v = Inr ()"
  shows "\<exists>x. parse_u32 v = Some x \<and> lo \<le> x \<and> x \<le> hi"
proof -
  have "hi \<le> u32_max" using bspec [OF bounded_settings_table [unfolded list_all_iff] assms(1)] by simp
  moreover obtain x where "parse_u64 v = Some x" "lo \<le> x" "x \<le> hi"
    using bounded_setting_value [OF assms] by blast
  ultimately show ?thesis using parse_unsigned_narrow [of _ v x u32_max] by auto
qed

lemma typed_setting_value:
  assumes "validate_persisted_setting (ascii n) v = Inr ()"
  shows "n \<in> set parsed_u64_keys \<Longrightarrow> parse_u64 v \<noteq> None"
    and "n \<in> set parsed_i64_keys \<Longrightarrow> parse_i64 v \<noteq> None"
    and "n \<in> set parsed_i32_keys \<Longrightarrow> parse_i32 v \<noteq> None"
proof -
  have table: "n = ''add_required'' \<or> find (\<lambda>(m, _). m = n) bounded_settings = None" "\<not> prefix ''response:'' n"
    if "n \<in> set (parsed_u64_keys @ parsed_i64_keys @ parsed_i32_keys)"
    using bspec [OF parsed_keys_table [unfolded list_all_iff] that] by simp_all
  show "parse_u64 v \<noteq> None" if n: "n \<in> set parsed_u64_keys"
  proof (cases "n = ''add_required''")
    case True
    with assms bounded_setting_value [of n 0 1000 v] show ?thesis by (auto simp: bounded_settings_def)
  next
    case False
    with table n have "find (\<lambda>(m, _). m = n) bounded_settings = None" "\<not> prefix ''response:'' n" by simp_all
    with False assms n show ?thesis
      by (auto simp: validate_persisted_setting_def parsed_u64_keys_def)
  qed
  show "parse_i64 v \<noteq> None" if n: "n \<in> set parsed_i64_keys"
    using table n assms by (auto simp: validate_persisted_setting_def parsed_i64_keys_def is_some_and_iff)
  show "parse_i32 v \<noteq> None" if n: "n \<in> set parsed_i32_keys"
    using table n assms by (auto simp: validate_persisted_setting_def parsed_i32_keys_def is_some_and_iff)
qed

text \<open>The getters on rows that were checked.\<close>

lemma setting_parsed_checked:
  assumes "\<And>v. setting_text cs key = Some v \<Longrightarrow> \<exists>x. parse v = Some x \<and> P x" and "parse [] = None"
  shows "\<exists>x. setting_parsed parse cs key = Inr x \<and> (\<forall>y. x = Some y \<longrightarrow> P y) \<and> (x = None \<longleftrightarrow> setting_text cs key = None)"
proof (cases "setting_text cs key")
  case (Some v)
  with assms(1) obtain x where "parse v = Some x" "P x" by blast
  moreover have "v \<noteq> []" using \<open>parse v = Some x\<close> assms(2) by auto
  ultimately show ?thesis using Some by (simp add: setting_parsed_def)
qed (simp add: setting_parsed_def)

lemma setting_value_parsed_checked:
  assumes "one_of validated_setting_keys key"
    and "\<And>v. setting_text cs key = Some v \<Longrightarrow> parse v \<noteq> None" and "parse [] = None"
  shows "setting_value_parsed parse cs key \<noteq> None"
proof -
  have "\<exists>x. setting_parsed parse cs key = Inr x \<and> (\<forall>y. x = Some y \<longrightarrow> True) \<and> (x = None \<longleftrightarrow> setting_text cs key = None)"
    by (rule setting_parsed_checked) (use assms(2,3) in auto)
  then show ?thesis using assms(1) by (auto simp: setting_value_parsed_def)
qed

lemma number_calls_bounded:
  "(n, d, lo, hi) \<in> set number_calls \<Longrightarrow>
   (n, lo, hi) \<in> set bounded_settings \<and> one_of validated_setting_keys (ascii n) \<and> lo \<le> d \<and> d \<le> hi"
  using bspec [OF number_calls_table [unfolded list_all_iff], of "(n, d, lo, hi)"] by simp

lemma setting_number_checked_ok:
  assumes "checked_settings (setting_text cs)" and "(n, d, lo, hi) \<in> set number_calls"
  shows "\<exists>x. setting_number cs (ascii n) d (lo, hi) = Some x \<and> lo \<le> x \<and> x \<le> hi"
proof -
  note b = number_calls_bounded [OF assms(2)]
  have "\<exists>x. setting_parsed parse_u32 cs (ascii n) = Inr x \<and> (\<forall>y. x = Some y \<longrightarrow> lo \<le> y \<and> y \<le> hi)
      \<and> (x = None \<longleftrightarrow> setting_text cs (ascii n) = None)"
    by (rule setting_parsed_checked) (use b assms(1) bounded_setting_u32 checked_settingsD in blast, simp)
  then obtain x where "setting_parsed parse_u32 cs (ascii n) = Inr x" "\<forall>y. x = Some y \<longrightarrow> lo \<le> y \<and> y \<le> hi" by blast
  with b show ?thesis
    by (cases x) (auto simp: setting_number_def setting_number_checked_def)
qed

lemma setting_parsed_keys_ok:
  assumes "checked_settings (setting_text cs)"
  shows "n \<in> set parsed_u32_keys \<Longrightarrow> setting_value_parsed parse_u32 cs (ascii n) \<noteq> None"
    and "n \<in> set parsed_u64_keys \<Longrightarrow> setting_value_parsed parse_u64 cs (ascii n) \<noteq> None"
    and "n \<in> set parsed_i64_keys \<Longrightarrow> setting_value_parsed parse_i64 cs (ascii n) \<noteq> None"
    and "n \<in> set parsed_i32_keys \<Longrightarrow> setting_value_parsed parse_i32 cs (ascii n) \<noteq> None"
proof -
  have keys: "one_of validated_setting_keys (ascii n)"
    if "n \<in> set parsed_u32_keys \<union> set parsed_u64_keys \<union> set parsed_i64_keys \<union> set parsed_i32_keys"
    using that parsed_u32_table parsed_keys_table unfolding list_all_iff by auto
  note checked = checked_settingsD [OF assms, of "ascii n"]
  show "setting_value_parsed parse_u32 cs (ascii n) \<noteq> None" if n: "n \<in> set parsed_u32_keys"
  proof (rule setting_value_parsed_checked)
    have "\<exists>lo hi. (n, lo, hi) \<in> set bounded_settings"
      using bspec [OF parsed_u32_table [unfolded list_all_iff] n] by force
    then show "parse_u32 v \<noteq> None" if "setting_text cs (ascii n) = Some v" for v
      using bounded_setting_u32 checked [OF that] by fastforce
  qed (use n keys in auto)
  show "setting_value_parsed parse_u64 cs (ascii n) \<noteq> None" if "n \<in> set parsed_u64_keys"
    by (rule setting_value_parsed_checked) (use that keys typed_setting_value(1) [OF checked] in auto)
  show "setting_value_parsed parse_i64 cs (ascii n) \<noteq> None" if "n \<in> set parsed_i64_keys"
    by (rule setting_value_parsed_checked) (use that keys typed_setting_value(2) [OF checked] in auto)
  show "setting_value_parsed parse_i32 cs (ascii n) \<noteq> None" if "n \<in> set parsed_i32_keys"
    by (rule setting_value_parsed_checked) (use that keys typed_setting_value(3) [OF checked] in auto)
qed

end
