(* ===== verification/SettingsStore.thy ===== *)
theory SettingsStore
  imports SettingsCheck Tables DefaultRights
begin

text \<open>
  The settings of all chats in \<open>src/src/state.rs\<close>: the tables \<open>settings\<close> and \<open>durable_chats\<close>, their
  mirror in memory with its index, counters and budgets, and the operations that change both:
  \<open>try_apply_batch\<close>, \<open>set_flags\<close>, the settings part of \<open>forget_chat\<close> and the loading at start. An
  operation holds the chat's write slot and the capacity lock throughout, so it is one step. A
  connection may fail a statement, which rolls the transaction back, or fail the commit, and then
  the program cannot know whether the database has the change.
\<close>

section \<open>State\<close>

record settings_row =
  st_chat :: chat_id
  st_key :: utext
  st_text :: utext

definition settings_key :: "settings_row \<Rightarrow> chat_id \<times> utext" where
  "settings_key r = (st_chat r, st_key r)"

type_synonym chat_index = "utext list list"

record settings_store =
  settings_table :: "settings_row table"
  durable_table :: "(chat_id \<times> int) list"
  cache :: "chat_id \<Rightarrow> chat_rows option"
  chat_index :: "chat_id \<Rightarrow> chat_index option"
  durable_mirror :: "(chat_id \<times> int) list"
  setting_rows :: nat
  setting_bytes :: nat
  gate_open :: bool
  chat_limit :: "nat option"
  row_limit :: "nat option"
  byte_limit :: "nat option"

datatype settings_error =
  UncertainState | KeyTooLarge | ValueTooLarge | DuplicateKey | InvalidValue corrupt_setting
| CapacityReached string | DatabaseError string | CommitUncertain

definition commit_outcome_unknown :: "settings_error \<Rightarrow> bool" where
  "commit_outcome_unknown e \<longleftrightarrow> e = CommitUncertain"

text \<open>What the connection does to a transaction; a commit of unknown outcome may have happened.\<close>

datatype connection = Commits | FailsStatement string | LosesCommit bool

datatype setting_mutation = Put utext utext | PutIfEmpty utext utext utext | Delete utext

fun mutation_key :: "setting_mutation \<Rightarrow> utext" where
  "mutation_key (Put k v) = k"
| "mutation_key (PutIfEmpty k v c) = k"
| "mutation_key (Delete k) = k"

definition max_settings_rows_per_chat :: nat where
  "max_settings_rows_per_chat = 512"

definition max_setting_key_bytes :: nat where
  "max_setting_key_bytes = 512"

definition max_setting_value_bytes :: nat where
  "max_setting_value_bytes = 16 * 1024"

definition setting_size :: "utext \<Rightarrow> utext \<Rightarrow> nat" where
  "setting_size k v = saturating_usize_add (utf8_len k) (utf8_len v)"

definition chat_settings_of :: "settings_store \<Rightarrow> chat_id \<Rightarrow> chat_settings" where
  "chat_settings_of s c = cache s c"

definition chat_known :: "settings_store \<Rightarrow> chat_id \<Rightarrow> bool" where
  "chat_known s c \<longleftrightarrow> c = 0 \<or> map_of (durable_mirror s) c \<noteq> None"

definition known_chats :: "settings_store \<Rightarrow> nat" where
  "known_chats s = length (durable_mirror s)"

definition mirror_chat :: "chat_id \<Rightarrow> (chat_id \<times> int) list \<Rightarrow> (chat_id \<times> int) list \<Rightarrow> (chat_id \<times> int) list" where
  "mirror_chat c t m = (case map_of t c of None \<Rightarrow> m | Some h \<Rightarrow> AList.update c h m)"

section \<open>The index of prefixed keys\<close>

definition indexed_prefixes :: "string list" where
  "indexed_prefixes = [''filter:'', ''pack:'', ''answer:'', ''strict:'', ''imgf:'', ''cmd:'']"

fun indexed_slot_from :: "nat \<Rightarrow> string list \<Rightarrow> utext \<Rightarrow> (nat \<times> utext) option" where
  "indexed_slot_from n [] key = None"
| "indexed_slot_from n (p # ps) key =
     (case str_strip_prefix (ascii p) key of
        Some rest \<Rightarrow> Some (n, rest)
      | None \<Rightarrow> indexed_slot_from (Suc n) ps key)"

definition indexed_slot :: "utext \<Rightarrow> (nat \<times> utext) option" where
  "indexed_slot = indexed_slot_from 0 indexed_prefixes"

definition blank_index :: chat_index where
  "blank_index = replicate (length indexed_prefixes) []"

fun position :: "utext \<Rightarrow> utext list \<Rightarrow> nat option" where
  "position x [] = None"
| "position x (y # ys) = (if x = y then Some 0 else map_option Suc (position x ys))"

definition swap_remove :: "nat \<Rightarrow> utext list \<Rightarrow> utext list" where
  "swap_remove at l = (if Suc at = length l then butlast l else (butlast l)[at := last l])"

definition reindex_entry :: "nat \<Rightarrow> utext \<Rightarrow> bool \<Rightarrow> chat_index \<Rightarrow> chat_index" where
  "reindex_entry slot rest present entry =
     (case (present, position rest (entry ! slot)) of
        (True, None) \<Rightarrow> entry[slot := entry ! slot @ [rest]]
      | (False, Some at) \<Rightarrow> entry[slot := swap_remove at (entry ! slot)]
      | _ \<Rightarrow> entry)"

definition reindex ::
  "chat_id \<Rightarrow> utext \<Rightarrow> bool \<Rightarrow> (chat_id \<Rightarrow> chat_index option) \<Rightarrow> chat_id \<Rightarrow> chat_index option" where
  "reindex c key present idx =
     (case indexed_slot key of
        None \<Rightarrow> idx
      | Some (slot, rest) \<Rightarrow>
          (let entry = reindex_entry slot rest present (case idx c of None \<Rightarrow> blank_index | Some e \<Rightarrow> e)
           in if list_all (\<lambda>l. l = []) entry then idx(c := None) else idx(c := Some entry)))"

definition indexed_empty :: "settings_store \<Rightarrow> chat_id \<Rightarrow> utext \<Rightarrow> bool" where
  "indexed_empty s c pre =
     (case indexed_slot pre of
        None \<Rightarrow> True
      | Some (slot, _) \<Rightarrow> (case chat_index s c of None \<Rightarrow> True | Some e \<Rightarrow> e ! slot = []))"

definition indexed_any :: "settings_store \<Rightarrow> chat_id \<Rightarrow> utext \<Rightarrow> (utext \<Rightarrow> bool) \<Rightarrow> bool" where
  "indexed_any s c pre P =
     (case indexed_slot pre of
        None \<Rightarrow> False
      | Some (slot, _) \<Rightarrow> (case chat_index s c of None \<Rightarrow> False | Some e \<Rightarrow> list_ex P (e ! slot)))"

text \<open>The flags and the values of a chat under a prefix, without the prefix.\<close>

definition flags_with_prefix :: "settings_store \<Rightarrow> chat_id \<Rightarrow> utext \<Rightarrow> utext list" where
  "flags_with_prefix s c pre =
     (case cache s c of
        None \<Rightarrow> []
      | Some rows \<Rightarrow> sort (List.map_filter (\<lambda>(k, v). if v = [] then str_strip_prefix pre k else None) rows))"

definition values_with_prefix :: "settings_store \<Rightarrow> chat_id \<Rightarrow> utext \<Rightarrow> (utext \<times> utext) list" where
  "values_with_prefix s c pre =
     (case cache s c of
        None \<Rightarrow> []
      | Some rows \<Rightarrow>
          List.map_filter (\<lambda>(k, v). if v \<noteq> [] then map_option (\<lambda>rest. (rest, v)) (str_strip_prefix pre k) else None) rows)"

section \<open>A batch of mutations\<close>

definition check_value :: "utext \<Rightarrow> utext \<Rightarrow> settings_error + unit" where
  "check_value key v =
     (if max_setting_value_bytes < utf8_len v then Inl ValueTooLarge
      else map_sum InvalidValue id (validate_persisted_setting key v))"

definition check_mutation :: "setting_mutation \<Rightarrow> settings_error + unit" where
  "check_mutation m =
     (if max_setting_key_bytes < utf8_len (mutation_key m) then Inl KeyTooLarge
      else
        (case m of
           Put key v \<Rightarrow> check_value key v
         | PutIfEmpty key v condition \<Rightarrow>
             (case check_value key v of
                Inl e \<Rightarrow> Inl e
              | Inr _ \<Rightarrow> if max_setting_key_bytes < utf8_len condition then Inl KeyTooLarge else Inr ())
         | Delete key \<Rightarrow> Inr ()))"

fun check_mutations :: "utext list \<Rightarrow> setting_mutation list \<Rightarrow> settings_error + unit" where
  "check_mutations seen [] = Inr ()"
| "check_mutations seen (m # ms) =
     (case check_mutation m of
        Inl e \<Rightarrow> Inl e
      | Inr _ \<Rightarrow> if mutation_key m \<in> set seen then Inl DuplicateKey
                 else check_mutations (mutation_key m # seen) ms)"

fun mutation_next :: "chat_settings \<Rightarrow> setting_mutation \<Rightarrow> utext option" where
  "mutation_next cs (Put k v) = Some v"
| "mutation_next cs (PutIfEmpty k v c) =
     (if (case setting_text cs c of None \<Rightarrow> True | Some x \<Rightarrow> x = []) then Some v else setting_text cs k)"
| "mutation_next cs (Delete k) = None"

definition mutation_changes :: "chat_settings \<Rightarrow> setting_mutation list \<Rightarrow> (utext, utext) change list" where
  "mutation_changes cs ms =
     map (\<lambda>m. (mutation_key m, mutation_next cs m))
       (filter (\<lambda>m. setting_text cs (mutation_key m) \<noteq> mutation_next cs m) ms)"

text \<open>Rows and bytes that go, and rows and bytes that come, as the loop adds them up.\<close>

record change_counts =
  removed_rows :: nat
  added_rows :: nat
  removed_bytes :: nat
  added_bytes :: nat

definition count_change :: "chat_settings \<Rightarrow> (utext, utext) change \<Rightarrow> change_counts \<Rightarrow> change_counts" where
  "count_change cs ch n =
     (let gone = setting_text cs (fst ch);
          n1 = (case gone of None \<Rightarrow> n
                | Some v \<Rightarrow> n\<lparr>removed_rows := saturating_usize_add (removed_rows n) 1,
                              removed_bytes := saturating_usize_add (removed_bytes n) (setting_size (fst ch) v)\<rparr>)
      in case snd ch of None \<Rightarrow> n1
         | Some v \<Rightarrow> n1\<lparr>added_rows := saturating_usize_add (added_rows n1) 1,
                        added_bytes := saturating_usize_add (added_bytes n1) (setting_size (fst ch) v)\<rparr>)"

definition no_counts :: change_counts where
  "no_counts = \<lparr>removed_rows = 0, added_rows = 0, removed_bytes = 0, added_bytes = 0\<rparr>"

definition count_changes :: "chat_settings \<Rightarrow> (utext, utext) change list \<Rightarrow> change_counts" where
  "count_changes cs chs = fold (count_change cs) chs no_counts"

record batch_plan =
  plan_changes :: "(utext, utext) change list"
  plan_old_rows :: nat
  plan_new_rows :: nat
  plan_old_bytes :: nat
  plan_new_bytes :: nat
  plan_hash :: "utext option"

definition over :: "nat \<Rightarrow> nat option \<Rightarrow> bool" where
  "over n limit \<longleftrightarrow> is_some_and (\<lambda>m. m < n) limit"

definition plan_batch ::
  "chat_id \<Rightarrow> setting_mutation list \<Rightarrow> settings_store \<Rightarrow> settings_error + batch_plan option" where
  "plan_batch c ms s =
     (let current = cache s c; chs = mutation_changes current ms
      in if chs = [] then Inr None
         else
           (let old_rows = (case current of None \<Rightarrow> 0 | Some rows \<Rightarrow> length rows);
                n = count_changes current chs;
                new_rows = saturating_usize_add (old_rows - removed_rows n) (added_rows n);
                global_rows = saturating_usize_add (setting_rows s - removed_rows n) (added_rows n);
                new_bytes = saturating_usize_add (setting_bytes s - removed_bytes n) (added_bytes n)
            in if max_settings_rows_per_chat < new_rows \<or> over global_rows (row_limit s)
               then Inl (CapacityReached ''row'')
               else if over new_bytes (byte_limit s) then Inl (CapacityReached ''byte'')
               else if \<not> chat_known s c \<and> 0 < new_rows \<and> is_some_and (\<lambda>m. m \<le> known_chats s) (chat_limit s)
               then Inl (CapacityReached ''chat'')
               else Inr (Some
                 \<lparr>plan_changes = chs, plan_old_rows = old_rows, plan_new_rows = new_rows,
                  plan_old_bytes = setting_bytes s, plan_new_bytes = new_bytes,
                  plan_hash = (case map_of chs (ascii ''hash'') of
                                 Some nxt \<Rightarrow> nxt
                               | None \<Rightarrow> setting_text current (ascii ''hash''))\<rparr>)))"

text \<open>The statements of the transaction. \<open>COALESCE($2::BIGINT, 0)\<close>: the cast of a bad text fails.\<close>

definition hash_column :: "utext option \<Rightarrow> string + int" where
  "hash_column h =
     (case h of
        None \<Rightarrow> Inr 0
      | Some t \<Rightarrow> (case parse_i64 t of None \<Rightarrow> Inl ''invalid input syntax for type bigint'' | Some n \<Rightarrow> Inr n))"

definition admit_durable :: "chat_id \<Rightarrow> int \<Rightarrow> (chat_id \<times> int) list \<Rightarrow> (chat_id \<times> int) list" where
  "admit_durable c excluded t =
     AList.update c (case map_of t c of None \<Rightarrow> excluded | Some h \<Rightarrow> if excluded \<noteq> 0 then excluded else h) t"

definition put_settings :: "chat_id \<Rightarrow> (utext \<times> utext) list \<Rightarrow> settings_row table \<Rightarrow> settings_row table" where
  "put_settings c puts =
     upsert_all settings_key (\<lambda>(k, v). (c, k)) (\<lambda>(k, v). \<lparr>st_chat = c, st_key = k, st_text = v\<rparr>)
       (\<lambda>(k, v) r. r\<lparr>st_text := v\<rparr>) puts"

definition put_changes :: "(utext, utext) change list \<Rightarrow> (utext \<times> utext) list" where
  "put_changes chs = List.map_filter (\<lambda>(k, v). map_option (Pair k) v) chs"

definition deleted_keys :: "(utext, utext) change list \<Rightarrow> utext list" where
  "deleted_keys chs = map fst (filter (\<lambda>(k, v). v = None) chs)"

definition write_settings ::
  "chat_id \<Rightarrow> (utext, utext) change list \<Rightarrow> settings_row table \<Rightarrow> settings_row table" where
  "write_settings c chs t =
     sql_delete (\<lambda>r. st_chat r = c \<and> st_key r \<in> set (deleted_keys chs)) (put_settings c (put_changes chs) t)"

definition write_batch :: "chat_id \<Rightarrow> batch_plan \<Rightarrow> settings_store \<Rightarrow> string + settings_store" where
  "write_batch c p s =
     (if c = 0 then Inr (s\<lparr>settings_table := write_settings c (plan_changes p) (settings_table s)\<rparr>)
      else
        (case hash_column (plan_hash p) of
           Inl e \<Rightarrow> Inl e
         | Inr h \<Rightarrow>
             if \<not> durable_chat_id c then Inl ''check constraint''
             else Inr (s\<lparr>durable_table := admit_durable c h (durable_table s),
                         settings_table := write_settings c (plan_changes p) (settings_table s)\<rparr>)))"

text \<open>The mirror after the commit.\<close>

definition cache_change ::
  "chat_id \<Rightarrow> (utext, utext) change \<Rightarrow> (chat_id \<Rightarrow> chat_rows option) \<Rightarrow> chat_id \<Rightarrow> chat_rows option" where
  "cache_change c ch m =
     (case snd ch of
        Some v \<Rightarrow> m(c := Some (fst (chat_rows_insert (fst ch) v (case m c of None \<Rightarrow> [] | Some rows \<Rightarrow> rows))))
      | None \<Rightarrow> (case m c of None \<Rightarrow> m | Some rows \<Rightarrow> m(c := Some (fst (chat_rows_remove (fst ch) rows)))))"

definition cache_changes ::
  "chat_id \<Rightarrow> (utext, utext) change list \<Rightarrow> (chat_id \<Rightarrow> chat_rows option) \<Rightarrow> chat_id \<Rightarrow> chat_rows option" where
  "cache_changes c chs m =
     (let m' = fold (cache_change c) chs m
      in if c \<noteq> 0 \<and> m' c = Some [] then m'(c := None) else m')"

definition adjust :: "nat \<Rightarrow> nat \<Rightarrow> nat \<Rightarrow> nat" where
  "adjust old new held =
     (if old \<le> new then wrapping_usize_add held (new - old) else wrapping_usize_sub held (old - new))"

definition reindex_changes ::
  "chat_id \<Rightarrow> (utext, utext) change list \<Rightarrow> (chat_id \<Rightarrow> chat_index option) \<Rightarrow> chat_id \<Rightarrow> chat_index option" where
  "reindex_changes c chs idx = fold (\<lambda>(k, v). reindex c k (v \<noteq> None)) chs idx"

definition mirror_batch :: "chat_id \<Rightarrow> batch_plan \<Rightarrow> settings_store \<Rightarrow> settings_store" where
  "mirror_batch c p s =
     s\<lparr>cache := cache_changes c (plan_changes p) (cache s),
       setting_rows := adjust (plan_old_rows p) (plan_new_rows p) (setting_rows s),
       setting_bytes := adjust (plan_old_bytes p) (plan_new_bytes p) (setting_bytes s),
       chat_index := reindex_changes c (plan_changes p) (chat_index s),
       durable_mirror := (if c = 0 then durable_mirror s
                          else mirror_chat c (durable_table s) (durable_mirror s))\<rparr>"

text \<open>\<open>MirrorCommitGuard\<close>: a commit that does not return in order closes the gate.\<close>

definition commit_transaction ::
  "connection \<Rightarrow> settings_store \<Rightarrow> string + settings_store \<Rightarrow> (settings_store \<Rightarrow> settings_store \<times> 'a) \<Rightarrow>
     settings_store \<times> (settings_error + 'a)" where
  "commit_transaction conn s written mirror =
     (case written of
        Inl e \<Rightarrow> (s, Inl (DatabaseError e))
      | Inr t \<Rightarrow>
          (case conn of
             FailsStatement e \<Rightarrow> (s, Inl (DatabaseError e))
           | LosesCommit happened \<Rightarrow> ((if happened then t else s)\<lparr>gate_open := False\<rparr>, Inl CommitUncertain)
           | Commits \<Rightarrow> (case mirror t of (u, x) \<Rightarrow> (u, Inr x))))"

definition try_apply_batch ::
  "connection \<Rightarrow> chat_id \<Rightarrow> setting_mutation list \<Rightarrow> settings_store \<Rightarrow> settings_store \<times> (settings_error + nat)" where
  "try_apply_batch conn c ms s =
     (if \<not> gate_open s then (s, Inl UncertainState)
      else if ms = [] then (s, Inr 0)
      else
        (case check_mutations [] ms of
           Inl e \<Rightarrow> (s, Inl e)
         | Inr _ \<Rightarrow>
             (case plan_batch c ms s of
                Inl e \<Rightarrow> (s, Inl e)
              | Inr None \<Rightarrow> (s, Inr 0)
              | Inr (Some p) \<Rightarrow>
                  commit_transaction conn s (write_batch c p s)
                    (\<lambda>t. (mirror_batch c p t, length (plan_changes p))))))"

definition try_set ::
  "connection \<Rightarrow> chat_id \<Rightarrow> utext \<Rightarrow> bool \<Rightarrow> settings_store \<Rightarrow> settings_store \<times> (settings_error + bool)" where
  "try_set conn c lock on s =
     map_prod id (map_sum id (\<lambda>n. n \<noteq> 0)) (try_apply_batch conn c [if on then Put lock [] else Delete lock] s)"

definition try_set_value ::
  "connection \<Rightarrow> chat_id \<Rightarrow> utext \<Rightarrow> utext \<Rightarrow> settings_store \<Rightarrow> settings_store \<times> (settings_error + bool)" where
  "try_set_value conn c key v s =
     map_prod id (map_sum id (\<lambda>n. n \<noteq> 0)) (try_apply_batch conn c [Put key v] s)"

section \<open>One flag for many chats\<close>

text \<open>\<open>sort_unstable\<close> and \<open>dedup\<close>.\<close>

definition sorted_ids :: "chat_id list \<Rightarrow> chat_id list" where
  "sorted_ids chats = remdups_adj (sort chats)"

record flag_projection =
  proj_rows :: nat
  proj_bytes :: nat
  proj_chats :: nat
  flag_changes :: "chat_id list"

text \<open>The loop for setting the flag: the chats to change, or the budget that is used up.\<close>

fun flag_plan :: "settings_store \<Rightarrow> utext \<Rightarrow> chat_id list \<Rightarrow> flag_projection \<Rightarrow> settings_error + flag_projection" where
  "flag_plan s key [] p = Inr p"
| "flag_plan s key (c # cs) p =
     (case setting_text (cache s c) key of
        Some v \<Rightarrow> flag_plan s key cs (if v = [] then p else p\<lparr>flag_changes := flag_changes p @ [c]\<rparr>)
      | None \<Rightarrow>
          (let map_len = (case cache s c of None \<Rightarrow> 0 | Some rows \<Rightarrow> length rows);
               chat_is_new = (\<not> chat_known s c);
               bytes = setting_size key []
           in if max_settings_rows_per_chat \<le> map_len \<or> is_some_and (\<lambda>m. m \<le> proj_rows p) (row_limit s)
              then Inl (CapacityReached ''row'')
              else if chat_is_new \<and> is_some_and (\<lambda>m. m \<le> proj_chats p) (chat_limit s)
              then Inl (CapacityReached ''chat'')
              else if over (saturating_usize_add (proj_bytes p) bytes) (byte_limit s)
              then Inl (CapacityReached ''byte'')
              else flag_plan s key cs
                     \<lparr>proj_rows = saturating_usize_add (proj_rows p) 1,
                      proj_bytes = saturating_usize_add (proj_bytes p) bytes,
                      proj_chats = saturating_usize_add (proj_chats p) (if chat_is_new then 1 else 0),
                      flag_changes = flag_changes p @ [c]\<rparr>))"

definition stored_hash :: "settings_row table \<Rightarrow> chat_id \<Rightarrow> utext option" where
  "stored_hash t c = map_option st_text (row_at settings_key t (c, ascii ''hash''))"

text \<open>The statements: every chat asked for is admitted and gets the flag, or loses it.\<close>

fun admit_all :: "settings_row table \<Rightarrow> chat_id list \<Rightarrow> (chat_id \<times> int) list \<Rightarrow> string + (chat_id \<times> int) list" where
  "admit_all t [] d = Inr d"
| "admit_all t (c # cs) d =
     (if c = 0 then admit_all t cs d
      else
        (case hash_column (stored_hash t c) of
           Inl e \<Rightarrow> Inl e
         | Inr h \<Rightarrow>
             if \<not> durable_chat_id c then Inl ''check constraint'' else admit_all t cs (admit_durable c h d)))"

definition write_flags :: "chat_id list \<Rightarrow> utext \<Rightarrow> bool \<Rightarrow> settings_store \<Rightarrow> string + settings_store" where
  "write_flags ids key on s =
     (if on then
        (case admit_all (settings_table s) ids (durable_table s) of
           Inl e \<Rightarrow> Inl e
         | Inr d \<Rightarrow> Inr (s\<lparr>durable_table := d,
                           settings_table := fold (\<lambda>c. put_settings c [(key, [])]) ids (settings_table s)\<rparr>))
      else Inr (s\<lparr>settings_table := sql_delete (\<lambda>r. st_key r = key \<and> st_chat r \<in> set ids) (settings_table s)\<rparr>))"

text \<open>The mirror, chat by chat, and the number of chats that changed.\<close>

definition mirror_flag :: "utext \<Rightarrow> bool \<Rightarrow> chat_id \<Rightarrow> settings_store \<times> nat \<Rightarrow> settings_store \<times> nat" where
  "mirror_flag key on c sn =
     (let (s, n) = sn; rows = (case cache s c of None \<Rightarrow> [] | Some rows \<Rightarrow> rows)
      in if on then
           (let (rows', old) = chat_rows_insert key [] rows;
                old_bytes = (case old of None \<Rightarrow> 0 | Some v \<Rightarrow> setting_size key v)
            in (s\<lparr>cache := (cache s)(c := Some rows'),
                  setting_rows := (if old = None then wrapping_usize_add (setting_rows s) 1 else setting_rows s),
                  setting_bytes := adjust old_bytes (setting_size key []) (setting_bytes s)\<rparr>,
                n + (if old \<noteq> Some [] then 1 else 0)))
         else
           (case chat_rows_remove key rows of
              (rows', None) \<Rightarrow> (s\<lparr>cache := (cache s)(c := Some rows)\<rparr>, n)
            | (rows', Some old) \<Rightarrow>
                (s\<lparr>cache := (if rows' = [] \<and> c \<noteq> 0 then (cache s)(c := None) else (cache s)(c := Some rows')),
                   setting_rows := wrapping_usize_sub (setting_rows s) 1,
                   setting_bytes := wrapping_usize_sub (setting_bytes s) (setting_size key old)\<rparr>,
                 Suc n)))"

definition mirror_flags :: "chat_id list \<Rightarrow> chat_id list \<Rightarrow> utext \<Rightarrow> bool \<Rightarrow> settings_store \<Rightarrow> settings_store \<times> nat" where
  "mirror_flags chs ids key on s =
     (let (t, n) = fold (mirror_flag key on) chs (s, 0)
      in (t\<lparr>chat_index := fold (\<lambda>c. reindex c key on) chs (chat_index t),
            durable_mirror := (if on then fold (\<lambda>c. if c = 0 then id else mirror_chat c (durable_table t)) ids (durable_mirror t)
                               else durable_mirror t)\<rparr>, n))"

definition set_flags ::
  "connection \<Rightarrow> chat_id list \<Rightarrow> utext \<Rightarrow> bool \<Rightarrow> settings_store \<Rightarrow> settings_store \<times> (settings_error + nat)" where
  "set_flags conn chats key on s =
     (if \<not> gate_open s then (s, Inl UncertainState)
      else if max_setting_key_bytes < utf8_len key then (s, Inl KeyTooLarge)
      else
        (case (if on then map_sum InvalidValue id (validate_persisted_setting key []) else Inr ()) of
           Inl e \<Rightarrow> (s, Inl e)
         | Inr _ \<Rightarrow>
             if chats = [] then (s, Inr 0)
             else
               (let ids = sorted_ids chats in
                case (if on
                      then map_sum id flag_changes
                             (flag_plan s key ids
                                \<lparr>proj_rows = setting_rows s, proj_bytes = setting_bytes s,
                                 proj_chats = known_chats s, flag_changes = []\<rparr>)
                      else Inr (filter (\<lambda>c. setting_text (cache s c) key \<noteq> None) ids)) of
                  Inl e \<Rightarrow> (s, Inl e)
                | Inr chs \<Rightarrow>
                    commit_transaction conn s (write_flags ids key on s) (mirror_flags chs ids key on))))"

section \<open>Forgetting a chat, admission by other components\<close>

definition rows_bytes :: "chat_rows \<Rightarrow> nat" where
  "rows_bytes rows = fold (\<lambda>(k, v) n. saturating_usize_add n (setting_size k v)) rows 0"

definition forget_chat_settings ::
  "connection \<Rightarrow> chat_id \<Rightarrow> utext \<Rightarrow> settings_store \<Rightarrow> settings_store \<times> (settings_error + bool)" where
  "forget_chat_settings conn c marker s =
     (if c = 0 then (s, Inr False)
      else if \<not> gate_open s then (s, Inl UncertainState)
      else if \<not> sql_exists (\<lambda>r. settings_key r = (c, marker)) (settings_table s) then (s, Inr False)
      else
        commit_transaction conn s
          (Inr (s\<lparr>settings_table := sql_delete (\<lambda>r. st_chat r = c) (settings_table s),
                  durable_table := AList.delete c (durable_table s)\<rparr>))
          (\<lambda>t. (t\<lparr>cache := (cache t)(c := None),
                  setting_rows := (case cache t c of None \<Rightarrow> setting_rows t
                                   | Some rows \<Rightarrow> setting_rows t - length rows),
                  setting_bytes := (case cache t c of None \<Rightarrow> setting_bytes t
                                    | Some rows \<Rightarrow> setting_bytes t - rows_bytes rows),
                  chat_index := (chat_index t)(c := None),
                  durable_mirror := AList.delete c (durable_mirror t)\<rparr>, True)))"

text \<open>
  A change of default rights admits its chat in the same way, in the transaction of the change: the
  hash in the table counts, unless it is zero.
\<close>

definition admit_by_rights ::
  "connection \<Rightarrow> chat_id \<Rightarrow> settings_store \<Rightarrow> settings_store \<times> (settings_error + unit)" where
  "admit_by_rights conn c s =
     (if \<not> gate_open s then (s, Inl UncertainState)
      else if \<not> chat_known s c \<and> is_some_and (\<lambda>m. m \<le> known_chats s) (chat_limit s)
      then (s, Inl (CapacityReached ''chat''))
      else
        (case hash_column (stored_hash (settings_table s) c) of
           Inl e \<Rightarrow> (s, Inl (DatabaseError e))
         | Inr h \<Rightarrow>
             if \<not> durable_chat_id c then (s, Inl (DatabaseError ''check constraint''))
             else commit_transaction conn s (Inr (s\<lparr>durable_table := admit_durable c h (durable_table s)\<rparr>))
                    (\<lambda>t. (t\<lparr>durable_mirror := mirror_chat c (durable_table t) (durable_mirror t)\<rparr>, ()))))"

section \<open>Loading at start\<close>

text \<open>
  The database sorts texts by its own collation; \<open>collate\<close> is the sort key of a text. The cursor starts below
  every row.
\<close>

definition load_page ::
  "(utext \<Rightarrow> utext) \<Rightarrow> nat \<Rightarrow> int \<times> utext \<Rightarrow> settings_row table \<Rightarrow> settings_row list" where
  "load_page collate page cursor t =
     sql_page (\<lambda>r. cursor < (st_chat r, collate (st_key r))) (\<lambda>r. (st_chat r, collate (st_key r))) page t"

record load_state =
  ld_cache :: "chat_id \<Rightarrow> chat_rows option"
  ld_index :: "chat_id \<Rightarrow> chat_index option"

definition load_row :: "settings_row \<Rightarrow> load_state \<Rightarrow> load_state" where
  "load_row r st =
     st\<lparr>ld_index := (case indexed_slot (st_key r) of
                      None \<Rightarrow> ld_index st
                    | Some (slot, rest) \<Rightarrow>
                        (let e = (case ld_index st (st_chat r) of None \<Rightarrow> blank_index | Some e \<Rightarrow> e)
                         in (ld_index st)(st_chat r := Some (e[slot := e ! slot @ [rest]])))),
        ld_cache := (ld_cache st)(st_chat r :=
                      Some (fst (chat_rows_insert (st_key r) (st_text r)
                        (case ld_cache st (st_chat r) of None \<Rightarrow> [] | Some rows \<Rightarrow> rows))))\<rparr>"

fun load_rows :: "settings_row list \<Rightarrow> load_state \<Rightarrow> corrupt_setting + load_state" where
  "load_rows [] st = Inr st"
| "load_rows (r # rs) st =
     (case validate_persisted_setting (st_key r) (st_text r) of
        Inl e \<Rightarrow> Inl e
      | Inr _ \<Rightarrow> load_rows rs (load_row r st))"

definition load_key :: "(utext \<Rightarrow> utext) \<Rightarrow> settings_row \<Rightarrow> int \<times> utext" where
  "load_key collate r = (st_chat r, collate (st_key r))"

lemma load_page_last:
  assumes "load_page collate page cursor t \<noteq> []"
  shows "last (load_page collate page cursor t) \<in> set t \<and>
    cursor < load_key collate (last (load_page collate page cursor t))"
  using sql_page_set [OF last_in_set [OF assms, unfolded load_page_def]]
  by (simp add: load_page_def load_key_def)

lemma length_filter_less_strict:
  "x \<in> set xs \<Longrightarrow> P x \<Longrightarrow> \<not> Q x \<Longrightarrow> (\<And>y. Q y \<Longrightarrow> P y) \<Longrightarrow> length (filter Q xs) < length (filter P xs)"
proof (induction xs)
  case (Cons y ys)
  have "length (filter Q ys) \<le> length (filter P ys)" using Cons.prems(4) by (induction ys) (auto simp: le_SucI)
  then show ?case using Cons by (auto simp: less_Suc_eq_le)
qed simp

function load_pages ::
  "(utext \<Rightarrow> utext) \<Rightarrow> nat \<Rightarrow> settings_row table \<Rightarrow> int \<times> utext \<Rightarrow> load_state \<Rightarrow> corrupt_setting + load_state" where
  "load_pages collate page t cursor st =
     (let rs = load_page collate page cursor t
      in if rs = [] then Inr st
         else
           (case load_rows rs st of
              Inl e \<Rightarrow> Inl e
            | Inr st' \<Rightarrow> load_pages collate page t (load_key collate (last rs)) st'))"
  by pat_completeness auto

termination load_pages
proof (relation "measure (\<lambda>(collate, page, t, cursor, st). length (filter (\<lambda>r. cursor < load_key collate r) t))",
    goal_cases)
  case (2 collate page t cursor st rs st')
  let ?r = "last rs"
  have r: "?r \<in> set t" "cursor < load_key collate ?r"
    using load_page_last 2(1,2) by blast+
  have "length (filter (\<lambda>r. load_key collate ?r < load_key collate r) t)
      < length (filter (\<lambda>r. cursor < load_key collate r) t)"
    by (rule length_filter_less_strict [OF r(1)]) (use r(2) in auto)
  then show ?case by simp
qed simp

declare load_pages.simps [simp del]

definition load_page_rows :: nat where
  "load_page_rows = 50000"

text \<open>\<open>connect_inner\<close> from the counting of the rows on; the budgets are those of the configuration.\<close>

definition load_settings ::
  "(utext \<Rightarrow> utext) \<Rightarrow> settings_store \<Rightarrow> string + settings_store" where
  "load_settings collate db =
     (let t = settings_table db;
          rows = length t;
          bytes = sum_list (map (\<lambda>r. utf8_len (st_key r) + utf8_len (st_text r)) t)
      in if row_limit db \<noteq> None \<and>
            list_ex (\<lambda>r. max_setting_key_bytes < utf8_len (st_key r) \<or> max_setting_value_bytes < utf8_len (st_text r)) t
         then Inl ''settings key/value above the bounds''
         else if over rows (row_limit db) then Inl ''settings rows above shard limit''
         else if over bytes (byte_limit db) then Inl ''setting bytes above shard limit''
         else if is_some_and (\<lambda>m. 2 ^ 63 \<le> m) (chat_limit db) then Inl ''maximum chat count exceeds bigint''
         else if over (length (durable_table db)) (chat_limit db) then Inl ''configured chats above shard limit''
         else if chat_limit db \<noteq> None \<and>
            list_ex (\<lambda>q. st_chat q \<noteq> 0 \<and> max_settings_rows_per_chat < length (filter (\<lambda>r. st_chat r = st_chat q) t)) t
         then Inl ''chat above per-chat limit''
         else
           (case load_pages collate load_page_rows t (i64_min, collate []) \<lparr>ld_cache = (\<lambda>c. None), ld_index = (\<lambda>c. None)\<rparr> of
              Inl e \<Rightarrow> Inl ''refusing to start with corrupt setting''
            | Inr st \<Rightarrow>
                Inr (db\<lparr>cache := ld_cache st, chat_index := ld_index st, durable_mirror := durable_table db,
                       setting_rows := min rows (usize_limit - 1), setting_bytes := min bytes (usize_limit - 1),
                       gate_open := True\<rparr>)))"

end
