(* ===== verification/SettingsMirror.thy ===== *)
theory SettingsMirror
  imports SettingsStore
begin

text \<open>
  The mirror of the settings is the database. The contents of the table \<open>settings\<close> are a map from
  chat and key to text; every operation of \<open>SettingsStore\<close> changes this map, and the vectors, the
  index and the counters in memory follow it as long as the gate is open.
\<close>

section \<open>The table as a map\<close>

definition table_map :: "settings_row table \<Rightarrow> chat_id \<times> utext \<Rightarrow> utext option" where
  "table_map t p = map_option st_text (row_at settings_key t p)"

definition chat_map :: "(chat_id \<times> utext \<Rightarrow> utext option) \<Rightarrow> chat_id \<Rightarrow> utext \<Rightarrow> utext option" where
  "chat_map M c k = M (c, k)"

definition row_bytes :: "chat_id \<times> utext \<Rightarrow> utext \<Rightarrow> nat" where
  "row_bytes p v = utf8_len (snd p) + utf8_len v"

definition text_bytes :: "utext \<Rightarrow> utext \<Rightarrow> nat" where
  "text_bytes k v = utf8_len k + utf8_len v"

abbreviation one_row :: "'k \<Rightarrow> 'v \<Rightarrow> nat" where
  "one_row \<equiv> \<lambda>k v. 1"

definition tagged :: "chat_id \<Rightarrow> (utext, utext) change list \<Rightarrow> (chat_id \<times> utext, utext) change list" where
  "tagged c = map (\<lambda>(k, v). ((c, k), v))"

lemma fst_tagged [simp]: "map fst (tagged c chs) = map (Pair c) (map fst chs)"
  by (simp add: tagged_def split_def)

lemma distinct_tagged [simp]: "distinct (map fst (tagged c chs)) \<longleftrightarrow> distinct (map fst chs)"
  unfolding fst_tagged by (simp add: distinct_map inj_on_def)

lemma map_of_tagged: "map_of (tagged c chs) p = (if fst p = c then map_of chs (snd p) else None)"
  by (induction chs) (auto simp: tagged_def)

lemma chat_map_changed:
  "chat_map (changed (tagged c chs) M) d = (if d = c then changed chs (chat_map M c) else chat_map M d)"
  by (auto simp: chat_map_def [abs_def] changed_def map_of_tagged fun_eq_iff)

lemma settings_key_simps [simp]:
  "settings_key \<lparr>st_chat = c, st_key = k, st_text = v\<rparr> = (c, k)"
  "settings_key (r\<lparr>st_text := v\<rparr>) = settings_key r"
  by (simp_all add: settings_key_def)

lemma settings_key_eq: "settings_key r = (c, k) \<longleftrightarrow> st_chat r = c \<and> st_key r = k"
  by (simp add: settings_key_def)

lemma table_map_row: "unique_key settings_key t \<Longrightarrow> table_map t (c, k) = Some v \<longleftrightarrow>
    \<lparr>st_chat = c, st_key = k, st_text = v\<rparr> \<in> set t"
  by (auto simp: table_map_def row_at_iff settings_key_eq) (metis settings_row.surjective old.unit.exhaust)

lemma table_map_mem: "unique_key settings_key t \<Longrightarrow> r \<in> set t \<Longrightarrow> table_map t (st_chat r, st_key r) = Some (st_text r)"
  using row_at_in [of settings_key t r] by (simp add: table_map_def settings_key_def)

lemma table_map_alist: "unique_key settings_key t \<Longrightarrow> table_map t = map_of (map (\<lambda>r. (settings_key r, st_text r)) t)"
  by (induction t) (auto simp: table_map_def row_at_Cons unique_key_def fun_eq_iff)

lemma finite_table_map: "unique_key settings_key t \<Longrightarrow> finite (dom (table_map t))"
  by (simp add: table_map_alist finite_dom_map_of)

lemma table_weight:
  "unique_key settings_key t \<Longrightarrow> map_weight w (table_map t) = (\<Sum>r \<leftarrow> t. w (settings_key r) (st_text r))"
  by (subst table_map_alist, assumption, subst map_weight_rows)
    (simp_all add: unique_key_def comp_def)

lemma table_rows: "unique_key settings_key t \<Longrightarrow> map_weight one_row (table_map t) = length t"
  by (simp add: table_weight sum_list_triv)

lemma table_bytes:
  "unique_key settings_key t \<Longrightarrow>
   map_weight row_bytes (table_map t) = (\<Sum>r \<leftarrow> t. utf8_len (st_key r) + utf8_len (st_text r))"
  by (simp add: table_weight row_bytes_def settings_key_def)

lemma finite_chat_map: "finite (dom M) \<Longrightarrow> finite (dom (chat_map M c))"
  by (rule finite_subset [of _ "snd ` dom M"]) (force simp: chat_map_def)+

lemma chat_rows_count:
  assumes "unique_key settings_key t"
  shows "map_weight one_row (chat_map (table_map t) c) = length (filter (\<lambda>r. st_chat r = c) t)"
proof -
  let ?t = "filter (\<lambda>r. st_chat r = c) t"
  have d: "distinct (map fst (map (\<lambda>r. (st_key r, st_text r)) ?t))"
    using assms by (induction t) (auto simp: unique_key_def settings_key_def image_iff)
  have "chat_map (table_map t) c k = map_of (map (\<lambda>r. (st_key r, st_text r)) ?t) k" for k
    by (induction t) (auto simp: chat_map_def table_map_def row_at_Cons settings_key_def)
  then have "chat_map (table_map t) c = map_of (map (\<lambda>r. (st_key r, st_text r)) ?t)" by blast
  with map_weight_rows [OF d, of one_row] show ?thesis by (simp add: sum_list_triv comp_def split_def)
qed

section \<open>What the statements do to the map\<close>

lemma put_changes_simps [simp]:
  "put_changes [] = []" "put_changes ((k, Some v) # chs) = (k, v) # put_changes chs"
  "put_changes ((k, None) # chs) = put_changes chs"
  by (simp_all add: put_changes_def List.map_filter_simps)

lemma put_changes_keys: "fst ` set (put_changes chs) \<subseteq> fst ` set chs"
proof (induction chs)
  case (Cons c chs)
  then show ?case by (cases c; cases "snd c") auto
qed simp

lemma map_of_put_changes:
  "distinct (map fst chs) \<Longrightarrow> map_of (put_changes chs) k = (case map_of chs k of Some (Some v) \<Rightarrow> Some v | _ \<Rightarrow> None)"
proof (induction chs)
  case (Cons c chs)
  have "map_of (put_changes chs) (fst c) = None"
    using put_changes_keys [of chs] Cons.prems by (auto simp: map_of_eq_None_iff)
  then show ?case using Cons by (cases c; cases "snd c") auto
qed simp

lemma distinct_put_changes: "distinct (map fst chs) \<Longrightarrow> distinct (map fst (put_changes chs))"
proof (induction chs)
  case (Cons c chs)
  then show ?case using put_changes_keys [of chs] by (cases c; cases "snd c") auto
qed simp

lemma deleted_keys_iff: "distinct (map fst chs) \<Longrightarrow> k \<in> set (deleted_keys chs) \<longleftrightarrow> map_of chs k = Some None"
  by (force simp: deleted_keys_def)

lemma put_settings_unique: "unique_key settings_key t \<Longrightarrow> unique_key settings_key (put_settings c puts t)"
  unfolding put_settings_def by (rule unique_upsert_all) (auto simp: split_def)

lemma table_map_put:
  assumes "distinct (map fst puts)"
  shows "table_map (put_settings c puts t) p =
    (case (if fst p = c then map_of puts (snd p) else None) of Some v \<Rightarrow> Some v | None \<Rightarrow> table_map t p)"
proof -
  have f: "find (\<lambda>x. (case x of (k, v) \<Rightarrow> (c, k)) = p) puts = (if fst p = c then map_option (Pair (snd p)) (map_of puts (snd p)) else None)"
    by (induction puts) (auto simp: prod_eq_iff)
  have "row_at settings_key (put_settings c puts t) p =
      (case find (\<lambda>x. (case x of (k, v) \<Rightarrow> (c, k)) = p) puts of
         None \<Rightarrow> row_at settings_key t p
       | Some x \<Rightarrow> Some (case row_at settings_key t p of
           None \<Rightarrow> (case x of (k, v) \<Rightarrow> \<lparr>st_chat = c, st_key = k, st_text = v\<rparr>)
         | Some r \<Rightarrow> (case x of (k, v) \<Rightarrow> \<lambda>r. r\<lparr>st_text := v\<rparr>) r))"
    unfolding put_settings_def
    by (rule row_at_upsert_all) (use assms in \<open>auto simp: split_def distinct_map inj_on_def\<close>)
  then show ?thesis
    by (auto simp: table_map_def f split: option.splits)
qed

lemma write_settings_unique: "unique_key settings_key t \<Longrightarrow> unique_key settings_key (write_settings c chs t)"
  by (simp add: write_settings_def unique_delete put_settings_unique)

lemma table_map_write:
  assumes "unique_key settings_key t" and d: "distinct (map fst chs)"
  shows "table_map (write_settings c chs t) = changed (tagged c chs) (table_map t)"
proof
  fix p :: "chat_id \<times> utext"
  note u = put_settings_unique [OF assms(1), of c "put_changes chs"]
  have "row_at settings_key (write_settings c chs t) p =
      (case row_at settings_key (put_settings c (put_changes chs) t) p of
         None \<Rightarrow> None
       | Some r \<Rightarrow> if st_chat r = c \<and> st_key r \<in> set (deleted_keys chs) then None else Some r)"
    unfolding write_settings_def by (rule row_at_delete [OF u])
  then have "table_map (write_settings c chs t) p =
      (if fst p = c \<and> snd p \<in> set (deleted_keys chs) then None
       else table_map (put_settings c (put_changes chs) t) p)"
    by (auto simp: table_map_def settings_key_def dest: row_at_Some split: option.splits)
  then show "table_map (write_settings c chs t) p = changed (tagged c chs) (table_map t) p"
    by (auto simp: table_map_put [OF distinct_put_changes [OF d]] map_of_put_changes [OF d] deleted_keys_iff [OF d]
        changed_def map_of_tagged split: option.splits)
qed

text \<open>The table is a map of settings, row by row.\<close>

interpretation table: key_value_map "unique_key settings_key" table_map
  "\<lambda>p v. put_settings (fst p) [(snd p, v)]" "\<lambda>p. sql_delete (\<lambda>r. settings_key r = p)"
proof unfold_locales
  fix t :: "settings_row table" and p v
  assume t: "unique_key settings_key t"
  show "unique_key settings_key (put_settings (fst p) [(snd p, v)] t)" by (rule put_settings_unique [OF t])
  show "unique_key settings_key (sql_delete (\<lambda>r. settings_key r = p) t)" by (rule unique_delete [OF t])
  show "table_map (put_settings (fst p) [(snd p, v)] t) = (table_map t)(p := Some v)"
    by (rule ext) (auto simp: table_map_put prod_eq_iff)
  show "table_map (sql_delete (\<lambda>r. settings_key r = p) t) = (table_map t)(p := None)"
    by (rule ext) (auto simp: table_map_def row_at_delete [OF t] dest: row_at_Some split: option.split)
qed

section \<open>The vectors in memory\<close>

definition rows_of :: "(chat_id \<Rightarrow> chat_rows option) \<Rightarrow> chat_id \<Rightarrow> chat_rows" where
  "rows_of m c = (case m c of None \<Rightarrow> [] | Some rows \<Rightarrow> rows)"

definition cache_ok :: "(chat_id \<Rightarrow> chat_rows option) \<Rightarrow> (chat_id \<times> utext \<Rightarrow> utext option) \<Rightarrow> bool" where
  "cache_ok m M \<longleftrightarrow> (\<forall>c. rows_sorted (rows_of m c) \<and> map_of (rows_of m c) = chat_map M c)"

lemma chat_rows_Nil [simp]: "chat_rows_get [] k = None" "fst (chat_rows_remove k []) = []"
  by (simp_all add: chat_rows_get_def chat_rows_remove_def chat_rows_find_def)

lemma setting_text_rows: "setting_text (m c) k = chat_rows_get (rows_of m c) k"
  by (simp add: setting_text_def rows_of_def split: option.split)

lemma cache_ok_text: "cache_ok m M \<Longrightarrow> setting_text (m c) k = M (c, k)"
  by (simp add: setting_text_rows cache_ok_def chat_rows_get_map_of chat_map_def)

lemma cache_ok_length: "cache_ok m M \<Longrightarrow> length (rows_of m c) = map_weight one_row (chat_map M c)"
  using map_weight_rows [of "rows_of m c" one_row] rows_sorted_distinct [of "rows_of m c"]
  by (simp add: cache_ok_def sum_list_triv split_def)

lemma rows_of_cache_change:
  "rows_of (cache_change c ch m) d =
     (if d = c then apply_changes (\<lambda>k v rows. fst (chat_rows_insert k v rows)) (\<lambda>k rows. fst (chat_rows_remove k rows)) [ch] (rows_of m c)
      else rows_of m d)"
  by (cases ch; cases "snd ch") (auto simp: rows_of_def cache_change_def split: option.split)

lemma rows_of_cache_fold:
  "rows_of (fold (cache_change c) chs m) d =
     (if d = c then apply_changes (\<lambda>k v rows. fst (chat_rows_insert k v rows)) (\<lambda>k rows. fst (chat_rows_remove k rows)) chs (rows_of m c)
      else rows_of m d)"
proof (induction chs arbitrary: m)
  case (Cons ch chs)
  then show ?case by (cases ch; cases "snd ch") (simp_all add: rows_of_cache_change)
qed simp

lemma rows_of_cache_changes: "rows_of (cache_changes c chs m) d = rows_of (fold (cache_change c) chs m) d"
  by (auto simp: cache_changes_def Let_def rows_of_def)

lemma cache_ok_changes:
  assumes "cache_ok m M" and "distinct (map fst chs)"
  shows "cache_ok (cache_changes c chs m) (changed (tagged c chs) M)"
proof -
  let ?rows = "apply_changes (\<lambda>k v rows. fst (chat_rows_insert k v rows)) (\<lambda>k rows. fst (chat_rows_remove k rows)) chs (rows_of m c)"
  have ok: "rows_sorted (rows_of m c)" "map_of (rows_of m c) = chat_map M c" for c
    using assms(1) by (simp_all add: cache_ok_def)
  have "rows_sorted ?rows" by (rule rows.good_changes) (rule ok)
  moreover have "map_of ?rows = changed chs (chat_map M c)"
    using rows.lookup_changes [OF ok(1) assms(2), of c] \<open>rows_sorted ?rows\<close> ok
    by (simp add: chat_rows_get_map_of fun_eq_iff [of "map_of ?rows"] fun_eq_iff [of "chat_rows_get _"])
      (metis chat_rows_get_map_of ext)
  ultimately show ?thesis using ok
    by (simp add: cache_ok_def rows_of_cache_changes rows_of_cache_fold chat_map_changed)
qed

section \<open>The index\<close>

definition entry_of :: "(chat_id \<Rightarrow> chat_index option) \<Rightarrow> chat_id \<Rightarrow> chat_index" where
  "entry_of idx c = (case idx c of None \<Rightarrow> blank_index | Some e \<Rightarrow> e)"

definition entry_ok :: "chat_index \<Rightarrow> (utext \<Rightarrow> utext option) \<Rightarrow> bool" where
  "entry_ok e f \<longleftrightarrow> length e = length indexed_prefixes \<and>
     (\<forall>slot < length indexed_prefixes. distinct (e ! slot) \<and>
        set (e ! slot) = {rest. f (ascii (indexed_prefixes ! slot) @ rest) \<noteq> None})"

definition index_ok :: "(chat_id \<Rightarrow> chat_index option) \<Rightarrow> (chat_id \<times> utext \<Rightarrow> utext option) \<Rightarrow> bool" where
  "index_ok idx M \<longleftrightarrow> (\<forall>c. entry_ok (entry_of idx c) (chat_map M c))"

lemma indexed_slot_from_Some:
  "indexed_slot_from n ps key = Some (slot, rest) \<Longrightarrow>
   n \<le> slot \<and> slot < n + length ps \<and> key = ascii (ps ! (slot - n)) @ rest"
proof (induction ps arbitrary: n)
  case (Cons p ps)
  show ?case
  proof (cases "prefix (ascii p) key")
    case True
    then obtain z where "key = ascii p @ z" by (auto simp: prefix_def)
    with Cons.prems show ?thesis by simp
  next
    case False
    with Cons.prems have "indexed_slot_from (Suc n) ps key = Some (slot, rest)"
      by (simp add: str_strip_prefix_def)
    from Cons.IH [OF this] show ?thesis by (auto simp: nth_Cons' Suc_diff_le)
  qed
qed simp

definition prefix_free :: "string list \<Rightarrow> bool" where
  "prefix_free = sorted_wrt (\<lambda>p q. \<not> prefix p q \<and> \<not> prefix q p)"

lemma indexed_slot_from_at:
  "prefix_free ps \<Longrightarrow> slot < length ps \<Longrightarrow> indexed_slot_from n ps (ascii (ps ! slot) @ rest) = Some (n + slot, rest)"
proof (induction ps arbitrary: n slot)
  case (Cons p ps)
  show ?case
  proof (cases slot)
    case (Suc i)
    then have "\<not> prefix p (ps ! i)" "\<not> prefix (ps ! i) p" using Cons.prems by (auto simp: prefix_free_def)
    then have "\<not> prefix (ascii p) (ascii (ps ! i) @ rest)"
      using prefix_same_cases [of "ascii p" "ascii (ps ! i) @ rest" "ascii (ps ! i)"] by auto
    then show ?thesis using Cons Suc by (simp add: str_strip_prefix_def [of "ascii p"] prefix_free_def)
  qed simp
qed simp

lemma indexed_prefixes_free: "prefix_free indexed_prefixes"
  by code_simp

lemma indexed_slot_iff:
  "indexed_slot key = Some (slot, rest) \<longleftrightarrow>
   slot < length indexed_prefixes \<and> key = ascii (indexed_prefixes ! slot) @ rest"
  using indexed_slot_from_Some [of 0 indexed_prefixes key slot rest]
    indexed_slot_from_at [OF indexed_prefixes_free, of slot 0 rest]
  by (auto simp: indexed_slot_def)

lemma position_None: "position x l = None \<longleftrightarrow> x \<notin> set l"
  by (induction l) auto

lemma position_Some: "position x l = Some at \<Longrightarrow> at < length l \<and> l ! at = x"
  by (induction l arbitrary: at) (auto split: if_splits)

lemma swap_remove_ok:
  assumes "at < length l" and "distinct l"
  shows "distinct (swap_remove at l) \<and> set (swap_remove at l) = set l - {l ! at}"
proof (cases "Suc at = length l")
  case True
  then obtain ys y where "l = ys @ [y]" "length ys = at" by (cases l rule: rev_cases) auto
  moreover have "l ! at = y" using \<open>l = ys @ [y]\<close> \<open>length ys = at\<close> by (metis nth_append_length)
  ultimately show ?thesis using assms(2) by (auto simp: swap_remove_def)
next
  case False
  obtain ys y where l: "l = ys @ [y]" using assms(1) by (cases l rule: rev_cases) auto
  then have "at < length ys" using False assms(1) by simp
  then obtain before x behind where ys: "ys = before @ x # behind" "length before = at"
    by (metis id_take_nth_drop length_take min.absorb4)
  have "swap_remove at l = ys[at := y]" and "l ! at = ys ! at"
    using False \<open>at < length ys\<close> by (simp_all add: swap_remove_def l nth_append)
  then have "swap_remove at l = before @ y # behind" and "l ! at = x"
    using list_update_length [of before x behind y] nth_append_length [of before x behind] by (simp_all add: ys)
  with assms(2) show ?thesis by (auto simp: l ys(1))
qed

lemma reindex_entry_ok:
  assumes "entry_ok e f" and "indexed_slot key = Some (slot, rest)"
  shows "entry_ok (reindex_entry slot rest (v \<noteq> None) e) (f(key := v))"
proof -
  let ?e = "reindex_entry slot rest (v \<noteq> None) e"
  have slot: "slot < length indexed_prefixes" and key: "key = ascii (indexed_prefixes ! slot) @ rest"
    using assms(2) by (simp_all add: indexed_slot_iff)
  have len: "length e = length indexed_prefixes"
    and d: "distinct (e ! i)" and m: "set (e ! i) = {r. f (ascii (indexed_prefixes ! i) @ r) \<noteq> None}"
    if "i < length indexed_prefixes" for i
    using assms(1) that by (auto simp: entry_ok_def)
  have len: "length e = length indexed_prefixes" using assms(1) by (simp add: entry_ok_def)
  have other: "?e ! i = e ! i" if "i \<noteq> slot" for i
    using that by (auto simp: reindex_entry_def split: option.split bool.split)
  have here: "distinct (?e ! slot) \<and> set (?e ! slot) = (if v = None then set (e ! slot) - {rest} else insert rest (set (e ! slot)))"
  proof (cases "position rest (e ! slot)")
    case None
    then have "rest \<notin> set (e ! slot)" by (simp add: position_None)
    moreover have "?e = (if v = None then e else e[slot := e ! slot @ [rest]])"
      using None by (simp add: reindex_entry_def)
    ultimately show ?thesis using d [OF slot] slot len by auto
  next
    case (Some at)
    then have "?e = (if v = None then e[slot := swap_remove at (e ! slot)] else e)"
      by (simp add: reindex_entry_def)
    moreover have "distinct (swap_remove at (e ! slot)) \<and> set (swap_remove at (e ! slot)) = set (e ! slot) - {rest}"
      using swap_remove_ok [of at "e ! slot"] position_Some [OF Some] d [OF slot] by simp
    moreover have "rest \<in> set (e ! slot)" using position_Some [OF Some] by auto
    ultimately show ?thesis using d [OF slot] slot len by (simp add: insert_absorb)
  qed
  have key_iff: "ascii (indexed_prefixes ! i) @ r = key \<longleftrightarrow> i = slot \<and> r = rest" if "i < length indexed_prefixes" for i r
    using that assms(2) indexed_slot_iff [of key i r] by auto
  have "distinct (?e ! i) \<and> set (?e ! i) = {r. (f(key := v)) (ascii (indexed_prefixes ! i) @ r) \<noteq> None}"
    if i: "i < length indexed_prefixes" for i
  proof (cases "i = slot")
    case True
    then show ?thesis using here m [OF slot] key_iff [OF i] by (auto simp: key)
  next
    case False
    then show ?thesis using d [OF i] m [OF i] other [OF False] key_iff [OF i] by auto
  qed
  moreover have "length ?e = length indexed_prefixes"
    by (simp add: reindex_entry_def len split: option.split bool.split)
  ultimately show ?thesis by (simp add: entry_ok_def)
qed

lemma entry_ok_other: "entry_ok e f \<Longrightarrow> indexed_slot key = None \<Longrightarrow> entry_ok e (f(key := v))"
proof -
  assume e: "entry_ok e f" and key: "indexed_slot key = None"
  have "ascii (indexed_prefixes ! i) @ r \<noteq> key" if "i < length indexed_prefixes" for i r
    using key indexed_slot_iff [of key i r] that by auto
  with e show ?thesis by (auto simp: entry_ok_def)
qed

lemma entry_of_reindex:
  assumes "length (entry_of idx c) = length indexed_prefixes"
  shows "entry_of (reindex c key present idx) d =
    (if d = c then (case indexed_slot key of None \<Rightarrow> entry_of idx c
       | Some (slot, rest) \<Rightarrow> reindex_entry slot rest present (entry_of idx c))
     else entry_of idx d)"
proof (cases "indexed_slot key")
  case (Some p)
  obtain slot rest where p: "p = (slot, rest)" by (cases p)
  let ?e = "reindex_entry slot rest present (entry_of idx c)"
  have len: "length ?e = length indexed_prefixes"
    using assms by (simp add: reindex_entry_def split: option.split bool.split)
  have "?e = blank_index" if "list_all (\<lambda>l. l = []) ?e"
  proof (rule nth_equalityI)
    show "?e ! i = blank_index ! i" if "i < length ?e" for i
      using that \<open>list_all (\<lambda>l. l = []) ?e\<close> len by (simp add: blank_index_def list_all_length)
  qed (simp add: len blank_index_def)
  then show ?thesis using Some p by (auto simp: reindex_def Let_def entry_of_def)
qed (simp add: reindex_def)

lemma index_ok_reindex:
  assumes "index_ok idx M"
  shows "index_ok (reindex c key (v \<noteq> None) idx) (M((c, key) := v))"
proof -
  have e: "entry_ok (entry_of idx d) (chat_map M d)" for d using assms by (simp add: index_ok_def)
  have len: "length (entry_of idx c) = length indexed_prefixes" using e [of c] by (simp add: entry_ok_def)
  have "chat_map (M((c, key) := v)) d = (if d = c then (chat_map M c)(key := v) else chat_map M d)" for d
    by (auto simp: chat_map_def fun_eq_iff)
  then show ?thesis
    using e [of c] e reindex_entry_ok [OF e [of c], of key _ _ v] entry_ok_other [OF e [of c], of key v]
    by (auto simp: index_ok_def entry_of_reindex [OF len] split: option.split)
qed

lemma index_ok_changes:
  assumes "index_ok idx M" and "distinct (map fst chs)"
  shows "index_ok (reindex_changes c chs idx) (changed (tagged c chs) M)"
  using assms
proof (induction chs arbitrary: idx M)
  case Nil
  then show ?case by (simp add: reindex_changes_def tagged_def)
next
  case (Cons ch chs)
  obtain k v where ch: "ch = (k, v)" by (cases ch)
  have new: "(c, k) \<notin> fst ` set (tagged c chs)" using Cons.prems(2) ch by (auto simp: tagged_def image_iff)
  have "index_ok (reindex_changes c chs (reindex c k (v \<noteq> None) idx)) (changed (tagged c chs) (M((c, k) := v)))"
    by (rule Cons.IH) (rule index_ok_reindex [OF Cons.prems(1)], use Cons.prems(2) in simp)
  moreover have "changed (tagged c (ch # chs)) M = changed (tagged c chs) (M((c, k) := v))"
    using changed_Cons [OF new, of v M] by (simp add: tagged_def ch)
  ultimately show ?case by (simp add: reindex_changes_def ch)
qed

section \<open>Counting rows and bytes\<close>

definition usize_max :: nat where
  "usize_max = usize_limit - 1"

lemma saturating_usize_add_min:
  "saturating_usize_add (min a usize_max) (min b usize_max) = min (a + b) usize_max"
  "saturating_usize_add (min a usize_max) 1 = min (a + 1) usize_max"
  by (auto simp: saturating_usize_add_def usize_max_def usize_limit_def)

lemma setting_size_min: "setting_size k v = min (text_bytes k v) usize_max"
  by (simp add: setting_size_def saturating_usize_add_def text_bytes_def usize_max_def)

definition gone :: "(utext \<Rightarrow> utext \<Rightarrow> nat) \<Rightarrow> chat_settings \<Rightarrow> (utext, utext) change list \<Rightarrow> nat" where
  "gone w cs chs = (\<Sum>(k, v) \<leftarrow> chs. weight_of w k (setting_text cs k))"

definition come :: "(utext \<Rightarrow> utext \<Rightarrow> nat) \<Rightarrow> (utext, utext) change list \<Rightarrow> nat" where
  "come w chs = (\<Sum>(k, v) \<leftarrow> chs. weight_of w k v)"

lemma count_changes_eq:
  "count_changes cs chs =
     \<lparr>removed_rows = min (gone one_row cs chs) usize_max, added_rows = min (come one_row chs) usize_max,
      removed_bytes = min (gone text_bytes cs chs) usize_max, added_bytes = min (come text_bytes chs) usize_max\<rparr>"
proof (induction chs rule: rev_induct)
  case Nil
  then show ?case by (simp add: count_changes_def no_counts_def gone_def come_def)
next
  case (snoc ch chs)
  obtain k v where ch: "ch = (k, v)" by (cases ch)
  have "count_changes cs (chs @ [ch]) = count_change cs ch (count_changes cs chs)"
    by (simp add: count_changes_def)
  then show ?case
    unfolding snoc
    by (cases "setting_text cs k"; cases v)
      (simp_all add: count_change_def Let_def ch gone_def come_def saturating_usize_add_min(1)
        saturating_usize_add_min(2) [simplified] setting_size_min)
qed

text \<open>A new total within its budget is the exact one.\<close>

lemma exact_total:
  assumes "g \<le> old" and "old < usize_max"
    and "saturating_usize_add (old - min g usize_max) (min a usize_max) \<le> m" and "m < usize_max"
  shows "saturating_usize_add (old - min g usize_max) (min a usize_max) = old - g + a"
  using assms by (auto simp: saturating_usize_add_def usize_max_def min_def split: if_splits)

lemma adjust_exact:
  assumes "old \<le> held" and "held < usize_max" and "held - old + new < usize_max"
  shows "adjust old new held = held - old + new"
  using assms
  by (auto simp: adjust_def wrapping_usize_add_id wrapping_usize_sub_id usize_max_def)

lemma weight_of_le:
  assumes "finite (dom f)"
  shows "distinct ks \<Longrightarrow> (\<Sum>k \<leftarrow> ks. weight_of w k (f k)) \<le> map_weight w f"
proof -
  assume d: "distinct ks"
  have "(\<Sum>k \<leftarrow> ks. weight_of w k (f k)) = (\<Sum>k \<in> set ks. weight_of w k (f k))"
    using d by (simp add: sum_list_distinct_conv_sum_set)
  also have "... = (\<Sum>k \<in> set ks \<inter> dom f. weight_of w k (f k))"
    by (rule sum.mono_neutral_right) (auto simp: weight_of_def split: option.split)
  also have "... \<le> map_weight w f"
    unfolding map_weight_def using assms by (intro sum_mono2) auto
  finally show ?thesis .
qed

lemma map_weight_tagged:
  assumes f: "finite (dom M)" and d: "distinct (map fst chs)" and cs: "\<And>k. setting_text cs k = M (c, k)"
    and w: "\<And>k. W (c, k) = w k"
  shows "gone w cs chs \<le> map_weight W M"
    and "map_weight W (changed (tagged c chs) M) = map_weight W M - gone w cs chs + come w chs"
proof -
  have W: "weight_of W (c, k) v = weight_of w k v" for k v by (simp add: weight_of_def w split: option.split)
  have g: "gone w cs chs = (\<Sum>(p, v) \<leftarrow> tagged c chs. weight_of W p (M p))"
    unfolding gone_def tagged_def by (simp add: comp_def split_def cs W)
  have a: "come w chs = (\<Sum>(p, v) \<leftarrow> tagged c chs. weight_of W p v)"
    unfolding come_def tagged_def by (simp add: comp_def split_def W)
  have "gone w cs chs = (\<Sum>p \<leftarrow> map fst (tagged c chs). weight_of W p (M p))"
    unfolding g by (simp add: comp_def split_def tagged_def)
  moreover have "distinct (map fst (tagged c chs))" by (subst distinct_tagged) (rule d)
  ultimately show le: "gone w cs chs \<le> map_weight W M"
    using weight_of_le [OF f, of "map fst (tagged c chs)" W] by (simp only:)
  have "map_weight W (changed (tagged c chs) M) + gone w cs chs = map_weight W M + come w chs"
    unfolding g a by (rule map_weight_changed [OF f]) (subst distinct_tagged, rule d)
  with le show "map_weight W (changed (tagged c chs) M) = map_weight W M - gone w cs chs + come w chs" by simp
qed

lemma chat_weight_changed:
  assumes f: "finite (dom M)" and d: "distinct (map fst chs)" and cs: "\<And>k. setting_text cs k = M (c, k)"
  shows "gone w cs chs \<le> map_weight w (chat_map M c)"
    and "map_weight w (changed chs (chat_map M c)) = map_weight w (chat_map M c) - gone w cs chs + come w chs"
proof -
  have cm: "setting_text cs k = chat_map M c k" for k by (simp add: cs chat_map_def)
  have "(\<Sum>(k, v) \<leftarrow> chs. weight_of w k (chat_map M c k)) = (\<Sum>k \<leftarrow> map fst chs. weight_of w k (chat_map M c k))"
    by (simp add: comp_def split_def)
  with weight_of_le [OF finite_chat_map [OF f], of "map fst chs" w c] d
  show le: "gone w cs chs \<le> map_weight w (chat_map M c)" by (simp add: gone_def cm)
  have "map_weight w (changed chs (chat_map M c)) + gone w cs chs = map_weight w (chat_map M c) + come w chs"
    unfolding gone_def come_def cm by (rule map_weight_changed [OF finite_chat_map [OF f] d])
  with le show "map_weight w (changed chs (chat_map M c)) = map_weight w (chat_map M c) - gone w cs chs + come w chs"
    by simp
qed

section \<open>The invariant\<close>

text \<open>The budgets a shard is started with.\<close>

definition absolute_max_settings_rows :: nat where
  "absolute_max_settings_rows = 50000000"

definition absolute_max_settings_bytes :: nat where
  "absolute_max_settings_bytes = 8 * 1024 * 1024 * 1024"

definition limits_ok :: "settings_store \<Rightarrow> bool" where
  "limits_ok s \<longleftrightarrow>
     is_some_and (\<lambda>r. r \<le> absolute_max_settings_rows) (row_limit s) \<and>
     is_some_and (\<lambda>b. b \<le> absolute_max_settings_bytes) (byte_limit s) \<and>
     is_some_and (\<lambda>n. n < 2 ^ 63) (chat_limit s)"

definition setting_ok :: "chat_id \<times> utext \<Rightarrow> utext \<Rightarrow> bool" where
  "setting_ok p v \<longleftrightarrow> validate_persisted_setting (snd p) v = Inr () \<and>
     utf8_len (snd p) \<le> max_setting_key_bytes \<and> utf8_len v \<le> max_setting_value_bytes"

definition within :: "nat \<Rightarrow> nat option \<Rightarrow> bool" where
  "within n limit \<longleftrightarrow> \<not> over n limit"

text \<open>The tables: every setting is checked and small, its chat is admitted, and the budgets are kept.\<close>

definition map_ok :: "settings_store \<Rightarrow> (chat_id \<times> utext \<Rightarrow> utext option) \<Rightarrow> (chat_id \<times> int) list \<Rightarrow> bool" where
  "map_ok s M d \<longleftrightarrow> finite (dom M) \<and>
     (\<forall>p v. M p = Some v \<longrightarrow> setting_ok p v \<and> (fst p = 0 \<or> fst p \<in> fst ` set d)) \<and>
     within (map_weight one_row M) (row_limit s) \<and> within (map_weight row_bytes M) (byte_limit s) \<and>
     (\<forall>c. map_weight one_row (chat_map M c) \<le> max_settings_rows_per_chat) \<and>
     distinct (map fst d) \<and> (\<forall>c \<in> fst ` set d. durable_chat_id c) \<and> within (length d) (chat_limit s)"

definition tables_ok :: "settings_store \<Rightarrow> bool" where
  "tables_ok s \<longleftrightarrow> unique_key settings_key (settings_table s) \<and>
     map_ok s (table_map (settings_table s)) (durable_table s)"

text \<open>The mirror: vectors, index, counters and admitted chats are those of the tables.\<close>

definition chats_ok :: "(chat_id \<times> int) list \<Rightarrow> (chat_id \<times> int) list \<Rightarrow> bool" where
  "chats_ok m d \<longleftrightarrow> distinct (map fst m) \<and> map_of m = map_of d"

lemma chats_ok_mirror:
  assumes "chats_ok m d" and "\<And>e. e \<noteq> c \<Longrightarrow> map_of d' e = map_of d e" and "map_of d' c = None \<Longrightarrow> map_of d c = None"
  shows "chats_ok (mirror_chat c d' m) d'"
proof -
  have m: "distinct (map fst m)" "map_of m = map_of d" using assms(1) by (simp_all add: chats_ok_def)
  have "map_of (mirror_chat c d' m) e = map_of d' e" for e
    using assms(2) [of e] assms(3) m(2) by (cases "e = c") (auto simp: mirror_chat_def update_conv split: option.split)
  moreover have "distinct (map fst (mirror_chat c d' m))"
    using m(1) by (simp add: mirror_chat_def distinct_update split: option.split)
  ultimately show ?thesis by (simp add: chats_ok_def fun_eq_iff)
qed

definition mirror_ok :: "settings_store \<Rightarrow> (chat_id \<times> utext \<Rightarrow> utext option) \<Rightarrow> (chat_id \<times> int) list \<Rightarrow> bool" where
  "mirror_ok s M d \<longleftrightarrow> cache_ok (cache s) M \<and> index_ok (chat_index s) M \<and>
     setting_rows s = map_weight one_row M \<and> setting_bytes s = map_weight row_bytes M \<and>
     chats_ok (durable_mirror s) d"

definition settings_ok :: "settings_store \<Rightarrow> bool" where
  "settings_ok s \<longleftrightarrow> limits_ok s \<and> tables_ok s \<and>
     (gate_open s \<longrightarrow> mirror_ok s (table_map (settings_table s)) (durable_table s))"

section \<open>A batch keeps the invariant\<close>

lemma check_mutations_ok:
  "check_mutations seen ms = Inr () \<Longrightarrow>
   distinct (map mutation_key ms) \<and> mutation_key ` set ms \<inter> set seen = {} \<and> (\<forall>m \<in> set ms. check_mutation m = Inr ())"
proof (induction ms arbitrary: seen)
  case (Cons m ms)
  then have m: "check_mutation m = Inr ()" "mutation_key m \<notin> set seen"
    and ms: "check_mutations (mutation_key m # seen) ms = Inr ()"
    by (auto split: sum.splits if_splits)
  show ?case using Cons.IH [OF ms] m by auto
qed simp

lemma check_value_ok:
  "check_value k v = Inr () \<Longrightarrow> utf8_len k \<le> max_setting_key_bytes \<Longrightarrow> setting_ok (c, k) v"
  by (cases "validate_persisted_setting k v") (auto simp: check_value_def setting_ok_def split: if_splits)

lemma mutation_next_ok:
  assumes "check_mutation m = Inr ()" and "setting_text cs (mutation_key m) \<noteq> mutation_next cs m"
    and "mutation_next cs m = Some v"
  shows "setting_ok (c, mutation_key m) v"
proof -
  have len: "utf8_len (mutation_key m) \<le> max_setting_key_bytes"
    using assms(1) by (auto simp: check_mutation_def split: if_splits)
  have "check_value (mutation_key m) v = Inr ()"
    using assms len by (cases m) (auto simp: check_mutation_def split: if_splits sum.splits)
  then show ?thesis using len by (rule check_value_ok)
qed

lemma mutation_changes_ok:
  assumes "check_mutations [] ms = Inr ()"
  shows "distinct (map fst (mutation_changes cs ms))"
    and "(k, Some v) \<in> set (mutation_changes cs ms) \<Longrightarrow> setting_ok (c, k) v"
    and "(k, nxt) \<in> set (mutation_changes cs ms) \<Longrightarrow> setting_text cs k \<noteq> nxt"
proof -
  note ok = check_mutations_ok [OF assms]
  show "distinct (map fst (mutation_changes cs ms))"
    using ok by (simp add: mutation_changes_def comp_def distinct_map_filter)
  show "setting_ok (c, k) v" if "(k, Some v) \<in> set (mutation_changes cs ms)"
    using that ok mutation_next_ok by (fastforce simp: mutation_changes_def)
  show "setting_text cs k \<noteq> nxt" if "(k, nxt) \<in> set (mutation_changes cs ms)"
    using that by (auto simp: mutation_changes_def)
qed

lemma map_weight_card: "map_weight one_row f = card (dom f)"
  unfolding map_weight_def by (subst card_eq_sum, rule sum.cong) auto

lemma chat_weight_le:
  assumes "finite (dom M)"
  shows "map_weight one_row (chat_map M c) \<le> map_weight one_row M"
proof -
  have "card (Pair c ` dom (chat_map M c)) \<le> card (dom M)"
    using assms by (intro card_mono) (auto simp: chat_map_def)
  then show ?thesis unfolding map_weight_card by (simp add: card_image inj_on_def)
qed

lemma map_okD:
  assumes "map_ok s M d"
  shows "finite (dom M)" and "M p = Some v \<Longrightarrow> setting_ok p v"
    and "M p = Some v \<Longrightarrow> fst p = 0 \<or> fst p \<in> fst ` set d"
    and "within (map_weight one_row M) (row_limit s)" and "within (map_weight row_bytes M) (byte_limit s)"
    and "map_weight one_row (chat_map M c) \<le> max_settings_rows_per_chat"
    and "distinct (map fst d)" and "e \<in> fst ` set d \<Longrightarrow> durable_chat_id e" and "within (length d) (chat_limit s)"
  using assms unfolding map_ok_def by blast+

lemma limits_small:
  assumes "limits_ok s"
  shows "within n (row_limit s) \<Longrightarrow> n < usize_max" and "within n (byte_limit s) \<Longrightarrow> n < usize_max"
  using assms
  by (auto simp: limits_ok_def within_def over_def is_some_and_iff absolute_max_settings_rows_def
      absolute_max_settings_bytes_def usize_max_def usize_limit_def)

lemma limits_over:
  assumes "limits_ok s"
  shows "\<not> over n (row_limit s) \<Longrightarrow> \<exists>m. n \<le> m \<and> m < usize_max \<and> row_limit s = Some m"
    and "\<not> over n (byte_limit s) \<Longrightarrow> \<exists>m. n \<le> m \<and> m < usize_max \<and> byte_limit s = Some m"
  using assms
  by (auto simp: limits_ok_def over_def is_some_and_iff absolute_max_settings_rows_def not_less
      absolute_max_settings_bytes_def usize_max_def usize_limit_def)

lemma known_chats_eq: "chats_ok (durable_mirror s) d \<Longrightarrow> distinct (map fst d) \<Longrightarrow> known_chats s = length d"
  using distinct_card [of "map fst d"] distinct_card [of "map fst (durable_mirror s)"]
  by (simp add: known_chats_def chats_ok_def dom_map_of_conv_image_fst [symmetric])

text \<open>What a plan that passed the budgets says: the totals in it are the totals after the change.\<close>

lemma plan_batch_facts:
  assumes lim: "limits_ok s" and M: "map_ok s M d" and mir: "mirror_ok s M d"
    and chk: "check_mutations [] ms = Inr ()" and plan: "plan_batch c ms s = Inr (Some p)"
  defines "M' \<equiv> changed (tagged c (plan_changes p)) M"
  shows "plan_changes p = mutation_changes (cache s c) ms" and "plan_changes p \<noteq> []"
    and "distinct (map fst (plan_changes p))"
    and "plan_old_rows p = map_weight one_row (chat_map M c)" and "plan_old_bytes p = map_weight row_bytes M"
    and "plan_new_rows p = map_weight one_row (chat_map M' c)"
    and "map_weight one_row M' = map_weight one_row M - plan_old_rows p + plan_new_rows p"
    and "plan_new_bytes p = map_weight row_bytes M'"
    and "plan_new_rows p \<le> max_settings_rows_per_chat"
    and "within (map_weight one_row M') (row_limit s)" and "within (map_weight row_bytes M') (byte_limit s)"
    and "chat_known s c \<or> plan_new_rows p = 0 \<or> within (Suc (length d)) (chat_limit s)"
proof -
  let ?cs = "cache s c" and ?chs = "mutation_changes (cache s c) ms"
  have cache: "cache_ok (cache s) M" and rows: "setting_rows s = map_weight one_row M"
    and bytes: "setting_bytes s = map_weight row_bytes M" and mirror: "chats_ok (durable_mirror s) d"
    using mir by (simp_all add: mirror_ok_def)
  note D = map_okD [OF M]
  have cs: "setting_text ?cs k = M (c, k)" for k by (rule cache_ok_text [OF cache])
  have dist: "distinct (map fst ?chs)" by (rule mutation_changes_ok(1) [OF chk])
  have old: "(case ?cs of None \<Rightarrow> 0 | Some rows \<Rightarrow> length rows) = map_weight one_row (chat_map M c)"
    using cache_ok_length [OF cache, of c] by (simp add: rows_of_def split: option.splits)
  let ?new = "saturating_usize_add (map_weight one_row (chat_map M c) - min (gone one_row ?cs ?chs) usize_max)
      (min (come one_row ?chs) usize_max)"
  let ?glob = "saturating_usize_add (map_weight one_row M - min (gone one_row ?cs ?chs) usize_max)
      (min (come one_row ?chs) usize_max)"
  let ?bytes = "saturating_usize_add (map_weight row_bytes M - min (gone text_bytes ?cs ?chs) usize_max)
      (min (come text_bytes ?chs) usize_max)"
  define new glob total hash where defs: "new = ?new" "glob = ?glob" "total = ?bytes"
    "hash = (case map_of ?chs (ascii ''hash'') of None \<Rightarrow> setting_text ?cs (ascii ''hash'') | Some nxt \<Rightarrow> nxt)"
  have "plan_batch c ms s =
      (if ?chs = [] then Inr None
       else if max_settings_rows_per_chat < new \<or> over glob (row_limit s) then Inl (CapacityReached ''row'')
       else if over total (byte_limit s) then Inl (CapacityReached ''byte'')
       else if \<not> chat_known s c \<and> 0 < new \<and> is_some_and (\<lambda>m. m \<le> known_chats s) (chat_limit s)
       then Inl (CapacityReached ''chat'')
       else Inr (Some \<lparr>plan_changes = ?chs, plan_old_rows = map_weight one_row (chat_map M c), plan_new_rows = new,
                      plan_old_bytes = map_weight row_bytes M, plan_new_bytes = total, plan_hash = hash\<rparr>))"
    unfolding plan_batch_def Let_def old rows bytes count_changes_eq change_counts.simps defs ..
  then have p: "?chs \<noteq> []" "\<not> max_settings_rows_per_chat < new" "\<not> over glob (row_limit s)" "\<not> over total (byte_limit s)"
    "chat_known s c \<or> new = 0 \<or> \<not> is_some_and (\<lambda>m. m \<le> known_chats s) (chat_limit s)"
    "plan_changes p = ?chs" "plan_old_rows p = map_weight one_row (chat_map M c)" "plan_new_rows p = new"
    "plan_old_bytes p = map_weight row_bytes M" "plan_new_bytes p = total"
    using plan by (auto split: if_split_asm)
  show "plan_changes p = ?chs" "plan_changes p \<noteq> []" "distinct (map fst (plan_changes p))"
    "plan_old_rows p = map_weight one_row (chat_map M c)" "plan_old_bytes p = map_weight row_bytes M"
    using p(1,6,7,9) dist by simp_all
  have M': "M' = changed (tagged c ?chs) M" by (simp add: M'_def p(6))
  note cw = chat_weight_changed [OF D(1) dist cs, where w = one_row]
  note rw = map_weight_tagged [OF D(1) dist cs, where w = one_row and W = one_row, OF refl]
  have rb: "row_bytes (c, k) = text_bytes k" for k by (simp add: fun_eq_iff row_bytes_def text_bytes_def)
  note bw = map_weight_tagged [OF D(1) dist cs, where w = text_bytes and W = row_bytes, OF rb]
  obtain m where m: "glob \<le> m" "m < usize_max" "row_limit s = Some m" using limits_over(1) [OF lim p(3)] by blast
  obtain b where b: "total \<le> b" "b < usize_max" "byte_limit s = Some b" using limits_over(2) [OF lim p(4)] by blast
  have small: "max_settings_rows_per_chat < usize_max"
    by (simp add: max_settings_rows_per_chat_def usize_max_def usize_limit_def)
  have new: "new = map_weight one_row (chat_map M c) - gone one_row ?cs ?chs + come one_row ?chs"
    unfolding defs(1)
    by (rule exact_total [OF cw(1) _ _ small])
      (use D(6) [of c] small in simp, use p(2) [unfolded defs(1)] in simp)
  have glob: "glob = map_weight one_row M - gone one_row ?cs ?chs + come one_row ?chs"
    unfolding defs(2)
    by (rule exact_total [OF rw(1) limits_small(1) [OF lim D(4)] m(1) [unfolded defs(2)] m(2)])
  have bytes': "total = map_weight row_bytes M - gone text_bytes ?cs ?chs + come text_bytes ?chs"
    unfolding defs(3)
    by (rule exact_total [OF bw(1) limits_small(2) [OF lim D(5)] b(1) [unfolded defs(3)] b(2)])
  show "plan_new_rows p = map_weight one_row (chat_map M' c)"
    by (simp only: p(8) new M' chat_map_changed if_True cw(2) refl)
  show "plan_new_bytes p = map_weight row_bytes M'" by (simp only: p(10) bytes' M' bw(2))
  show "map_weight one_row M' = map_weight one_row M - plan_old_rows p + plan_new_rows p"
    using cw(1) chat_weight_le [OF D(1), of c] by (simp only: M' rw(2) p(7,8) new)
  show "plan_new_rows p \<le> max_settings_rows_per_chat" using p(2) unfolding p(8) by simp
  show "within (map_weight one_row M') (row_limit s)" using m(1) unfolding M' rw(2) within_def over_def m(3) glob by simp
  show "within (map_weight row_bytes M') (byte_limit s)" using b(1) unfolding M' bw(2) within_def over_def b(3) bytes' by simp
  show "chat_known s c \<or> plan_new_rows p = 0 \<or> within (Suc (length d)) (chat_limit s)"
    using p(5) unfolding p(8) known_chats_eq [OF mirror D(7)] by (auto simp: within_def over_def is_some_and_iff)
qed

section \<open>Admission\<close>

lemma admit_durable_keys: "fst ` set (admit_durable c h d) = insert c (fst ` set d)"
  by (simp add: admit_durable_def dom_update)

lemma admit_durable_distinct: "distinct (map fst d) \<Longrightarrow> distinct (map fst (admit_durable c h d))"
  by (simp add: admit_durable_def distinct_update)

lemma admit_durable_length:
  assumes "distinct (map fst d)"
  shows "length (admit_durable c h d) = (if c \<in> fst ` set d then length d else Suc (length d))"
proof -
  have len: "length e = card (fst ` set e)" if "distinct (map fst e)" for e :: "(chat_id \<times> int) list"
    using distinct_card [OF that] by simp
  show ?thesis
    using len [OF admit_durable_distinct [OF assms]] len [OF assms] by (simp add: admit_durable_keys insert_absorb)
qed

lemma admit_durable_other: "e \<noteq> c \<Longrightarrow> map_of (admit_durable c h d) e = map_of d e"
  by (simp add: admit_durable_def update_conv)

text \<open>A change of the contents that keeps what each operation has to keep.\<close>

lemma map_okI:
  assumes M: "map_ok s M d" and fin: "finite (dom M')"
    and new: "\<And>p v. M' p = Some v \<Longrightarrow> M p = Some v \<or> setting_ok p v \<and> (fst p = 0 \<or> fst p \<in> fst ` set d')"
    and keep: "\<And>p v. M' p = Some v \<Longrightarrow> fst p \<in> fst ` set d \<Longrightarrow> fst p \<in> fst ` set d'"
    and rows: "within (map_weight one_row M') (row_limit s)" and bytes: "within (map_weight row_bytes M') (byte_limit s)"
    and chat: "\<And>c. map_weight one_row (chat_map M' c) \<le> max_settings_rows_per_chat"
    and dur: "distinct (map fst d')" "\<And>c. c \<in> fst ` set d' \<Longrightarrow> durable_chat_id c" "within (length d') (chat_limit s)"
  shows "map_ok s M' d'"
proof -
  have "setting_ok p v \<and> (fst p = 0 \<or> fst p \<in> fst ` set d')" if "M' p = Some v" for p v
    using new [OF that] keep [OF that] map_okD(2,3) [OF M, of p v] by blast
  then show ?thesis using fin rows bytes chat dur by (simp add: map_ok_def)
qed

text \<open>Fields the budgets do not depend on.\<close>

lemma map_ok_same:
  "row_limit t = row_limit s \<Longrightarrow> byte_limit t = byte_limit s \<Longrightarrow> chat_limit t = chat_limit s \<Longrightarrow>
   map_ok t M d = map_ok s M d" "row_limit t = row_limit s \<Longrightarrow> byte_limit t = byte_limit s \<Longrightarrow>
   chat_limit t = chat_limit s \<Longrightarrow> limits_ok t = limits_ok s"
  by (simp_all add: map_ok_def limits_ok_def)

lemma chat_known_iff: "mirror_ok s M d \<Longrightarrow> chat_known s c \<longleftrightarrow> c = 0 \<or> c \<in> fst ` set d"
  by (auto simp: chat_known_def mirror_ok_def chats_ok_def map_of_eq_None_iff)

lemma map_ok_batch:
  assumes lim: "limits_ok s" and M: "map_ok s M d" and mir: "mirror_ok s M d"
    and chk: "check_mutations [] ms = Inr ()" and plan: "plan_batch c ms s = Inr (Some p)"
    and d': "d' = (if c = 0 then d else admit_durable c h d)" and c: "c = 0 \<or> durable_chat_id c"
  shows "map_ok s (changed (tagged c (plan_changes p)) M) d'"
proof -
  let ?M = "changed (tagged c (plan_changes p)) M"
  note F = plan_batch_facts [OF lim M mir chk plan]
  note D = map_okD [OF M]
  have keys: "fst ` set d' = (if c = 0 then fst ` set d else insert c (fst ` set d))"
    by (simp add: d' admit_durable_keys)
  have pos: "plan_new_rows p \<noteq> 0" if "\<not> chat_known s c"
  proof -
    have none: "M (c, k) = None" for k
      using that D(3) [of "(c, k)"] chat_known_iff [OF mir] by (cases "M (c, k)") auto
    obtain k nxt where ch: "(k, nxt) \<in> set (plan_changes p)" using F(2) by (cases "plan_changes p") auto
    have "setting_text (cache s c) k \<noteq> nxt" using mutation_changes_ok(3) [OF chk] ch F(1) by simp
    moreover have "setting_text (cache s c) k = M (c, k)" using mir by (simp add: mirror_ok_def cache_ok_text)
    ultimately have "nxt \<noteq> None" using none [of k] by auto
    then have "k \<in> dom (chat_map ?M c)"
      using ch F(3) by (auto simp: chat_map_changed changed_def dom_def)
    then have "dom (chat_map ?M c) \<noteq> {}" by blast
    then show ?thesis
      using finite_chat_map [OF finite_changed [OF D(1)], of "tagged c (plan_changes p)" c]
      unfolding F(6) map_weight_card by (simp del: not_None_eq)
  qed
  show ?thesis
  proof (rule map_okI [OF M])
    show "finite (dom ?M)" by (rule finite_changed [OF D(1)])
    show "M q = Some v \<or> setting_ok q v \<and> (fst q = 0 \<or> fst q \<in> fst ` set d')" if "?M q = Some v" for q v
    proof (cases "map_of (tagged c (plan_changes p)) q")
      case None
      then show ?thesis using that by (simp add: changed_def)
    next
      case (Some nxt)
      then have q: "fst q = c" "map_of (plan_changes p) (snd q) = Some (Some v)"
        using that by (auto simp: changed_def map_of_tagged split: if_splits)
      then have "(snd q, Some v) \<in> set (mutation_changes (cache s c) ms)"
        unfolding F(1) [symmetric] by (simp add: map_of_SomeD)
      then have "setting_ok (c, snd q) v" by (rule mutation_changes_ok(2) [OF chk])
      then have "setting_ok q v" unfolding q(1) [symmetric] by simp
      then show ?thesis using q(1) keys by simp
    qed
    show "fst q \<in> fst ` set d'" if "fst q \<in> fst ` set d" for q :: "chat_id \<times> utext" using that keys by auto
    show "within (map_weight one_row ?M) (row_limit s)" "within (map_weight row_bytes ?M) (byte_limit s)"
      using F(10,11) by simp_all
    show "map_weight one_row (chat_map ?M e) \<le> max_settings_rows_per_chat" for e
    proof (cases "e = c")
      case True
      then show ?thesis using F(6,9) by simp
    next
      case False
      then show ?thesis using D(6) [of e] by (simp add: chat_map_changed)
    qed
    show "distinct (map fst d')" using D(7) admit_durable_distinct by (simp add: d')
    show "durable_chat_id e" if "e \<in> fst ` set d'" for e using that c D(8) keys by (auto split: if_splits)
    have "c = 0 \<or> c \<in> fst ` set d \<or> within (Suc (length d)) (chat_limit s)"
      using F(12) pos chat_known_iff [OF mir, of c] by blast
    then show "within (length d') (chat_limit s)"
      using D(9) by (auto simp: d' admit_durable_length [OF D(7)])
  qed
qed

lemma mirror_ok_batch:
  assumes lim: "limits_ok s" and M: "map_ok s M d" and mir: "mirror_ok s M d"
    and chk: "check_mutations [] ms = Inr ()" and plan: "plan_batch c ms s = Inr (Some p)"
    and d': "d' = (if c = 0 then d else admit_durable c h d)" and c: "c = 0 \<or> durable_chat_id c"
    and t: "cache t = cache s" "chat_index t = chat_index s" "setting_rows t = setting_rows s"
      "setting_bytes t = setting_bytes s" "durable_mirror t = durable_mirror s" "durable_table t = d'"
  shows "mirror_ok (mirror_batch c p t) (changed (tagged c (plan_changes p)) M) d'"
proof -
  let ?M = "changed (tagged c (plan_changes p)) M"
  note F = plan_batch_facts [OF lim M mir chk plan]
  note D = map_okD [OF M]
  note D' = map_okD [OF map_ok_batch [OF lim M mir chk plan d' c]]
  have m: "cache_ok (cache s) M" "index_ok (chat_index s) M" "setting_rows s = map_weight one_row M"
    "setting_bytes s = map_weight row_bytes M" "chats_ok (durable_mirror s) d"
    using mir by (simp_all add: mirror_ok_def)
  have "adjust (plan_old_rows p) (plan_new_rows p) (map_weight one_row M) = map_weight one_row ?M"
    unfolding F(7) by (rule adjust_exact)
      (use F(4,7) chat_weight_le [OF D(1), of c] limits_small(1) [OF lim D(4)] limits_small(1) [OF lim D'(4)] in auto)
  moreover have "adjust (plan_old_bytes p) (plan_new_bytes p) (map_weight row_bytes M) = map_weight row_bytes ?M"
    using adjust_exact [of "plan_old_bytes p" "map_weight row_bytes M" "plan_new_bytes p"]
      limits_small(2) [OF lim D(5)] limits_small(2) [OF lim D'(5)] by (simp add: F(5,8))
  moreover have "chats_ok (if c = 0 then durable_mirror s else mirror_chat c d' (durable_mirror s)) d'"
    using m(5) by (cases "c = 0")
      (auto simp: d' admit_durable_other admit_durable_def update_conv intro!: chats_ok_mirror [of _ d])
  ultimately show ?thesis
    using cache_ok_changes [OF m(1) F(3)] index_ok_changes [OF m(2) F(3)]
    by (cases "c = 0") (simp_all add: mirror_ok_def mirror_batch_def t m)
qed

section \<open>Transactions keep the invariant\<close>

lemma settings_okD:
  assumes "settings_ok s"
  shows "limits_ok s" and "unique_key settings_key (settings_table s)"
    and "map_ok s (table_map (settings_table s)) (durable_table s)"
    and "gate_open s \<Longrightarrow> mirror_ok s (table_map (settings_table s)) (durable_table s)"
  using assms by (simp_all add: settings_ok_def tables_ok_def)

lemma settings_okI:
  assumes "limits_ok s" and "unique_key settings_key (settings_table s)"
    and "map_ok s (table_map (settings_table s)) (durable_table s)"
    and "gate_open s \<Longrightarrow> mirror_ok s (table_map (settings_table s)) (durable_table s)"
  shows "settings_ok s"
  using assms by (simp add: settings_ok_def tables_ok_def)

lemma settings_ok_closed: "settings_ok s \<Longrightarrow> settings_ok (s\<lparr>gate_open := False\<rparr>)"
  by (simp add: settings_ok_def tables_ok_def limits_ok_def map_ok_def)

lemma commit_ok:
  assumes "settings_ok s"
    and "\<And>t. written = Inr t \<Longrightarrow> settings_ok (t\<lparr>gate_open := False\<rparr>)"
    and "\<And>t. written = Inr t \<Longrightarrow> settings_ok (fst (mirror t))"
  shows "settings_ok (fst (commit_transaction conn s written mirror))"
  using assms settings_ok_closed [OF assms(1)]
  by (auto simp: commit_transaction_def split: sum.split connection.split prod.split)

lemma write_batch_eq:
  assumes "write_batch c p s = Inr t"
  shows "\<exists>h. t = s\<lparr>durable_table := (if c = 0 then durable_table s else admit_durable c h (durable_table s)),
                settings_table := write_settings c (plan_changes p) (settings_table s)\<rparr>
    \<and> (c = 0 \<or> durable_chat_id c)"
proof (cases "c = 0")
  case False
  then show ?thesis using assms by (auto simp: write_batch_def split: if_splits sum.splits)
qed (use assms in \<open>simp add: write_batch_def\<close>)

lemma settings_ok_batch:
  assumes ok: "settings_ok s"
  shows "settings_ok (fst (try_apply_batch conn c ms s))"
proof (cases "gate_open s \<and> ms \<noteq> [] \<and> check_mutations [] ms = Inr ()")
  case True
  then have gate: "gate_open s" and chk: "check_mutations [] ms = Inr ()" by simp_all
  note D = settings_okD [OF ok]
  show ?thesis
  proof (cases "plan_batch c ms s")
    case (Inr plan)
    show ?thesis
    proof (cases plan)
      case None
      then show ?thesis using True Inr ok by (simp add: try_apply_batch_def)
    next
      case (Some p)
      then have plan: "plan_batch c ms s = Inr (Some p)" using Inr by simp
      note dist = plan_batch_facts(3) [OF D(1,3) D(4) [OF gate] chk plan]
      have "settings_ok (fst (commit_transaction conn s (write_batch c p s) (\<lambda>t. (mirror_batch c p t, length (plan_changes p)))))"
      proof (rule commit_ok [OF ok])
        fix t assume "write_batch c p s = Inr t"
        then obtain h where t: "t = s\<lparr>durable_table := (if c = 0 then durable_table s else admit_durable c h (durable_table s)),
            settings_table := write_settings c (plan_changes p) (settings_table s)\<rparr>"
          and c: "c = 0 \<or> durable_chat_id c"
          using write_batch_eq by blast
        let ?M = "changed (tagged c (plan_changes p)) (table_map (settings_table s))"
        have tm: "table_map (settings_table t) = ?M" and uq: "unique_key settings_key (settings_table t)"
          by (simp_all add: t table_map_write [OF D(2) dist] write_settings_unique D(2))
        have m: "map_ok s ?M (durable_table t)"
          by (rule map_ok_batch [OF D(1,3) D(4) [OF gate] chk plan _ c, of _ h]) (simp add: t)
        have mir: "mirror_ok (mirror_batch c p t) ?M (durable_table t)"
          by (rule mirror_ok_batch [OF D(1,3) D(4) [OF gate] chk plan _ c, of _ h]) (simp_all add: t)
        have same: "map_ok u ?M (durable_table t) = map_ok s ?M (durable_table t)" "limits_ok u = limits_ok s"
          if "row_limit u = row_limit s" "byte_limit u = byte_limit s" "chat_limit u = chat_limit s" for u
          using map_ok_same that by blast+
        show "settings_ok (t\<lparr>gate_open := False\<rparr>)"
          using D(1) m same [of "t\<lparr>gate_open := False\<rparr>"] tm uq
          by (simp add: settings_ok_def tables_ok_def) (simp add: t)
        show "settings_ok (fst (mirror_batch c p t, length (plan_changes p)))"
          using D(1) m mir same [of "mirror_batch c p t"] tm uq
          by (simp add: settings_ok_def tables_ok_def) (simp add: mirror_batch_def t)
      qed
      then show ?thesis using True plan by (simp add: try_apply_batch_def)
    qed
  qed (use True ok in \<open>simp add: try_apply_batch_def\<close>)
next
  case False
  then show ?thesis using ok by (auto simp: try_apply_batch_def split: sum.split)
qed

end
