(* ===== verification/SettingsFlags.thy ===== *)
theory SettingsFlags
  imports SettingsMirror
begin

text \<open>
  \<open>set_flags\<close>, which sets or clears one key in many chats, keeps the invariant of
  \<open>SettingsMirror\<close>: its plan projects the budgets chat by chat, its statements admit and write
  every chat asked for, and its mirror follows the chats that change.
\<close>

declare One_nat_def [simp del]

section \<open>One key in many chats\<close>

definition flagged :: "utext \<Rightarrow> utext option \<Rightarrow> chat_id list \<Rightarrow> (chat_id \<times> utext, utext) change list" where
  "flagged key v = map (\<lambda>c. ((c, key), v))"

lemma flagged_simps [simp]:
  "flagged key v [] = []" "flagged key v (c # cs) = ((c, key), v) # flagged key v cs"
  "fst ` set (flagged key v cs) = (\<lambda>c. (c, key)) ` set cs"
  by (auto simp: flagged_def image_iff)

lemma flagged_distinct: "distinct cs \<Longrightarrow> distinct (map fst (flagged key v cs))"
  by (simp add: flagged_def comp_def distinct_map inj_on_def)

lemma map_of_flagged: "map_of (flagged key v cs) p = (if snd p = key \<and> fst p \<in> set cs then Some v else None)"
  by (induction cs) (auto simp: prod_eq_iff)

lemma changed_flagged:
  "changed (flagged key v cs) M p = (if snd p = key \<and> fst p \<in> set cs then v else M p)"
  by (simp add: changed_def map_of_flagged)

lemma changed_flagged_Cons:
  "changed (flagged key v (c # cs)) M = changed (flagged key v cs) (M((c, key) := v))"
  by (rule ext) (auto simp: changed_flagged prod_eq_iff simp del: flagged_simps)

lemma chat_map_upd: "chat_map (M((c, k) := v)) d = (if d = c then (chat_map M c)(k := v) else chat_map M d)"
  by (auto simp: chat_map_def fun_eq_iff)

text \<open>The vectors and the counters, without the index and the admitted chats.\<close>

definition counts_ok :: "settings_store \<Rightarrow> (chat_id \<times> utext \<Rightarrow> utext option) \<Rightarrow> bool" where
  "counts_ok s M \<longleftrightarrow> cache_ok (cache s) M \<and> setting_rows s = map_weight one_row M \<and>
     setting_bytes s = map_weight row_bytes M"

lemma cache_ok_insert:
  assumes "cache_ok m M"
  shows "cache_ok (m(c := Some (fst (chat_rows_insert k v (rows_of m c))))) (M((c, k) := Some v))"
    and "snd (chat_rows_insert k v (rows_of m c)) = M (c, k)"
proof -
  have ok: "rows_sorted (rows_of m c)" "map_of (rows_of m c) = chat_map M c" for c
    using assms by (simp_all add: cache_ok_def)
  have "rows_of (m(c := Some rows)) d = (if d = c then rows else rows_of m d)" for rows d
    by (simp add: rows_of_def)
  then show "cache_ok (m(c := Some (fst (chat_rows_insert k v (rows_of m c))))) (M((c, k) := Some v))"
    using ok chat_rows_insert_sorted [OF ok(1), of k v c] by (simp add: cache_ok_def chat_map_upd)
  show "snd (chat_rows_insert k v (rows_of m c)) = M (c, k)"
    using chat_rows_insert_sorted(3) [OF ok(1), of k v c] ok(2) [of c] by (simp add: chat_map_def)
qed

lemma cache_ok_remove:
  assumes "cache_ok m M" and "rows_of m' = (rows_of m)(c := fst (chat_rows_remove k (rows_of m c)))"
  shows "cache_ok m' (M((c, k) := None))"
    and "snd (chat_rows_remove k (rows_of m c)) = M (c, k)"
proof -
  have ok: "rows_sorted (rows_of m c)" "map_of (rows_of m c) = chat_map M c" for c
    using assms by (simp_all add: cache_ok_def)
  show "cache_ok m' (M((c, k) := None))"
    using ok chat_rows_remove_sorted [OF ok(1), of k c] assms(2) by (simp add: cache_ok_def chat_map_upd)
  show "snd (chat_rows_remove k (rows_of m c)) = M (c, k)"
    using chat_rows_remove_sorted(3) [OF ok(1), of k c] ok(2) [of c] by (simp add: chat_map_def)
qed

lemma weight_upd:
  "finite (dom M) \<Longrightarrow> map_weight w (M(p := v)) = map_weight w M - weight_of w p (M p) + weight_of w p v"
  "finite (dom M) \<Longrightarrow> weight_of w p (M p) \<le> map_weight w M"
  using map_weight_upd [of M w p v] map_weight_upd [of M w p None] by auto

lemma setting_size_exact: "text_bytes k v < usize_max \<Longrightarrow> setting_size k v = text_bytes k v"
  by (simp add: setting_size_min)

lemma mirror_flag_on:
  assumes c: "counts_ok u M" and fin: "finite (dom M)"
    and small: "map_weight one_row M < usize_max" "map_weight row_bytes M < usize_max"
      "map_weight one_row (M((c, key) := Some [])) < usize_max" "map_weight row_bytes (M((c, key) := Some [])) < usize_max"
    and key: "utf8_len key < usize_max" and new: "M (c, key) \<noteq> Some []"
  shows "counts_ok (fst (mirror_flag key True c (u, n))) (M((c, key) := Some []))"
    and "snd (mirror_flag key True c (u, n)) = Suc n"
proof -
  have cache: "cache_ok (cache u) M" and rows: "setting_rows u = map_weight one_row M"
    and bytes: "setting_bytes u = map_weight row_bytes M"
    using c by (simp_all add: counts_ok_def)
  have r: "(case cache u c of None \<Rightarrow> [] | Some rows \<Rightarrow> rows) = rows_of (cache u) c" by (simp add: rows_of_def)
  obtain rows' where ins: "chat_rows_insert key [] (rows_of (cache u) c) = (rows', M (c, key))"
    using cache_ok_insert(2) [OF cache, of key "[]" c] by (cases "chat_rows_insert key [] (rows_of (cache u) c)") auto
  have cache': "cache_ok ((cache u)(c := Some rows')) (M((c, key) := Some []))"
    using cache_ok_insert(1) [OF cache, of c key "[]"] ins by simp
  have size: "setting_size key [] = row_bytes (c, key) []"
    using key by (simp add: setting_size_min text_bytes_def row_bytes_def)
  have old: "(case M (c, key) of None \<Rightarrow> 0 | Some v \<Rightarrow> setting_size key v) = weight_of row_bytes (c, key) (M (c, key))"
  proof (cases "M (c, key)")
    case (Some v)
    have "row_bytes (c, key) v \<le> map_weight row_bytes M"
      using weight_upd(2) [OF fin, of row_bytes "(c, key)"] Some by simp
    then show ?thesis using Some small(2) by (simp add: setting_size_min row_bytes_def text_bytes_def)
  qed simp
  have b: "adjust (weight_of row_bytes (c, key) (M (c, key))) (row_bytes (c, key) []) (map_weight row_bytes M) =
      map_weight row_bytes (M((c, key) := Some []))"
    using small(2,4) weight_upd(2) [OF fin, of row_bytes "(c, key)"]
    by (subst adjust_exact) (simp_all add: weight_upd(1) [OF fin])
  have n: "(if M (c, key) = None then wrapping_usize_add (map_weight one_row M) 1 else map_weight one_row M) =
      map_weight one_row (M((c, key) := Some []))"
  proof (cases "M (c, key)")
    case None
    then show ?thesis using small(1,3) by (simp add: weight_upd(1) [OF fin] wrapping_usize_add_id usize_max_def)
  next
    case (Some v)
    then show ?thesis using weight_upd(2) [OF fin, of one_row "(c, key)"] by (simp add: weight_upd(1) [OF fin])
  qed
  show "counts_ok (fst (mirror_flag key True c (u, n))) (M((c, key) := Some []))"
    using cache' by (simp add: mirror_flag_def r ins counts_ok_def old size rows bytes b del: fun_upd_apply One_nat_def)
      (use n in \<open>auto split: if_splits simp del: fun_upd_apply One_nat_def\<close>)
  show "snd (mirror_flag key True c (u, n)) = Suc n"
    using new by (simp add: mirror_flag_def r ins)
qed


section \<open>Setting the flag in the chats of a list\<close>

definition admitted :: "chat_id \<Rightarrow> int \<Rightarrow> (chat_id \<times> int) list \<Rightarrow> (chat_id \<times> int) list" where
  "admitted c h d = (if c = 0 then d else admit_durable c h d)"

lemma admitted_keys: "fst ` set (admitted c h d) = (if c = 0 then fst ` set d else insert c (fst ` set d))"
  by (simp add: admitted_def admit_durable_keys)

lemma admitted_length:
  "distinct (map fst d) \<Longrightarrow>
   length (admitted c h d) = (if c = 0 \<or> c \<in> fst ` set d then length d else Suc (length d))"
  by (auto simp: admitted_def admit_durable_length)

lemma chat_map_upd_count:
  assumes "finite (dom M)"
  shows "map_weight one_row (chat_map (M((c, k) := Some v)) e) =
    (if e = c \<and> M (c, k) = None then Suc (map_weight one_row (chat_map M e)) else map_weight one_row (chat_map M e))"
proof -
  note f = finite_chat_map [OF assms, of c]
  have "weight_of one_row k (chat_map M c k) \<le> map_weight one_row (chat_map M c)" by (rule weight_upd(2) [OF f])
  then show ?thesis
    by (cases "M (c, k)") (auto simp: chat_map_upd weight_upd(1) [OF f] chat_map_def)
qed

lemma limits_chat: "limits_ok s \<Longrightarrow> within n (chat_limit s) \<Longrightarrow> n < usize_max"
  by (auto simp: limits_ok_def within_def over_def is_some_and_iff usize_max_def usize_limit_def)

lemma map_ok_flag:
  assumes M: "map_ok s M d" and v: "setting_ok (c, key) []" and c: "c = 0 \<or> durable_chat_id c"
    and rows: "within (map_weight one_row (M((c, key) := Some []))) (row_limit s)"
    and bytes: "within (map_weight row_bytes (M((c, key) := Some []))) (byte_limit s)"
    and chat: "map_weight one_row (chat_map M c) < max_settings_rows_per_chat \<or> M (c, key) \<noteq> None"
    and chats: "c = 0 \<or> c \<in> fst ` set d \<or> within (Suc (length d)) (chat_limit s)"
  shows "map_ok s (M((c, key) := Some [])) (admitted c h d)"
proof (rule map_okI [OF M])
  note D = map_okD [OF M]
  show "finite (dom (M((c, key) := Some [])))" using D(1) by simp
  show "M p = Some w \<or> setting_ok p w \<and> (fst p = 0 \<or> fst p \<in> fst ` set (admitted c h d))"
    if "(M((c, key) := Some [])) p = Some w" for p w
    using that v by (auto simp: admitted_keys split: if_splits)
  show "fst p \<in> fst ` set (admitted c h d)" if "fst p \<in> fst ` set d" for p :: "chat_id \<times> utext"
    using that by (simp add: admitted_keys)
  show "map_weight one_row (chat_map (M((c, key) := Some [])) e) \<le> max_settings_rows_per_chat" for e
    using D(6) [of e] chat unfolding chat_map_upd_count [OF D(1)] by auto
  show "distinct (map fst (admitted c h d))" using D(7) by (simp add: admitted_def admit_durable_distinct)
  show "durable_chat_id e" if "e \<in> fst ` set (admitted c h d)" for e
    using that c D(8) by (auto simp: admitted_keys split: if_splits)
  show "within (length (admitted c h d)) (chat_limit s)"
    using chats D(9) by (auto simp: admitted_length [OF D(7)])
qed (use rows bytes in simp_all)

text \<open>The cache of the chats still to come is that of the map reached so far.\<close>

definition plan_at ::
  "settings_store \<Rightarrow> (chat_id \<times> utext \<Rightarrow> utext option) \<Rightarrow> (chat_id \<times> int) list \<Rightarrow> chat_id list \<Rightarrow> flag_projection \<Rightarrow> bool" where
  "plan_at s M d cs p \<longleftrightarrow>
     (\<forall>c \<in> set cs. (\<forall>k. setting_text (cache s c) k = M (c, k)) \<and>
        length (rows_of (cache s) c) = map_weight one_row (chat_map M c) \<and>
        (chat_known s c \<longleftrightarrow> c = 0 \<or> c \<in> fst ` set d)) \<and>
     proj_rows p = map_weight one_row M \<and> map_weight row_bytes M \<le> proj_bytes p \<and>
     within (proj_bytes p) (byte_limit s) \<and> proj_chats p = length d"


lemma plan_at_step:
  assumes "plan_at s M d (c # cs) p" and "distinct (c # cs)"
    and "proj_rows p' = map_weight one_row (M((c, key) := v))"
    and "map_weight row_bytes (M((c, key) := v)) \<le> proj_bytes p'" and "within (proj_bytes p') (byte_limit s)"
    and "proj_chats p' = length (admitted c h d)"
  shows "plan_at s (M((c, key) := v)) (admitted c h d) cs p'"
  using assms by (auto simp: plan_at_def chat_map_upd admitted_keys)

lemma row_flag:
  "finite (dom M) \<Longrightarrow> map_weight one_row (M(p := Some v)) = (if M p = None then Suc (map_weight one_row M) else map_weight one_row M)"
  using weight_upd(2) [of M one_row p] by (auto simp: weight_upd(1))

lemma flag_step:
  assumes lim: "limits_ok s" and key: "setting_ok (c, key) []"
    and at: "plan_at s M d (c # cs) p" and dist: "distinct (c # cs)" and M: "map_ok s M d"
    and plan: "flag_plan s key (c # cs) p = Inr q" and c: "c = 0 \<or> durable_chat_id c"
  shows "\<exists>p'. flag_plan s key cs p' = Inr q \<and> plan_at s (M((c, key) := Some [])) (admitted c h d) cs p' \<and>
    map_ok s (M((c, key) := Some [])) (admitted c h d) \<and>
    flag_changes p' = flag_changes p @ (if M (c, key) = Some [] then [] else [c])"
proof -
  note D = map_okD [OF M]
  have a: "setting_text (cache s c) key = M (c, key)"
      "length (rows_of (cache s) c) = map_weight one_row (chat_map M c)"
      "chat_known s c \<longleftrightarrow> c = 0 \<or> c \<in> fst ` set d"
      "proj_rows p = map_weight one_row M" "map_weight row_bytes M \<le> proj_bytes p"
      "within (proj_bytes p) (byte_limit s)" "proj_chats p = length d"
    using at by (simp_all add: plan_at_def)
  have w: "row_bytes (c, key) [] = utf8_len key" by (simp add: row_bytes_def)
  show ?thesis
  proof (cases "M (c, key)")
    case (Some v)
    let ?p = "if v = [] then p else p\<lparr>flag_changes := flag_changes p @ [c]\<rparr>"
    have known: "c = 0 \<or> c \<in> fst ` set d" using D(3) [OF Some] by simp
    have bytes: "map_weight row_bytes (M((c, key) := Some [])) \<le> map_weight row_bytes M"
      using weight_upd [OF D(1), of row_bytes "(c, key)"] Some by (simp add: row_bytes_def)
    have "flag_plan s key cs ?p = Inr q" using plan a(1) Some by simp
    moreover have "plan_at s (M((c, key) := Some [])) (admitted c h d) cs ?p"
      by (rule plan_at_step [OF at dist])
        (use a known bytes Some in \<open>auto simp: row_flag [OF D(1)] admitted_length [OF D(7)]\<close>)
    moreover have "map_ok s (M((c, key) := Some [])) (admitted c h d)"
      by (rule map_ok_flag [OF M key c])
        (use D(4,5) bytes known Some in \<open>auto simp: row_flag [OF D(1)] within_def over_def is_some_and_iff\<close>)
    ultimately show ?thesis using Some by (intro exI [of _ ?p]) auto
  next
    case None
    let ?b = "saturating_usize_add (proj_bytes p) (setting_size key [])"
    let ?p = "\<lparr>proj_rows = saturating_usize_add (proj_rows p) 1, proj_bytes = ?b,
        proj_chats = saturating_usize_add (proj_chats p) (if \<not> chat_known s c then 1 else 0),
        flag_changes = flag_changes p @ [c]\<rparr>"
    have len: "(case cache s c of None \<Rightarrow> 0 | Some rows \<Rightarrow> length rows) = map_weight one_row (chat_map M c)"
      using a(2) by (simp add: rows_of_def split: option.splits)
    have f: "\<not> max_settings_rows_per_chat \<le> map_weight one_row (chat_map M c)"
        "\<not> is_some_and (\<lambda>m. m \<le> map_weight one_row M) (row_limit s)"
        "chat_known s c \<or> \<not> is_some_and (\<lambda>m. m \<le> length d) (chat_limit s)"
        "\<not> over ?b (byte_limit s)" "flag_plan s key cs ?p = Inr q"
      using plan None unfolding flag_plan.simps a(1) Let_def option.case len a(4,7)
      by (auto split: if_splits)
    have rows: "map_weight one_row (M((c, key) := Some [])) = Suc (map_weight one_row M)"
      by (simp add: row_flag [OF D(1)] None)
    have bytes: "map_weight row_bytes (M((c, key) := Some [])) = map_weight row_bytes M + utf8_len key"
      by (simp add: weight_upd(1) [OF D(1)] None w)
    obtain b where b: "?b \<le> b" "b < usize_max" "byte_limit s = Some b" using limits_over(2) [OF lim f(4)] by blast
    have klen: "utf8_len key < usize_max"
      using key by (simp add: setting_ok_def max_setting_key_bytes_def usize_max_def usize_limit_def)
    have exact: "?b = proj_bytes p + utf8_len key"
      using b klen by (auto simp: setting_size_min text_bytes_def saturating_usize_add_def usize_max_def min_def split: if_splits)
    have "plan_at s (M((c, key) := Some [])) (admitted c h d) cs ?p"
    proof (rule plan_at_step [OF at dist])
      show "proj_rows ?p = map_weight one_row (M((c, key) := Some []))"
        using limits_small(1) [OF lim D(4)] by (simp add: rows a(4) saturating_usize_add_def usize_max_def)
      show "map_weight row_bytes (M((c, key) := Some [])) \<le> proj_bytes ?p" using a(5) by (simp add: bytes exact)
      show "within (proj_bytes ?p) (byte_limit s)" using f(4) by (simp add: within_def)
      show "proj_chats ?p = length (admitted c h d)"
        using limits_chat [OF lim D(9)] by (simp add: a(3,7) admitted_length [OF D(7)] saturating_usize_add_def usize_max_def)
    qed
    moreover have "map_ok s (M((c, key) := Some [])) (admitted c h d)"
    proof (rule map_ok_flag [OF M key c])
      show "within (map_weight one_row (M((c, key) := Some []))) (row_limit s)"
        using f(2) by (auto simp: rows within_def over_def is_some_and_iff)
      show "within (map_weight row_bytes (M((c, key) := Some []))) (byte_limit s)"
        using f(4) a(5) by (auto simp: bytes exact within_def over_def is_some_and_iff)
      show "map_weight one_row (chat_map M c) < max_settings_rows_per_chat \<or> M (c, key) \<noteq> None" using f(1) by simp
      show "c = 0 \<or> c \<in> fst ` set d \<or> within (Suc (length d)) (chat_limit s)"
        using f(3) by (auto simp: a(3) within_def over_def is_some_and_iff)
    qed
    ultimately show ?thesis using f(5) None by (intro exI [of _ ?p]) simp
  qed
qed

text \<open>The plan, the admissions and the mirror of the changed chats, over the list of the chats.\<close>

lemma flags_on:
  assumes lim: "limits_ok s" and key: "\<And>c. setting_ok (c, key) []"
  shows "plan_at s M d cs p \<Longrightarrow> distinct cs \<Longrightarrow> map_ok s M d \<Longrightarrow> flag_plan s key cs p = Inr q \<Longrightarrow>
    admit_all t cs d = Inr d' \<Longrightarrow>
    map_ok s (changed (flagged key (Some []) cs) M) d' \<and>
    flag_changes q = flag_changes p @ filter (\<lambda>c. M (c, key) \<noteq> Some []) cs \<and>
    (\<forall>u n. counts_ok u M \<longrightarrow>
       (case fold (mirror_flag key True) (filter (\<lambda>c. M (c, key) \<noteq> Some []) cs) (u, n) of (u', n') \<Rightarrow>
          counts_ok u' (changed (flagged key (Some []) cs) M) \<and>
          n' = n + length (filter (\<lambda>c. M (c, key) \<noteq> Some []) cs)))"
proof (induction cs arbitrary: M d p)
  case Nil
  then show ?case by simp
next
  case (Cons c cs)
  let ?chs = "filter (\<lambda>c. M (c, key) \<noteq> Some []) cs"
  define N where N: "N = M((c, key) := Some [])"
  note D = map_okD [OF Cons.prems(3)]
  have "\<exists>h. (c = 0 \<or> durable_chat_id c) \<and> admit_all t cs (admitted c h d) = Inr d'"
    using Cons.prems(5) by (auto simp: admitted_def split: if_splits sum.splits)
  then obtain h where c: "c = 0 \<or> durable_chat_id c" and adm: "admit_all t cs (admitted c h d) = Inr d'" by blast
  obtain p' where p': "flag_plan s key cs p' = Inr q" "plan_at s N (admitted c h d) cs p'"
      "map_ok s N (admitted c h d)"
      "flag_changes p' = flag_changes p @ (if M (c, key) = Some [] then [] else [c])"
    using flag_step [OF lim key Cons.prems(1,2,3,4) c] unfolding N by blast
  note D' = map_okD [OF p'(3)]
  have same: "filter (\<lambda>e. N (e, key) \<noteq> Some []) cs = ?chs"
    using Cons.prems(2) by (auto simp: N intro!: filter_cong)
  have IH: "map_ok s (changed (flagged key (Some []) (c # cs)) M) d'"
      "flag_changes q = flag_changes p' @ ?chs"
      "\<forall>u n. counts_ok u N \<longrightarrow>
         (case fold (mirror_flag key True) ?chs (u, n) of (u', n') \<Rightarrow>
            counts_ok u' (changed (flagged key (Some []) (c # cs)) M) \<and> n' = n + length ?chs)"
    using Cons.IH [OF p'(2) _ p'(3,1) adm] Cons.prems(2) unfolding same changed_flagged_Cons N [symmetric] by simp_all
  have "case fold (mirror_flag key True) (filter (\<lambda>c. M (c, key) \<noteq> Some []) (c # cs)) (u, n) of (u', n') \<Rightarrow>
      counts_ok u' (changed (flagged key (Some []) (c # cs)) M) \<and>
      n' = n + length (filter (\<lambda>c. M (c, key) \<noteq> Some []) (c # cs))" if u: "counts_ok u M" for u n
  proof (cases "M (c, key) = Some []")
    case True
    then have "N = M" by (auto simp: N)
    then show ?thesis using IH(3) [rule_format, of u n] u True by (simp del: flagged_simps)
  next
    case False
    have klen: "utf8_len key < usize_max"
      using key by (simp add: setting_ok_def max_setting_key_bytes_def usize_max_def usize_limit_def)
    note m = mirror_flag_on [OF u D(1) limits_small(1) [OF lim D(4)] limits_small(2) [OF lim D(5)],
        of c key, folded N, OF limits_small(1) [OF lim D'(4)] limits_small(2) [OF lim D'(5)] klen False, of n]
    obtain u1 where u1: "mirror_flag key True c (u, n) = (u1, Suc n)" using m(2) by (cases "mirror_flag key True c (u, n)") auto
    then show ?thesis using IH(3) [rule_format, of u1 "Suc n"] m(1) False by (simp split: prod.splits del: flagged_simps)
  qed
  then show ?case using IH(1,2) p'(4) by (simp del: flagged_simps)
qed


section \<open>Clearing the flag\<close>

lemma mirror_flag_off:
  assumes c: "counts_ok u M" and fin: "finite (dom M)"
    and small: "map_weight one_row M < usize_max" "map_weight row_bytes M < usize_max"
    and old: "M (c, key) = Some v"
  shows "counts_ok (fst (mirror_flag key False c (u, n))) (M((c, key) := None))"
    and "snd (mirror_flag key False c (u, n)) = Suc n"
proof -
  have cache: "cache_ok (cache u) M" and rows: "setting_rows u = map_weight one_row M"
    and bytes: "setting_bytes u = map_weight row_bytes M"
    using c by (simp_all add: counts_ok_def)
  have r: "(case cache u c of None \<Rightarrow> [] | Some rows \<Rightarrow> rows) = rows_of (cache u) c" by (simp add: rows_of_def)
  obtain rows' where del: "chat_rows_remove key (rows_of (cache u) c) = (rows', Some v)"
    using chat_rows_remove_sorted(3) [of "rows_of (cache u) c" key] cache old
    by (cases "chat_rows_remove key (rows_of (cache u) c)") (simp add: cache_ok_def chat_map_def)
  have cache': "cache_ok m' (M((c, key) := None))" if "rows_of m' = (rows_of (cache u))(c := rows')" for m'
    by (rule cache_ok_remove(1) [OF cache]) (use that del in simp)
  have "rows_of (if rows' = [] \<and> c \<noteq> 0 then (cache u)(c := None) else (cache u)(c := Some rows')) =
      (rows_of (cache u))(c := rows')"
    by (auto simp: rows_of_def)
  note cache' = cache' [OF this]
  have le: "row_bytes (c, key) v \<le> map_weight row_bytes M" "1 \<le> map_weight one_row M"
    using weight_upd(2) [OF fin, of row_bytes "(c, key)"] weight_upd(2) [OF fin, of one_row "(c, key)"] old by simp_all
  have size: "setting_size key v = row_bytes (c, key) v"
    using le(1) small(2) by (simp add: setting_size_min row_bytes_def text_bytes_def)
  have w: "map_weight one_row (M((c, key) := None)) = map_weight one_row M - 1"
    "map_weight row_bytes (M((c, key) := None)) = map_weight row_bytes M - row_bytes (c, key) v"
    by (simp_all add: weight_upd(1) [OF fin] old)
  have n: "wrapping_usize_sub (map_weight one_row M) 1 = map_weight one_row (M((c, key) := None))"
    "wrapping_usize_sub (map_weight row_bytes M) (row_bytes (c, key) v) = map_weight row_bytes (M((c, key) := None))"
    unfolding w using small le by (intro wrapping_usize_sub_id; simp add: usize_max_def)+
  show "counts_ok (fst (mirror_flag key False c (u, n))) (M((c, key) := None))"
    using cache' by (simp add: mirror_flag_def r del counts_ok_def size rows bytes n del: fun_upd_apply)
  show "snd (mirror_flag key False c (u, n)) = Suc n"
    by (simp add: mirror_flag_def r del)
qed

text \<open>A part of the contents is within the budgets when the whole is.\<close>

lemma submap_weight:
  assumes "finite (dom M)" and "\<And>p v. M' p = Some v \<Longrightarrow> M p = Some v"
  shows "map_weight w M' \<le> map_weight w M"
proof -
  have "map_weight w M' = (\<Sum>p \<in> dom M'. weight_of w p (M p))"
    unfolding map_weight_def by (rule sum.cong) (use assms(2) in auto)
  also have "... \<le> map_weight w M"
    unfolding map_weight_def by (rule sum_mono2 [OF assms(1)]) (use assms(2) in auto)
  finally show ?thesis .
qed

lemma map_ok_sub:
  assumes M: "map_ok s M d" and sub: "\<And>p v. M' p = Some v \<Longrightarrow> M p = Some v \<and> (fst p = 0 \<or> fst p \<in> fst ` set d')"
    and d': "distinct (map fst d')" "fst ` set d' \<subseteq> fst ` set d"
  shows "map_ok s M' d'"
  unfolding map_ok_def
proof (intro conjI allI impI ballI)
  note D = map_okD [OF M]
  have fin: "finite (dom M')" by (rule finite_subset [OF _ D(1)]) (use sub in auto)
  show "finite (dom M')" by (rule fin)
  show "setting_ok p v" "fst p = 0 \<or> fst p \<in> fst ` set d'" if "M' p = Some v" for p v
    using sub [OF that] D(2) by blast+
  show "within (map_weight one_row M') (row_limit s)" "within (map_weight row_bytes M') (byte_limit s)"
    using D(4,5) submap_weight [OF D(1), of M', where w = one_row] submap_weight [OF D(1), of M', where w = row_bytes] sub
    by (auto simp: within_def over_def is_some_and_iff dest: le_less_trans)
  show "map_weight one_row (chat_map M' c) \<le> max_settings_rows_per_chat" for c
    using D(6) [of c] submap_weight [OF finite_chat_map [OF D(1), of c], of "chat_map M' c", where w = one_row] sub
    by (fastforce simp: chat_map_def)
  show "distinct (map fst d')" by (rule d'(1))
  show "durable_chat_id c" if "c \<in> fst ` set d'" for c using that d'(2) D(8) by blast
  have "length d' = card (fst ` set d')" "length d = card (fst ` set d)"
    using distinct_card [OF d'(1)] distinct_card [OF D(7)] by simp_all
  then have "length d' \<le> length d" using card_mono [OF _ d'(2)] by simp
  then show "within (length d') (chat_limit s)" using D(9) by (auto simp: within_def over_def is_some_and_iff)
qed

lemma flags_off:
  shows "distinct cs \<Longrightarrow> finite (dom M) \<Longrightarrow> map_weight one_row M < usize_max \<Longrightarrow> map_weight row_bytes M < usize_max \<Longrightarrow>
    counts_ok u M \<Longrightarrow>
    (case fold (mirror_flag key False) (filter (\<lambda>c. M (c, key) \<noteq> None) cs) (u, n) of (u', n') \<Rightarrow>
       counts_ok u' (changed (flagged key None cs) M) \<and>
       n' = n + length (filter (\<lambda>c. M (c, key) \<noteq> None) cs))"
proof (induction cs arbitrary: M u n)
  case Nil
  then show ?case by simp
next
  case (Cons c cs)
  let ?chs = "filter (\<lambda>c. M (c, key) \<noteq> None) cs"
  define N where N: "N = M((c, key) := None)"
  have "map_weight w N \<le> map_weight w M" for w
    by (rule submap_weight [OF Cons.prems(2)]) (auto simp: N split: if_splits)
  from this [of one_row] this [of row_bytes]
  have W: "finite (dom N)" "map_weight one_row N < usize_max" "map_weight row_bytes N < usize_max"
    using Cons.prems(2,3,4) by (simp_all add: N)
  have same: "filter (\<lambda>e. N (e, key) \<noteq> None) cs = ?chs" using Cons.prems(1) by (auto simp: N intro!: filter_cong)
  have IH: "case fold (mirror_flag key False) ?chs (u, n) of (u', n') \<Rightarrow>
      counts_ok u' (changed (flagged key None (c # cs)) M) \<and> n' = n + length ?chs" if "counts_ok u N" for u n
    using Cons.IH [OF _ W that, of n] Cons.prems(1) unfolding same changed_flagged_Cons N [symmetric] by simp
  show ?case
  proof (cases "M (c, key)")
    case None
    then have "N = M" by (auto simp: N)
    then show ?thesis using IH [of u n] Cons.prems(5) None by (simp del: flagged_simps)
  next
    case (Some v)
    note m = mirror_flag_off [OF Cons.prems(5,2,3,4) Some, of n, folded N]
    obtain u1 where "mirror_flag key False c (u, n) = (u1, Suc n)" using m(2) by (cases "mirror_flag key False c (u, n)") auto
    then show ?thesis using IH [of u1 "Suc n"] m(1) Some by (simp split: prod.splits del: flagged_simps)
  qed
qed


section \<open>\<open>set_flags\<close> keeps the invariant\<close>

lemma table_map_flags:
  "unique_key settings_key t \<Longrightarrow>
   unique_key settings_key (fold (\<lambda>c. put_settings c [(key, v)]) ids t) \<and>
   table_map (fold (\<lambda>c. put_settings c [(key, v)]) ids t) = changed (flagged key (Some v) ids) (table_map t)"
proof (induction ids arbitrary: t)
  case (Cons c ids)
  have "table_map (put_settings c [(key, v)] t) = (table_map t)((c, key) := Some v)"
    using table.lookup_put [OF Cons.prems, of "(c, key)" v] by simp
  with Cons.IH [OF put_settings_unique [OF Cons.prems], of c "[(key, v)]"] show ?case
    unfolding changed_flagged_Cons fold_simps by (simp only: simp_thms)
qed simp

lemma table_map_unflags:
  assumes "unique_key settings_key t"
  shows "table_map (sql_delete (\<lambda>r. st_key r = key \<and> st_chat r \<in> set ids) t) = changed (flagged key None ids) (table_map t)"
  by (rule ext) (auto simp: table_map_def row_at_delete [OF assms] changed_flagged settings_key_def
      dest!: row_at_Some split: option.splits)

lemma admit_all_other:
  "admit_all t cs d = Inr d' \<Longrightarrow> e \<notin> set cs \<or> e = 0 \<Longrightarrow> map_of d' e = map_of d e"
proof (induction cs arbitrary: d)
  case (Cons c cs)
  then show ?case by (auto simp: admit_durable_other split: if_splits sum.splits)
qed simp

lemma admit_all_keeps: "admit_all t cs d = Inr d' \<Longrightarrow> map_of d e \<noteq> None \<Longrightarrow> map_of d' e \<noteq> None"
proof (induction cs arbitrary: d)
  case (Cons c cs)
  then show ?case by (auto simp: admit_durable_def update_conv split: if_splits sum.splits)
qed simp

lemma fold_mirror_chat:
  "distinct (map fst m) \<Longrightarrow>
   distinct (map fst (fold (\<lambda>c. if c = 0 then id else mirror_chat c d) cs m)) \<and>
   map_of (fold (\<lambda>c. if c = 0 then id else mirror_chat c d) cs m) e =
     (if e \<in> set cs \<and> e \<noteq> 0 \<and> map_of d e \<noteq> None then map_of d e else map_of m e)"
proof (induction cs arbitrary: m)
  case (Cons c cs)
  have "distinct (map fst (mirror_chat c d m))"
    using Cons.prems by (simp add: mirror_chat_def distinct_update split: option.split)
  with Cons.IH [of m] Cons.IH [of "mirror_chat c d m"] Cons.prems show ?case
    by (auto simp: mirror_chat_def update_conv split: option.split)
qed simp

lemma chats_ok_admit_all:
  assumes "admit_all t cs d = Inr d'" and "chats_ok m d"
  shows "chats_ok (fold (\<lambda>c. if c = 0 then id else mirror_chat c d') cs m) d'"
proof -
  have m: "distinct (map fst m)" "map_of m = map_of d" using assms(2) by (simp_all add: chats_ok_def)
  have "(if e \<in> set cs \<and> e \<noteq> 0 \<and> map_of d' e \<noteq> None then map_of d' e else map_of d e) = map_of d' e" for e
    using admit_all_other [OF assms(1), of e] admit_all_keeps [OF assms(1), of e]
    by (cases "map_of d' e"; cases "map_of d e") auto
  then have "map_of (fold (\<lambda>c. if c = 0 then id else mirror_chat c d') cs m) e = map_of d' e" for e
    unfolding conjunct2 [OF fold_mirror_chat [OF m(1), of d' cs e]] m(2) .
  then show ?thesis
    using fold_mirror_chat [OF m(1), of d' cs] unfolding chats_ok_def by blast
qed

lemma index_ok_flags:
  "index_ok idx M \<Longrightarrow> index_ok (fold (\<lambda>c. reindex c key (v \<noteq> None)) cs idx) (changed (flagged key v cs) M)"
proof (induction cs arbitrary: idx M)
  case (Cons c cs)
  show ?case
    using Cons.IH [OF index_ok_reindex [OF Cons.prems, of c key v]]
    unfolding changed_flagged_Cons fold_simps by (simp only: comp_def)
qed simp

lemma changed_flagged_filter:
  "changed (flagged key v (filter (\<lambda>c. M (c, key) \<noteq> v) cs)) M = changed (flagged key v cs) M"
  by (rule ext) (auto simp: changed_flagged prod_eq_iff)

lemma sorted_ids_facts [simp]: "distinct (sorted_ids chats)" "set (sorted_ids chats) = set chats"
proof -
  have "distinct (remdups_adj xs)" if "sorted xs" for xs :: "int list"
    using that by (induction xs rule: remdups_adj.induct) (auto simp: dual_order.antisym)
  then show "distinct (sorted_ids chats)" by (simp add: sorted_ids_def)
qed (simp add: sorted_ids_def)

lemma plan_at_start:
  assumes lim: "limits_ok s" and M: "map_ok s M d" and mir: "mirror_ok s M d"
  shows "plan_at s M d cs \<lparr>proj_rows = setting_rows s, proj_bytes = setting_bytes s, proj_chats = known_chats s,
    flag_changes = []\<rparr>"
  using mir map_okD [OF M] chat_known_iff [OF mir] cache_ok_text cache_ok_length known_chats_eq
  by (auto simp: plan_at_def mirror_ok_def)


lemma settings_ok_same_limits:
  assumes "limits_ok s" and "row_limit u = row_limit s" "byte_limit u = byte_limit s" "chat_limit u = chat_limit s"
    and "unique_key settings_key (settings_table u)" and "map_ok s (table_map (settings_table u)) (durable_table u)"
    and "gate_open u \<Longrightarrow> mirror_ok u (table_map (settings_table u)) (durable_table u)"
  shows "settings_ok u"
  by (rule settings_okI) (use assms map_ok_same [of u s] in simp_all)

lemma mirror_okI:
  assumes "counts_ok u M" and "index_ok (chat_index u) M" and "chats_ok (durable_mirror u) d"
  shows "mirror_ok u M d"
  using assms by (simp add: mirror_ok_def counts_ok_def)

lemma mirror_okD:
  assumes "mirror_ok s M d"
  shows "counts_ok s M" and "index_ok (chat_index s) M" and "chats_ok (durable_mirror s) d" and "cache_ok (cache s) M"
  using assms by (simp_all add: mirror_ok_def counts_ok_def)

text \<open>The mirror fold touches the vectors and the counters only.\<close>

lemma mirror_flag_frame:
  "settings_table (fst (fold (mirror_flag key on) cs sn)) = settings_table (fst sn)"
  "durable_table (fst (fold (mirror_flag key on) cs sn)) = durable_table (fst sn)"
  "chat_index (fst (fold (mirror_flag key on) cs sn)) = chat_index (fst sn)"
  "durable_mirror (fst (fold (mirror_flag key on) cs sn)) = durable_mirror (fst sn)"
  "gate_open (fst (fold (mirror_flag key on) cs sn)) = gate_open (fst sn)"
  "row_limit (fst (fold (mirror_flag key on) cs sn)) = row_limit (fst sn)"
  "byte_limit (fst (fold (mirror_flag key on) cs sn)) = byte_limit (fst sn)"
  "chat_limit (fst (fold (mirror_flag key on) cs sn)) = chat_limit (fst sn)"
  by (induction cs arbitrary: sn)
    (simp_all add: mirror_flag_def Let_def split: prod.split option.split)

lemma counts_ok_same:
  "cache t = cache s \<Longrightarrow> setting_rows t = setting_rows s \<Longrightarrow> setting_bytes t = setting_bytes s \<Longrightarrow>
   counts_ok t M = counts_ok s M"
  by (simp add: counts_ok_def)

lemma settings_ok_mirror_flags:
  assumes lim: "limits_ok s" "row_limit t = row_limit s" "byte_limit t = byte_limit s" "chat_limit t = chat_limit s"
    and tab: "unique_key settings_key (settings_table t)" "table_map (settings_table t) = N" "map_ok s N (durable_table t)"
    and counts: "case fold (mirror_flag key on) chs (t, 0) of (u, n) \<Rightarrow> counts_ok u N"
    and index: "index_ok (fold (\<lambda>c. reindex c key on) chs (chat_index t)) N"
    and chats: "chats_ok (if on then fold (\<lambda>c. if c = 0 then id else mirror_chat c (durable_table t)) ids (durable_mirror t)
      else durable_mirror t) (durable_table t)"
  shows "settings_ok (fst (mirror_flags chs ids key on t))"
proof (rule settings_ok_same_limits [OF lim(1)])
  let ?u = "fst (mirror_flags chs ids key on t)"
  obtain u n where u: "fold (mirror_flag key on) chs (t, 0) = (u, n)" by fastforce
  note frame = mirror_flag_frame [where on = on and sn = "(t, 0)" and cs = chs and key = key, unfolded u fst_conv]
  have eq: "?u = u\<lparr>chat_index := fold (\<lambda>c. reindex c key on) chs (chat_index t),
      durable_mirror := (if on then fold (\<lambda>c. if c = 0 then id else mirror_chat c (durable_table t)) ids (durable_mirror t)
      else durable_mirror t)\<rparr>"
    using u frame(2,3,4) by (cases on) (simp_all add: mirror_flags_def cong: if_cong)
  show "unique_key settings_key (settings_table ?u)" "map_ok s (table_map (settings_table ?u)) (durable_table ?u)"
    using tab frame by (simp_all add: eq)
  show "row_limit ?u = row_limit s" "byte_limit ?u = byte_limit s" "chat_limit ?u = chat_limit s"
    using frame lim by (simp_all add: eq)
  have "counts_ok ?u N \<longleftrightarrow> counts_ok u N" by (rule counts_ok_same) (simp_all add: eq)
  then have "counts_ok ?u N" using counts by (simp add: u)
  then show "mirror_ok ?u (table_map (settings_table ?u)) (durable_table ?u)"
    using index tab frame chats by (intro mirror_okI) (simp_all add: eq)
qed

lemma settings_ok_flags_on:
  assumes ok: "settings_ok s" and gate: "gate_open s" and key: "\<And>c. setting_ok (c, key) []"
    and plan: "flag_plan s key (sorted_ids chats) \<lparr>proj_rows = setting_rows s, proj_bytes = setting_bytes s,
      proj_chats = known_chats s, flag_changes = []\<rparr> = Inr q"
    and written: "write_flags (sorted_ids chats) key True s = Inr t"
  shows "settings_ok (t\<lparr>gate_open := False\<rparr>)"
    and "settings_ok (fst (mirror_flags (flag_changes q) (sorted_ids chats) key True t))"
proof -
  note D = settings_okD [OF ok]
  let ?M = "table_map (settings_table s)" and ?ids = "sorted_ids chats"
  note mir = D(4) [OF gate]
  obtain d where d: "admit_all (settings_table s) ?ids (durable_table s) = Inr d"
    and t: "t = s\<lparr>durable_table := d, settings_table := fold (\<lambda>c. put_settings c [(key, [])]) ?ids (settings_table s)\<rparr>"
    using written by (auto simp: write_flags_def split: sum.splits)
  define N where N: "N = changed (flagged key (Some []) ?ids) ?M"
  note tm = table_map_flags [OF D(2), of key "[]" ?ids, folded N]
  note F = flags_on [OF D(1) key plan_at_start [OF D(1,3) mir] sorted_ids_facts(1) D(3) plan d, folded N]
  have chs: "flag_changes q = filter (\<lambda>c. ?M (c, key) \<noteq> Some []) ?ids" using F by simp
  have tt: "unique_key settings_key (settings_table t)" "table_map (settings_table t) = N" "durable_table t = d"
    using tm by (simp_all add: t)
  show "settings_ok (t\<lparr>gate_open := False\<rparr>)"
    by (rule settings_ok_same_limits [OF D(1)]) (use F tt in \<open>simp_all add: t\<close>)
  show "settings_ok (fst (mirror_flags (flag_changes q) ?ids key True t))"
  proof (rule settings_ok_mirror_flags [OF D(1) _ _ _ tt(1,2)])
    have "counts_ok t ?M" using mirror_okD(1) [OF mir] by (simp add: t counts_ok_def)
    then show "case fold (mirror_flag key True) (flag_changes q) (t, 0) of (u, n) \<Rightarrow> counts_ok u N"
      using conjunct2 [OF conjunct2 [OF F], rule_format, of t 0] unfolding chs by (auto split: prod.splits)
    show "index_ok (fold (\<lambda>c. reindex c key True) (flag_changes q) (chat_index t)) N"
      using index_ok_flags [OF mirror_okD(2) [OF mir], of key "Some []" "flag_changes q"]
        changed_flagged_filter [of key "Some []" ?M ?ids]
      by (simp add: chs N t)
    show "chats_ok (if True then fold (\<lambda>c. if c = 0 then id else mirror_chat c (durable_table t)) ?ids (durable_mirror t)
        else durable_mirror t) (durable_table t)"
      using chats_ok_admit_all [OF d mirror_okD(3) [OF mir]] tt(3) by (simp add: t cong: if_cong)
  qed (use F tt in \<open>simp_all add: t\<close>)
qed

lemma settings_ok_flags_off:
  assumes ok: "settings_ok s" and gate: "gate_open s"
    and written: "write_flags (sorted_ids chats) key False s = Inr t"
  shows "settings_ok (t\<lparr>gate_open := False\<rparr>)"
    and "settings_ok (fst (mirror_flags (filter (\<lambda>c. setting_text (cache s c) key \<noteq> None) (sorted_ids chats))
      (sorted_ids chats) key False t))"
proof -
  note D = settings_okD [OF ok]
  let ?M = "table_map (settings_table s)" and ?ids = "sorted_ids chats"
  note mir = D(4) [OF gate] and MD = map_okD [OF D(3)]
  define N where N: "N = changed (flagged key None ?ids) ?M"
  have t: "t = s\<lparr>settings_table := sql_delete (\<lambda>r. st_key r = key \<and> st_chat r \<in> set ?ids) (settings_table s)\<rparr>"
    using written by (simp add: write_flags_def)
  have tt: "unique_key settings_key (settings_table t)" "table_map (settings_table t) = N"
    using table_map_unflags [OF D(2), of key ?ids] D(2) by (simp_all add: t N unique_delete)
  have N': "N p = Some v \<Longrightarrow> ?M p = Some v" for p v by (auto simp: N changed_flagged split: if_splits)
  have m: "map_ok s N (durable_table s)"
    by (rule map_ok_sub [OF D(3)]) (use N' MD(3,7) in blast)+
  have chs: "filter (\<lambda>c. setting_text (cache s c) key \<noteq> None) ?ids = filter (\<lambda>c. ?M (c, key) \<noteq> None) ?ids"
    using cache_ok_text [OF mirror_okD(4) [OF mir]] by simp
  show "settings_ok (t\<lparr>gate_open := False\<rparr>)"
    by (rule settings_ok_same_limits [OF D(1)]) (use m tt in \<open>simp_all add: t\<close>)
  show "settings_ok (fst (mirror_flags (filter (\<lambda>c. setting_text (cache s c) key \<noteq> None) ?ids) ?ids key False t))"
    unfolding chs
  proof (rule settings_ok_mirror_flags [OF D(1) _ _ _ tt])
    have "counts_ok t ?M" using mirror_okD(1) [OF mir] by (simp add: t counts_ok_def)
    from flags_off [OF sorted_ids_facts(1) MD(1) limits_small(1) [OF D(1) MD(4)] limits_small(2) [OF D(1) MD(5)] this,
        of key chats 0, folded N]
    show "case fold (mirror_flag key False) (filter (\<lambda>c. ?M (c, key) \<noteq> None) ?ids) (t, 0) of (u, n) \<Rightarrow> counts_ok u N"
      by (auto split: prod.split)
    show "index_ok (fold (\<lambda>c. reindex c key False) (filter (\<lambda>c. ?M (c, key) \<noteq> None) ?ids) (chat_index t)) N"
      using index_ok_flags [OF mirror_okD(2) [OF mir], of key None "filter (\<lambda>c. ?M (c, key) \<noteq> None) ?ids"]
        changed_flagged_filter [of key None ?M ?ids]
      by (simp add: N t)
  qed (use m mirror_okD(3) [OF mir] in \<open>simp_all add: t\<close>)
qed

lemma settings_ok_flags:
  assumes ok: "settings_ok s"
  shows "settings_ok (fst (set_flags conn chats key on s))"
proof -
  have on: "settings_ok (fst (commit_transaction conn s (write_flags (sorted_ids chats) key True s)
      (mirror_flags (flag_changes q) (sorted_ids chats) key True)))"
    if "gate_open s" "utf8_len key \<le> max_setting_key_bytes" "validate_persisted_setting key [] = Inr ()"
      "flag_plan s key (sorted_ids chats) \<lparr>proj_rows = setting_rows s, proj_bytes = setting_bytes s,
        proj_chats = known_chats s, flag_changes = []\<rparr> = Inr q" for q
  proof (rule commit_ok [OF ok])
    fix t assume w: "write_flags (sorted_ids chats) key True s = Inr t"
    have "setting_ok (c, key) []" for c using that by (simp add: setting_ok_def)
    from settings_ok_flags_on [OF ok that(1) this that(4) w]
    show "settings_ok (t\<lparr>gate_open := False\<rparr>)"
      "settings_ok (fst (mirror_flags (flag_changes q) (sorted_ids chats) key True t))" by blast+
  qed
  have off: "settings_ok (fst (commit_transaction conn s (write_flags (sorted_ids chats) key False s)
      (mirror_flags (filter (\<lambda>c. setting_text (cache s c) key \<noteq> None) (sorted_ids chats)) (sorted_ids chats) key False)))"
    if "gate_open s"
    by (rule commit_ok [OF ok]) (use settings_ok_flags_off [OF ok that] in blast)+
  show ?thesis using ok on off
    by (cases on) (auto simp: set_flags_def Let_def map_sum_def split: sum.splits)
qed

declare One_nat_def [simp]

end
