(* ===== verification/SettingsRuns.thy ===== *)
theory SettingsRuns
  imports SettingsFlags
begin

text \<open>
  The forgetting of a chat, the admission of a chat by another component and the loading at start
  keep the invariant, and so does every run of the store's operations and restarts. What this gives
  the callers: the mirror answers for the database, the budgets hold, the typed getters never panic.
\<close>

section \<open>Forgetting a chat\<close>

lemma rows_bytes_eq:
  "sum_list (map (\<lambda>(k, v). text_bytes k v) rows) \<le> usize_max \<Longrightarrow>
   rows_bytes rows = sum_list (map (\<lambda>(k, v). text_bytes k v) rows)"
proof (induction rows rule: rev_induct)
  case (snoc r rows)
  obtain k v where r: "r = (k, v)" by (cases r)
  then have "rows_bytes rows = sum_list (map (\<lambda>(k, v). text_bytes k v) rows)" using snoc by simp
  then have "rows_bytes (rows @ [r]) = saturating_usize_add (sum_list (map (\<lambda>(k, v). text_bytes k v) rows)) (setting_size k v)"
    by (simp add: rows_bytes_def r)
  then show ?case using snoc.prems by (simp add: r setting_size_min saturating_usize_add_def usize_max_def)
qed (simp add: rows_bytes_def)

definition without_chat :: "chat_id \<Rightarrow> (chat_id \<times> utext \<Rightarrow> utext option) \<Rightarrow> chat_id \<times> utext \<Rightarrow> utext option" where
  "without_chat c M p = (if fst p = c then None else M p)"

lemma without_chat_weight:
  assumes "finite (dom M)"
  shows "map_weight W M = map_weight W (without_chat c M) + map_weight (\<lambda>k. W (c, k)) (chat_map M c)"
proof -
  have "map_weight W M = (\<Sum>p \<in> dom (without_chat c M). weight_of W p (M p)) + (\<Sum>p \<in> Pair c ` dom (chat_map M c). weight_of W p (M p))"
    unfolding map_weight_def using assms
    by (subst sum.union_disjoint [symmetric])
      (auto simp: without_chat_def chat_map_def dom_def split: if_splits
        intro: finite_subset [OF _ assms] finite_subset [OF _ finite_chat_map [OF assms]] intro!: sum.cong)
  moreover have "(\<Sum>p \<in> dom (without_chat c M). weight_of W p (M p)) = map_weight W (without_chat c M)"
    unfolding map_weight_def by (rule sum.cong) (auto simp: without_chat_def split: if_splits)
  moreover have "(\<Sum>p \<in> Pair c ` dom (chat_map M c). weight_of W p (M p)) = map_weight (\<lambda>k. W (c, k)) (chat_map M c)"
    unfolding map_weight_def by (subst sum.reindex) (auto simp: inj_on_def chat_map_def weight_of_def split: option.split intro!: sum.cong)
  ultimately show ?thesis by simp
qed

lemma table_map_forget:
  assumes "unique_key settings_key t"
  shows "table_map (sql_delete (\<lambda>r. st_chat r = c) t) = without_chat c (table_map t)"
  by (rule ext) (auto simp: table_map_def row_at_delete [OF assms] without_chat_def settings_key_def
      dest!: row_at_Some split: option.splits)

lemma cache_ok_without: "cache_ok m M \<Longrightarrow> cache_ok (m(c := None)) (without_chat c M)"
  by (auto simp: cache_ok_def rows_of_def without_chat_def chat_map_def fun_eq_iff)

lemma entry_ok_blank: "entry_ok blank_index (\<lambda>k. None)"
  by (simp add: entry_ok_def blank_index_def)

lemma index_ok_without: "index_ok idx M \<Longrightarrow> index_ok (idx(c := None)) (without_chat c M)"
proof -
  assume "index_ok idx M"
  moreover have "chat_map (without_chat c M) d = (if d = c then (\<lambda>k. None) else chat_map M d)" for d
    by (auto simp: chat_map_def without_chat_def fun_eq_iff)
  ultimately show ?thesis by (auto simp: index_ok_def entry_of_def entry_ok_blank)
qed


lemma chat_rows_bytes:
  assumes "cache_ok m M"
  shows "sum_list (map (\<lambda>(k, v). text_bytes k v) (rows_of m c)) = map_weight text_bytes (chat_map M c)"
  using map_weight_rows [of "rows_of m c" text_bytes] rows_sorted_distinct [of "rows_of m c"] assms
  by (simp add: cache_ok_def)

lemma forget_rows:
  "(case m c of None \<Rightarrow> n | Some rows \<Rightarrow> n - length rows) = n - length (rows_of m c)"
  "(case m c of None \<Rightarrow> n | Some rows \<Rightarrow> n - rows_bytes rows) = n - rows_bytes (rows_of m c)"
  by (simp_all add: rows_of_def rows_bytes_def split: option.split)

lemma settings_ok_forget:
  assumes ok: "settings_ok s"
  shows "settings_ok (fst (forget_chat_settings conn c marker s))"
proof (cases "c \<noteq> 0 \<and> gate_open s \<and> sql_exists (\<lambda>r. settings_key r = (c, marker)) (settings_table s)")
  case True
  note D = settings_okD [OF ok]
  let ?M = "table_map (settings_table s)" and ?d = "AList.delete c (durable_table s)"
  let ?N = "without_chat c ?M"
  have gate: "gate_open s" using True by simp
  note mir = D(4) [OF gate] and MD = map_okD [OF D(3)]
  have cache: "cache_ok (cache s) ?M" and counts: "counts_ok s ?M" using mirror_okD [OF mir] by blast+
  define t where t: "t = s\<lparr>settings_table := sql_delete (\<lambda>r. st_chat r = c) (settings_table s), durable_table := ?d\<rparr>"
  have tt: "unique_key settings_key (settings_table t)" "table_map (settings_table t) = ?N" "durable_table t = ?d"
    using D(2) by (simp_all add: t unique_delete table_map_forget [OF D(2)])
  have keys: "fst ` set ?d = fst ` set (durable_table s) - {c}" "distinct (map fst ?d)"
    using MD(7) by (auto simp: AList.delete_eq image_iff distinct_map_filter)
  have m: "map_ok s ?N ?d"
    by (rule map_ok_sub [OF D(3)]) (use MD(3) keys in \<open>auto simp: without_chat_def split: if_splits\<close>)
  have bytes: "sum_list (map (\<lambda>(k, v). text_bytes k v) (rows_of (cache s) c)) = map_weight (\<lambda>k. row_bytes (c, k)) (chat_map ?M c)"
    unfolding chat_rows_bytes [OF cache] by (rule arg_cong2 [where f = map_weight]) (auto simp: row_bytes_def text_bytes_def fun_eq_iff)
  have w: "map_weight one_row ?M = map_weight one_row ?N + length (rows_of (cache s) c)"
    "map_weight row_bytes ?M = map_weight row_bytes ?N + rows_bytes (rows_of (cache s) c)"
    using without_chat_weight [OF MD(1), of one_row c] without_chat_weight [OF MD(1), of row_bytes c]
      limits_small(2) [OF D(1) MD(5)] bytes rows_bytes_eq [of "rows_of (cache s) c"]
    by (simp_all add: cache_ok_length [OF cache])
  let ?u = "t\<lparr>cache := (cache t)(c := None),
      setting_rows := setting_rows t - length (rows_of (cache s) c),
      setting_bytes := setting_bytes t - rows_bytes (rows_of (cache s) c),
      chat_index := (chat_index t)(c := None), durable_mirror := AList.delete c (durable_mirror t)\<rparr>"
  have "settings_ok ?u"
  proof (rule settings_ok_same_limits [OF D(1)])
    have "mirror_ok ?u ?N ?d"
      using mirror_okD [OF mir] w cache_ok_without [OF cache, of c] index_ok_without [of _ ?M c]
      by (intro mirror_okI) (auto simp: counts_ok_def t delete_conv chats_ok_def distinct_delete)
    then show "mirror_ok ?u (table_map (settings_table ?u)) (durable_table ?u)" using tt by simp
  qed (use m tt in \<open>simp_all add: t\<close>)
  moreover have "settings_ok (t\<lparr>gate_open := False\<rparr>)"
    by (rule settings_ok_same_limits [OF D(1)]) (use m tt in \<open>simp_all add: t\<close>)
  moreover have "forget_chat_settings conn c marker s = commit_transaction conn s (Inr t) (\<lambda>t. (t\<lparr>cache := (cache t)(c := None),
      setting_rows := setting_rows t - length (rows_of (cache t) c),
      setting_bytes := setting_bytes t - rows_bytes (rows_of (cache t) c),
      chat_index := (chat_index t)(c := None), durable_mirror := AList.delete c (durable_mirror t)\<rparr>, True))"
    using True by (simp add: forget_chat_settings_def t forget_rows)
  ultimately show ?thesis
    by (simp only:) (rule commit_ok [OF ok], auto simp: t)
qed (use ok in \<open>auto simp: forget_chat_settings_def\<close>)


section \<open>Admission by a change of default rights\<close>

lemma settings_ok_rights:
  assumes ok: "settings_ok s"
  shows "settings_ok (fst (admit_by_rights conn c s))"
proof (cases "gate_open s \<and> durable_chat_id c \<and> (chat_known s c \<or> \<not> is_some_and (\<lambda>m. m \<le> known_chats s) (chat_limit s))")
  case True
  note D = settings_okD [OF ok]
  have mir: "mirror_ok s (table_map (settings_table s)) (durable_table s)" using D(4) True by blast
  note MD = map_okD [OF D(3)]
  show ?thesis
  proof (cases "hash_column (stored_hash (settings_table s) c)")
    case (Inr h)
    let ?d = "admit_durable c h (durable_table s)"
    let ?t = "s\<lparr>durable_table := ?d\<rparr>"
    let ?u = "?t\<lparr>durable_mirror := mirror_chat c ?d (durable_mirror s)\<rparr>"
    have m: "map_ok s (table_map (settings_table s)) ?d"
    proof (rule map_okI [OF D(3) MD(1)])
      show "within (length ?d) (chat_limit s)"
        using True MD(9) known_chats_eq [OF mirror_okD(3) [OF mir] MD(7)] chat_known_iff [OF mir, of c]
        by (auto simp: admit_durable_length [OF MD(7)] within_def over_def is_some_and_iff durable_chat_id_def)
      show "durable_chat_id e" if "e \<in> fst ` set ?d" for e using that True MD(8) by (auto simp: admit_durable_keys)
    qed (use MD in \<open>simp_all add: admit_durable_keys admit_durable_distinct\<close>)
    have "chats_ok (mirror_chat c ?d (durable_mirror s)) ?d"
      by (rule chats_ok_mirror [OF mirror_okD(3) [OF mir]]) (simp_all add: admit_durable_other admit_durable_def update_conv)
    then have "settings_ok ?u"
      using D m mirror_okD [OF mir] by (intro settings_ok_same_limits [OF D(1)] mirror_okI) (simp_all add: counts_ok_def)
    moreover have "settings_ok (?t\<lparr>gate_open := False\<rparr>)"
      using D m by (intro settings_ok_same_limits [OF D(1)]) simp_all
    ultimately show ?thesis
      using True Inr commit_ok [OF ok, of "Inr ?t" "\<lambda>t. (t\<lparr>durable_mirror := mirror_chat c (durable_table t) (durable_mirror t)\<rparr>, ())" conn]
      by (auto simp: admit_by_rights_def)
  qed (use True ok in \<open>simp add: admit_by_rights_def\<close>)
next
  case False
  then show ?thesis using ok by (auto simp: admit_by_rights_def split: sum.split)
qed

section \<open>Loading\<close>

lemma load_rows_append:
  "load_rows (rs @ qs) st = (case load_rows rs st of Inl e \<Rightarrow> Inl e | Inr st' \<Rightarrow> load_rows qs st')"
  by (induction rs arbitrary: st) (auto split: sum.split)

lemma filter_after_last:
  fixes f :: "'a \<Rightarrow> 'b :: linorder"
  assumes "sorted_wrt (\<lambda>x y. f x < f y) F" and "take n F \<noteq> []"
  shows "filter (\<lambda>x. f (last (take n F)) < f x) F = drop n F"
proof -
  have s: "sorted_wrt (\<lambda>x y. f x < f y) (take n F @ drop n F)" using assms(1) by simp
  have "filter (\<lambda>x. f (last (take n F)) < f x) (take n F) = []"
  proof (rule filter_False, rule ballI)
    fix x assume "x \<in> set (take n F)"
    moreover have "take n F = butlast (take n F) @ [last (take n F)]" using assms(2) by simp
    ultimately have "x \<in> set (butlast (take n F)) \<or> x = last (take n F)" by (metis Un_iff empty_iff list.set set_append insert_iff)
    moreover have "f y < f (last (take n F))" if "y \<in> set (butlast (take n F))" for y
      using s that \<open>take n F = _\<close> by (metis in_set_conv_decomp sorted_wrt_append list.set_intros(1))
    ultimately show "\<not> f (last (take n F)) < f x" by force
  qed
  moreover have "filter (\<lambda>x. f (last (take n F)) < f x) (drop n F) = drop n F"
    using s last_in_set [OF assms(2)] by (intro filter_True) (auto simp: sorted_wrt_append simp del: append_take_drop_id)
  ultimately show ?thesis by (metis append_take_drop_id filter_append append_Nil)
qed


lemma sorted_keys:
  "distinct (map f t) \<Longrightarrow> sorted_wrt (\<lambda>x y. f x < f y) (filter P (sort_key f t))"
proof -
  assume d: "distinct (map f t)"
  have "sorted_wrt (<) (map f (sort_key f t))"
    unfolding strict_sorted_iff using d by (simp add: distinct_map_sort_key)
  then show ?thesis by (simp add: sorted_wrt_map sorted_wrt_filter)
qed

text \<open>Page by page, the loading reads what one ordered query would return.\<close>

lemma load_pages_eq:
  assumes d: "distinct (map (load_key collate) t)" and page: "0 < page"
  shows "load_pages collate page t cursor st =
    load_rows (filter (\<lambda>r. cursor < load_key collate r) (sort_key (load_key collate) t)) st"
  using d page
proof (induction collate page t cursor st rule: load_pages.induct [case_names step])
  case (step collate page t cursor st)
  let ?k = "load_key collate"
  define F where F: "F = filter (\<lambda>r. cursor < ?k r) (sort_key ?k t)"
  have rs: "load_page collate page cursor t = take page F"
    by (simp add: load_page_def sql_page_def F filter_sort load_key_def [abs_def])
  show ?case
  proof (cases "F = []")
    case True
    then show ?thesis using rs by (simp add: load_pages.simps [of collate page t] F [symmetric])
  next
    case False
    then have ne: "take page F \<noteq> []" using step.prems(2) by simp
    let ?r = "last (take page F)"
    have "cursor < ?k ?r" using last_in_set [OF ne] by (auto simp: F dest!: in_set_takeD)
    then have "filter (\<lambda>r. ?k ?r < ?k r) (sort_key ?k t) = filter (\<lambda>r. ?k ?r < ?k r) F"
      by (auto simp: F intro!: filter_cong)
    also have "... = drop page F"
      by (rule filter_after_last [OF _ ne]) (use sorted_keys [OF step.prems(1)] in \<open>simp add: F\<close>)
    finally have rest: "filter (\<lambda>r. ?k ?r < ?k r) (sort_key ?k t) = drop page F" .
    have "load_pages collate page t cursor st =
        (case load_rows (take page F) st of Inl e \<Rightarrow> Inl e | Inr st' \<Rightarrow> load_pages collate page t (?k ?r) st')"
      using ne rs by (simp add: load_pages.simps [of collate page t cursor st] Let_def)
    also have "... = (case load_rows (take page F) st of Inl e \<Rightarrow> Inl e | Inr st' \<Rightarrow> load_rows (drop page F) st')"
      using step.IH [OF refl] ne rs step.prems rest by (auto split: sum.split)
    also have "... = load_rows F st" using load_rows_append [of "take page F" "drop page F" st] by simp
    finally show ?thesis by (simp add: F)
  qed
qed

text \<open>The vectors and the index that the loading builds.\<close>

lemma load_rows_all:
  "(\<And>r. r \<in> set rs \<Longrightarrow> validate_persisted_setting (st_key r) (st_text r) = Inr ()) \<Longrightarrow>
   load_rows rs st = Inr (fold load_row rs st)"
  by (induction rs arbitrary: st) simp_all

lemma load_row_ok:
  assumes c: "cache_ok (ld_cache st) M" and i: "index_ok (ld_index st) M" and new: "M (settings_key r) = None"
  shows "cache_ok (ld_cache (load_row r st)) (M(settings_key r := Some (st_text r)))"
    and "index_ok (ld_index (load_row r st)) (M(settings_key r := Some (st_text r)))"
proof -
  obtain c k v where r: "st_chat r = c" "st_key r = k" "st_text r = v" by blast
  then have key: "settings_key r = (c, k)" by (simp add: settings_key_def)
  show "cache_ok (ld_cache (load_row r st)) (M(settings_key r := Some (st_text r)))"
    using cache_ok_insert(1) [OF c, of "st_chat r" "st_key r" "st_text r", unfolded rows_of_def]
    by (simp add: load_row_def settings_key_def)
  have "ld_index (load_row r st) = reindex c k True (ld_index st)"
  proof (cases "indexed_slot k")
    case (Some p)
    obtain slot rest where p: "p = (slot, rest)" by (cases p)
    let ?e = "entry_of (ld_index st) c"
    have e: "entry_ok ?e (chat_map M c)" using i by (simp add: index_ok_def)
    have slot: "slot < length indexed_prefixes" "k = ascii (indexed_prefixes ! slot) @ rest"
      using Some by (simp_all add: p indexed_slot_iff)
    have "rest \<notin> set (?e ! slot)" using e new slot by (simp add: entry_ok_def chat_map_def key)
    then have pos: "position rest (?e ! slot) = None" by (simp add: position_None)
    have "\<not> list_all (\<lambda>l. l = []) (?e[slot := ?e ! slot @ [rest]])"
      using e slot by (auto simp: entry_ok_def list_all_length)
    then show ?thesis
      using pos by (simp add: load_row_def r Some p reindex_def reindex_entry_def entry_of_def Let_def)
  qed (simp add: load_row_def r reindex_def)
  then show "index_ok (ld_index (load_row r st)) (M(settings_key r := Some (st_text r)))"
    using index_ok_reindex [OF i, of c k "Some v"] by (simp add: key r)
qed

lemma fold_load_row:
  "cache_ok (ld_cache st) M \<Longrightarrow> index_ok (ld_index st) M \<Longrightarrow> distinct (map settings_key rs) \<Longrightarrow>
   (\<And>r. r \<in> set rs \<Longrightarrow> M (settings_key r) = None) \<Longrightarrow>
   cache_ok (ld_cache (fold load_row rs st)) (\<lambda>p. case table_map rs p of None \<Rightarrow> M p | Some v \<Rightarrow> Some v) \<and>
   index_ok (ld_index (fold load_row rs st)) (\<lambda>p. case table_map rs p of None \<Rightarrow> M p | Some v \<Rightarrow> Some v)"
proof (induction rs arbitrary: st M)
  case Nil
  then show ?case by (simp add: table_map_def)
next
  case (Cons r rs)
  let ?M = "M(settings_key r := Some (st_text r))"
  have n: "M (settings_key r) = None" using Cons.prems(4) by simp
  have "row_at settings_key rs (settings_key r) = None"
    using Cons.prems(3) by (auto simp: row_at_None)
  then have eq: "(\<lambda>p. case table_map (r # rs) p of None \<Rightarrow> M p | Some v \<Rightarrow> Some v) =
      (\<lambda>p. case table_map rs p of None \<Rightarrow> ?M p | Some v \<Rightarrow> Some v)"
    by (auto simp: table_map_def row_at_Cons fun_eq_iff split: option.split)
  have "?M (settings_key q) = None" if "q \<in> set rs" for q
    using that Cons.prems(3,4) by (metis fun_upd_apply image_eqI list.set_intros(2) list.simps(9) distinct.simps(2) list.set_map)
  then show ?case
    using Cons.IH [OF load_row_ok [OF Cons.prems(1,2) n]] Cons.prems(3) unfolding eq by simp
qed


text \<open>Every row lies above the cursor the loading starts with.\<close>

lemma load_start:
  assumes ok: "map_ok s (table_map t) d" and u: "unique_key settings_key t" and r: "r \<in> set t"
  shows "(i64_min, x) < load_key collate r"
proof -
  have "st_chat r = 0 \<or> durable_chat_id (st_chat r)"
    using map_okD(3,8) [OF ok] table_map_mem [OF u r] by fastforce
  then show ?thesis by (auto simp: load_key_def less_prod_def' durable_chat_id_def i64_min_def)
qed

lemma load_key_distinct: "inj collate \<Longrightarrow> unique_key settings_key t \<Longrightarrow> distinct (map (load_key collate) t)"
  by (auto simp: unique_key_def distinct_map inj_on_def load_key_def settings_key_def dest: injD)

lemma load_settings_ok:
  assumes ok: "settings_ok s" and inj: "inj collate"
  shows "\<exists>u. load_settings collate s = Inr u \<and> settings_ok u \<and> gate_open u \<and>
    settings_table u = settings_table s \<and> durable_table u = durable_table s"
proof -
  note D = settings_okD [OF ok]
  note MD = map_okD [OF D(3)]
  let ?t = "settings_table s" and ?st0 = "\<lparr>ld_cache = (\<lambda>c. None), ld_index = (\<lambda>c. None)\<rparr>"
  let ?rs = "sort_key (load_key collate) ?t"
  have row: "setting_ok (settings_key r) (st_text r)" if "r \<in> set ?t" for r
    using MD(2) table_map_mem [OF D(2) that] by (simp add: settings_key_def)
  have "load_pages collate load_page_rows ?t (i64_min, collate []) ?st0 = load_rows ?rs ?st0"
    using load_start [OF D(3,2)] by (subst load_pages_eq [OF load_key_distinct [OF inj D(2)]]) (simp_all add: load_page_rows_def filter_True)
  also have "... = Inr (fold load_row ?rs ?st0)"
    by (rule load_rows_all) (use row in \<open>auto simp: setting_ok_def settings_key_def\<close>)
  finally have pages: "load_pages collate load_page_rows ?t (i64_min, collate []) ?st0 = Inr (fold load_row ?rs ?st0)" .
  have uq: "unique_key settings_key ?rs" using D(2) by (simp add: unique_key_def distinct_map_sort_key)
  have tm: "table_map ?rs = table_map ?t"
  proof (rule ext)
    show "table_map ?rs p = table_map ?t p" for p
      using row_at_iff [OF uq, of p] row_at_iff [OF D(2), of p] by (simp add: table_map_def) (metis option.exhaust)
  qed
  have "cache_ok (\<lambda>c. None) (\<lambda>p. None)" "index_ok (\<lambda>c. None) (\<lambda>p. None)"
    using entry_ok_blank by (simp_all add: cache_ok_def rows_of_def chat_map_def [abs_def] index_ok_def entry_of_def fun_eq_iff)
  moreover have same: "(\<lambda>p. case table_map ?t p of None \<Rightarrow> None | Some v \<Rightarrow> Some v) = table_map ?t"
    by (auto simp: fun_eq_iff split: option.split)
  ultimately have st: "cache_ok (ld_cache (fold load_row ?rs ?st0)) (table_map ?t)" "index_ok (ld_index (fold load_row ?rs ?st0)) (table_map ?t)"
    using fold_load_row [of ?st0 "\<lambda>p. None" ?rs] uq by (simp_all add: unique_key_def tm same)
  have rows: "map_weight one_row (table_map ?t) = length ?t"
    "map_weight row_bytes (table_map ?t) = sum_list (map (\<lambda>r. utf8_len (st_key r) + utf8_len (st_text r)) ?t)"
    by (rule table_rows [OF D(2)], rule table_bytes [OF D(2)])
  have small: "length ?t < usize_max" "sum_list (map (\<lambda>r. utf8_len (st_key r) + utf8_len (st_text r)) ?t) < usize_max"
    using limits_small(1) [OF D(1) MD(4)] limits_small(2) [OF D(1) MD(5)] unfolding rows by simp_all
  let ?u = "s\<lparr>cache := ld_cache (fold load_row ?rs ?st0), chat_index := ld_index (fold load_row ?rs ?st0),
      durable_mirror := durable_table s, setting_rows := length ?t,
      setting_bytes := sum_list (map (\<lambda>r. utf8_len (st_key r) + utf8_len (st_text r)) ?t), gate_open := True\<rparr>"
  have checks: "\<not> list_ex (\<lambda>r. max_setting_key_bytes < utf8_len (st_key r) \<or> max_setting_value_bytes < utf8_len (st_text r)) ?t"
    using row by (fastforce simp: list_ex_iff setting_ok_def settings_key_def)
  have limits: "\<not> over (length ?t) (row_limit s)" "\<not> over (sum_list (map (\<lambda>r. utf8_len (st_key r) + utf8_len (st_text r)) ?t)) (byte_limit s)"
      "\<not> over (length (durable_table s)) (chat_limit s)" "\<not> is_some_and (\<lambda>m. 2 ^ 63 \<le> m) (chat_limit s)"
    using MD(4,5,9) D(1) unfolding rows by (auto simp: within_def limits_ok_def is_some_and_iff)
  have chat: "\<not> list_ex (\<lambda>q. st_chat q \<noteq> 0 \<and> max_settings_rows_per_chat < length (filter (\<lambda>r. st_chat r = st_chat q) ?t)) ?t"
    using MD(6) unfolding chat_rows_count [OF D(2)] by (auto simp: list_ex_iff not_less)
  have "load_settings collate s = Inr ?u"
    unfolding load_settings_def Let_def pages using checks limits chat small by (simp add: usize_max_def)
  moreover have "settings_ok ?u"
  proof (rule settings_ok_same_limits [OF D(1)])
    show "mirror_ok ?u (table_map (settings_table ?u)) (durable_table ?u)"
      using st rows MD(7) by (intro mirror_okI) (simp_all add: counts_ok_def chats_ok_def)
  qed (use D in simp_all)
  ultimately show ?thesis by auto
qed

end
