(* ===== verification/SettingsFacts.thy ===== *)
theory SettingsFacts
  imports SettingsRuns
begin

text \<open>
  The properties of the settings store: runs of its operations and restarts, and what they give the
  callers. The mirror answers for the database, the budgets hold, the typed getters never panic, and
  a commit of unknown outcome stops every writer until a restart.
\<close>

section \<open>Runs\<close>

definition fresh_settings :: "nat option \<Rightarrow> nat option \<Rightarrow> nat option \<Rightarrow> settings_store" where
  "fresh_settings chats rows bytes =
     \<lparr>settings_table = [], durable_table = [], cache = (\<lambda>c. None), chat_index = (\<lambda>c. None), durable_mirror = [],
      setting_rows = 0, setting_bytes = 0, gate_open = False, chat_limit = chats, row_limit = rows, byte_limit = bytes\<rparr>"

text \<open>The writers as one call, with the number of changes as the result.\<close>

datatype settings_call = Batch chat_id "setting_mutation list" | Flags "chat_id list" utext bool | Forget chat_id utext | Admit chat_id

fun run_call :: "connection \<Rightarrow> settings_call \<Rightarrow> settings_store \<Rightarrow> settings_store \<times> (settings_error + nat)" where
  "run_call conn (Batch c ms) s = try_apply_batch conn c ms s"
| "run_call conn (Flags chats key on) s = set_flags conn chats key on s"
| "run_call conn (Forget c marker) s =
     map_prod id (map_sum id (\<lambda>b. if b then 1 else 0)) (forget_chat_settings conn c marker s)"
| "run_call conn (Admit c) s = map_prod id (map_sum id (\<lambda>u. 0)) (admit_by_rights conn c s)"

inductive settings_write :: "settings_store \<Rightarrow> settings_store \<Rightarrow> bool" where
  call: "settings_write s (fst (run_call conn call s))"

inductive settings_step :: "(utext \<Rightarrow> utext) \<Rightarrow> settings_store \<Rightarrow> settings_store \<Rightarrow> bool" for collate where
  writes: "settings_write s t \<Longrightarrow> settings_step collate s t"
| restart: "load_settings collate s = Inr t \<Longrightarrow> settings_step collate s t"

inductive settings_reach :: "(utext \<Rightarrow> utext) \<Rightarrow> settings_store \<Rightarrow> bool" for collate where
  start: "limits_ok (fresh_settings chats rows bytes) \<Longrightarrow>
    load_settings collate (fresh_settings chats rows bytes) = Inr s \<Longrightarrow> settings_reach collate s"
| step: "settings_reach collate s \<Longrightarrow> settings_step collate s t \<Longrightarrow> settings_reach collate t"

inductive_cases settings_writeE: "settings_write s t"
inductive_cases settings_stepE: "settings_step collate s t"

lemma table_map_Nil: "table_map [] = (\<lambda>p. None)"
  by (simp add: table_map_def fun_eq_iff)

lemma fresh_settings_ok: "limits_ok (fresh_settings chats rows bytes) \<Longrightarrow> settings_ok (fresh_settings chats rows bytes)"
  by (rule settings_okI)
    (auto simp: fresh_settings_def unique_key_def table_map_Nil map_ok_def map_weight_def chat_map_def within_def
      over_def is_some_and_iff)

lemma settings_ok_call: "settings_ok s \<Longrightarrow> settings_ok (fst (run_call conn call s))"
  by (cases call) (simp_all add: settings_ok_batch settings_ok_flags settings_ok_forget settings_ok_rights)

lemma settings_step_ok: "settings_step collate s t \<Longrightarrow> inj collate \<Longrightarrow> settings_ok s \<Longrightarrow> settings_ok t"
  by (erule settings_stepE) (auto simp: settings_ok_call dest: load_settings_ok elim!: settings_writeE)

lemma settings_reach_ok:
  assumes "settings_reach collate s" and "inj collate"
  shows "settings_ok s"
  using assms(1)
proof (induction rule: settings_reach.induct)
  case (start chats rows bytes s)
  then show ?case using load_settings_ok [OF fresh_settings_ok [OF start(1)] assms(2)] by auto
next
  case (step s t)
  then show ?case using settings_step_ok assms(2) by blast
qed

text \<open>What the index answers.\<close>

lemma indexed_any_iff:
  assumes "index_ok (chat_index s) M" and "pre \<in> set indexed_prefixes"
  shows "indexed_any s c (ascii pre) P \<longleftrightarrow> (\<exists>rest. M (c, ascii pre @ rest) \<noteq> None \<and> P rest)"
    and "indexed_empty s c (ascii pre) \<longleftrightarrow> (\<forall>rest. M (c, ascii pre @ rest) = None)"
proof -
  obtain slot where slot: "slot < length indexed_prefixes" "indexed_prefixes ! slot = pre"
    using assms(2) by (auto simp: in_set_conv_nth)
  then have i: "indexed_slot (ascii pre) = Some (slot, [])" by (simp add: indexed_slot_iff)
  have e: "set (entry_of (chat_index s) c ! slot) = {rest. M (c, ascii pre @ rest) \<noteq> None}"
    using assms(1) slot by (simp add: index_ok_def entry_ok_def chat_map_def)
  have "blank_index ! slot = []" using slot by (simp add: blank_index_def)
  then show "indexed_any s c (ascii pre) P \<longleftrightarrow> (\<exists>rest. M (c, ascii pre @ rest) \<noteq> None \<and> P rest)"
    "indexed_empty s c (ascii pre) \<longleftrightarrow> (\<forall>rest. M (c, ascii pre @ rest) = None)"
    using e by (auto simp: indexed_any_def indexed_empty_def i list_ex_iff entry_of_def split: option.splits)
qed


section \<open>The mirror answers for the database\<close>

lemma table_key_row:
  assumes "unique_key settings_key t"
  shows "table_map t (c, k) \<noteq> None \<longleftrightarrow> (\<exists>r \<in> set t. st_chat r = c \<and> st_key r = k)"
  by (auto simp: table_map_def row_at_None settings_key_def image_iff)

text \<open>The rows of a chat under a prefix.\<close>

lemma str_strip_prefix_Some: "str_strip_prefix p x = Some rest \<longleftrightarrow> x = p @ rest"
  by (auto simp: str_strip_prefix_def prefix_def)

lemma rows_member:
  assumes "cache_ok m M"
  shows "(k, v) \<in> set (rows_of m c) \<longleftrightarrow> M (c, k) = Some v"
proof -
  have "distinct (map fst (rows_of m c))" "map_of (rows_of m c) = chat_map M c"
    using assms by (simp_all add: cache_ok_def rows_sorted_distinct)
  then show ?thesis by (metis chat_map_def map_of_eq_Some_iff)
qed

lemma prefix_readers:
  assumes "cache_ok (cache s) M"
  shows "rest \<in> set (flags_with_prefix s c pre) \<longleftrightarrow> M (c, pre @ rest) = Some []"
    and "(rest, v) \<in> set (values_with_prefix s c pre) \<longleftrightarrow> v \<noteq> [] \<and> M (c, pre @ rest) = Some v"
proof -
  note m = rows_member [OF assms, of _ _ c, unfolded rows_of_def]
  show "rest \<in> set (flags_with_prefix s c pre) \<longleftrightarrow> M (c, pre @ rest) = Some []"
    unfolding m [symmetric]
    by (auto simp: flags_with_prefix_def in_map_filter str_strip_prefix_Some split: option.splits if_splits) force+
  show "(rest, v) \<in> set (values_with_prefix s c pre) \<longleftrightarrow> v \<noteq> [] \<and> M (c, pre @ rest) = Some v"
    unfolding m [symmetric]
    by (auto simp: values_with_prefix_def in_map_filter str_strip_prefix_Some split: option.splits if_splits) force+
qed

text \<open>
  C20: in every state a run reaches with the gate open, the memory answers for the database: a lookup
  in a chat's sorted vector returns the text of the row in the table \<open>settings\<close>, the flags and values
  under a prefix are those of the table, the two counters are the number of rows and the sum of their
  bytes, a chat is known exactly when it is in the table \<open>durable_chats\<close>, and the index of an indexed
  prefix finds exactly the keys the table holds.
\<close>

theorem mirror_answers_for_database:
  assumes "settings_reach collate s" and "inj collate" and "gate_open s" and "pre \<in> set indexed_prefixes"
  shows "setting_text (cache s c) key = map_option st_text (row_at settings_key (settings_table s) (c, key)) \<and>
    set (flags_with_prefix s c p) = {rest. \<lparr>st_chat = c, st_key = p @ rest, st_text = []\<rparr> \<in> set (settings_table s)} \<and>
    set (values_with_prefix s c p) =
      {(rest, v). v \<noteq> [] \<and> \<lparr>st_chat = c, st_key = p @ rest, st_text = v\<rparr> \<in> set (settings_table s)} \<and>
    setting_rows s = length (settings_table s) \<and>
    setting_bytes s = (\<Sum>r \<leftarrow> settings_table s. utf8_len (st_key r) + utf8_len (st_text r)) \<and>
    (chat_known s c \<longleftrightarrow> c = 0 \<or> c \<in> fst ` set (durable_table s)) \<and>
    (indexed_any s c (ascii pre) P \<longleftrightarrow>
       (\<exists>r \<in> set (settings_table s). st_chat r = c \<and> (\<exists>rest. st_key r = ascii pre @ rest \<and> P rest))) \<and>
    (indexed_empty s c (ascii pre) \<longleftrightarrow>
       \<not> (\<exists>r \<in> set (settings_table s). st_chat r = c \<and> prefix (ascii pre) (st_key r)))"
proof -
  note D = settings_okD [OF settings_reach_ok [OF assms(1,2)]]
  note mir = D(4) [OF assms(3)]
  note i = indexed_any_iff [OF mirror_okD(2) [OF mir] assms(4)]
  have "setting_text (cache s c) key = map_option st_text (row_at settings_key (settings_table s) (c, key))"
    using cache_ok_text [OF mirror_okD(4) [OF mir], of c key] by (simp add: table_map_def)
  moreover have "set (flags_with_prefix s c p) = {rest. \<lparr>st_chat = c, st_key = p @ rest, st_text = []\<rparr> \<in> set (settings_table s)}"
    "set (values_with_prefix s c p) = {(rest, v). v \<noteq> [] \<and> \<lparr>st_chat = c, st_key = p @ rest, st_text = v\<rparr> \<in> set (settings_table s)}"
    using prefix_readers [OF mirror_okD(4) [OF mir], where c = c and pre = p] table_map_row [OF D(2), of c] by auto
  moreover have "setting_rows s = length (settings_table s)"
    "setting_bytes s = (\<Sum>r \<leftarrow> settings_table s. utf8_len (st_key r) + utf8_len (st_text r))"
    using mirror_okD(1) [OF mir] table_rows [OF D(2)] table_bytes [OF D(2)] by (simp_all add: counts_ok_def)
  moreover have "chat_known s c \<longleftrightarrow> c = 0 \<or> c \<in> fst ` set (durable_table s)" by (rule chat_known_iff [OF mir])
  moreover have "indexed_any s c (ascii pre) P \<longleftrightarrow>
       (\<exists>r \<in> set (settings_table s). st_chat r = c \<and> (\<exists>rest. st_key r = ascii pre @ rest \<and> P rest))"
    unfolding i(1) table_key_row [OF D(2)] by blast
  moreover have "indexed_empty s c (ascii pre) \<longleftrightarrow>
       \<not> (\<exists>r \<in> set (settings_table s). st_chat r = c \<and> prefix (ascii pre) (st_key r))"
    using table_key_row [OF D(2), of c] unfolding i(2) prefix_def by blast
  ultimately show ?thesis by blast
qed

section \<open>Budgets\<close>

text \<open>
  C24: in every state a run reaches, whatever its commits did, the tables keep the budgets of the shard: at
  most the configured rows, bytes and chats, at most 512 rows in one chat, keys of at most 512 and
  texts of at most 16384 bytes, no duplicate key, and no chat with settings that was not admitted.
\<close>

theorem settings_budgets_hold:
  assumes "settings_reach collate s" and "inj collate"
  shows "is_some_and (\<lambda>m. length (settings_table s) \<le> m) (row_limit s) \<and>
    is_some_and (\<lambda>m. (\<Sum>r \<leftarrow> settings_table s. utf8_len (st_key r) + utf8_len (st_text r)) \<le> m) (byte_limit s) \<and>
    is_some_and (\<lambda>m. length (durable_table s) \<le> m) (chat_limit s) \<and>
    length (filter (\<lambda>r. st_chat r = c) (settings_table s)) \<le> 512 \<and>
    distinct (map settings_key (settings_table s)) \<and>
    list_all (\<lambda>r. utf8_len (st_key r) \<le> 512 \<and> utf8_len (st_text r) \<le> 16384 \<and>
      (st_chat r = 0 \<or> st_chat r \<in> fst ` set (durable_table s))) (settings_table s)"
proof -
  note D = settings_okD [OF settings_reach_ok [OF assms]]
  note MD = map_okD [OF D(3)]
  have rows: "map_weight one_row (table_map (settings_table s)) = length (settings_table s)"
    "map_weight row_bytes (table_map (settings_table s)) =
       (\<Sum>r \<leftarrow> settings_table s. utf8_len (st_key r) + utf8_len (st_text r))"
    by (rule table_rows [OF D(2)], rule table_bytes [OF D(2)])
  have "is_some_and (\<lambda>m. length (settings_table s) \<le> m) (row_limit s)"
    "is_some_and (\<lambda>m. (\<Sum>r \<leftarrow> settings_table s. utf8_len (st_key r) + utf8_len (st_text r)) \<le> m) (byte_limit s)"
    "is_some_and (\<lambda>m. length (durable_table s) \<le> m) (chat_limit s)"
    using MD(4,5,9) D(1) unfolding rows by (auto simp: within_def over_def limits_ok_def is_some_and_iff)
  moreover have "length (filter (\<lambda>r. st_chat r = c) (settings_table s)) \<le> 512"
    using MD(6) [of c] unfolding chat_rows_count [OF D(2)] by (simp add: max_settings_rows_per_chat_def)
  moreover have "utf8_len (st_key r) \<le> 512 \<and> utf8_len (st_text r) \<le> 16384 \<and>
      (st_chat r = 0 \<or> st_chat r \<in> fst ` set (durable_table s))" if "r \<in> set (settings_table s)" for r
    using MD(2,3) [OF table_map_mem [OF D(2) that]]
    by (simp add: setting_ok_def max_setting_key_bytes_def max_setting_value_bytes_def)
  ultimately show ?thesis using D(2) by (simp add: unique_key_def list_all_iff)
qed

section \<open>Typed settings\<close>

lemma reach_checked:
  assumes "settings_reach collate s" and "inj collate" and "gate_open s"
  shows "checked_settings (setting_text (cache s c))"
proof -
  note D = settings_okD [OF settings_reach_ok [OF assms(1,2)]]
  show ?thesis
    using map_okD(2) [OF D(3)] cache_ok_text [OF mirror_okD(4) [OF D(4) [OF assms(3)]]]
    by (auto simp: checked_settings_def setting_ok_def)
qed

text \<open>
  C23: in every state a run reaches with the gate open, the typed getters do not panic: each call of
  \<open>number\<close> in the program returns a number in the range it asks for, and each key that is read at a
  type of machine integers parses at that type or is absent.
\<close>

theorem typed_getters_never_panic:
  assumes "settings_reach collate s" and "inj collate" and "gate_open s"
  shows "list_all (\<lambda>(n, d, lo, hi). is_some_and (\<lambda>x. lo \<le> x \<and> x \<le> hi) (setting_number (cache s c) (ascii n) d (lo, hi)))
      number_calls \<and>
    list_all (\<lambda>n. setting_value_parsed parse_u32 (cache s c) (ascii n) \<noteq> None) parsed_u32_keys \<and>
    list_all (\<lambda>n. setting_value_parsed parse_u64 (cache s c) (ascii n) \<noteq> None) parsed_u64_keys \<and>
    list_all (\<lambda>n. setting_value_parsed parse_i64 (cache s c) (ascii n) \<noteq> None) parsed_i64_keys \<and>
    list_all (\<lambda>n. setting_value_parsed parse_i32 (cache s c) (ascii n) \<noteq> None) parsed_i32_keys"
proof -
  note ok = reach_checked [OF assms, of c]
  have "\<forall>(n, d, lo, hi) \<in> set number_calls.
      is_some_and (\<lambda>x. lo \<le> x \<and> x \<le> hi) (setting_number (cache s c) (ascii n) d (lo, hi))"
    using setting_number_checked_ok [OF ok] by (fastforce simp: is_some_and_iff)
  then show ?thesis using setting_parsed_keys_ok [OF ok] unfolding list_all_iff by blast
qed


section \<open>Failures\<close>

lemma commit_transaction_map:
  "map_prod id (map_sum id g) (commit_transaction conn s w f) = commit_transaction conn s w (map_prod id g \<circ> f)"
  by (simp add: commit_transaction_def split: sum.split connection.split prod.split)

lemma check_not_uncertain:
  "check_value k v \<noteq> Inl CommitUncertain" "check_mutation m \<noteq> Inl CommitUncertain"
  "check_mutations seen ms \<noteq> Inl CommitUncertain" "plan_batch c ms s \<noteq> Inl CommitUncertain"
  "flag_plan s key cs p \<noteq> Inl CommitUncertain"
proof -
  show v: "check_value k v \<noteq> Inl CommitUncertain" for k v
    by (cases "validate_persisted_setting k v") (auto simp: check_value_def)
  show m: "check_mutation m \<noteq> Inl CommitUncertain" for m
    using v by (auto simp: check_mutation_def split: setting_mutation.split sum.split)
  show "check_mutations seen ms \<noteq> Inl CommitUncertain"
    using m by (induction ms arbitrary: seen) (auto split: sum.split)
  show "plan_batch c ms s \<noteq> Inl CommitUncertain" by (simp add: plan_batch_def Let_def)
  show "flag_plan s key cs p \<noteq> Inl CommitUncertain"
    by (induction cs arbitrary: p) (simp_all add: Let_def split: option.split)
qed

text \<open>A call decides without the database, or is a transaction.\<close>

definition decided :: "settings_store \<Rightarrow> (connection \<Rightarrow> settings_store \<times> (settings_error + 'a)) \<Rightarrow> bool" where
  "decided s f \<longleftrightarrow> (\<exists>r. r \<noteq> Inl CommitUncertain \<and> f = (\<lambda>conn. (s, r))) \<or>
     gate_open s \<and> (\<exists>w mirror. f = (\<lambda>conn. commit_transaction conn s w mirror) \<and>
       (\<forall>t. settings_table (fst (mirror t)) = settings_table t \<and> durable_table (fst (mirror t)) = durable_table t))"

lemma decidedE:
  assumes "decided s f"
  obtains r where "r \<noteq> Inl CommitUncertain" "\<And>conn. f conn = (s, r)"
  | w mirror where "gate_open s" "\<And>conn. f conn = commit_transaction conn s w mirror"
      "\<And>t. settings_table (fst (mirror t)) = settings_table t \<and> durable_table (fst (mirror t)) = durable_table t"
  using assms unfolding decided_def by blast

lemma decided_pure: "r \<noteq> Inl CommitUncertain \<Longrightarrow> decided s (\<lambda>conn. (s, r))"
  by (auto simp: decided_def)

lemma decided_commit:
  "gate_open s \<Longrightarrow> (\<And>t. settings_table (fst (mirror t)) = settings_table t \<and> durable_table (fst (mirror t)) = durable_table t) \<Longrightarrow>
   decided s (\<lambda>conn. commit_transaction conn s w mirror)"
  by (auto simp: decided_def)

lemma decided_if:
  "(b \<Longrightarrow> decided s f) \<Longrightarrow> (\<not> b \<Longrightarrow> decided s g) \<Longrightarrow> decided s (\<lambda>conn. if b then f conn else g conn)"
  by (cases b) simp_all

lemma decided_sum:
  "(\<And>e. x = Inl e \<Longrightarrow> decided s (f e)) \<Longrightarrow> (\<And>y. x = Inr y \<Longrightarrow> decided s (g y)) \<Longrightarrow>
   decided s (\<lambda>conn. case x of Inl e \<Rightarrow> f e conn | Inr y \<Rightarrow> g y conn)"
  by (cases x) simp_all

lemma decided_option:
  "(x = None \<Longrightarrow> decided s f) \<Longrightarrow> (\<And>y. x = Some y \<Longrightarrow> decided s (g y)) \<Longrightarrow>
   decided s (\<lambda>conn. case x of None \<Rightarrow> f conn | Some y \<Rightarrow> g y conn)"
  by (cases x) simp_all

lemmas decided_intros = decided_if decided_sum decided_option decided_pure decided_commit

lemma decided_map: "decided s f \<Longrightarrow> decided s (\<lambda>conn. map_prod id (map_sum id g) (f conn))"
  unfolding decided_def
proof (elim disjE exE conjE, goal_cases)
  case (1 r)
  then show ?case by (intro disjI1 exI [of _ "map_sum id g r"]) (cases r; auto)
next
  case (2 w mirror)
  then show ?case
    by (intro disjI2 conjI exI [of _ w] exI [of _ "map_prod id g \<circ> mirror"]) (simp_all add: commit_transaction_map)
qed

lemma mirror_flags_tables:
  "settings_table (fst (mirror_flags chs ids key on t)) = settings_table t"
  "durable_table (fst (mirror_flags chs ids key on t)) = durable_table t"
  using mirror_flag_frame(1,2) [of key on chs "(t, 0)"]
  by (cases "fold (mirror_flag key on) chs (t, 0)"; simp add: mirror_flags_def)+

lemma call_decided: "decided s (\<lambda>conn. run_call conn call s)"
proof (cases call)
  case (Batch c ms)
  show ?thesis
    unfolding Batch run_call.simps try_apply_batch_def
    by (intro decided_intros)
      (use check_not_uncertain(3) [of "[]" ms] check_not_uncertain(4) [of c ms s] in \<open>auto simp: mirror_batch_def\<close>)
next
  case (Flags chats key on)
  have "decided s (\<lambda>conn. set_flags conn chats key on s)"
    unfolding set_flags_def Let_def
    by (intro decided_intros)
      (use check_not_uncertain(5) [of s key] in
        \<open>auto simp: mirror_flags_tables map_sum_def split: sum.splits if_splits\<close>)
  then show ?thesis unfolding Flags run_call.simps .
next
  case (Forget c marker)
  have "decided s (\<lambda>conn. forget_chat_settings conn c marker s)"
    unfolding forget_chat_settings_def by (intro decided_intros) auto
  then show ?thesis unfolding Forget run_call.simps by (rule decided_map)
next
  case (Admit c)
  have "decided s (\<lambda>conn. admit_by_rights conn c s)"
    unfolding admit_by_rights_def by (intro decided_intros) auto
  then show ?thesis unfolding Admit run_call.simps by (rule decided_map)
qed

lemma closed_gate_call:
  "\<not> gate_open s \<Longrightarrow> fst (run_call conn call s) = s"
  by (cases call) (simp_all add: try_apply_batch_def set_flags_def forget_chat_settings_def admit_by_rights_def)

lemma closed_gate_writes: "settings_write\<^sup>*\<^sup>* s t \<Longrightarrow> \<not> gate_open s \<Longrightarrow> t = s"
  by (induction rule: rtranclp_induct)
    (auto simp: closed_gate_call elim!: settings_writeE)

text \<open>
  An operation that returns an error other than an uncertain commit, be it a refused value, a
  duplicate key, a used-up budget or a failing statement, has changed nothing, neither the tables
  nor the vectors, the index, the counters or the gate.
\<close>

theorem failed_calls_change_nothing:
  assumes "run_call conn call s = (t, Inl e)" and "\<not> commit_outcome_unknown e"
  shows "t = s"
  using call_decided [of s call]
proof (cases rule: decidedE)
  case (1 r)
  with 1(2) [of conn] assms show ?thesis by simp
next
  case (2 w mirror)
  with 2(2) [of conn] assms show ?thesis
    by (auto simp: commit_transaction_def commit_outcome_unknown_def split: sum.splits connection.splits prod.splits)
qed

text \<open>
  C21: after a commit of unknown outcome the tables hold either what they held before or what the
  operation would have written, the gate is closed, no sequence of later writers changes anything,
  and a restart finds the tables sound, takes them over as they are and opens the gate again.
\<close>

theorem uncertain_commit_stops_writers:
  assumes "settings_reach collate s" and "inj collate"
    and "run_call conn call s = (t, Inl e)" and "commit_outcome_unknown e" and "settings_write\<^sup>*\<^sup>* t u"
  shows "u = t \<and> \<not> gate_open t \<and>
    (settings_table t, durable_table t) \<in>
      {(settings_table s, durable_table s),
       (settings_table (fst (run_call Commits call s)), durable_table (fst (run_call Commits call s)))} \<and>
    (\<exists>v. load_settings collate t = Inr v \<and> gate_open v \<and>
       settings_table v = settings_table t \<and> durable_table v = durable_table t)"
proof -
  have e: "e = CommitUncertain" using assms(4) by (simp add: commit_outcome_unknown_def)
  obtain w mirror where call: "\<And>conn. run_call conn call s = commit_transaction conn s w mirror"
    and tables: "\<And>t. settings_table (fst (mirror t)) = settings_table t \<and> durable_table (fst (mirror t)) = durable_table t"
    using call_decided [of s call]
  proof (cases rule: decidedE)
    case (1 r)
    with 1(2) [of conn] assms(3) e show ?thesis by simp
  qed blast
  with assms(3) e call [of conn] call [of Commits] obtain happened x where x: "w = Inr x" "t = (if happened then x else s)\<lparr>gate_open := False\<rparr>"
    "fst (run_call Commits call s) = fst (mirror x)"
    by (auto simp: commit_transaction_def split: sum.splits connection.splits prod.splits)
  have closed: "\<not> gate_open t" by (simp add: x)
  moreover have "u = t" by (rule closed_gate_writes [OF assms(5) closed])
  moreover have "settings_ok t"
    using settings_ok_call [OF settings_reach_ok [OF assms(1,2)], of conn call] by (simp add: assms(3))
  then have "\<exists>v. load_settings collate t = Inr v \<and> gate_open v \<and>
       settings_table v = settings_table t \<and> durable_table v = durable_table t"
    using load_settings_ok [OF _ assms(2)] by blast
  ultimately show ?thesis using tables [of x] by (simp add: x)
qed


section \<open>What the operations do\<close>

lemma map_of_mutation_changes:
  "distinct (map mutation_key ms) \<Longrightarrow>
   map_of (mutation_changes cs ms) k =
     (case find (\<lambda>m. mutation_key m = k) ms of
        None \<Rightarrow> None
      | Some m \<Rightarrow> if setting_text cs k \<noteq> mutation_next cs m then Some (mutation_next cs m) else None)"
proof (induction ms)
  case (Cons m ms)
  have "find (\<lambda>m. mutation_key m = k) ms = None" if "k = mutation_key m"
    using Cons.prems that by (auto simp: find_None_iff image_iff)
  with Cons show ?case by (auto simp: mutation_changes_def)
qed (simp add: mutation_changes_def)

lemma changed_mutations:
  assumes "distinct (map mutation_key ms)"
  shows "changed (mutation_changes cs ms) (setting_text cs) k =
    (case find (\<lambda>m. mutation_key m = k) ms of None \<Rightarrow> setting_text cs k | Some m \<Rightarrow> mutation_next cs m)"
  by (auto simp: changed_def map_of_mutation_changes [OF assms] split: option.split)

lemma mutation_changes_keys:
  assumes "distinct (map mutation_key ms)"
  shows "length (mutation_changes cs ms) =
    card {k. changed (mutation_changes cs ms) (setting_text cs) k \<noteq> setting_text cs k}"
proof -
  have "{k. changed (mutation_changes cs ms) (setting_text cs) k \<noteq> setting_text cs k} = fst ` set (mutation_changes cs ms)"
    unfolding dom_map_of_conv_image_fst [symmetric]
    by (auto simp: changed_def map_of_mutation_changes [OF assms] split: option.splits if_splits)
  moreover have "distinct (map fst (mutation_changes cs ms))"
    using assms by (simp add: mutation_changes_def comp_def distinct_map_filter)
  ultimately show ?thesis using distinct_card by fastforce
qed

lemma batch_result:
  assumes ok: "settings_ok s" and call: "try_apply_batch conn c ms s = (t, Inr n)"
  shows "gate_open s \<and> distinct (map mutation_key ms) \<and> n = length (mutation_changes (cache s c) ms) \<and>
    table_map (settings_table t) = changed (tagged c (mutation_changes (cache s c) ms)) (table_map (settings_table s))"
proof -
  note D = settings_okD [OF ok]
  have gate: "gate_open s" using call by (auto simp: try_apply_batch_def split: if_splits)
  show ?thesis
  proof (cases "ms = []")
    case True
    then show ?thesis using call gate by (simp add: try_apply_batch_def mutation_changes_def tagged_def)
  next
    case False
    then have chk: "check_mutations [] ms = Inr ()"
      using call gate by (auto simp: try_apply_batch_def split: sum.splits)
    have dist: "distinct (map mutation_key ms)" using check_mutations_ok [OF chk] by blast
    show ?thesis
    proof (cases "plan_batch c ms s = Inr None")
      case True
      then have "mutation_changes (cache s c) ms = []" by (auto simp: plan_batch_def Let_def split: if_splits)
      then show ?thesis using True call gate False chk dist by (simp add: try_apply_batch_def tagged_def)
    next
      case False
      then obtain p where p: "plan_batch c ms s = Inr (Some p)"
        using call gate \<open>ms \<noteq> []\<close> chk by (auto simp: try_apply_batch_def split: sum.splits option.splits)
      note F = plan_batch_facts [OF D(1,3) D(4) [OF gate] chk p]
      obtain w where w: "write_batch c p s = Inr w" "t = mirror_batch c p w" "n = length (plan_changes p)"
        using call gate \<open>ms \<noteq> []\<close> chk p
        by (auto simp: try_apply_batch_def commit_transaction_def split: sum.splits connection.splits)
      have "settings_table t = write_settings c (plan_changes p) (settings_table s)"
        using write_batch_eq [OF w(1)] w(2) by (auto simp: mirror_batch_def)
      then show ?thesis using gate dist w(3) F(1) table_map_write [OF D(2) F(3)] by simp
    qed
  qed
qed

lemma batch_map:
  assumes ok: "settings_ok s" and call: "try_apply_batch conn c ms s = (t, Inr n)"
  shows "table_map (settings_table t) (d, k) =
      (case find (\<lambda>m. mutation_key m = k) (if d = c then ms else []) of
         None \<Rightarrow> table_map (settings_table s) (d, k)
       | Some m \<Rightarrow> mutation_next (cache s c) m) \<and>
    n = card {k. table_map (settings_table t) (c, k) \<noteq> table_map (settings_table s) (c, k)}"
proof -
  note D = settings_okD [OF ok]
  note R = batch_result [OF ok call]
  have cached: "setting_text (cache s c) k = table_map (settings_table s) (c, k)" for c k
    using cache_ok_text [OF mirror_okD(4) [OF D(4)]] R by blast
  have M: "table_map (settings_table t) (d, k) =
      (if d = c then changed (mutation_changes (cache s c) ms) (setting_text (cache s c)) k else table_map (settings_table s) (d, k))" for d k
    using R by (simp add: changed_def map_of_tagged cached split: option.split)
  have n: "n = length (mutation_changes (cache s c) ms)" and "distinct (map mutation_key ms)" using R by blast+
  from changed_mutations [OF this(2)] mutation_changes_keys [OF this(2), of "cache s c"] show ?thesis
    unfolding n by (simp add: M cached cong: option.case_cong)
qed

lemma batch_texts:
  assumes ok: "settings_ok s" and call: "try_apply_batch conn c ms s = (t, Inr n)"
  shows "setting_text (cache t d) k =
      (case find (\<lambda>m. mutation_key m = k) (if d = c then ms else []) of
         None \<Rightarrow> setting_text (cache s d) k
       | Some m \<Rightarrow> mutation_next (cache s c) m)"
proof -
  have gate: "gate_open s" using batch_result [OF ok call] by blast
  then have gate': "gate_open t"
    using call by (auto simp: try_apply_batch_def commit_transaction_def mirror_batch_def write_batch_def
      split: sum.splits option.splits connection.splits if_splits)
  have ok': "settings_ok t" using settings_ok_batch [OF ok, of conn c ms] by (simp add: call)
  have "setting_text (cache u d) k = table_map (settings_table u) (d, k)" if "settings_ok u" "gate_open u" for u d k
    using cache_ok_text [OF mirror_okD(4) [OF settings_okD(4) [OF that]]] by blast
  note this [OF ok gate] this [OF ok' gate']
  then show ?thesis using batch_map [OF ok call, of d k] by (simp split: option.split)
qed

text \<open>
  C22: a batch that succeeds applies all its mutations at once, against the state before it: the row of
  each named key becomes what its mutation asks for (a conditional put reads its condition in the old
  state), every other key of the chat and every other chat keeps its row, and the number returned is
  the number of keys whose row changed.
\<close>

theorem batch_applies_at_once:
  assumes "settings_reach collate s" and "inj collate" and "try_apply_batch conn c ms s = (t, Inr n)"
  shows "table_map (settings_table t) (d, k) =
      (case find (\<lambda>m. mutation_key m = k) (if d = c then ms else []) of
         None \<Rightarrow> table_map (settings_table s) (d, k)
       | Some m \<Rightarrow> mutation_next (cache s c) m) \<and>
    n = card {k. table_map (settings_table t) (c, k) \<noteq> table_map (settings_table s) (c, k)}"
  by (rule batch_map [OF settings_reach_ok [OF assms(1,2)] assms(3)])


lemma filter_count: "distinct cs \<Longrightarrow> length (filter P cs) = card {d \<in> set cs. P d}"
  using distinct_card [of "filter P cs"] by simp

lemma flags_result_on:
  assumes ok: "settings_ok s" and gate: "gate_open s" and key: "\<And>c. setting_ok (c, key) []"
    and plan: "flag_plan s key (sorted_ids chats) \<lparr>proj_rows = setting_rows s, proj_bytes = setting_bytes s,
      proj_chats = known_chats s, flag_changes = []\<rparr> = Inr q"
    and written: "write_flags (sorted_ids chats) key True s = Inr w"
  shows "table_map (settings_table w) = changed (flagged key (Some []) (sorted_ids chats)) (table_map (settings_table s)) \<and>
    snd (mirror_flags (flag_changes q) (sorted_ids chats) key True w) =
      card {d \<in> set chats. table_map (settings_table s) (d, key) \<noteq> Some []}"
proof -
  note D = settings_okD [OF ok]
  let ?M = "table_map (settings_table s)" and ?ids = "sorted_ids chats"
  note mir = D(4) [OF gate]
  obtain d where d: "admit_all (settings_table s) ?ids (durable_table s) = Inr d"
    and w: "w = s\<lparr>durable_table := d, settings_table := fold (\<lambda>c. put_settings c [(key, [])]) ?ids (settings_table s)\<rparr>"
    using written by (auto simp: write_flags_def split: sum.splits)
  note F = flags_on [OF D(1) key plan_at_start [OF D(1,3) mir] sorted_ids_facts(1) D(3) plan d]
  have "counts_ok w ?M" using mirror_okD(1) [OF mir] by (simp add: w counts_ok_def)
  then have "snd (mirror_flags (flag_changes q) ?ids key True w) = length (filter (\<lambda>c. ?M (c, key) \<noteq> Some []) ?ids)"
    using conjunct2 [OF conjunct2 [OF F], rule_format, of w 0] F
    by (cases "fold (mirror_flag key True) (flag_changes q) (w, 0)") (simp add: mirror_flags_def)
  then show ?thesis
    using table_map_flags [OF D(2), of key "[]" ?ids] by (simp add: w filter_count)
qed

lemma flags_result_off:
  assumes ok: "settings_ok s" and gate: "gate_open s" and written: "write_flags (sorted_ids chats) key False s = Inr w"
  shows "table_map (settings_table w) = changed (flagged key None (sorted_ids chats)) (table_map (settings_table s)) \<and>
    snd (mirror_flags (filter (\<lambda>c. setting_text (cache s c) key \<noteq> None) (sorted_ids chats)) (sorted_ids chats) key False w) =
      card {d \<in> set chats. table_map (settings_table s) (d, key) \<noteq> None}"
proof -
  note D = settings_okD [OF ok]
  let ?M = "table_map (settings_table s)" and ?ids = "sorted_ids chats"
  let ?chs = "filter (\<lambda>c. ?M (c, key) \<noteq> None) ?ids"
  note mir = D(4) [OF gate] and MD = map_okD [OF D(3)]
  have w: "w = s\<lparr>settings_table := sql_delete (\<lambda>r. st_key r = key \<and> st_chat r \<in> set ?ids) (settings_table s)\<rparr>"
    using written by (simp add: write_flags_def)
  have chs: "filter (\<lambda>c. setting_text (cache s c) key \<noteq> None) ?ids = ?chs"
    using cache_ok_text [OF mirror_okD(4) [OF mir]] by simp
  have "counts_ok w ?M" using mirror_okD(1) [OF mir] by (simp add: w counts_ok_def)
  from flags_off [OF sorted_ids_facts(1) MD(1) limits_small(1) [OF D(1) MD(4)] limits_small(2) [OF D(1) MD(5)] this,
      of key chats 0]
  have "snd (mirror_flags ?chs ?ids key False w) = length ?chs"
    by (cases "fold (mirror_flag key False) ?chs (w, 0)") (simp add: mirror_flags_def)
  then show ?thesis
    unfolding chs using table_map_unflags [OF D(2), of key ?ids] by (simp add: w filter_count)
qed

text \<open>
  Setting a flag in many chats succeeds for all of them or for none: afterwards the key is the
  empty text in every chat asked for (or absent, when the flag is cleared), nothing else changed, and
  the number returned is the number of chats whose row changed, repeated chats counted once.
\<close>

theorem flags_change_all_chats:
  assumes "settings_reach collate s" and "inj collate" and "set_flags conn chats key on s = (t, Inr n)"
  shows "table_map (settings_table t) (d, k) =
      (if d \<in> set chats \<and> k = key then (if on then Some [] else None) else table_map (settings_table s) (d, k)) \<and>
    n = card {d. table_map (settings_table t) (d, key) \<noteq> table_map (settings_table s) (d, key)}"
proof -
  note ok = settings_reach_ok [OF assms(1,2)]
  let ?M = "table_map (settings_table s)" and ?ids = "sorted_ids chats" and ?v = "if on then Some [] else None"
  have gate: "gate_open s" using assms(3) by (auto simp: set_flags_def split: if_splits)
  have "table_map (settings_table t) = changed (flagged key ?v ?ids) ?M \<and> n = card {d \<in> set chats. ?M (d, key) \<noteq> ?v}"
  proof (cases "chats = []")
    case True
    then show ?thesis using assms(3) by (auto simp: set_flags_def sorted_ids_def split: if_splits sum.splits)
  next
    case False
    show ?thesis
    proof (cases on)
      case True
      then have key: "setting_ok (c, key) []" for c
        using assms(3) gate by (auto simp: set_flags_def setting_ok_def map_sum_def split: if_splits sum.splits)
      obtain q w where "flag_plan s key ?ids \<lparr>proj_rows = setting_rows s, proj_bytes = setting_bytes s,
          proj_chats = known_chats s, flag_changes = []\<rparr> = Inr q"
        "write_flags ?ids key True s = Inr w" "mirror_flags (flag_changes q) ?ids key True w = (t, n)"
        using assms(3) gate False True
        by (auto simp: set_flags_def map_sum_def commit_transaction_def Let_def split: if_splits sum.splits connection.splits prod.splits)
      with flags_result_on [OF ok gate key this(1,2)] mirror_flags_tables(1) [of "flag_changes q" ?ids key True w] True
      show ?thesis by simp
    next
      case off: False
      obtain w where "write_flags ?ids key False s = Inr w"
        "mirror_flags (filter (\<lambda>c. setting_text (cache s c) key \<noteq> None) ?ids) ?ids key False w = (t, n)"
        using assms(3) gate False off
        by (auto simp: set_flags_def map_sum_def commit_transaction_def Let_def split: if_splits sum.splits connection.splits prod.splits)
      with flags_result_off [OF ok gate this(1)] off
        mirror_flags_tables(1) [of "filter (\<lambda>c. setting_text (cache s c) key \<noteq> None) ?ids" ?ids key False w]
      show ?thesis by simp
    qed
  qed
  moreover have "{d \<in> set chats. ?M (d, key) \<noteq> ?v} = {d. changed (flagged key ?v ?ids) ?M (d, key) \<noteq> ?M (d, key)}"
    by (cases on) (auto simp: changed_flagged eq_commute [of None])
  ultimately show ?thesis by (auto simp: changed_flagged)
qed


section \<open>A run\<close>

definition sample_open :: settings_store where
  "sample_open = (fresh_settings (Some 10) (Some 1000) (Some 100000))\<lparr>gate_open := True\<rparr>"

definition sample_ms :: "setting_mutation list" where
  "sample_ms = [Put (ascii ''warn_limit'') (ascii ''3''), PutIfEmpty (ascii ''cmd:a'') (ascii ''b'') (ascii ''warn_limit'')]"

definition sample_set :: settings_store where
  "sample_set = fst (try_apply_batch Commits (-5) sample_ms sample_open)"

lemma sample_checks:
  "validate_persisted_setting (ascii ''warn_limit'') (ascii ''3'') = Inr ()"
  "validate_persisted_setting (ascii ''cmd:a'') (ascii ''b'') = Inr ()"
  "utf8_len (ascii ''warn_limit'') = 10" "utf8_len (ascii ''3'') = 1" "utf8_len (ascii ''cmd:a'') = 5" "utf8_len (ascii ''b'') = 1"
  "ascii ''cmd:a'' \<noteq> ascii ''warn_limit''"
  by code_simp+

lemma sample_checked: "check_mutations [] sample_ms = Inr ()"
  by (simp add: sample_ms_def check_mutation_def check_value_def sample_checks max_setting_key_bytes_def max_setting_value_bytes_def)


lemma sample_reach: "settings_reach id sample_open"
proof (rule settings_reach.start)
  show "limits_ok (fresh_settings (Some 10) (Some 1000) (Some 100000))"
    by (simp add: fresh_settings_def limits_ok_def absolute_max_settings_rows_def absolute_max_settings_bytes_def is_some_and_iff)
  show "load_settings id (fresh_settings (Some 10) (Some 1000) (Some 100000)) = Inr sample_open"
    by (simp add: load_settings_def fresh_settings_def sample_open_def load_pages.simps [of id] load_page_def sql_page_def
        over_def is_some_and_iff usize_limit_def)
qed

lemma sample_changes:
  "mutation_changes None sample_ms =
     [(ascii ''warn_limit'', Some (ascii ''3'')), (ascii ''cmd:a'', Some (ascii ''b''))]"
  by (simp add: mutation_changes_def sample_ms_def setting_text_def)

lemma sample_plan:
  "plan_batch (-5) sample_ms sample_open = Inr (Some
     \<lparr>plan_changes = [(ascii ''warn_limit'', Some (ascii ''3'')), (ascii ''cmd:a'', Some (ascii ''b''))],
      plan_old_rows = 0, plan_new_rows = 2, plan_old_bytes = 0, plan_new_bytes = 17, plan_hash = None\<rparr>)"
proof -
  have "ascii ''hash'' \<noteq> ascii ''warn_limit''" "ascii ''hash'' \<noteq> ascii ''cmd:a''" by code_simp+
  then show ?thesis
    by (simp add: plan_batch_def sample_open_def fresh_settings_def sample_changes Let_def count_changes_def count_change_def
        no_counts_def setting_text_def setting_size_def saturating_usize_add_def usize_limit_def sample_checks over_def is_some_and_iff
        max_settings_rows_per_chat_def known_chats_def)
qed

lemma sample_batch:
  "try_apply_batch Commits (-5) sample_ms sample_open = (sample_set, Inr 2)"
  "gate_open sample_set"
proof -
  have ms: "sample_ms \<noteq> []" "gate_open sample_open" by (simp_all add: sample_ms_def sample_open_def)
  obtain p where p: "plan_batch (-5) sample_ms sample_open = Inr (Some p)" "plan_hash p = None" "length (plan_changes p) = 2"
    unfolding sample_plan by simp
  have "\<exists>w. write_batch (-5) p sample_open = Inr w \<and> gate_open w"
    using p(2) by (simp add: write_batch_def hash_column_def durable_chat_id_def sample_open_def)
  then have "try_apply_batch Commits (-5) sample_ms sample_open = (sample_set, Inr 2) \<and> gate_open sample_set"
    unfolding sample_set_def try_apply_batch_def sample_checked
    by (auto simp: ms p commit_transaction_def mirror_batch_def split: sum.splits)
  then show "try_apply_batch Commits (-5) sample_ms sample_open = (sample_set, Inr 2)" "gate_open sample_set" by blast+
qed

lemma sample_set_reach: "settings_reach id sample_set"
proof (rule settings_reach.step [OF sample_reach settings_step.writes])
  show "settings_write sample_open sample_set"
    using settings_write.call [of sample_open Commits "Batch (-5) sample_ms"] by (simp add: sample_batch)
qed


lemma sample_set_rows: "table_map (settings_table sample_set) (-5, ascii ''warn_limit'') = Some (ascii ''3'')"
proof -
  have u: "unique_key settings_key (settings_table sample_open)"
    by (simp add: sample_open_def fresh_settings_def unique_key_def)
  have "table_map (settings_table sample_set) = changed (tagged (-5) (mutation_changes None sample_ms)) (table_map (settings_table sample_open))"
    using batch_result [OF settings_reach_ok [OF sample_reach inj_on_id] sample_batch(1)]
    by (simp add: sample_open_def fresh_settings_def)
  then show ?thesis by (simp add: sample_changes changed_def map_of_tagged)
qed

theorem mirror_answers_for_database_witness:
  "setting_text (cache sample_set (-5)) (ascii ''warn_limit'') =
     map_option st_text (row_at settings_key (settings_table sample_set) (-5, ascii ''warn_limit'')) \<and>
   setting_rows sample_set = length (settings_table sample_set)"
  using mirror_answers_for_database [OF sample_set_reach inj_on_id sample_batch(2), of "''cmd:''"]
  by (simp add: indexed_prefixes_def)

theorem settings_budgets_hold_witness:
  "is_some_and (\<lambda>m. length (settings_table sample_set) \<le> m) (row_limit sample_set) \<and>
   length (filter (\<lambda>r. st_chat r = -5) (settings_table sample_set)) \<le> 512"
  using settings_budgets_hold [OF sample_set_reach inj_on_id, of "-5"] by blast

theorem typed_getters_never_panic_witness:
  "is_some_and (\<lambda>x. 2 \<le> x \<and> x \<le> 50) (setting_number (cache sample_set (-5)) (ascii ''flood_limit'') 8 (2, 50)) \<and>
   setting_value_parsed parse_u32 (cache sample_set (-5)) (ascii ''warn_limit'') \<noteq> None"
  using typed_getters_never_panic [OF sample_set_reach inj_on_id sample_batch(2), of "-5"]
  by (simp add: number_calls_def flood_limit_call_def parsed_u32_keys_def)

lemma sample_failures:
  "run_call (FailsStatement ''out of memory'') (Batch (-5) sample_ms) sample_open =
     (sample_open, Inl (DatabaseError ''out of memory''))"
  "\<exists>t. run_call (LosesCommit True) (Batch (-5) sample_ms) sample_open = (t, Inl CommitUncertain)"
proof -
  obtain p where p: "plan_batch (-5) sample_ms sample_open = Inr (Some p)" "plan_hash p = None"
    unfolding sample_plan by simp
  have w: "\<exists>w. write_batch (-5) p sample_open = Inr w"
    using p(2) by (simp add: write_batch_def hash_column_def durable_chat_id_def)
  have ms: "sample_ms \<noteq> []" "gate_open sample_open" by (simp_all add: sample_ms_def sample_open_def)
  show "run_call (FailsStatement ''out of memory'') (Batch (-5) sample_ms) sample_open =
     (sample_open, Inl (DatabaseError ''out of memory''))"
    "\<exists>t. run_call (LosesCommit True) (Batch (-5) sample_ms) sample_open = (t, Inl CommitUncertain)"
    using w by (auto simp: try_apply_batch_def sample_checked ms p commit_transaction_def)
qed

theorem failed_calls_change_nothing_witness:
  "fst (run_call (FailsStatement ''out of memory'') (Batch (-5) sample_ms) sample_open) = sample_open"
  using failed_calls_change_nothing [OF sample_failures(1)] sample_failures(1) by (simp add: commit_outcome_unknown_def)

theorem uncertain_commit_stops_writers_witness:
  "\<exists>t. run_call (LosesCommit True) (Batch (-5) sample_ms) sample_open = (t, Inl CommitUncertain) \<and> \<not> gate_open t"
proof -
  obtain t where t: "run_call (LosesCommit True) (Batch (-5) sample_ms) sample_open = (t, Inl CommitUncertain)"
    using sample_failures(2) by blast
  have "\<not> gate_open t"
    using uncertain_commit_stops_writers [OF sample_reach inj_on_id t _ rtranclp.rtrancl_refl] by (simp add: commit_outcome_unknown_def)
  with t show ?thesis by blast
qed

theorem batch_applies_at_once_witness:
  "table_map (settings_table sample_set) (-5, ascii ''cmd:a'') = Some (ascii ''b'')"
proof -
  have "setting_text (cache sample_open (-5)) (ascii ''warn_limit'') = None"
    by (simp add: sample_open_def fresh_settings_def setting_text_def)
  then show ?thesis
    using batch_applies_at_once [OF sample_reach inj_on_id sample_batch(1), of "-5" "ascii ''cmd:a''"]
    by (simp add: sample_ms_def sample_checks sample_checks(7) [symmetric])
qed

lemma sample_flags: "\<exists>t. set_flags Commits [-5, -7, -5] (ascii ''x'') True sample_open = (t, Inr 2)"
proof -
  have chk: "validate_persisted_setting (ascii ''x'') [] = Inr ()" "utf8_len (ascii ''x'') = 1" by code_simp+
  have ids: "sorted_ids [-5, -7, -5] = [-7, -5]" by (simp add: sorted_ids_def)
  have plan: "flag_plan sample_open (ascii ''x'') [-7, -5]
      \<lparr>proj_rows = setting_rows sample_open, proj_bytes = setting_bytes sample_open,
       proj_chats = known_chats sample_open, flag_changes = []\<rparr> =
      Inr \<lparr>proj_rows = 2, proj_bytes = 2, proj_chats = 2, flag_changes = [-7, -5]\<rparr>"
    by (simp add: sample_open_def fresh_settings_def setting_text_def Let_def max_settings_rows_per_chat_def is_some_and_iff
        known_chats_def chat_known_def setting_size_def chk saturating_usize_add_def usize_limit_def over_def)
  have "\<exists>w. write_flags [-7, -5] (ascii ''x'') True sample_open = Inr w"
    by (simp add: write_flags_def sample_open_def fresh_settings_def stored_hash_def hash_column_def durable_chat_id_def)
  then obtain w where w: "write_flags [-7, -5] (ascii ''x'') True sample_open = Inr w" "cache w = (\<lambda>c. None)"
    by (auto simp: write_flags_def sample_open_def fresh_settings_def split: sum.splits)
  have "snd (mirror_flags [-7, -5] [-7, -5] (ascii ''x'') True w) = 2"
    using w(2) by (simp add: mirror_flags_def mirror_flag_def chat_rows_insert_def chat_rows_find_def Let_def)
  then obtain t where "mirror_flags [-7, -5] [-7, -5] (ascii ''x'') True w = (t, 2)"
    by (cases "mirror_flags [-7, -5] [-7, -5] (ascii ''x'') True w") simp
  moreover have "gate_open sample_open" by (simp add: sample_open_def)
  ultimately show ?thesis
    by (simp add: set_flags_def ids plan chk w(1) commit_transaction_def Let_def max_setting_key_bytes_def del: flag_plan.simps)
qed

theorem flags_change_all_chats_witness:
  "\<exists>t. set_flags Commits [-5, -7, -5] (ascii ''x'') True sample_open = (t, Inr 2) \<and>
     table_map (settings_table t) (-7, ascii ''x'') = Some []"
proof -
  obtain t where t: "set_flags Commits [-5, -7, -5] (ascii ''x'') True sample_open = (t, Inr 2)"
    using sample_flags by blast
  with flags_change_all_chats [OF sample_reach inj_on_id t, of "-7" "ascii ''x''"] show ?thesis by simp
qed

end
