(* ===== verification/ResponsePolicy.thy ===== *)
theory ResponsePolicy
  imports SettingsFacts
begin

text \<open>
  Who sees an answer of the bot: the visibility policy of \<open>src/src/response.rs\<close>. A kind of response
  belongs to a class that may force it to be public or private; two kinds can be set per chat. The
  policy of a chat is kept in its settings, so it is written through \<open>SettingsStore\<close>.
\<close>

section \<open>Decisions\<close>

datatype intended_audience = RequesterOnly | WholeGroup | SharedWorkflow

record delivery_capabilities =
  is_group :: bool
  has_target_user :: bool
  callback_overlay :: bool

datatype delivery_decision = Regular | Ephemeral bool | CallbackOverlay | DirectPrivate | Suppress

definition read_override :: "chat_settings \<Rightarrow> utext \<Rightarrow> visibility_override" where
  "read_override cs key =
     (case Option.bind (setting_value cs key) visibility_from_str of None \<Rightarrow> DefaultVisibility | Some v \<Rightarrow> v)"

definition effective_visibility :: "chat_settings \<Rightarrow> response_kind \<Rightarrow> visibility_override" where
  "effective_visibility cs k =
     (case read_override cs (kind_key k) of
        PrivateVisibility \<Rightarrow> PrivateVisibility
      | DefaultVisibility \<Rightarrow> PublicVisibility
      | PublicVisibility \<Rightarrow> PublicVisibility)"

definition decide_with_settings ::
  "noise_mode \<Rightarrow> chat_settings \<Rightarrow> response_kind \<Rightarrow> intended_audience \<Rightarrow> delivery_capabilities \<Rightarrow> delivery_decision" where
  "decide_with_settings mode cs k audience cap =
     (let sem = semantics k
      in if sem_class sem = V_PublicRequired then Regular
         else if \<not> is_group cap then DirectPrivate
         else if sem_class sem = V_PrivacyRequired then
           (if has_target_user cap then Ephemeral False else Suppress)
         else if audience \<noteq> RequesterOnly then Regular
         else if k = CallbackFeedback \<and> callback_overlay cap then CallbackOverlay
         else
           (if k \<in> set overridable \<and> effective_visibility cs k = PrivateVisibility
            then (if has_target_user cap then Ephemeral False else Suppress)
            else Regular))"

definition decision ::
  "settings_store \<Rightarrow> chat_id \<Rightarrow> response_kind \<Rightarrow> intended_audience \<Rightarrow> delivery_capabilities \<Rightarrow> delivery_decision" where
  "decision s c k audience cap = decide_with_settings NoiseOff (chat_settings_of s c) k audience cap"

section \<open>What the panel shows\<close>

fun label :: "response_kind \<Rightarrow> utext" where
  "label ContentRemovalNotice =
     [1575, 1593, 1604, 1575, 1606, 32, 1607, 1575]"
| "label WelcomeNotice =
     [1582, 1608, 1588, 1575, 1605, 1583]"
| "label SettingsChanged =
     [1578, 1571, 1740, 1740, 1583, 32, 1578, 1594, 1740, 1740, 1585, 32, 1578, 1606, 1592, 1740, 1605]"
| "label Help =
     [1662, 1575, 1587, 1582, 32, 1585, 1575, 1607, 1606, 1605, 1575]"
| "label AdminTool =
     [1606, 1578, 1740, 1580, 1607, 32, 1575, 1576, 1586, 1575, 1585, 32, 1605, 1583, 1740, 1585]"
| "label MemberLookup =
     [1580, 1587, 1578, 1580, 1608, 1740, 32, 1593, 1590, 1608]"
| "label Statistics =
     [1662, 1575, 1587, 1582, 32, 1570, 1605, 1575, 1585]"
| "label WarningLookup =
     [1606, 1605, 1575, 1740, 1588, 32, 1575, 1582, 1591, 1575, 1585, 1607, 1575]"
| "label ModerationConfirmation =
     [1578, 1571, 1740, 1740, 1583, 32, 1575, 1580, 1585, 1575, 1740, 32, 1605, 1580, 1575, 1586, 1575, 1578]"
| "label FilterManagement =
     [1578, 1571, 1740, 1740, 1583, 32, 1605, 1583, 1740, 1585, 1740, 1578, 32, 1601, 1740, 1604, 1578, 1585]"
| "label LockManagement =
     [1578, 1571, 1740, 1740, 1583, 32, 1605, 1583, 1740, 1585, 1740, 1578, 32, 1602, 1601, 1604]"
| "label AntiSpamControl =
     [1578, 1571, 1740, 1740, 1583, 32, 1590, 1583, 32, 1575, 1587, 1662, 1605]"
| "label WelcomeSetup =
     [1578, 1571, 1740, 1740, 1583, 32, 1578, 1606, 1592, 1740, 1605, 32, 1582, 1608, 1588, 32, 1570, 1605, 1583]"
| "label UtilityResult =
     [1662, 1575, 1587, 1582, 32, 1575, 1576, 1586, 1575, 1585, 32, 1593, 1605, 1608, 1605, 1740]"
| "label k = ascii (kind_as_str k)"

record policy_kind_view =
  view_id :: utext
  view_label :: utext
  view_visibility :: visibility_override

record policy_view =
  view_overrides :: "policy_kind_view list"
  private_preview :: "utext list"
  public_preview :: "utext list"

definition preview_sample :: "(response_kind \<times> utext) list" where
  "preview_sample = [(ContentRemovalNotice, label ContentRemovalNotice), (WelcomeNotice, label WelcomeNotice)]"

definition preview_capabilities :: delivery_capabilities where
  "preview_capabilities = \<lparr>is_group = True, has_target_user = True, callback_overlay = False\<rparr>"

definition preview :: "chat_settings \<Rightarrow> utext list \<times> utext list" where
  "preview cs =
     fold (\<lambda>(k, l) (private, public).
             case decide_with_settings NoiseOff cs k RequesterOnly preview_capabilities of
               Regular \<Rightarrow> (private, public @ [l])
             | _ \<Rightarrow> (private @ [l], public))
       preview_sample ([], [])"

definition policy_view_of :: "settings_store \<Rightarrow> chat_id \<Rightarrow> policy_view" where
  "policy_view_of s c =
     (let cs = chat_settings_of s c; (private, public) = preview cs
      in \<lparr>view_overrides = map (\<lambda>k. \<lparr>view_id = ascii (kind_as_str k), view_label = label k,
                                     view_visibility = effective_visibility cs k\<rparr>) overridable,
          private_preview = private, public_preview = public\<rparr>)"

section \<open>Changing the policy\<close>

definition set_override ::
  "connection \<Rightarrow> chat_id \<Rightarrow> utext \<Rightarrow> visibility_override \<Rightarrow> settings_store \<Rightarrow> settings_store \<times> (settings_error + bool)" where
  "set_override conn c key v s =
     (case v of
        DefaultVisibility \<Rightarrow> map_prod id (map_sum id (\<lambda>n. n \<noteq> 0)) (try_apply_batch conn c [Delete key] s)
      | _ \<Rightarrow> try_set_value conn c key (visibility_as_str v) s)"

definition set_kind ::
  "connection \<Rightarrow> chat_id \<Rightarrow> response_kind \<Rightarrow> visibility_override \<Rightarrow> settings_store \<Rightarrow>
     settings_store \<times> (settings_error + bool)" where
  "set_kind conn c k v s =
     (if k \<notin> set overridable then (s, Inr False) else set_override conn c (kind_key k) v s)"

definition legacy_kinds :: "response_kind list" where
  "legacy_kinds =
     [SettingsChanged, Help, AdminTool, MemberLookup, Statistics, WarningLookup, ModerationConfirmation,
      FilterManagement, LockManagement, AntiSpamControl, WelcomeSetup, UtilityResult]"

definition policy_keys :: "utext list" where
  "policy_keys = mode_key # map category_key all_categories @ map kind_key overridable @ map kind_key legacy_kinds"

definition reset_policy ::
  "connection \<Rightarrow> chat_id \<Rightarrow> settings_store \<Rightarrow> settings_store \<times> (settings_error + bool)" where
  "reset_policy conn c s =
     map_prod id (map_sum id (\<lambda>n. n \<noteq> 0)) (try_apply_batch conn c (map Delete policy_keys) s)"


section \<open>The policy takes effect\<close>

lemma kind_key_inj: "kind_key k = kind_key j \<longleftrightarrow> k = j"
  by (auto simp: kind_key_def dest: kind_as_str_inj)

lemma setting_value_text: "setting_value cs key = (case setting_text cs key of None \<Rightarrow> None | Some v \<Rightarrow> if v = [] then None else Some v)"
  by (simp add: setting_value_def)

lemma decide_cong:
  "(\<And>k. k \<in> set overridable \<Longrightarrow> setting_text cs (kind_key k) = setting_text cs' (kind_key k)) \<Longrightarrow>
   decide_with_settings mode cs j audience cap = decide_with_settings mode cs' j audience cap"
proof -
  assume same: "\<And>k. k \<in> set overridable \<Longrightarrow> setting_text cs (kind_key k) = setting_text cs' (kind_key k)"
  have "effective_visibility cs j = effective_visibility cs' j" if "j \<in> set overridable"
    using same [OF that] by (simp add: effective_visibility_def read_override_def setting_value_text)
  then show ?thesis by (auto simp: decide_with_settings_def Let_def)
qed

lemma decide_overridable:
  assumes "k \<in> set overridable" and "is_group cap"
  shows "decide_with_settings mode cs k RequesterOnly cap =
    (if effective_visibility cs k = PrivateVisibility then if has_target_user cap then Ephemeral False else Suppress else Regular)"
  using assms by (auto simp: decide_with_settings_def overridable_def Let_def)

lemma effective_after:
  "setting_text cs (kind_key k) = (if v = DefaultVisibility then None else Some (visibility_as_str v)) \<Longrightarrow>
   effective_visibility cs k = PrivateVisibility \<longleftrightarrow> v = PrivateVisibility"
proof -
  assume a: "setting_text cs (kind_key k) = (if v = DefaultVisibility then None else Some (visibility_as_str v))"
  have "visibility_as_str v \<noteq> []" by (cases v) (simp_all add: ascii_def)
  then have "read_override cs (kind_key k) = v"
    using a by (simp add: read_override_def setting_value_text del: visibility_as_str.simps)
  then show ?thesis by (cases v) (simp_all add: effective_visibility_def)
qed


lemma set_override_texts:
  assumes ok: "settings_ok s" and call: "set_override conn c key v s = (t, Inr b)"
  shows "setting_text (cache t d) k =
    (if d = c \<and> k = key then (if v = DefaultVisibility then None else Some (visibility_as_str v))
     else setting_text (cache s d) k)"
proof -
  let ?ms = "[if v = DefaultVisibility then Delete key else Put key (visibility_as_str v)]"
  have "set_override conn c key v s = map_prod id (map_sum id (\<lambda>n. n \<noteq> 0)) (try_apply_batch conn c ?ms s)"
    by (cases v) (simp_all add: set_override_def try_set_value_def)
  then obtain n where "try_apply_batch conn c ?ms s = (t, Inr n)"
    using call by (cases "try_apply_batch conn c ?ms s"; cases "snd (try_apply_batch conn c ?ms s)") auto
  from batch_texts [OF ok this, of d k] show ?thesis by (auto split: if_splits)
qed

text \<open>
  C27: setting the visibility of a kind in a chat does what it says. An answer of that kind to a
  requester in that group is then private exactly when the kind was set to private, and sent or
  suppressed as there is a user to send it to or not; every other decision stays as it was. A kind that
  cannot be set leaves everything as it was.
\<close>

theorem policy_change_takes_effect:
  assumes "settings_reach collate s" and "inj collate" and "set_kind conn c k v s = (t, Inr b)"
  shows "(k \<notin> set overridable \<longrightarrow> t = s) \<and>
    (k \<in> set overridable \<longrightarrow>
       decision t d j audience cap =
         (if d = c \<and> j = k \<and> audience = RequesterOnly \<and> is_group cap
          then (if v \<noteq> PrivateVisibility then Regular else if has_target_user cap then Ephemeral False else Suppress)
          else decision s d j audience cap))"
proof (cases "k \<in> set overridable")
  case True
  note texts = set_override_texts [OF settings_reach_ok [OF assms(1,2)], of conn c "kind_key k" v t b]
  have call: "set_override conn c (kind_key k) v s = (t, Inr b)" using assms(3) True by (simp add: set_kind_def)
  show ?thesis
  proof (cases "d = c \<and> j = k \<and> audience = RequesterOnly \<and> is_group cap")
    case yes: True
    have "effective_visibility (cache t c) k = PrivateVisibility \<longleftrightarrow> v = PrivateVisibility"
      by (rule effective_after) (simp add: texts [OF call])
    then show ?thesis
      using yes True decide_overridable [OF True, of cap NoiseOff "cache t c"] by (simp add: decision_def chat_settings_of_def)
  next
    case no: False
    have "decision t d j audience cap = decision s d j audience cap"
    proof (cases "j = k \<and> d = c")
      case True
      then show ?thesis using no \<open>k \<in> set overridable\<close>
        by (auto simp: decision_def decide_with_settings_def Let_def)
    next
      case False
      have "effective_visibility (cache t d) j = effective_visibility (cache s d) j"
        using False by (auto simp: effective_visibility_def read_override_def setting_value_text texts [OF call] kind_key_inj)
      then show ?thesis by (simp add: decision_def decide_with_settings_def chat_settings_of_def Let_def)
    qed
    then show ?thesis using no True by auto
  qed
qed (use assms(3) in \<open>auto simp: set_kind_def\<close>)


lemma check_deletes:
  "distinct (keys @ seen) \<Longrightarrow> list_all (\<lambda>k. utf8_len k \<le> max_setting_key_bytes) keys \<Longrightarrow>
   check_mutations seen (map Delete keys) = Inr ()"
  by (induction keys arbitrary: seen) (auto simp: check_mutation_def)

lemma policy_keys_distinct: "distinct policy_keys"
proof -
  have "distinct (overridable @ legacy_kinds)" "distinct all_categories"
    by (simp_all add: overridable_def legacy_kinds_def all_categories_def)
  moreover have "inj kind_key" "inj category_key"
    by (auto simp: inj_def kind_key_inj category_key_def dest: category_as_str_inj)
  moreover have "category_key c \<noteq> kind_key k" for c k
    using kind_key_not_category(1) [of k] by (metis category_key_def prefixI)
  moreover have "mode_key \<noteq> category_key c" for c
    by (simp add: mode_key_def category_key_def category_prefix_def ascii_def)
  moreover have "mode_key \<noteq> kind_key k" for k using kind_key_not_category(2) [of k] by simp
  ultimately show ?thesis
    by (auto simp: policy_keys_def distinct_map inj_on_def inj_def kind_key_inj)
qed

lemma policy_keys_short: "list_all (\<lambda>k. length k \<le> 100 \<and> list_all (\<lambda>c. c < 128) k) policy_keys"
  by (simp add: policy_keys_def overridable_def legacy_kinds_def all_categories_def mode_key_def category_key_def
      kind_key_def category_prefix_def kind_prefix_def ascii_def)

lemma ascii_len: "list_all (\<lambda>c. c < 128) k \<Longrightarrow> utf8_len k = length k"
  by (induction k) (simp_all add: len_utf8_def)

lemma policy_keys_checked: "check_mutations [] (map Delete policy_keys) = Inr ()"
proof (rule check_deletes)
  show "list_all (\<lambda>k. utf8_len k \<le> max_setting_key_bytes) policy_keys"
    using policy_keys_short ascii_len by (auto simp: list_all_iff max_setting_key_bytes_def)
qed (use policy_keys_distinct in simp)

lemma find_delete: "find (\<lambda>m. mutation_key m = k) (map Delete keys) = (if k \<in> set keys then Some (Delete k) else None)"
  by (induction keys) auto

text \<open>
  A reset of the policy names every key once, so it is never refused for its own batch; once it
  succeeded, every decision in that chat is the one of a chat without any setting, and no other chat is
  affected.
\<close>

theorem policy_reset_restores_defaults:
  assumes "settings_reach collate s" and "inj collate" and "reset_policy conn c s = (t, res)"
  shows "res \<notin> {Inl DuplicateKey, Inl KeyTooLarge, Inl ValueTooLarge} \<and> (\<forall>e. res \<noteq> Inl (InvalidValue e)) \<and>
    (\<forall>b. res = Inr b \<longrightarrow>
       decision t d j audience cap =
         (if d = c then decide_with_settings NoiseOff None j audience cap else decision s d j audience cap))"
proof -
  note ok = settings_reach_ok [OF assms(1,2)]
  let ?call = "try_apply_batch conn c (map Delete policy_keys) s"
  have res: "t = fst ?call" "res = map_sum id (\<lambda>n. n \<noteq> 0) (snd ?call)"
    using assms(3) by (auto simp: reset_policy_def map_prod_def split_beta)
  have plan: "plan_batch c ms s \<noteq> Inl e" if "e \<in> {DuplicateKey, KeyTooLarge, ValueTooLarge} \<or> (\<exists>x. e = InvalidValue x)" for e ms
    using that by (auto simp: plan_batch_def Let_def)
  have "snd ?call \<noteq> Inl e" if "e \<in> {DuplicateKey, KeyTooLarge, ValueTooLarge} \<or> (\<exists>x. e = InvalidValue x)" for e
    using that plan [OF that, of "map Delete policy_keys"]
    by (auto simp: try_apply_batch_def policy_keys_checked commit_transaction_def split: sum.splits option.splits connection.splits)
  then have "res \<notin> {Inl DuplicateKey, Inl KeyTooLarge, Inl ValueTooLarge} \<and> (\<forall>e. res \<noteq> Inl (InvalidValue e))"
    unfolding res(2) by (cases "snd ?call") auto
  moreover have "decision t d j audience cap =
      (if d = c then decide_with_settings NoiseOff None j audience cap else decision s d j audience cap)" if b: "res = Inr b" for b
  proof -
    obtain n where call: "?call = (t, Inr n)"
      using res b by (cases ?call; cases "snd ?call") auto
    note texts = batch_texts [OF ok call]
    show ?thesis
    proof (cases "d = c")
      case True
      have "setting_text (cache t c) (kind_key k) = setting_text None (kind_key k)" if "k \<in> set overridable" for k
      proof -
        have "kind_key k \<in> set policy_keys" using that by (simp add: policy_keys_def)
        then show ?thesis using texts [of c "kind_key k"] by (simp add: find_delete setting_text_def)
      qed
      then show ?thesis
        using True decide_cong [of "cache t c" None NoiseOff j audience cap] by (simp add: decision_def chat_settings_of_def)
    next
      case False
      then show ?thesis
        using decide_cong [of "cache t d" "cache s d" NoiseOff j audience cap] texts [of d]
        by (simp add: decision_def chat_settings_of_def)
    qed
  qed
  ultimately show ?thesis by blast
qed


section \<open>A policy in a chat\<close>

lemma sample_put:
  assumes chk: "validate_persisted_setting key v = Inr ()" and len: "utf8_len key \<le> 100" "utf8_len v \<le> 100"
    and hash: "key \<noteq> ascii ''hash''"
  shows "\<exists>t. try_apply_batch Commits (-5) [Put key v] sample_open = (t, Inr 1)"
proof -
  have plan: "\<exists>p. plan_batch (-5) [Put key v] sample_open = Inr (Some p) \<and> plan_hash p = None \<and> length (plan_changes p) = 1"
    using len hash
    by (simp add: plan_batch_def sample_open_def fresh_settings_def mutation_changes_def Let_def count_changes_def count_change_def
        no_counts_def setting_text_def setting_size_def saturating_usize_add_def usize_limit_def over_def is_some_and_iff
        max_settings_rows_per_chat_def known_chats_def)
  then obtain p where p: "plan_batch (-5) [Put key v] sample_open = Inr (Some p)" "plan_hash p = None" "length (plan_changes p) = 1"
    by blast
  have "\<exists>w. write_batch (-5) p sample_open = Inr w"
    using p(2) by (simp add: write_batch_def hash_column_def durable_chat_id_def)
  moreover have "check_mutations [] [Put key v] = Inr ()"
    using chk len by (simp add: check_mutation_def check_value_def max_setting_key_bytes_def max_setting_value_bytes_def)
  moreover have "gate_open sample_open" by (simp add: sample_open_def)
  ultimately show ?thesis using p by (auto simp: try_apply_batch_def commit_transaction_def)
qed

lemma sample_set_kind: "\<exists>t. set_kind Commits (-5) WelcomeNotice PrivateVisibility sample_open = (t, Inr True)"
proof -
  have "validate_persisted_setting (kind_key WelcomeNotice) (visibility_as_str PrivateVisibility) = Inr ()"
    "utf8_len (kind_key WelcomeNotice) \<le> 100" "utf8_len (visibility_as_str PrivateVisibility) \<le> 100"
    "kind_key WelcomeNotice \<noteq> ascii ''hash''"
    by code_simp+
  from sample_put [OF this] obtain t where
    "try_apply_batch Commits (-5) [Put (kind_key WelcomeNotice) (visibility_as_str PrivateVisibility)] sample_open = (t, Inr 1)"
    by blast
  then show ?thesis by (simp add: set_kind_def overridable_def set_override_def try_set_value_def)
qed

theorem policy_change_takes_effect_witness:
  "\<exists>t. set_kind Commits (-5) WelcomeNotice PrivateVisibility sample_open = (t, Inr True) \<and>
     decision t (-5) WelcomeNotice RequesterOnly preview_capabilities = Ephemeral False"
proof -
  obtain t where t: "set_kind Commits (-5) WelcomeNotice PrivateVisibility sample_open = (t, Inr True)"
    using sample_set_kind by blast
  with policy_change_takes_effect [OF sample_reach inj_on_id t, of "-5" WelcomeNotice RequesterOnly preview_capabilities]
  show ?thesis by (simp add: overridable_def preview_capabilities_def)
qed

theorem policy_reset_restores_defaults_witness:
  "snd (reset_policy Commits (-5) sample_open) \<noteq> Inl DuplicateKey"
  using policy_reset_restores_defaults [OF sample_reach inj_on_id, of Commits "-5"
      "fst (reset_policy Commits (-5) sample_open)" "snd (reset_policy Commits (-5) sample_open)"]
  by simp

end
