(* ===== verification/ResponseDelivery.thy ===== *)
theory ResponseDelivery
  imports ResponsePolicy
begin

text \<open>
  The delivery of an answer in \<open>src/src/response.rs\<close>: \<open>send\<close> and its variants, the answers to a
  button and the redrawing of a panel. Telegram is a parameter, a function from the calls made so far
  to the answer of the last one; what is kept of a run is the list of calls with their answers. Who
  sees a message is read off this list.
\<close>

section \<open>Messages and calls\<close>

datatype peer_kind = UserPeer | ChatPeer | ChannelPeer

record peer_ref =
  peer_kind_of :: peer_kind
  dialog_id :: "chat_id option"

definition is_group_peer :: "peer_ref \<Rightarrow> bool" where
  "is_group_peer p \<longleftrightarrow> peer_kind_of p \<in> {ChatPeer, ChannelPeer}"

text \<open>What the code does to a message before it sends it.\<close>

record input_message =
  im_text :: utext
  im_reply :: "int option"
  im_rewrites :: "(char \<times> char) list"

definition reply_to :: "int \<Rightarrow> input_message \<Rightarrow> input_message" where
  "reply_to i m = m\<lparr>im_reply := Some i\<rparr>"

definition rewrite_callback_prefix :: "char \<Rightarrow> char \<Rightarrow> input_message \<Rightarrow> input_message" where
  "rewrite_callback_prefix a b m = m\<lparr>im_rewrites := im_rewrites m @ [(a, b)]\<rparr>"

definition mark_ephemeral_panel_callbacks :: "input_message \<Rightarrow> input_message" where
  "mark_ephemeral_panel_callbacks m =
     rewrite_callback_prefix (CHR ''h'') (CHR ''k'') (rewrite_callback_prefix (CHR ''p'') (CHR ''q'') m)"

datatype answer = PlainAnswer | AlertAnswer utext | EditAnswer input_message

datatype telegram_call =
  SendMessage peer_ref input_message
| SendEphemeral peer_ref peer_ref "int option" input_message
| EditEphemeral peer_ref peer_ref int input_message
| EditMessage peer_ref int input_message
| AnswerQuery answer

type_synonym telegram = "telegram_call list \<Rightarrow> string + int"
type_synonym call_log = "(telegram_call \<times> (string + int)) list"

text \<open>One call; the rest of the program continues with its answer.\<close>

definition ask :: "telegram \<Rightarrow> telegram_call \<Rightarrow> (string + int \<Rightarrow> call_log \<Rightarrow> call_log \<times> 'a) \<Rightarrow> call_log \<Rightarrow> call_log \<times> 'a" where
  "ask net call k log = (let ans = net (map fst log @ [call]) in k ans (log @ [(call, ans)]))"

datatype delivery_outcome =
  RegularOutcome | EphemeralOutcome | DirectPrivateOutcome | SuppressedOutcome | PublicFallbackOutcome

record delivery_receipt =
  outcome :: delivery_outcome
  group_message_id :: "int option"

record trigger =
  tr_peer :: "string + peer_ref option"
  tr_id :: int
  tr_sender_kind :: "peer_kind option"
  tr_sender_is_bot :: bool
  tr_sender_ref :: "string + peer_ref option"

record send_options =
  receiver_override :: "peer_ref option"
  only_if_private :: bool

datatype raw_update = BotCallback int | InlineCallback | OtherCallback

record callback_query =
  cb_peer :: "string + peer_ref option"
  cb_sender_kind :: peer_kind
  cb_sender_ref :: "string + peer_ref option"
  cb_raw :: raw_update
  cb_query_id :: int
  cb_ephemeral_message :: "int option"

text \<open>The texts of the alerts, as scalar values.\<close>

definition no_private_for_sender :: utext where
  "no_private_for_sender =
     [1662, 1575, 1587, 1582, 32, 1582, 1589, 1608, 1589, 1740, 32, 1576, 1585, 1575, 1740, 32, 1575,
      1740, 1606, 32, 1606, 1608, 1593, 32, 1601, 1585, 1587, 1578, 1606, 1583, 1607, 32, 1583, 1585,
      32, 1583, 1587, 1578, 1585, 1587, 32, 1606, 1740, 1587, 1578, 46]"

definition start_the_bot :: utext where
  "start_the_bot =
     [1662, 1575, 1587, 1582, 32, 1582, 1589, 1608, 1589, 1740, 32, 1583, 1585, 32, 1583, 1587, 1578,
      1585, 1587, 32, 1606, 1740, 1587, 1578, 1563, 32, 1575, 1576, 1578, 1583, 1575, 32, 1585, 1576,
      1575, 1578, 32, 1585, 1575, 32, 1583, 1585, 32, 1662, 1740, 1608, 1740, 32, 1588, 1585, 1608,
      1593, 32, 1705, 1606, 1740, 1583, 46]"



section \<open>Sending\<close>

definition ephemeral_input :: "response_kind \<Rightarrow> trigger \<Rightarrow> input_message \<Rightarrow> input_message" where
  "ephemeral_input kind trig m =
     (if kind = ContentRemovalNotice then mark_ephemeral_panel_callbacks m
      else reply_to (tr_id trig) (mark_ephemeral_panel_callbacks m))"

definition receiver_of :: "trigger \<Rightarrow> send_options \<Rightarrow> string + peer_ref option" where
  "receiver_of trig opts =
     (if receiver_override opts \<noteq> None then Inr (receiver_override opts)
      else if tr_sender_kind trig = Some UserPeer \<and> \<not> tr_sender_is_bot trig then tr_sender_ref trig
      else Inr None)"

definition receipt_of :: "delivery_outcome \<Rightarrow> int option \<Rightarrow> call_log \<Rightarrow> call_log \<times> (string + delivery_receipt)" where
  "receipt_of oc i log = (log, Inr \<lparr>outcome = oc, group_message_id = i\<rparr>)"

text \<open>Sending into the chat itself: an error of the call is the error of the whole.\<close>

definition send_in_chat ::
  "telegram \<Rightarrow> peer_ref \<Rightarrow> input_message \<Rightarrow> bool \<Rightarrow> delivery_outcome \<Rightarrow> call_log \<Rightarrow> call_log \<times> (string + delivery_receipt)" where
  "send_in_chat net peer m report oc =
     ask net (SendMessage peer m)
       (\<lambda>ans. case ans of
          Inl e \<Rightarrow> (\<lambda>log. (log, Inl e))
        | Inr i \<Rightarrow> receipt_of oc (if report then Some i else None))"

definition send_ephemeral ::
  "telegram \<Rightarrow> peer_ref \<Rightarrow> bool \<Rightarrow> response_kind \<Rightarrow> trigger \<Rightarrow> peer_ref option \<Rightarrow> input_message \<Rightarrow> bool \<Rightarrow>
     call_log \<Rightarrow> call_log \<times> (string + delivery_receipt)" where
  "send_ephemeral net peer in_group kind trig receiver m fallback =
     (case receiver of
        None \<Rightarrow>
          if fallback then send_in_chat net peer (reply_to (tr_id trig) m) in_group PublicFallbackOutcome
          else receipt_of SuppressedOutcome None
      | Some user \<Rightarrow>
          ask net (SendEphemeral peer user None (ephemeral_input kind trig m))
            (\<lambda>ans. case ans of
               Inr _ \<Rightarrow> receipt_of EphemeralOutcome None
             | Inl e \<Rightarrow>
                 if fallback then send_in_chat net peer (reply_to (tr_id trig) m) in_group PublicFallbackOutcome
                 else
                   ask net (SendMessage user m)
                     (\<lambda>ans. case ans of
                        Inr _ \<Rightarrow> receipt_of DirectPrivateOutcome None
                      | Inl e \<Rightarrow> receipt_of SuppressedOutcome None)))"

definition send_inner ::
  "telegram \<Rightarrow> settings_store \<Rightarrow> trigger \<Rightarrow> response_kind \<Rightarrow> intended_audience \<Rightarrow> input_message \<Rightarrow> send_options \<Rightarrow>
     call_log \<Rightarrow> call_log \<times> (string + delivery_receipt)" where
  "send_inner net s trig kind audience m opts log =
     (case tr_peer trig of
        Inl e \<Rightarrow> (log, Inl e)
      | Inr None \<Rightarrow> (log, Inl ''response peer is unavailable'')
      | Inr (Some peer) \<Rightarrow>
          (case receiver_of trig opts of
             Inl e \<Rightarrow> (log, Inl e)
           | Inr receiver \<Rightarrow>
               (let chat = (case dialog_id peer of None \<Rightarrow> 0 | Some c \<Rightarrow> c);
                    in_group = is_group_peer peer;
                    choice = decision s chat kind audience
                      \<lparr>is_group = in_group, has_target_user = receiver \<noteq> None, callback_overlay = False\<rparr>
                in if only_if_private opts \<and> choice = Regular then receipt_of SuppressedOutcome None log
                   else
                     (case choice of
                        Regular \<Rightarrow> send_in_chat net peer (reply_to (tr_id trig) m) in_group RegularOutcome log
                      | DirectPrivate \<Rightarrow> send_in_chat net peer (reply_to (tr_id trig) m) False DirectPrivateOutcome log
                      | Ephemeral fallback \<Rightarrow>
                          send_ephemeral net peer in_group kind trig receiver m (fallback \<and> \<not> only_if_private opts) log
                      | CallbackOverlay \<Rightarrow> receipt_of SuppressedOutcome None log
                      | Suppress \<Rightarrow> receipt_of SuppressedOutcome None log))))"

definition send_tracked ::
  "telegram \<Rightarrow> settings_store \<Rightarrow> trigger \<Rightarrow> response_kind \<Rightarrow> intended_audience \<Rightarrow> input_message \<Rightarrow>
     call_log \<Rightarrow> call_log \<times> (string + delivery_receipt)" where
  "send_tracked net s trig kind audience m =
     send_inner net s trig kind audience m \<lparr>receiver_override = None, only_if_private = False\<rparr>"

definition send ::
  "telegram \<Rightarrow> settings_store \<Rightarrow> trigger \<Rightarrow> response_kind \<Rightarrow> intended_audience \<Rightarrow> input_message \<Rightarrow>
     call_log \<Rightarrow> call_log \<times> (string + delivery_outcome)" where
  "send net s trig kind audience m log =
     map_prod id (map_sum id outcome)
       (send_inner net s trig kind audience m \<lparr>receiver_override = None, only_if_private = False\<rparr> log)"

definition send_tracked_to_user ::
  "telegram \<Rightarrow> settings_store \<Rightarrow> trigger \<Rightarrow> peer_ref \<Rightarrow> response_kind \<Rightarrow> intended_audience \<Rightarrow> input_message \<Rightarrow>
     call_log \<Rightarrow> call_log \<times> (string + delivery_receipt)" where
  "send_tracked_to_user net s trig user kind audience m log =
     (if peer_kind_of user \<noteq> UserPeer then (log, Inl ''explicit ephemeral receiver is not a Telegram user'')
      else send_inner net s trig kind audience m \<lparr>receiver_override = Some user, only_if_private = False\<rparr> log)"

definition send_if_private ::
  "telegram \<Rightarrow> settings_store \<Rightarrow> trigger \<Rightarrow> response_kind \<Rightarrow> input_message \<Rightarrow>
     call_log \<Rightarrow> call_log \<times> (string + delivery_outcome)" where
  "send_if_private net s trig kind m log =
     map_prod id (map_sum id outcome)
       (send_inner net s trig kind RequesterOnly m \<lparr>receiver_override = None, only_if_private = True\<rparr> log)"

section \<open>Answers to a button\<close>

definition edit_callback_message ::
  "telegram \<Rightarrow> callback_query \<Rightarrow> peer_ref \<Rightarrow> input_message \<Rightarrow> (string + unit \<Rightarrow> call_log \<Rightarrow> call_log \<times> 'a) \<Rightarrow>
     call_log \<Rightarrow> call_log \<times> 'a" where
  "edit_callback_message net q peer m k =
     (case cb_raw q of
        BotCallback i \<Rightarrow>
          ask net (AnswerQuery PlainAnswer)
            (\<lambda>_. ask net (EditMessage peer i m) (\<lambda>ans. k (map_sum id (\<lambda>_. ()) ans)))
      | _ \<Rightarrow> ask net (AnswerQuery (EditAnswer m)) (\<lambda>ans. k (map_sum id (\<lambda>_. ()) ans)))"

definition outcome_of :: "delivery_outcome \<Rightarrow> call_log \<Rightarrow> call_log \<times> (string + delivery_outcome)" where
  "outcome_of oc log = (log, Inr oc)"

definition edit_then :: "telegram \<Rightarrow> callback_query \<Rightarrow> peer_ref \<Rightarrow> input_message \<Rightarrow> delivery_outcome \<Rightarrow>
    call_log \<Rightarrow> call_log \<times> (string + delivery_outcome)" where
  "edit_then net q peer m oc =
     edit_callback_message net q peer m
       (\<lambda>ans. case ans of Inl e \<Rightarrow> (\<lambda>log. (log, Inl e)) | Inr _ \<Rightarrow> outcome_of oc)"

definition alert_then :: "telegram \<Rightarrow> utext \<Rightarrow> delivery_outcome \<Rightarrow> call_log \<Rightarrow> call_log \<times> (string + delivery_outcome)" where
  "alert_then net t oc = ask net (AnswerQuery (AlertAnswer t)) (\<lambda>_. outcome_of oc)"

definition callback_peer :: "callback_query \<Rightarrow> peer_ref option \<Rightarrow> string + peer_ref" where
  "callback_peer q fallback =
     (case cb_peer q of
        Inl e \<Rightarrow> Inl e
      | Inr p \<Rightarrow> (case (case p of Some x \<Rightarrow> Some x | None \<Rightarrow> fallback) of
                   None \<Rightarrow> Inl ''callback peer is unavailable'' | Some peer \<Rightarrow> Inr peer))"

definition callback_receiver :: "callback_query \<Rightarrow> string + peer_ref option" where
  "callback_receiver q = (if cb_sender_kind q = UserPeer then cb_sender_ref q else Inr None)"

definition answer_inline ::
  "telegram \<Rightarrow> peer_ref option \<Rightarrow> input_message \<Rightarrow> call_log \<Rightarrow> call_log \<times> (string + delivery_outcome)" where
  "answer_inline net receiver m =
     ask net (AnswerQuery PlainAnswer)
       (\<lambda>ans. case ans of
          Inl e \<Rightarrow> (\<lambda>log. (log, Inl e))
        | Inr _ \<Rightarrow>
            (case receiver of
               None \<Rightarrow> outcome_of SuppressedOutcome
             | Some user \<Rightarrow>
                 ask net (SendMessage user m)
                   (\<lambda>ans. case ans of Inr _ \<Rightarrow> outcome_of DirectPrivateOutcome | Inl e \<Rightarrow> outcome_of SuppressedOutcome)))"

definition answer_ephemeral ::
  "telegram \<Rightarrow> callback_query \<Rightarrow> peer_ref \<Rightarrow> peer_ref option \<Rightarrow> input_message \<Rightarrow> bool \<Rightarrow>
     call_log \<Rightarrow> call_log \<times> (string + delivery_outcome)" where
  "answer_ephemeral net q peer receiver m fallback =
     (case receiver of
        None \<Rightarrow> alert_then net no_private_for_sender SuppressedOutcome
      | Some user \<Rightarrow>
          ask net (SendEphemeral peer user (Some (cb_query_id q)) (mark_ephemeral_panel_callbacks m))
            (\<lambda>ans. case ans of
               Inr _ \<Rightarrow> outcome_of EphemeralOutcome
             | Inl e \<Rightarrow>
                 if fallback then edit_then net q peer m PublicFallbackOutcome
                 else
                   ask net (SendMessage user m)
                     (\<lambda>ans. case ans of
                        Inr _ \<Rightarrow> ask net (AnswerQuery PlainAnswer) (\<lambda>_. outcome_of DirectPrivateOutcome)
                      | Inl e \<Rightarrow> alert_then net start_the_bot SuppressedOutcome)))"

definition send_callback_with_peer ::
  "telegram \<Rightarrow> settings_store \<Rightarrow> callback_query \<Rightarrow> chat_id \<Rightarrow> response_kind \<Rightarrow> input_message \<Rightarrow> peer_ref option \<Rightarrow>
     call_log \<Rightarrow> call_log \<times> (string + delivery_outcome)" where
  "send_callback_with_peer net s q chat kind m fallback_peer log =
     (case callback_peer q fallback_peer of
        Inl e \<Rightarrow> (log, Inl e)
      | Inr peer \<Rightarrow>
          (case callback_receiver q of
             Inl e \<Rightarrow> (log, Inl e)
           | Inr receiver \<Rightarrow>
               if is_group_peer peer \<and> dialog_id peer \<noteq> Some chat
               then (log, Inl ''callback policy chat does not match Telegram callback peer'')
               else
                 (case decision s chat kind RequesterOnly
                         \<lparr>is_group = is_group_peer peer, has_target_user = receiver \<noteq> None, callback_overlay = False\<rparr> of
                    Regular \<Rightarrow> edit_then net q peer m RegularOutcome log
                  | DirectPrivate \<Rightarrow>
                      if cb_raw q = InlineCallback then answer_inline net receiver m log
                      else edit_then net q peer m DirectPrivateOutcome log
                  | Ephemeral fallback \<Rightarrow> answer_ephemeral net q peer receiver m fallback log
                  | CallbackOverlay \<Rightarrow> outcome_of SuppressedOutcome log
                  | Suppress \<Rightarrow> outcome_of SuppressedOutcome log)))"

definition send_callback ::
  "telegram \<Rightarrow> settings_store \<Rightarrow> callback_query \<Rightarrow> chat_id \<Rightarrow> response_kind \<Rightarrow> input_message \<Rightarrow>
     call_log \<Rightarrow> call_log \<times> (string + delivery_outcome)" where
  "send_callback net s q chat kind m = send_callback_with_peer net s q chat kind m None"




section \<open>Who sees an answer\<close>

text \<open>A call that shows a message to the requester alone, or shows none.\<close>

fun private_to :: "peer_ref option \<Rightarrow> telegram_call \<Rightarrow> bool" where
  "private_to receiver (SendMessage p m) \<longleftrightarrow> receiver = Some p"
| "private_to receiver (SendEphemeral p u i m) \<longleftrightarrow> receiver = Some u"
| "private_to receiver (EditEphemeral p u i m) \<longleftrightarrow> receiver = Some u"
| "private_to receiver (EditMessage p i m) \<longleftrightarrow> False"
| "private_to receiver (AnswerQuery PlainAnswer) \<longleftrightarrow> True"
| "private_to receiver (AnswerQuery (AlertAnswer t)) \<longleftrightarrow> True"
| "private_to receiver (AnswerQuery (EditAnswer m)) \<longleftrightarrow> False"

text \<open>A call that shows a message to somebody.\<close>

fun shows_message :: "telegram_call \<Rightarrow> bool" where
  "shows_message (AnswerQuery PlainAnswer) \<longleftrightarrow> False"
| "shows_message (AnswerQuery (AlertAnswer t)) \<longleftrightarrow> False"
| "shows_message call \<longleftrightarrow> True"

definition nothing_shown :: "call_log \<Rightarrow> bool" where
  "nothing_shown = list_all (\<lambda>(call, ans). shows_message call \<longrightarrow> (\<exists>e. ans = Inl e))"

text \<open>What a chat keeps private: the kinds that must be, and the kinds set to private for a requester.\<close>

definition kept_private :: "settings_store \<Rightarrow> chat_id \<Rightarrow> response_kind \<Rightarrow> intended_audience \<Rightarrow> bool" where
  "kept_private s c kind audience \<longleftrightarrow>
     sem_class (semantics kind) = V_PrivacyRequired \<or>
     kind \<in> set overridable \<and> audience = RequesterOnly \<and>
     effective_visibility (chat_settings_of s c) kind = PrivateVisibility"

lemma overridable_class: "k \<in> set overridable \<Longrightarrow> sem_class (semantics k) \<notin> {V_PublicRequired, V_PrivacyRequired} \<and> k \<noteq> CallbackFeedback"
  by (auto simp: overridable_def)

lemma kept_private_decision:
  assumes "kept_private s c kind audience" and "is_group cap"
  shows "decision s c kind audience cap = (if has_target_user cap then Ephemeral False else Suppress)"
  using assms overridable_class [of kind]
  by (auto simp: kept_private_def decision_def decide_with_settings_def Let_def)

definition trigger_chat :: "peer_ref \<Rightarrow> chat_id" where
  "trigger_chat p = (case dialog_id p of None \<Rightarrow> 0 | Some c \<Rightarrow> c)"

text \<open>
  C25: an answer that a group keeps private is shown to the requester alone, whatever Telegram answers:
  every call that carries it is addressed to the one receiver, directly or as an ephemeral message,
  nothing is ever sent into the group, not even after a failed delivery, and the receipt names no
  message of the group.
\<close>

theorem private_answers_stay_private:
  assumes "tr_peer trig = Inr (Some peer)" and "is_group_peer peer" and "receiver_of trig opts = Inr receiver"
    and "kept_private s (trigger_chat peer) kind audience"
    and "send_inner net s trig kind audience m opts [] = (log, res)"
  shows "list_all (private_to receiver) (map fst log) \<and>
    (\<exists>oc. res = Inr \<lparr>outcome = oc, group_message_id = None\<rparr> \<and> oc \<in> {EphemeralOutcome, DirectPrivateOutcome, SuppressedOutcome})"
proof -
  have choice: "decision s (case dialog_id peer of None \<Rightarrow> 0 | Some c \<Rightarrow> c) kind audience
      \<lparr>is_group = is_group_peer peer, has_target_user = receiver \<noteq> None, callback_overlay = False\<rparr> =
      (if receiver \<noteq> None then Ephemeral False else Suppress)"
    using kept_private_decision [OF assms(4)] assms(2) by (simp add: trigger_chat_def)
  show ?thesis
  proof (cases receiver)
    case None
    then show ?thesis
      using assms(5) unfolding send_inner_def assms(1,3) sum.case option.case choice Let_def by (auto simp: receipt_of_def)
  next
    case (Some user)
    then have "send_ephemeral net peer True kind trig (Some user) m False [] = (log, res)"
      using assms(5) assms(2) unfolding send_inner_def assms(1,3) sum.case option.case choice Let_def by simp
    then show ?thesis
      using Some by (auto simp: send_ephemeral_def receipt_of_def ask_def Let_def split: sum.splits)
  qed
qed

lemma private_answers_stay_private_witness:
  "list_all (private_to (Some \<lparr>peer_kind_of = UserPeer, dialog_id = Some 7\<rparr>))
     (map fst (fst (send_inner (\<lambda>_. Inl ''refused'') sample_open
        \<lparr>tr_peer = Inr (Some \<lparr>peer_kind_of = ChannelPeer, dialog_id = Some 1\<rparr>), tr_id = 9, tr_sender_kind = Some UserPeer,
          tr_sender_is_bot = False, tr_sender_ref = Inr (Some \<lparr>peer_kind_of = UserPeer, dialog_id = Some 7\<rparr>)\<rparr>
        PersonalInformation WholeGroup \<lparr>im_text = [104], im_reply = None, im_rewrites = []\<rparr>
        \<lparr>receiver_override = None, only_if_private = False\<rparr> [])))"
  by (rule conjunct1 [OF private_answers_stay_private [of _ "\<lparr>peer_kind_of = ChannelPeer, dialog_id = Some 1\<rparr>" _ _ sample_open
        PersonalInformation WholeGroup, OF _ _ _ _ prod.collapse [symmetric]]])
    (simp_all add: is_group_peer_def receiver_of_def kept_private_def)

text \<open>What an outcome says of the calls that were made.\<close>

fun outcome_true :: "peer_ref \<Rightarrow> call_log \<Rightarrow> string + delivery_receipt \<Rightarrow> bool" where
  "outcome_true peer log (Inl e) \<longleftrightarrow> nothing_shown log"
| "outcome_true peer log (Inr r) \<longleftrightarrow>
     (case outcome r of
        RegularOutcome \<Rightarrow> (\<exists>msg i. last log = (SendMessage peer msg, Inr i) \<and>
           group_message_id r = (if is_group_peer peer then Some i else None))
      | PublicFallbackOutcome \<Rightarrow> (\<exists>msg i. last log = (SendMessage peer msg, Inr i) \<and>
           group_message_id r = (if is_group_peer peer then Some i else None))
      | EphemeralOutcome \<Rightarrow> (\<exists>user msg i. last log = (SendEphemeral peer user None msg, Inr i)) \<and> group_message_id r = None
      | DirectPrivateOutcome \<Rightarrow> (\<exists>p msg i. last log = (SendMessage p msg, Inr i)) \<and> group_message_id r = None
      | SuppressedOutcome \<Rightarrow> nothing_shown log \<and> group_message_id r = None)"

lemma outcome_true_in_chat:
  assumes "nothing_shown log0"
    and "oc \<in> {RegularOutcome, PublicFallbackOutcome} \<and> report = is_group_peer peer \<or> oc = DirectPrivateOutcome \<and> \<not> report"
    and "send_in_chat net peer msg report oc log0 = (log, res)"
  shows "outcome_true peer log res"
  using assms by (auto simp: send_in_chat_def ask_def receipt_of_def nothing_shown_def Let_def split: sum.splits)

lemma outcome_true_chat:
  "send_in_chat net peer msg (is_group_peer peer) RegularOutcome [] = (log, res) \<Longrightarrow> outcome_true peer log res"
  "send_in_chat net peer msg False DirectPrivateOutcome [] = (log, res) \<Longrightarrow> outcome_true peer log res"
  "nothing_shown log0 \<Longrightarrow> send_in_chat net peer msg (is_group_peer peer) PublicFallbackOutcome log0 = (log, res) \<Longrightarrow>
    outcome_true peer log res"
  by (erule outcome_true_in_chat [rotated 2]; simp add: nothing_shown_def)+

lemma outcome_true_ephemeral:
  assumes "send_ephemeral net peer (is_group_peer peer) kind trig receiver m fallback [] = (log, res)"
  shows "outcome_true peer log res"
proof -
  have none_shown: "nothing_shown []" by (simp add: nothing_shown_def)
  have failed: "nothing_shown [(c, Inl e)]" for c e by (simp add: nothing_shown_def)
  show ?thesis
  proof (cases receiver)
    case None
    then show ?thesis using assms
      by (auto intro: outcome_true_chat(3) [OF none_shown] simp: send_ephemeral_def receipt_of_def none_shown split: if_splits)
  next
    case (Some user)
    show ?thesis
    proof (cases "net [SendEphemeral peer user None (ephemeral_input kind trig m)]")
      case (Inl e)
      then show ?thesis using assms Some
        by (auto intro: outcome_true_chat(3) [OF failed] simp: send_ephemeral_def ask_def receipt_of_def nothing_shown_def Let_def split: if_splits sum.splits)
    next
      case (Inr i)
      then show ?thesis using assms Some by (auto simp: send_ephemeral_def ask_def receipt_of_def Let_def)
    qed
  qed
qed

text \<open>
  The outcome a delivery reports is what happened: a regular answer or a public fallback is in the chat
  and the receipt carries its id in a group, an ephemeral or direct one was accepted by Telegram as such
  with the last call, and when the outcome is suppressed or the delivery fails, no call that carries
  the message has succeeded.
\<close>

theorem delivery_outcome_is_true:
  assumes "tr_peer trig = Inr (Some peer)" and "send_inner net s trig kind audience m opts [] = (log, res)"
  shows "outcome_true peer log res"
proof (cases "receiver_of trig opts")
  case (Inl e)
  then show ?thesis using assms by (auto simp: send_inner_def nothing_shown_def)
next
  case (Inr receiver)
  define choice where "choice = decision s (case dialog_id peer of None \<Rightarrow> 0 | Some c \<Rightarrow> c) kind audience
    \<lparr>is_group = is_group_peer peer, has_target_user = receiver \<noteq> None, callback_overlay = False\<rparr>"
  have none_shown: "nothing_shown []" by (simp add: nothing_shown_def)
  have run: "(if only_if_private opts \<and> choice = Regular then receipt_of SuppressedOutcome None []
     else
       (case choice of
          Regular \<Rightarrow> send_in_chat net peer (reply_to (tr_id trig) m) (is_group_peer peer) RegularOutcome []
        | DirectPrivate \<Rightarrow> send_in_chat net peer (reply_to (tr_id trig) m) False DirectPrivateOutcome []
        | Ephemeral fallback \<Rightarrow>
            send_ephemeral net peer (is_group_peer peer) kind trig receiver m (fallback \<and> \<not> only_if_private opts) []
        | CallbackOverlay \<Rightarrow> receipt_of SuppressedOutcome None []
        | Suppress \<Rightarrow> receipt_of SuppressedOutcome None [])) = (log, res)"
    using assms(2) unfolding send_inner_def assms(1) Inr sum.case option.case Let_def choice_def .
  show ?thesis
    using run
    by (cases choice) (auto intro: outcome_true_chat outcome_true_ephemeral simp: receipt_of_def none_shown split: if_splits)
qed

lemma delivery_outcome_is_true_witness:
  "outcome_true \<lparr>peer_kind_of = ChannelPeer, dialog_id = Some 1\<rparr>
     [(SendMessage \<lparr>peer_kind_of = ChannelPeer, dialog_id = Some 1\<rparr> \<lparr>im_text = [104], im_reply = Some 9, im_rewrites = []\<rparr>, Inr 5)]
     (Inr \<lparr>outcome = RegularOutcome, group_message_id = Some 5\<rparr>)"
  by (rule delivery_outcome_is_true [of "\<lparr>tr_peer = Inr (Some \<lparr>peer_kind_of = ChannelPeer, dialog_id = Some 1\<rparr>), tr_id = 9,
          tr_sender_kind = None, tr_sender_is_bot = False, tr_sender_ref = Inr None\<rparr>" _ "\<lambda>_. Inr 5" sample_open SecurityAlert
        WholeGroup "\<lparr>im_text = [104], im_reply = None, im_rewrites = []\<rparr>" "\<lparr>receiver_override = None, only_if_private = False\<rparr>"])
    (simp_all add: send_inner_def receiver_of_def decision_def decide_with_settings_def is_group_peer_def send_in_chat_def
      ask_def reply_to_def receipt_of_def)

section \<open>Buttons\<close>



end
