(* ===== verification/Cases.thy ===== *)
theory Cases
  imports WarningQueue
begin

text \<open>
  Moderation cases of \<open>src/src/state.rs\<close>: what the bot or an administrator did to a member, with the
  history of every case. A case is \<open>open\<close>, \<open>resolved\<close> or \<open>reversed\<close>; each change of it leaves an
  event. A case made by a workflow that may be repeated after a crash carries a key and is made once.
  Cases are kept for ninety days. Each operation is one transaction of the database.
\<close>

section \<open>Rows\<close>

record case_row =
  case_id :: int
  case_chat :: chat_id
  case_subject :: "user_id option"
  case_subject_name :: utext
  case_source :: string
  case_rule :: utext
  case_reason :: utext
  case_message :: "int option"
  case_media :: "utext option"
  case_evidence :: "utext option"
  case_hash :: "nat list option"
  case_action :: string
  case_until :: "seconds option"
  case_status :: string
  case_actor :: "user_id option"
  case_actor_name :: utext
  case_created :: seconds
  case_updated :: seconds
  case_workflow :: "utext option"

record event_row =
  event_id :: int
  event_chat :: chat_id
  event_case :: int
  event_kind :: string
  event_actor :: "user_id option"
  event_actor_name :: utext
  event_action :: "string option"
  event_note :: "utext option"
  event_created :: seconds

record new_moderation_case =
  new_chat :: chat_id
  new_subject :: "user_id option"
  new_subject_name :: utext
  new_source :: string
  new_rule :: utext
  new_reason :: utext
  new_message :: "int option"
  new_media :: "utext option"
  new_evidence :: "utext option"
  new_hash :: "nat list option"
  new_action :: string
  new_until :: "seconds option"
  new_status :: string
  new_actor :: "user_id option"
  new_actor_name :: utext
  new_event_kind :: string
  new_event_note :: "utext option"

text \<open>
  The database as the cases see it: the tables of the punishments, the two tables of cases with the
  sequences behind their \<open>BIGSERIAL\<close> columns, and the chats of \<open>durable_chats\<close>, which both tables refer
  to.
\<close>

record case_db =
  bot :: store
  cases :: "case_row table"
  events :: "event_row table"
  next_case :: int
  next_event :: int
  admitted_chats :: "chat_id list"

datatype case_error = UnknownChat | BadStatus

definition case_key :: "case_row \<Rightarrow> chat_id \<times> int" where
  "case_key r = (case_chat r, case_id r)"

definition event_key :: "event_row \<Rightarrow> chat_id \<times> int" where
  "event_key r = (event_chat r, event_id r)"

definition event_of :: "event_row \<Rightarrow> chat_id \<times> int" where
  "event_of r = (event_chat r, event_case r)"

definition status_known :: "string \<Rightarrow> bool" where
  "status_known v \<longleftrightarrow> v \<in> {''open'', ''resolved'', ''reversed''}"

section \<open>Creating a case\<close>

definition case_from :: "new_moderation_case \<Rightarrow> utext option \<Rightarrow> seconds \<Rightarrow> int \<Rightarrow> case_row" where
  "case_from d workflow now i =
     \<lparr>case_id = i, case_chat = new_chat d, case_subject = new_subject d, case_subject_name = new_subject_name d,
      case_source = new_source d, case_rule = new_rule d, case_reason = new_reason d, case_message = new_message d,
      case_media = new_media d, case_evidence = new_evidence d, case_hash = new_hash d, case_action = new_action d,
      case_until = new_until d, case_status = new_status d, case_actor = new_actor d, case_actor_name = new_actor_name d,
      case_created = now, case_updated = now, case_workflow = workflow\<rparr>"

definition add_event ::
  "chat_id \<Rightarrow> int \<Rightarrow> string \<Rightarrow> user_id option \<Rightarrow> utext \<Rightarrow> string option \<Rightarrow> utext option \<Rightarrow> seconds \<Rightarrow> case_db \<Rightarrow> case_db" where
  "add_event c i kind actor actor_name action note now s =
     s\<lparr>events := sql_insert \<lparr>event_id = next_event s, event_chat = c, event_case = i, event_kind = kind, event_actor = actor,
          event_actor_name = actor_name, event_action = action, event_note = note, event_created = now\<rparr> (events s),
       next_event := next_event s + 1\<rparr>"

text \<open>The \<open>INSERT\<close> of a case draws an id even when a constraint refuses the row.\<close>

definition insert_case ::
  "utext option \<Rightarrow> seconds \<Rightarrow> new_moderation_case \<Rightarrow> case_db \<Rightarrow> case_db \<times> (case_error + int)" where
  "insert_case workflow now d s =
     (let i = next_case s; drawn = s\<lparr>next_case := i + 1\<rparr>
      in if \<not> status_known (new_status d) then (drawn, Inl BadStatus)
         else if new_chat d \<notin> set (admitted_chats s) then (drawn, Inl UnknownChat)
         else (drawn\<lparr>cases := sql_insert (case_from d workflow now i) (cases s)\<rparr>, Inr i))"

definition first_event :: "seconds \<Rightarrow> new_moderation_case \<Rightarrow> int \<Rightarrow> case_db \<Rightarrow> case_db" where
  "first_event now d i =
     add_event (new_chat d) i (new_event_kind d) (new_actor d) (new_actor_name d) (Some (new_action d)) (new_event_note d) now"

definition create_moderation_case ::
  "seconds \<Rightarrow> new_moderation_case \<Rightarrow> case_db \<Rightarrow> case_db \<times> (case_error + int)" where
  "create_moderation_case now d s =
     (case insert_case None now d s of
        (t, Inl e) \<Rightarrow> (t, Inl e)
      | (t, Inr i) \<Rightarrow> (first_event now d i t, Inr i))"

definition workflow_case :: "chat_id \<Rightarrow> utext \<Rightarrow> case_db \<Rightarrow> case_row option" where
  "workflow_case c key s = find (\<lambda>r. case_chat r = c \<and> case_workflow r = Some key) (cases s)"

text \<open>\<open>ON CONFLICT DO NOTHING\<close> also draws an id; it is checked after the constraint on the status.\<close>

definition create_workflow_moderation_case ::
  "seconds \<Rightarrow> utext \<Rightarrow> new_moderation_case \<Rightarrow> case_db \<Rightarrow> case_db \<times> (case_error + int \<times> bool)" where
  "create_workflow_moderation_case now key d s =
     (case workflow_case (new_chat d) key s of
        Some r \<Rightarrow>
          (s\<lparr>next_case := next_case s + 1\<rparr>,
           if status_known (new_status d) then Inr (case_id r, False) else Inl BadStatus)
      | None \<Rightarrow>
          (case insert_case (Some key) now d s of
             (t, Inl e) \<Rightarrow> (t, Inl e)
           | (t, Inr i) \<Rightarrow> (first_event now d i t, Inr (i, True))))"

section \<open>Reading\<close>

definition some_matches :: "'a option \<Rightarrow> 'a \<Rightarrow> bool" where
  "some_matches want x \<longleftrightarrow> want = None \<or> want = Some x"

definition moderation_cases ::
  "chat_id \<Rightarrow> string option \<Rightarrow> user_id option \<Rightarrow> int option \<Rightarrow> int \<Rightarrow> case_db \<Rightarrow> case_row list" where
  "moderation_cases c status subject before limit s =
     sql_page (\<lambda>r. case_chat r = c \<and> some_matches status (case_status r) \<and>
         (subject = None \<or> case_subject r = subject) \<and> (case before of None \<Rightarrow> True | Some b \<Rightarrow> case_id r < b))
       (\<lambda>r. - case_id r) (nat (clamp 1 100 limit)) (cases s)"

definition moderation_cases_open_first ::
  "chat_id \<Rightarrow> user_id option \<Rightarrow> int \<Rightarrow> case_db \<Rightarrow> case_row list" where
  "moderation_cases_open_first c subject limit s =
     sql_page (\<lambda>r. case_chat r = c \<and> (subject = None \<or> case_subject r = subject))
       (\<lambda>r. (if case_status r = ''open'' then 0 else 1 :: int, - case_id r)) (nat (clamp 1 100 limit)) (cases s)"

definition case_events :: "chat_id \<Rightarrow> int \<Rightarrow> case_db \<Rightarrow> event_row list" where
  "case_events c i s = sort_key event_id (filter (\<lambda>e. event_of e = (c, i)) (events s))"

definition moderation_case :: "chat_id \<Rightarrow> int \<Rightarrow> case_db \<Rightarrow> (case_row \<times> event_row list) option" where
  "moderation_case c i s =
     (case row_at case_key (cases s) (c, i) of None \<Rightarrow> None | Some r \<Rightarrow> Some (r, case_events c i s))"

section \<open>Changing a case\<close>

record case_transition =
  tr_chat :: chat_id
  tr_case :: int
  tr_from :: string
  tr_to :: string
  tr_event_kind :: string
  tr_actor :: "(user_id \<times> utext) option"
  tr_action :: "string option"
  tr_note :: "utext option"

definition actor_text :: "(user_id \<times> utext) option \<Rightarrow> utext" where
  "actor_text actor = (case actor of None \<Rightarrow> [] | Some (_, name) \<Rightarrow> name)"

definition set_status :: "string \<Rightarrow> seconds \<Rightarrow> case_row \<Rightarrow> case_row" where
  "set_status to now r = r\<lparr>case_status := to, case_updated := now\<rparr>"

definition transition_moderation_case ::
  "seconds \<Rightarrow> case_transition \<Rightarrow> case_db \<Rightarrow> case_db \<times> (case_error + bool)" where
  "transition_moderation_case now x s =
     (let hit = (\<lambda>r. case_key r = (tr_chat x, tr_case x) \<and> case_status r = tr_from x);
          changed = sql_count hit (cases s) = 1
      in if sql_exists hit (cases s) \<and> \<not> status_known (tr_to x) then (s, Inl BadStatus)
         else
           (let t = s\<lparr>cases := sql_update hit (set_status (tr_to x) now) (cases s)\<rparr>
            in if changed
               then (add_event (tr_chat x) (tr_case x) (tr_event_kind x) (map_option fst (tr_actor x))
                       (actor_text (tr_actor x)) (tr_action x) (tr_note x) now t, Inr True)
               else (t, Inr False)))"

record warning_reversal =
  rv_chat :: chat_id
  rv_case :: int
  rv_user :: user_id
  rv_actor :: user_id
  rv_actor_name :: utext
  rv_note :: "utext option"

datatype reversal_result = Reversed | CaseChanged | NoWarning

definition reverse_warning_case ::
  "seconds \<Rightarrow> warning_reversal \<Rightarrow> case_db \<Rightarrow> case_db \<times> reversal_result" where
  "reverse_warning_case now x s =
     (let member = (rv_chat x, rv_user x);
          hit = (\<lambda>r. case_key r = (rv_chat x, rv_case x) \<and> case_status r = ''resolved'' \<and>
                    case_action r = ''warn'' \<and> case_subject r = Some (rv_user x))
      in case row_at counter_key (counters (bot s)) member of
           None \<Rightarrow> (s, NoWarning)
         | Some r \<Rightarrow>
             if warns r \<le> 0 then (s, NoWarning)
             else if sql_count hit (cases s) \<noteq> 1 then (s, CaseChanged)
             else
               (add_event (rv_chat x) (rv_case x) ''reversed'' (Some (rv_actor x)) (rv_actor_name x) (Some ''reverse'')
                  (rv_note x) now
                  (s\<lparr>cases := sql_update hit (set_status ''reversed'' now) (cases s),
                     bot := (bot s)\<lparr>counters := sql_update (\<lambda>r. counter_key r = member)
                        (\<lambda>r. r\<lparr>warns := warns r - 1\<rparr>) (counters (bot s))\<rparr>\<rparr>), Reversed))"

definition append_moderation_case_event ::
  "seconds \<Rightarrow> chat_id \<Rightarrow> int \<Rightarrow> string \<Rightarrow> (user_id \<times> utext) option \<Rightarrow> string option \<Rightarrow> utext option \<Rightarrow> case_db \<Rightarrow>
     case_db \<times> bool" where
  "append_moderation_case_event now c i kind actor action note s =
     (if sql_exists (\<lambda>r. case_key r = (c, i)) (cases s)
      then (add_event c i kind (map_option fst actor) (actor_text actor) action note now s, True)
      else (s, False))"

definition add_moderation_case_note ::
  "seconds \<Rightarrow> chat_id \<Rightarrow> int \<Rightarrow> user_id option \<Rightarrow> utext \<Rightarrow> utext \<Rightarrow> case_db \<Rightarrow> case_db \<times> bool" where
  "add_moderation_case_note now c i actor actor_name note s =
     (if sql_exists (\<lambda>r. case_key r = (c, i)) (cases s)
      then (add_event c i ''note'' actor actor_name None (Some note) now s, True)
      else (s, False))"

section \<open>Retention\<close>

definition case_retention_secs :: int where
  "case_retention_secs = 90 * 24 * 60 * 60"

definition purge_batch :: nat where
  "purge_batch = 10000"

definition case_cutoff :: "seconds \<Rightarrow> seconds" where
  "case_cutoff now = sat_i64 (now - case_retention_secs)"

text \<open>Deleting a case deletes its events.\<close>

definition delete_cases :: "(case_row \<Rightarrow> bool) \<Rightarrow> case_db \<Rightarrow> case_db" where
  "delete_cases P s =
     (let gone = map case_key (filter P (cases s))
      in s\<lparr>cases := sql_delete P (cases s), events := sql_delete (\<lambda>e. event_of e \<in> set gone) (events s)\<rparr>)"

definition expired_page :: "seconds \<Rightarrow> case_db \<Rightarrow> (chat_id \<times> int) list" where
  "expired_page now s =
     map case_key (sql_page (\<lambda>r. case_created r < case_cutoff now) (\<lambda>r. (case_created r, case_chat r, case_id r))
        purge_batch (cases s))"

definition purge_expired_moderation_cases :: "seconds \<Rightarrow> case_db \<Rightarrow> case_db \<times> nat" where
  "purge_expired_moderation_cases now s =
     (let page = expired_page now s
      in (delete_cases (\<lambda>r. case_key r \<in> set page) s, length (filter (\<lambda>r. case_key r \<in> set page) (cases s))))"

lemma purge_shrinks:
  "length (cases (fst (purge_expired_moderation_cases now s))) + snd (purge_expired_moderation_cases now s) = length (cases s)"
  using sum_length_filter_compl [of "\<lambda>r. case_key r \<in> set (expired_page now s)" "cases s"]
  by (simp add: purge_expired_moderation_cases_def delete_cases_def sql_delete_def Let_def)

text \<open>One round of \<open>run_retention\<close>: a full page is followed by another. \<open>clock\<close> is the time of each call.\<close>

function retention_round :: "(nat \<Rightarrow> seconds) \<Rightarrow> nat \<Rightarrow> case_db \<Rightarrow> case_db" where
  "retention_round clock i s =
     (let (t, n) = purge_expired_moderation_cases (clock i) s
      in if n = purge_batch then retention_round clock (Suc i) t else t)"
  by pat_completeness auto

termination retention_round
proof (relation "measure (\<lambda>(clock, i, s). length (cases s))")
  fix clock :: "nat \<Rightarrow> seconds" and i s x t n
  assume "x = purge_expired_moderation_cases (clock i) s" and "(t, n) = x" and "n = purge_batch"
  then have "length (cases t) + purge_batch = length (cases s)"
    using purge_shrinks [of "clock i" s] by (metis fst_conv snd_conv)
  then show "((clock, Suc i, t), (clock, i, s)) \<in> measure (\<lambda>(clock, i, s). length (cases s))"
    by (simp add: purge_batch_def)
qed simp

declare retention_round.simps [simp del]

text \<open>The part of \<open>forget_chat\<close> about cases, and the admission of a chat.\<close>

definition forget_chat_cases :: "chat_id \<Rightarrow> case_db \<Rightarrow> case_db" where
  "forget_chat_cases c s =
     s\<lparr>events := sql_delete (\<lambda>e. event_chat e = c) (events s), cases := sql_delete (\<lambda>r. case_chat r = c) (cases s),
       bot := forget_chat_rows c (bot s), admitted_chats := filter (\<lambda>d. d \<noteq> c) (admitted_chats s)\<rparr>"

definition admit_case_chat :: "chat_id \<Rightarrow> case_db \<Rightarrow> case_db" where
  "admit_case_chat c s = s\<lparr>admitted_chats := (if c \<in> set (admitted_chats s) then admitted_chats s else c # admitted_chats s)\<rparr>"

end
