(* ===== verification/CaseRuns.thy ===== *)
theory CaseRuns
  imports Cases "HOL-Library.Sublist"
begin

text \<open>
  What runs of the operations on moderation cases keep: ids and workflow keys stay unique, every case
  has a history that only grows, and a case moves from open to resolved to reversed and never back.
  Between two operations the tables of the punishments may change in any way.
\<close>

section \<open>The invariant\<close>

definition workflow_of :: "case_row \<Rightarrow> (chat_id \<times> utext) option" where
  "workflow_of r = map_option (\<lambda>key. (case_chat r, key)) (case_workflow r)"

definition cases_ok :: "case_db \<Rightarrow> bool" where
  "cases_ok s \<longleftrightarrow>
     unique_key case_key (cases s) \<and>
     (\<forall>r \<in> set (cases s). case_id r < next_case s \<and> status_known (case_status r) \<and> case_chat r \<in> set (admitted_chats s) \<and>
        (\<exists>e \<in> set (events s). event_of e = case_key r)) \<and>
     distinct (List.map_filter workflow_of (cases s)) \<and>
     sorted_wrt (<) (map event_id (events s)) \<and>
     (\<forall>e \<in> set (events s). event_id e < next_event s \<and> event_of e \<in> case_key ` set (cases s))"

definition history :: "chat_id \<times> int \<Rightarrow> case_db \<Rightarrow> event_row list" where
  "history k s = filter (\<lambda>e. event_of e = k) (events s)"

definition case_rank :: "case_row \<Rightarrow> nat" where
  "case_rank r = (if case_status r = ''open'' then 0 else if case_status r = ''resolved'' then 1 else 2)"

text \<open>What a case keeps, and what one operation or many may do to the cases.\<close>

definition same_case :: "case_row \<Rightarrow> case_row \<Rightarrow> bool" where
  "same_case r q \<longleftrightarrow> r\<lparr>case_status := [], case_updated := 0\<rparr> = q\<lparr>case_status := [], case_updated := 0\<rparr>"

definition case_advance :: "case_db \<Rightarrow> case_db \<Rightarrow> bool" where
  "case_advance s t \<longleftrightarrow> cases_ok t \<and> next_case s \<le> next_case t \<and>
     (\<forall>k q. row_at case_key (cases t) k = Some q \<longrightarrow>
        (case row_at case_key (cases s) k of
           None \<Rightarrow> next_case s \<le> snd k
         | Some r \<Rightarrow> same_case r q \<and> case_rank r \<le> case_rank q \<and>
             (\<exists>es. history k t = history k s @ es \<and> case_rank q \<le> case_rank r + length es)))"

lemma same_case_refl [simp]: "same_case r r"
  by (simp add: same_case_def)

lemma same_case_trans: "same_case p q \<Longrightarrow> same_case q r \<Longrightarrow> same_case p r"
  by (simp add: same_case_def)

lemma case_advance_refl: "cases_ok s \<Longrightarrow> case_advance s s"
  by (auto simp: case_advance_def split: option.splits)

lemma case_advanceI:
  assumes "cases_ok t" and "next_case s \<le> next_case t"
    and "\<And>k q. row_at case_key (cases t) k = Some q \<Longrightarrow> row_at case_key (cases s) k = None \<Longrightarrow> next_case s \<le> snd k"
    and "\<And>k q r. row_at case_key (cases t) k = Some q \<Longrightarrow> row_at case_key (cases s) k = Some r \<Longrightarrow>
      same_case r q \<and> case_rank r \<le> case_rank q \<and>
      (\<exists>es. history k t = history k s @ es \<and> case_rank q \<le> case_rank r + length es)"
  shows "case_advance s t"
  unfolding case_advance_def using assms by (auto split: option.split)

lemma case_advance_entry:
  assumes "case_advance s t" and "row_at case_key (cases t) k = Some q"
  shows "case row_at case_key (cases s) k of
           None \<Rightarrow> next_case s \<le> snd k
         | Some r \<Rightarrow> same_case r q \<and> case_rank r \<le> case_rank q \<and>
             (\<exists>es. history k t = history k s @ es \<and> case_rank q \<le> case_rank r + length es)"
  using assms unfolding case_advance_def by blast

lemma case_advance_new:
  assumes "case_advance s t" and "row_at case_key (cases t) k = Some q" and "row_at case_key (cases s) k = None"
  shows "next_case s \<le> snd k"
  using case_advance_entry [OF assms(1,2)] by (simp add: assms(3))

lemma case_advance_kept:
  assumes "case_advance s t" and "row_at case_key (cases t) k = Some q" and "row_at case_key (cases s) k = Some r"
  shows "same_case r q" and "case_rank r \<le> case_rank q"
    and "\<exists>es. history k t = history k s @ es \<and> case_rank q \<le> case_rank r + length es"
  using case_advance_entry [OF assms(1,2)] by (simp_all add: assms(3))

lemma case_advance_ok: "case_advance s t \<Longrightarrow> cases_ok t"
  by (simp add: case_advance_def)

lemma case_advance_later: "case_advance s t \<Longrightarrow> next_case s \<le> next_case t"
  by (simp add: case_advance_def)

lemma case_id_drawn:
  "cases_ok s \<Longrightarrow> row_at case_key (cases s) k = Some r \<Longrightarrow> snd k < next_case s"
  by (drule row_at_Some) (auto simp: cases_ok_def case_key_def)

lemma case_advance_trans:
  assumes one: "case_advance s t" and two: "case_advance t u" and ok: "cases_ok s"
  shows "case_advance s u"
  unfolding case_advance_def
proof (intro conjI allI impI)
  note later = case_advance_later [OF one] case_advance_later [OF two]
  show "cases_ok u" using two by (rule case_advance_ok)
  show "next_case s \<le> next_case u" using later by simp
  fix k p
  assume at: "row_at case_key (cases u) k = Some p"
  show "case row_at case_key (cases s) k of
           None \<Rightarrow> next_case s \<le> snd k
         | Some r \<Rightarrow> same_case r p \<and> case_rank r \<le> case_rank p \<and>
             (\<exists>es. history k u = history k s @ es \<and> case_rank p \<le> case_rank r + length es)"
  proof (cases "row_at case_key (cases t) k")
    case None
    from case_advance_new [OF two at None] show ?thesis
      using later case_id_drawn [OF ok, of k] by (fastforce split: option.splits)
  next
    case mid: (Some q)
    note two' = case_advance_kept [OF two at mid]
    show ?thesis
    proof (cases "row_at case_key (cases s) k")
      case None
      from case_advance_new [OF one mid None] show ?thesis by (simp add: None)
    next
      case (Some r)
      note one' = case_advance_kept [OF one mid Some]
      obtain es fs where "history k t = history k s @ es" "case_rank q \<le> case_rank r + length es"
        "history k u = history k t @ fs" "case_rank p \<le> case_rank q + length fs"
        using one'(3) two'(3) by blast
      then have "history k u = history k s @ es @ fs" "case_rank p \<le> case_rank r + length (es @ fs)" by simp_all
      moreover have "same_case r p" "case_rank r \<le> case_rank p"
        using one' two' same_case_trans by (blast, linarith)
      ultimately show ?thesis unfolding Some by auto
    qed
  qed
qed

section \<open>Operations\<close>

text \<open>Adding an event to a case that is there.\<close>

lemma history_add_event:
  "history k (add_event c i kind actor an action note now s) =
     history k s @ (if k = (c, i) then
       [\<lparr>event_id = next_event s, event_chat = c, event_case = i, event_kind = kind, event_actor = actor,
          event_actor_name = an, event_action = action, event_note = note, event_created = now\<rparr>] else [])"
  by (simp add: history_def add_event_def sql_insert_def event_of_def)

lemma add_event_simps [simp]:
  "cases (add_event c i kind actor an action note now s) = cases s"
  "next_case (add_event c i kind actor an action note now s) = next_case s"
  "admitted_chats (add_event c i kind actor an action note now s) = admitted_chats s"
  "bot (add_event c i kind actor an action note now s) = bot s"
  by (simp_all add: add_event_def)

lemma case_in_row_at: "unique_key case_key (cases s) \<Longrightarrow> k \<in> case_key ` set (cases s) \<longleftrightarrow> row_at case_key (cases s) k \<noteq> None"
  by (simp add: row_at_None)

lemma add_event_ok:
  assumes "cases_ok s" and "(c, i) \<in> case_key ` set (cases s)"
  shows "cases_ok (add_event c i kind actor an action note now s)"
  using assms by (auto simp: cases_ok_def add_event_def sql_insert_def sorted_wrt_append event_of_def)

lemma add_event_advance:
  assumes "cases_ok s" and "(c, i) \<in> case_key ` set (cases s)"
  shows "case_advance s (add_event c i kind actor an action note now s)"
  using add_event_ok [OF assms] by (auto simp: case_advance_def history_add_event split: option.splits)


text \<open>Drawing an id changes nothing else.\<close>

lemma draw_advance: "cases_ok s \<Longrightarrow> case_advance s (s\<lparr>next_case := next_case s + 1\<rparr>)"
  by (fastforce simp: case_advance_def cases_ok_def history_def split: option.splits)

lemma workflow_of_Some: "workflow_of r = Some (c, key) \<longleftrightarrow> case_chat r = c \<and> case_workflow r = Some key"
  by (auto simp: workflow_of_def)

lemma workflow_case_None:
  "workflow_case c key s = None \<longleftrightarrow> (c, key) \<notin> set (List.map_filter workflow_of (cases s))"
  by (auto simp: workflow_case_def find_None_iff in_map_filter workflow_of_Some)

lemma workflow_case_Some:
  assumes "workflow_case c key s = Some r"
  shows "r \<in> set (cases s)" and "case_chat r = c" and "case_workflow r = Some key"
  using assms by (auto simp: workflow_case_def find_Some_iff)

lemma map_filter_append: "List.map_filter f (xs @ ys) = List.map_filter f xs @ List.map_filter f ys"
  by (simp add: List.map_filter_def)

lemma fresh_case_key: "cases_ok s \<Longrightarrow> row_at case_key (cases s) (c, next_case s) = None"
  using case_id_drawn [of s "(c, next_case s)"] by (cases "row_at case_key (cases s) (c, next_case s)") auto

lemma insert_case_Inr:
  assumes "insert_case w now d s = (t, Inr i)"
  shows "i = next_case s" and "status_known (new_status d)" and "new_chat d \<in> set (admitted_chats s)"
    and "t = s\<lparr>next_case := i + 1, cases := sql_insert (case_from d w now i) (cases s)\<rparr>"
  using assms by (auto simp: insert_case_def Let_def split: if_splits)

lemma case_from_simps [simp]:
  "case_key (case_from d w now i) = (new_chat d, i)" "case_id (case_from d w now i) = i"
  "case_chat (case_from d w now i) = new_chat d" "case_status (case_from d w now i) = new_status d"
  "case_workflow (case_from d w now i) = w"
  by (simp_all add: case_from_def case_key_def)

lemma insert_case_ok:
  assumes ok: "cases_ok s" and ins: "insert_case w now d s = (t, Inr i)"
    and w: "\<And>key. w = Some key \<Longrightarrow> workflow_case (new_chat d) key s = None"
  shows "cases_ok (first_event now d i t)"
proof -
  note i = insert_case_Inr [OF ins]
  have "row_at case_key (cases s) (new_chat d, i) = None" using fresh_case_key [OF ok] i(1) by simp
  moreover have "distinct (List.map_filter workflow_of (cases s @ [case_from d w now i]))"
    using ok w by (cases w) (auto simp: cases_ok_def map_filter_append List.map_filter_simps workflow_of_def workflow_case_None)
  ultimately show ?thesis
    using ok i unfolding cases_ok_def first_event_def add_event_def
    by (fastforce simp: sql_insert_def unique_key_def row_at_None sorted_wrt_append event_of_def)
qed

lemma insert_case_advance:
  assumes ok: "cases_ok s" and ins: "insert_case w now d s = (t, Inr i)"
    and w: "\<And>key. w = Some key \<Longrightarrow> workflow_case (new_chat d) key s = None"
  shows "case_advance s (first_event now d i t)"
proof -
  note i = insert_case_Inr [OF ins]
  have none: "row_at case_key (cases s) (new_chat d, i) = None" using fresh_case_key [OF ok] i(1) by simp
  have at: "row_at case_key (cases (first_event now d i t)) k =
      (if k = (new_chat d, i) then Some (case_from d w now i) else row_at case_key (cases s) k)" for k
    using none by (auto simp: first_event_def i(4) row_at_insert split: option.splits)
  have hist: "history k (first_event now d i t) = history k s" if "row_at case_key (cases s) k \<noteq> None" for k
  proof -
    have "k \<noteq> (new_chat d, i)" using that none by auto
    moreover have "history k t = history k s" by (simp add: i(4) history_def)
    ultimately show ?thesis by (simp add: first_event_def history_add_event)
  qed
  have le: "next_case s \<le> i" using i(1) by simp
  show ?thesis
  proof (rule case_advanceI)
    show "cases_ok (first_event now d i t)" by (rule insert_case_ok [OF assms])
    show "next_case s \<le> next_case (first_event now d i t)" by (simp add: first_event_def i(1,4))
  qed (auto simp: at le hist none split: if_splits)
qed

lemma insert_case_Inl:
  "insert_case w now d s = (t, Inl e) \<Longrightarrow> t = s\<lparr>next_case := next_case s + 1\<rparr>"
  by (auto simp: insert_case_def Let_def split: if_splits)

lemma create_advance:
  assumes ok: "cases_ok s"
  shows "case_advance s (fst (create_moderation_case now d s))"
  using insert_case_advance [OF ok, of None now d] draw_advance [OF ok]
  by (auto simp: create_moderation_case_def dest: insert_case_Inl split: prod.splits sum.splits)

lemma create_workflow_advance:
  assumes ok: "cases_ok s"
  shows "case_advance s (fst (create_workflow_moderation_case now key d s))"
proof (cases "workflow_case (new_chat d) key s")
  case None
  show ?thesis
    using insert_case_advance [OF ok, of "Some key" now d] draw_advance [OF ok] None
    by (auto simp: create_workflow_moderation_case_def dest: insert_case_Inl split: prod.splits sum.splits)
next
  case (Some r)
  then show ?thesis using draw_advance [OF ok] by (simp add: create_workflow_moderation_case_def)
qed


text \<open>A change of the status of one case, with its event.\<close>

definition case_hit :: "chat_id \<times> int \<Rightarrow> (case_row \<Rightarrow> bool) \<Rightarrow> case_db \<Rightarrow> bool" where
  "case_hit k P s \<longleftrightarrow> is_some_and P (row_at case_key (cases s) k)"

lemma case_key_set_status [simp]: "case_key (set_status to now r) = case_key r"
  by (simp add: case_key_def set_status_def)

lemma set_status_simps [simp]:
  "case_id (set_status to now r) = case_id r" "case_chat (set_status to now r) = case_chat r"
  "case_status (set_status to now r) = to" "workflow_of (set_status to now r) = workflow_of r"
  "same_case r (set_status to now r)"
  by (simp_all add: set_status_def workflow_of_def same_case_def)

lemma cases_ok_unique: "cases_ok s \<Longrightarrow> unique_key case_key (cases s)"
  by (simp add: cases_ok_def)

lemma count_key:
  assumes "unique_key key t"
  shows "sql_count (\<lambda>r. key r = k \<and> P r) t = (if is_some_and P (row_at key t k) then 1 else 0)"
  using assms
proof (induction t)
  case Nil
  then show ?case by (simp add: sql_count_def)
next
  case (Cons r t)
  then have "row_at key t (key r) = None" by (simp add: unique_key_def row_at_None)
  with Cons show ?case by (auto simp: unique_key_def row_at_Cons sql_count_def)
qed

lemma map_filter_update:
  "(\<And>r. f (g r) = f r) \<Longrightarrow> List.map_filter f (sql_update P g t) = List.map_filter f t"
  by (induction t) (auto simp: sql_update_def List.map_filter_simps split: option.split)

lemma status_update_ok:
  assumes "cases_ok s" and "status_known to"
  shows "cases_ok (s\<lparr>cases := sql_update P (set_status to now) (cases s), bot := b\<rparr>)"
proof -
  have "case_key ` set (sql_update P (set_status to now) (cases s)) = case_key ` set (cases s)"
    using map_key_update [of case_key "set_status to now" P "cases s"] by (metis case_key_set_status list.set_map)
  then show ?thesis
    using assms by (auto simp: cases_ok_def unique_update map_filter_update) (auto simp: sql_update_def)
qed

lemma status_change_advance:
  assumes ok: "cases_ok s" and to: "status_known to" and hit: "case_hit (c, i) P s"
    and up: "\<And>r. P r \<Longrightarrow> case_rank r + 1 = case_rank (set_status to now r)"
  shows "case_advance s (add_event c i kind actor an action note now
    (s\<lparr>cases := sql_update (\<lambda>r. case_key r = (c, i) \<and> P r) (set_status to now) (cases s), bot := b\<rparr>))"
    (is "case_advance s ?t")
proof -
  let ?u = "s\<lparr>cases := sql_update (\<lambda>r. case_key r = (c, i) \<and> P r) (set_status to now) (cases s), bot := b\<rparr>"
  obtain r where r: "row_at case_key (cases s) (c, i) = Some r" "P r"
    using hit by (auto simp: case_hit_def is_some_and_iff)
  have at: "row_at case_key (cases ?t) k = (if k = (c, i) then Some (set_status to now r) else row_at case_key (cases s) k)" for k
    by (simp add: row_at_update_key(2) [where key = case_key and f = "set_status to now"] r)
  have hist: "history k ?u = history k s" for k by (simp add: history_def)
  show ?thesis
  proof (rule case_advanceI)
    have "(c, i) \<in> case_key ` set (cases ?u)"
      using at [of "(c, i)"] row_at_None [of case_key "cases ?u" "(c, i)"] by auto
    then show "cases_ok ?t" by (intro add_event_ok status_update_ok ok to)
  next
    fix k q p
    assume "row_at case_key (cases ?t) k = Some q" "row_at case_key (cases s) k = Some p"
    then show "same_case p q \<and> case_rank p \<le> case_rank q \<and>
        (\<exists>es. history k ?t = history k s @ es \<and> case_rank q \<le> case_rank p + length es)"
      using r up [OF r(2)] by (auto simp only: at history_add_event hist) (auto split: if_splits)
  next
    fix k q
    assume "row_at case_key (cases ?t) k = Some q" "row_at case_key (cases s) k = None"
    then show "next_case s \<le> snd k" using r by (auto simp only: at split: if_splits)
  qed simp
qed

text \<open>The two transitions the program asks for.\<close>

definition program_transition :: "case_transition \<Rightarrow> bool" where
  "program_transition x \<longleftrightarrow> (tr_from x, tr_to x) \<in> {(''open'', ''resolved''), (''resolved'', ''reversed'')}"

lemma transition_outcome:
  assumes ok: "cases_ok s" and x: "program_transition x"
  shows "transition_moderation_case now x s =
    (if case_hit (tr_chat x, tr_case x) (\<lambda>r. case_status r = tr_from x) s
     then (add_event (tr_chat x) (tr_case x) (tr_event_kind x) (map_option fst (tr_actor x)) (actor_text (tr_actor x))
             (tr_action x) (tr_note x) now
             (s\<lparr>cases := sql_update (\<lambda>r. case_key r = (tr_chat x, tr_case x) \<and> case_status r = tr_from x)
                (set_status (tr_to x) now) (cases s)\<rparr>), Inr True)
     else (s, Inr False))"
  using x count_key [OF cases_ok_unique [OF ok], of "(tr_chat x, tr_case x)" "\<lambda>r. case_status r = tr_from x"]
    sql_update_key_cases [OF cases_ok_unique [OF ok], of "(tr_chat x, tr_case x)" "\<lambda>r. case_status r = tr_from x"]
  by (auto simp: transition_moderation_case_def case_hit_def program_transition_def status_known_def Let_def)

lemma transition_advance:
  assumes ok: "cases_ok s" and x: "program_transition x"
  shows "case_advance s (fst (transition_moderation_case now x s))"
proof -
  have up: "case_rank r + 1 = case_rank (set_status (tr_to x) now r)" if "case_status r = tr_from x" for r
    using x that by (auto simp: program_transition_def case_rank_def)
  have "status_known (tr_to x)" using x by (auto simp: program_transition_def status_known_def)
  note step = status_change_advance [OF ok this _ up, where b = "bot s"]
  show ?thesis using step case_advance_refl [OF ok] by (simp add: transition_outcome [OF assms])
qed

definition reversible :: "user_id \<Rightarrow> case_row \<Rightarrow> bool" where
  "reversible u r \<longleftrightarrow> case_status r = ''resolved'' \<and> case_action r = ''warn'' \<and> case_subject r = Some u"

lemma reversal_outcome_eq:
  assumes ok: "cases_ok s"
  shows "reverse_warning_case now x s =
    (case row_at counter_key (counters (bot s)) (rv_chat x, rv_user x) of
       None \<Rightarrow> (s, NoWarning)
     | Some r \<Rightarrow>
         if warns r \<le> 0 then (s, NoWarning)
         else if \<not> case_hit (rv_chat x, rv_case x) (reversible (rv_user x)) s then (s, CaseChanged)
         else
           (add_event (rv_chat x) (rv_case x) ''reversed'' (Some (rv_actor x)) (rv_actor_name x) (Some ''reverse'')
              (rv_note x) now
              (s\<lparr>cases := sql_update (\<lambda>r. case_key r = (rv_chat x, rv_case x) \<and> reversible (rv_user x) r)
                  (set_status ''reversed'' now) (cases s),
                 bot := (bot s)\<lparr>counters := sql_update (\<lambda>r. counter_key r = (rv_chat x, rv_user x))
                    (\<lambda>r. r\<lparr>warns := warns r - 1\<rparr>) (counters (bot s))\<rparr>\<rparr>), Reversed))"
  using count_key [OF cases_ok_unique [OF ok], of "(rv_chat x, rv_case x)" "reversible (rv_user x)"]
  by (auto simp: reverse_warning_case_def reversible_def case_hit_def Let_def split: option.split)

lemma reversal_advance:
  assumes ok: "cases_ok s"
  shows "case_advance s (fst (reverse_warning_case now x s))"
proof -
  have up: "case_rank r + 1 = case_rank (set_status ''reversed'' now r)" if "reversible (rv_user x) r" for r
    using that by (simp add: reversible_def case_rank_def)
  have "status_known ''reversed''" by (simp add: status_known_def)
  note step = status_change_advance [OF ok this _ up]
  show ?thesis
    using step case_advance_refl [OF ok] by (simp add: reversal_outcome_eq [OF ok] split: option.split)
qed

lemma case_present: "sql_exists (\<lambda>r. case_key r = k) (cases s) \<longleftrightarrow> k \<in> case_key ` set (cases s)"
  by (auto simp: sql_exists_def list_ex_iff)

lemma note_advance:
  assumes "cases_ok s"
  shows "case_advance s (fst (add_moderation_case_note now c i actor an note s))"
    and "case_advance s (fst (append_moderation_case_event now c i kind who action note' s))"
  using assms case_present [of "(c, i)" s]
  by (auto simp: add_moderation_case_note_def append_moderation_case_event_def
      intro: add_event_advance case_advance_refl)


text \<open>Deleting cases with their events.\<close>

lemma delete_cases_at:
  "cases_ok s \<Longrightarrow> row_at case_key (cases (delete_cases P s)) k =
     (case row_at case_key (cases s) k of None \<Rightarrow> None | Some r \<Rightarrow> if P r then None else Some r)"
  by (simp add: delete_cases_def Let_def row_at_delete [OF cases_ok_unique])

lemma map_filter_distinct_sub: "distinct (List.map_filter f t) \<Longrightarrow> distinct (List.map_filter f (filter Q t))"
  by (induction t) (auto simp: List.map_filter_simps in_map_filter split: option.splits)

text \<open>What a deletion has to keep: rows with events, and no events without a row.\<close>

lemma delete_rows_advance:
  assumes ok: "cases_ok s"
    and cs: "cases t = sql_delete P (cases s)" and es: "events t = sql_delete Q (events s)"
    and frame: "next_case t = next_case s" "next_event t = next_event s"
    and chats: "\<And>r. r \<in> set (cases t) \<Longrightarrow> case_chat r \<in> set (admitted_chats t)"
    and match: "\<And>r e. r \<in> set (cases s) \<Longrightarrow> e \<in> set (events s) \<Longrightarrow> event_of e = case_key r \<Longrightarrow> Q e = P r"
  shows "case_advance s t"
proof -
  have at: "row_at case_key (cases t) k =
      (case row_at case_key (cases s) k of None \<Rightarrow> None | Some r \<Rightarrow> if P r then None else Some r)" for k
    by (simp add: cs row_at_delete [OF cases_ok_unique [OF ok]])
  have hist: "history k t = history k s" if "row_at case_key (cases t) k = Some q" for k q
  proof -
    have q: "q \<in> set (cases s)" "case_key q = k" "\<not> P q"
      using that by (auto simp: at dest: row_at_Some split: option.splits if_splits)
    then have "filter (\<lambda>e. event_of e = k) (sql_delete Q (events s)) = filter (\<lambda>e. event_of e = k) (events s)"
      using match [OF q(1)] by (auto simp: sql_delete_def intro: filter_cong)
    then show ?thesis by (simp add: history_def es)
  qed
  show ?thesis
  proof (rule case_advanceI)
    have "sorted_wrt (<) (map event_id (events t))"
      using ok by (simp add: cases_ok_def es sql_delete_def sorted_wrt_map sorted_wrt_filter)
    moreover have "\<exists>e \<in> set (events t). event_of e = case_key r" if "r \<in> set (cases t)" for r
    proof -
      have "r \<in> set (cases s)" "\<not> P r" using that by (auto simp: cs sql_delete_def)
      moreover obtain e where "e \<in> set (events s)" "event_of e = case_key r" using ok calculation by (auto simp: cases_ok_def)
      ultimately show ?thesis using match by (auto simp: es sql_delete_def)
    qed
    moreover have "event_of e \<in> case_key ` set (cases t)" if "e \<in> set (events t)" for e
    proof -
      have "e \<in> set (events s)" "\<not> Q e" using that by (auto simp: es sql_delete_def)
      moreover obtain r where "r \<in> set (cases s)" "event_of e = case_key r" using ok calculation by (auto simp: cases_ok_def)
      ultimately show ?thesis using match by (auto simp: cs sql_delete_def)
    qed
    ultimately show "cases_ok t"
      using ok chats unique_delete [OF cases_ok_unique [OF ok], of P] unfolding cases_ok_def frame cs es
      by (auto simp: sql_delete_def map_filter_distinct_sub)
  next
    fix k q r
    assume "row_at case_key (cases t) k = Some q" "row_at case_key (cases s) k = Some r"
    then show "same_case r q \<and> case_rank r \<le> case_rank q \<and>
        (\<exists>es. history k t = history k s @ es \<and> case_rank q \<le> case_rank r + length es)"
      using hist [of k q] by (auto simp: at split: if_splits)
  qed (auto simp: frame at)
qed

lemma purge_advance:
  assumes ok: "cases_ok s"
  shows "case_advance s (fst (purge_expired_moderation_cases now s))"
proof -
  let ?P = "\<lambda>r. case_key r \<in> set (expired_page now s)"
  let ?gone = "map case_key (filter ?P (cases s))"
  show ?thesis
    by (rule delete_rows_advance [OF ok, where P = ?P and Q = "\<lambda>e. event_of e \<in> set ?gone"])
      (use ok in \<open>auto simp: purge_expired_moderation_cases_def delete_cases_def Let_def sql_delete_def cases_ok_def\<close>)
qed

lemma forget_advance:
  assumes ok: "cases_ok s"
  shows "case_advance s (forget_chat_cases c s)"
  by (rule delete_rows_advance [OF ok, where P = "\<lambda>r. case_chat r = c" and Q = "\<lambda>e. event_chat e = c"])
    (use ok in \<open>auto simp: forget_chat_cases_def sql_delete_def cases_ok_def event_of_def case_key_def\<close>)

lemma other_advance:
  assumes ok: "cases_ok s"
  shows "case_advance s (s\<lparr>bot := b\<rparr>)" and "case_advance s (admit_case_chat c s)"
  using ok by (auto simp: admit_case_chat_def cases_ok_def history_def intro!: case_advanceI)

lemma retention_advance: "cases_ok s \<Longrightarrow> case_advance s (retention_round clock i s)"
proof (induction clock i s rule: retention_round.induct)
  case (1 clock i s)
  obtain t n where p: "purge_expired_moderation_cases (clock i) s = (t, n)" by (cases "purge_expired_moderation_cases (clock i) s")
  have step: "case_advance s t" using purge_advance [OF 1(2), of "clock i"] p by simp
  show ?case
  proof (cases "n = purge_batch")
    case True
    have "case_advance t (retention_round clock (Suc i) t)"
      using 1(1) [OF _ _ True] p case_advance_ok [OF step] by simp
    then show ?thesis using p True case_advance_trans [OF step _ 1(2)]
      by (subst retention_round.simps) simp
  next
    case False
    then show ?thesis using p step by (subst retention_round.simps) simp
  qed
qed

section \<open>Runs\<close>

inductive case_step :: "case_db \<Rightarrow> case_db \<Rightarrow> bool" where
  step_create: "case_step s (fst (create_moderation_case now d s))"
| step_workflow: "case_step s (fst (create_workflow_moderation_case now key d s))"
| step_transition: "program_transition x \<Longrightarrow> case_step s (fst (transition_moderation_case now x s))"
| step_reverse: "case_step s (fst (reverse_warning_case now rv s))"
| step_note: "case_step s (fst (add_moderation_case_note now c i actor an note s))"
| step_event: "case_step s (fst (append_moderation_case_event now c i kind who action note' s))"
| step_purge: "case_step s (fst (purge_expired_moderation_cases now s))"
| step_forget: "case_step s (forget_chat_cases c s)"
| step_admit: "case_step s (admit_case_chat c s)"
| step_bot: "case_step s (s\<lparr>bot := b\<rparr>)"

inductive case_runs :: "case_db \<Rightarrow> case_db \<Rightarrow> bool" where
  runs_none: "case_runs s s"
| runs_step: "case_step s t \<Longrightarrow> case_runs t u \<Longrightarrow> case_runs s u"

lemma case_step_advance: "case_step s t \<Longrightarrow> cases_ok s \<Longrightarrow> case_advance s t"
  by (induction rule: case_step.induct)
    (simp_all add: create_advance create_workflow_advance transition_advance reversal_advance note_advance
      purge_advance forget_advance other_advance)

lemma case_runs_advance: "case_runs s t \<Longrightarrow> cases_ok s \<Longrightarrow> case_advance s t"
proof (induction rule: case_runs.induct)
  case (runs_none s)
  then show ?case by (rule case_advance_refl)
next
  case (runs_step s t u)
  then have "case_advance s t" "case_advance t u" using case_step_advance case_advance_ok by blast+
  then show ?case using runs_step.prems by (rule case_advance_trans)
qed

text \<open>A database without cases.\<close>

definition no_cases :: "case_db \<Rightarrow> bool" where
  "no_cases s \<longleftrightarrow> cases s = [] \<and> events s = []"

definition case_reach :: "case_db \<Rightarrow> bool" where
  "case_reach s \<longleftrightarrow> (\<exists>s0. no_cases s0 \<and> case_runs s0 s)"

lemma case_reach_ok: "case_reach s \<Longrightarrow> cases_ok s"
  using case_runs_advance case_advance_ok by (fastforce simp: case_reach_def no_cases_def cases_ok_def List.map_filter_simps)

end
