(* ===== verification/CaseFacts.thy ===== *)
theory CaseFacts
  imports CaseRuns
begin

text \<open>
  What the operations on moderation cases guarantee over runs: histories only grow, a case leaves a
  status once, taking a warning back and recording a workflow happen once, pages cover the list and
  the retention removes what has expired.
\<close>

section \<open>Histories\<close>

lemma sort_key_strict: "sorted_wrt (<) (map f xs) \<Longrightarrow> sort_key f xs = xs"
  by (induction xs) (auto simp: insort_is_Cons less_imp_le)

lemma case_events_history: "cases_ok s \<Longrightarrow> case_events c i s = history (c, i) s"
  unfolding case_events_def history_def
  by (rule sort_key_strict) (simp add: cases_ok_def sorted_wrt_map sorted_wrt_filter)

lemma history_not_empty:
  assumes "cases_ok s" and "row_at case_key (cases s) k = Some r"
  shows "history k s \<noteq> []"
proof -
  have "r \<in> set (cases s)" "case_key r = k" using assms(2) by (auto dest: row_at_Some)
  then show ?thesis using assms(1) by (auto simp: cases_ok_def history_def filter_empty_conv)
qed

lemma same_caseD:
  assumes "same_case r q"
  shows "q = r\<lparr>case_status := case_status q, case_updated := case_updated q\<rparr>"
proof -
  have "(r\<lparr>case_status := [], case_updated := 0\<rparr>)\<lparr>case_status := case_status q, case_updated := case_updated q\<rparr> =
      (q\<lparr>case_status := [], case_updated := 0\<rparr>)\<lparr>case_status := case_status q, case_updated := case_updated q\<rparr>"
    using assms unfolding same_case_def by (rule arg_cong)
  then show ?thesis by simp
qed

text \<open>
  C28: the file of a case can be trusted. Whatever operations run, a case keeps everything it was recorded
  with except its status and the time of its last change, its status never goes back from reversed to
  resolved or from resolved to open, the history read for it starts with the history that was read
  before and is never empty, and every change of the status has left an event.
\<close>

theorem case_history_only_grows:
  assumes "case_reach s" and "case_runs s t"
    and "moderation_case c i s = Some (r, before)" and "moderation_case c i t = Some (q, after)"
  shows "q = r\<lparr>case_status := case_status q, case_updated := case_updated q\<rparr> \<and>
    case_rank r \<le> case_rank q \<and> before \<noteq> [] \<and>
    (\<exists>new. after = before @ new \<and> case_rank q - case_rank r \<le> length new)"
proof -
  have ok: "cases_ok s" by (rule case_reach_ok [OF assms(1)])
  note adv = case_runs_advance [OF assms(2) ok]
  have rows: "row_at case_key (cases s) (c, i) = Some r" "row_at case_key (cases t) (c, i) = Some q"
    using assms(3,4) by (auto simp: moderation_case_def split: option.splits)
  have hist: "before = history (c, i) s" "after = history (c, i) t"
    using assms(3,4) rows case_events_history [OF ok] case_events_history [OF case_advance_ok [OF adv]]
    by (auto simp: moderation_case_def)
  have "q = r\<lparr>case_status := case_status q, case_updated := case_updated q\<rparr>"
    by (rule same_caseD [OF case_advance_kept(1) [OF adv rows(2,1)]])
  then show ?thesis
    using case_advance_kept(2,3) [OF adv rows(2,1)] hist history_not_empty [OF ok rows(1)] by fastforce
qed

definition sample_case :: new_moderation_case where
  "sample_case = \<lparr>new_chat = 1, new_subject = Some 7, new_subject_name = [], new_source = ''moderator'', new_rule = [],
     new_reason = [], new_message = None, new_media = None, new_evidence = None, new_hash = None, new_action = ''warn'',
     new_until = None, new_status = ''resolved'', new_actor = Some 9, new_actor_name = [], new_event_kind = ''action_succeeded'',
     new_event_note = None\<rparr>"

definition sample_db :: case_db where
  "sample_db = \<lparr>bot = example_warn_store\<lparr>counters := [(blank_counter (1, 7))\<lparr>warns := 2\<rparr>]\<rparr>, cases = [], events = [],
     next_case = 1, next_event = 1, admitted_chats = [1]\<rparr>"

definition sample_db1 :: case_db where
  "sample_db1 = fst (create_moderation_case 5 sample_case sample_db)"

definition sample_reversal :: warning_reversal where
  "sample_reversal = \<lparr>rv_chat = 1, rv_case = 1, rv_user = 7, rv_actor = 9, rv_actor_name = [], rv_note = None\<rparr>"

definition sample_db2 :: case_db where
  "sample_db2 = fst (reverse_warning_case 6 sample_reversal sample_db1)"

lemmas sample_defs = sample_case_def sample_db_def sample_db1_def sample_reversal_def sample_db2_def

lemma sample_cases_reach: "case_reach sample_db" "case_reach sample_db1" "case_runs sample_db1 sample_db2"
proof -
  have "no_cases sample_db" by (simp add: no_cases_def sample_db_def)
  moreover have "case_step sample_db sample_db1" unfolding sample_db1_def by (rule step_create)
  ultimately show "case_reach sample_db" "case_reach sample_db1"
    unfolding case_reach_def by (blast intro: runs_none runs_step)+
  have "case_step sample_db1 sample_db2" unfolding sample_db2_def by (rule step_reverse)
  then show "case_runs sample_db1 sample_db2" by (blast intro: runs_none runs_step)
qed

lemmas case_evals = create_moderation_case_def insert_case_def first_event_def add_event_def case_from_def
  reverse_warning_case_def moderation_case_def case_events_def status_known_def sql_insert_def sql_update_def sql_count_def
  row_at_def case_key_def event_of_def set_status_def counter_key_def blank_counter_def

lemma sample_reads:
  "map_option (\<lambda>(r, es). (case_status r, map event_kind es)) (moderation_case 1 1 sample_db1) =
     Some (''resolved'', [''action_succeeded''])"
  "map_option (\<lambda>(r, es). (case_status r, map event_kind es)) (moderation_case 1 1 sample_db2) =
     Some (''reversed'', [''action_succeeded'', ''reversed''])"
  "snd (reverse_warning_case 6 sample_reversal sample_db1) = Reversed"
  by (simp_all add: sample_defs case_evals)


lemma case_history_only_grows_witness:
  "\<exists>r es q fs new. moderation_case 1 1 sample_db1 = Some (r, es) \<and> moderation_case 1 1 sample_db2 = Some (q, fs) \<and>
     fs = es @ new \<and> es \<noteq> []"
proof -
  obtain r es q fs where reads: "moderation_case 1 1 sample_db1 = Some (r, es)" "moderation_case 1 1 sample_db2 = Some (q, fs)"
    using sample_reads by auto
  from case_history_only_grows [OF sample_cases_reach(2,3) reads] reads show ?thesis by blast
qed

section \<open>Leaving a status\<close>

definition leaves_status :: "string \<Rightarrow> chat_id \<times> int \<Rightarrow> case_db \<Rightarrow> case_db \<Rightarrow> bool" where
  "leaves_status old k s t \<longleftrightarrow>
     (\<exists>now x. program_transition x \<and> (tr_chat x, tr_case x) = k \<and> tr_from x = old \<and>
        transition_moderation_case now x s = (t, Inr True)) \<or>
     (\<exists>now x. old = ''resolved'' \<and> (rv_chat x, rv_case x) = k \<and> reverse_warning_case now x s = (t, Reversed))"

lemma hit_status:
  "case_hit k P s \<Longrightarrow> (\<And>r. P r \<Longrightarrow> case_status r = old) \<Longrightarrow>
   \<exists>r. row_at case_key (cases s) k = Some r \<and> case_status r = old"
  by (auto simp: case_hit_def is_some_and_iff)

lemma row_at_status_change:
  "row_at case_key (cases (add_event c i kind actor an action note now
      (s\<lparr>cases := sql_update (\<lambda>r. case_key r = k \<and> P r) (set_status to now) (cases s), bot := b\<rparr>))) j =
    (if j = k then map_option (\<lambda>r. if P r then set_status to now r else r) (row_at case_key (cases s) k)
     else row_at case_key (cases s) j)"
  by (simp add: row_at_update_key(2) [where key = case_key and f = "set_status to now"])

lemma leaves_status_after:
  assumes ok: "cases_ok s" and "leaves_status old k s t"
  shows "\<exists>q. row_at case_key (cases t) k = Some q \<and>
    (case_rank q = 2 \<and> old = ''resolved'' \<or> case_rank q = 1 \<and> old = ''open'')"
proof -
  have x: ?thesis if "program_transition x" "(tr_chat x, tr_case x) = k" "tr_from x = old"
      "transition_moderation_case now x s = (t, Inr True)" for now x
    using that row_at_status_change [where b = "bot s" and s = s and k = k]
    by (auto simp: transition_outcome [OF ok] case_hit_def is_some_and_iff program_transition_def case_rank_def
        split: if_splits)
  have "case_rank (set_status ''reversed'' now r) = 2" for now r by (simp add: case_rank_def)
  then have ?thesis if "old = ''resolved''" "(rv_chat x, rv_case x) = k" "reverse_warning_case now x s = (t, Reversed)" for now x
    using that row_at_status_change [where s = s and k = k]
    by (auto simp: reversal_outcome_eq [OF ok] case_hit_def is_some_and_iff split: option.splits if_splits)
  with x show ?thesis using assms(2) by (auto simp: leaves_status_def)
qed

text \<open>
  C29: two administrators never settle the same case twice. Once a case has left the status open, by whoever
  closed it, every later attempt to close it fails and changes nothing; once it has left the status
  resolved, by a transition or by taking its warning back, every later attempt to reverse it or to
  take the warning back fails and changes nothing, the counter of warnings included.
\<close>

theorem case_leaves_status_once:
  assumes "case_reach s" and "leaves_status old k s t" and "case_runs t u"
  shows "(program_transition x \<and> (tr_chat x, tr_case x) = k \<and> tr_from x = old \<longrightarrow>
       transition_moderation_case now x u = (u, Inr False)) \<and>
    (old = ''resolved'' \<and> (rv_chat y, rv_case y) = k \<longrightarrow>
       fst (reverse_warning_case now y u) = u \<and> snd (reverse_warning_case now y u) \<noteq> Reversed)"
proof -
  note ok = case_reach_ok [OF assms(1)]
  obtain q where q: "row_at case_key (cases t) k = Some q"
    "case_rank q = 2 \<and> old = ''resolved'' \<or> case_rank q = 1 \<and> old = ''open''"
    using leaves_status_after [OF ok assms(2)] by blast
  have "\<exists>st. case_step s st \<and> st = t"
    using assms(2) unfolding leaves_status_def by (metis fst_conv step_transition step_reverse)
  then have ok_t: "cases_ok t" using case_step_advance ok case_advance_ok by blast
  note adv = case_runs_advance [OF assms(3) ok_t]
  have ok_u: "cases_ok u" using adv by (rule case_advance_ok)
  have "case_status p \<noteq> old" if "row_at case_key (cases u) k = Some p" for p
    using case_advance_kept(2) [OF adv that q(1)] q(2) by (auto simp: case_rank_def)
  then have no_hit: "\<not> case_hit k P u" if "\<And>r. P r \<Longrightarrow> case_status r = old" for P
    using hit_status [of k P u old] that by blast
  have "\<not> case_hit k (\<lambda>r. case_status r = old) u" "old = ''resolved'' \<Longrightarrow> \<not> case_hit k (reversible v) u" for v
    by (rule no_hit, simp add: reversible_def)+
  then show ?thesis
    by (auto simp: transition_outcome [OF ok_u] reversal_outcome_eq [OF ok_u] split: option.split)
qed

lemma case_leaves_status_once_witness:
  "snd (reverse_warning_case 8 sample_reversal sample_db2) \<noteq> Reversed"
proof -
  have "leaves_status ''resolved'' (1, 1) sample_db1 sample_db2"
    using sample_reads(3) unfolding leaves_status_def sample_db2_def
    by (intro disjI2 exI [of _ 6] exI [of _ sample_reversal])
      (simp add: prod_eq_iff, simp add: sample_reversal_def)
  from case_leaves_status_once [OF sample_cases_reach(2) this runs_none, where y = sample_reversal]
  show ?thesis by (simp add: sample_reversal_def)
qed

text \<open>
  Taking the warning of a case back does all of it or nothing. It succeeds exactly when the member has a
  warning left and the case is a resolved warning of that member. Then the member has exactly one
  warning less, the case is reversed and its file ends with who did it; no other counter, no pending
  punishment, no other case and no other file changes. Otherwise nothing changes.
\<close>

theorem warning_reversal_outcome:
  assumes "case_reach s" and "reverse_warning_case now x s = (t, res)"
  shows "(res = Reversed \<longleftrightarrow>
      (\<exists>r. row_at counter_key (counters (bot s)) (rv_chat x, rv_user x) = Some r \<and> 0 < warns r) \<and>
      (\<exists>r. row_at case_key (cases s) (rv_chat x, rv_case x) = Some r \<and> case_status r = ''resolved'' \<and>
         case_action r = ''warn'' \<and> case_subject r = Some (rv_user x))) \<and>
    (res \<noteq> Reversed \<longrightarrow> t = s) \<and>
    (res = Reversed \<longrightarrow>
      row_at counter_key (counters (bot t)) = (row_at counter_key (counters (bot s)))
        ((rv_chat x, rv_user x) := map_option (\<lambda>r. r\<lparr>warns := warns r - 1\<rparr>)
           (row_at counter_key (counters (bot s)) (rv_chat x, rv_user x))) \<and>
      warn_actions (bot t) = warn_actions (bot s) \<and> strict_actions (bot t) = strict_actions (bot s) \<and>
      row_at case_key (cases t) = (row_at case_key (cases s))
        ((rv_chat x, rv_case x) := map_option (\<lambda>r. r\<lparr>case_status := ''reversed'', case_updated := now\<rparr>)
           (row_at case_key (cases s) (rv_chat x, rv_case x))) \<and>
      (\<exists>e. events t = events s @ [e] \<and> event_of e = (rv_chat x, rv_case x) \<and> event_kind e = ''reversed'' \<and>
         event_actor e = Some (rv_actor x) \<and> event_note e = rv_note x))"
proof -
  note ok = case_reach_ok [OF assms(1)]
  let ?k = "(rv_chat x, rv_case x)" and ?m = "(rv_chat x, rv_user x)"
  have key: "counter_key (r\<lparr>warns := n\<rparr>) = counter_key r" for r n by simp
  have hit: "case_hit ?k (reversible (rv_user x)) s \<longleftrightarrow>
      (\<exists>r. row_at case_key (cases s) ?k = Some r \<and> case_status r = ''resolved'' \<and> case_action r = ''warn'' \<and>
         case_subject r = Some (rv_user x))"
    by (auto simp: case_hit_def is_some_and_iff reversible_def)
  have upd: "row_at case_key (sql_update (\<lambda>r. case_key r = ?k \<and> reversible (rv_user x) r) (set_status ''reversed'' now) (cases s)) =
      (row_at case_key (cases s)) (?k := map_option (set_status ''reversed'' now) (row_at case_key (cases s) ?k))"
    if "case_hit ?k (reversible (rv_user x)) s"
    using that by (auto simp: row_at_update_key(2) [where key = case_key and f = "set_status ''reversed'' now"] case_hit_def
        is_some_and_iff fun_eq_iff)
  have count: "row_at counter_key (sql_update (\<lambda>r. counter_key r = ?m) (\<lambda>r. r\<lparr>warns := warns r - 1\<rparr>) (counters (bot s))) =
      (row_at counter_key (counters (bot s))) (?m := map_option (\<lambda>r. r\<lparr>warns := warns r - 1\<rparr>) (row_at counter_key (counters (bot s)) ?m))"
    by (auto simp: row_at_update_key(1) [where key = counter_key and f = "\<lambda>r. r\<lparr>warns := warns r - 1\<rparr>", OF key] fun_eq_iff)
  have setting: "set_status ''reversed'' now = (\<lambda>r. r\<lparr>case_status := ''reversed'', case_updated := now\<rparr>)"
    by (simp add: set_status_def fun_eq_iff)
  have event: "\<exists>e. events (add_event (fst ?k) (snd ?k) ''reversed'' (Some (rv_actor x)) (rv_actor_name x) (Some ''reverse'') (rv_note x) now u) =
      events u @ [e] \<and> event_of e = ?k \<and> event_kind e = ''reversed'' \<and> event_actor e = Some (rv_actor x) \<and> event_note e = rv_note x" for u
    by (simp add: add_event_def sql_insert_def event_of_def)
  show ?thesis
  proof (cases "case_hit ?k (reversible (rv_user x)) s \<and> (\<exists>r. row_at counter_key (counters (bot s)) ?m = Some r \<and> 0 < warns r)")
    case True
    then obtain r where r: "row_at counter_key (counters (bot s)) ?m = Some r" "0 < warns r" by blast
    let ?u = "s\<lparr>cases := sql_update (\<lambda>r. case_key r = ?k \<and> reversible (rv_user x) r) (set_status ''reversed'' now) (cases s),
        bot := (bot s)\<lparr>counters := sql_update (\<lambda>r. counter_key r = ?m) (\<lambda>r. r\<lparr>warns := warns r - 1\<rparr>) (counters (bot s))\<rparr>\<rparr>"
    have t: "t = add_event (fst ?k) (snd ?k) ''reversed'' (Some (rv_actor x)) (rv_actor_name x) (Some ''reverse'') (rv_note x) now ?u"
      and res: "res = Reversed"
      using assms(2) r True by (auto simp: reversal_outcome_eq [OF ok])
    show ?thesis
      using True event [of ?u] unfolding t res
      by (simp add: upd count hit) (simp add: setting)
  next
    case False
    then show ?thesis using assms(2) hit by (auto simp: reversal_outcome_eq [OF ok] split: option.splits if_splits)
  qed
qed

lemma warning_reversal_outcome_witness:
  "warns (the (row_at counter_key (counters (bot sample_db2)) (1, 7))) = 1"
proof -
  have "reverse_warning_case 6 sample_reversal sample_db1 = (sample_db2, Reversed)"
    using sample_reads(3) by (simp add: prod_eq_iff sample_db2_def)
  from warning_reversal_outcome [OF sample_cases_reach(2) this]
  have "row_at counter_key (counters (bot sample_db2)) (1, 7) =
      map_option (\<lambda>r. r\<lparr>warns := warns r - 1\<rparr>) (row_at counter_key (counters (bot sample_db1)) (1, 7))"
    by (simp add: sample_reversal_def)
  then show ?thesis by (simp add: sample_defs case_evals)
qed


section \<open>Workflows\<close>

lemma workflow_unique:
  assumes "cases_ok s" and "r \<in> set (cases s)" and "q \<in> set (cases s)" and "workflow_of r = Some w" and "workflow_of q = Some w"
  shows "r = q"
proof -
  have alone: "distinct (List.map_filter workflow_of t) \<Longrightarrow> r \<in> set t \<Longrightarrow> q \<in> set t \<Longrightarrow> r = q" for t
  proof (induction t)
    case Nil
    then show ?case by simp
  next
    case (Cons x t)
    then show ?case using assms(4,5) in_map_filter [of w workflow_of t]
      by (auto simp: List.map_filter_simps split: option.splits)
  qed
  have "distinct (List.map_filter workflow_of (cases s))" using assms(1) by (simp add: cases_ok_def)
  then show ?thesis by (rule alone) (fact assms)+
qed

lemma workflow_case_at:
  assumes "cases_ok s" and "row_at case_key (cases s) (c, i) = Some r" and "case_workflow r = Some key"
  shows "workflow_case c key s = Some r"
proof -
  have r: "r \<in> set (cases s)" "case_chat r = c" using assms(2) by (auto simp: case_key_def dest: row_at_Some)
  have "workflow_of r = Some (c, key)" by (simp add: workflow_of_Some r assms(3))
  then have "workflow_case c key s \<noteq> None" using r(1) by (auto simp: workflow_case_None in_map_filter)
  then obtain q where q: "workflow_case c key s = Some q" by blast
  have "workflow_of q = Some (c, key)" using workflow_case_Some [OF q] by (simp add: workflow_of_Some)
  then have "q = r" by (rule workflow_unique [OF assms(1) workflow_case_Some(1) [OF q] r(1) _ \<open>workflow_of r = Some (c, key)\<close>])
  then show ?thesis by (simp add: q)
qed

lemma workflow_created:
  assumes ok: "cases_ok s" and "create_workflow_moderation_case now key d s = (t, Inr (i, fresh))"
  shows "\<exists>r. row_at case_key (cases t) (new_chat d, i) = Some r \<and> case_workflow r = Some key"
proof (cases "workflow_case (new_chat d) key s")
  case None
  then obtain u where ins: "insert_case (Some key) now d s = (u, Inr i)" and t: "t = first_event now d i u"
    using assms(2) by (auto simp: create_workflow_moderation_case_def split: prod.splits sum.splits)
  note i = insert_case_Inr [OF ins]
  show ?thesis using fresh_case_key [OF ok, of "new_chat d"] i
    by (auto simp: t first_event_def row_at_insert)
next
  case (Some r)
  then have t: "t = s\<lparr>next_case := next_case s + 1\<rparr>" "i = case_id r"
    using assms(2) by (auto simp: create_workflow_moderation_case_def split: if_splits)
  note r = workflow_case_Some [OF Some]
  have "row_at case_key (cases s) (new_chat d, i) = Some r"
    using row_at_in [OF cases_ok_unique [OF ok] r(1)] r(2) t(2) by (simp add: case_key_def)
  then show ?thesis using r(3) t(1) by simp
qed

text \<open>
  C30: a workflow records its case once. When it runs again after a crash, with the same key in the same chat
  and whatever it wants to record then, and the case still exists, it gets the id of the first run, is told
  that nothing was inserted, and no case and no event changes; only an id of the sequence is lost.
\<close>

theorem workflow_case_created_once:
  assumes "case_reach s" and "create_workflow_moderation_case now key d s = (t, Inr (i, fresh))" and "case_runs t u"
    and "moderation_case (new_chat d) i u \<noteq> None" and "new_chat d' = new_chat d" and "status_known (new_status d')"
  shows "create_workflow_moderation_case now' key d' u = (u\<lparr>next_case := next_case u + 1\<rparr>, Inr (i, False))"
proof -
  note ok = case_reach_ok [OF assms(1)]
  have "case_advance s t" using create_workflow_advance [OF ok, of now key d] assms(2) by simp
  then have ok_t: "cases_ok t" by (rule case_advance_ok)
  note adv = case_runs_advance [OF assms(3) ok_t]
  obtain r where r: "row_at case_key (cases t) (new_chat d, i) = Some r" "case_workflow r = Some key"
    using workflow_created [OF ok assms(2)] by blast
  obtain q where q: "row_at case_key (cases u) (new_chat d, i) = Some q"
    using assms(4) by (auto simp: moderation_case_def split: option.splits)
  from same_caseD [OF case_advance_kept(1) [OF adv q r(1)]]
  have "case_workflow q = case_workflow r" by (metis case_row.select_convs(19) case_row.surjective case_row.update_convs(14,18))
  then have "workflow_case (new_chat d) key u = Some q"
    using workflow_case_at [OF case_advance_ok [OF adv] q] r(2) by simp
  moreover have "case_id q = i" using q by (auto simp: case_key_def dest: row_at_Some)
  ultimately show ?thesis using assms(5,6) by (simp add: create_workflow_moderation_case_def)
qed

lemma workflow_case_created_once_witness:
  "snd (create_workflow_moderation_case 9 [99] sample_case (fst (create_workflow_moderation_case 8 [99] sample_case sample_db))) =
     Inr (1, False)"
proof -
  let ?t = "fst (create_workflow_moderation_case 8 [99] sample_case sample_db)"
  have "create_workflow_moderation_case 8 [99] sample_case sample_db = (?t, Inr (1, True))"
    by (simp add: create_workflow_moderation_case_def workflow_case_def sample_defs case_evals)
  moreover have "moderation_case (new_chat sample_case) 1 ?t \<noteq> None"
    by (simp add: create_workflow_moderation_case_def workflow_case_def sample_defs case_evals)
  moreover have "status_known (new_status sample_case)" by (simp add: sample_defs status_known_def)
  ultimately show ?thesis
    using workflow_case_created_once [OF sample_cases_reach(1) _ runs_none _ refl] by (metis snd_conv)
qed

section \<open>Pages\<close>

text \<open>Reading on from the last case of the page before, as a client does.\<close>

fun read_pages ::
  "nat \<Rightarrow> chat_id \<Rightarrow> string option \<Rightarrow> user_id option \<Rightarrow> int option \<Rightarrow> int \<Rightarrow> case_db \<Rightarrow> case_row list" where
  "read_pages 0 c status subject before limit s = []"
| "read_pages (Suc n) c status subject before limit s =
     (let page = moderation_cases c status subject before limit s
      in if page = [] then []
         else page @ read_pages n c status subject (Some (case_id (last page))) limit s)"

definition listed :: "chat_id \<Rightarrow> string option \<Rightarrow> user_id option \<Rightarrow> case_row \<Rightarrow> bool" where
  "listed c status subject r \<longleftrightarrow> case_chat r = c \<and> some_matches status (case_status r) \<and> (subject = None \<or> case_subject r = subject)"

definition newest_first :: "(case_row \<Rightarrow> bool) \<Rightarrow> case_db \<Rightarrow> case_row list" where
  "newest_first P s = sort_key (\<lambda>r. - case_id r) (filter P (cases s))"

definition below :: "int option \<Rightarrow> case_row \<Rightarrow> bool" where
  "below before r \<longleftrightarrow> (case before of None \<Rightarrow> True | Some b \<Rightarrow> case_id r < b)"

lemma moderation_cases_page:
  "moderation_cases c status subject before limit s =
     take (nat (clamp 1 100 limit)) (filter (below before) (newest_first (listed c status subject) s))"
  by (simp add: moderation_cases_def sql_page_def newest_first_def filter_sort filter_filter listed_def below_def conj_ac)

lemma newest_first_sorted:
  assumes "cases_ok s"
  shows "sorted_wrt (\<lambda>r q. case_id q < case_id r) (newest_first (listed c status subject) s)"
proof -
  let ?l = "newest_first (listed c status subject) s"
  have "sorted (map (\<lambda>r. - case_id r) ?l)" by (simp add: newest_first_def)
  moreover have "distinct (map (\<lambda>r. - case_id r) ?l)"
  proof -
    have "distinct (map case_key (filter (listed c status subject) (cases s)))"
      using assms by (simp add: cases_ok_def unique_key_def distinct_map_filter)
    then have "distinct (map (\<lambda>r. - case_id r) (filter (listed c status subject) (cases s)))"
      by (auto simp: distinct_map inj_on_def case_key_def listed_def)
    then show ?thesis by (simp add: newest_first_def distinct_map_sort_key)
  qed
  ultimately have "sorted_wrt (<) (map (\<lambda>r. - case_id r) ?l)" by (simp add: strict_sorted_iff)
  then show ?thesis by (simp add: sorted_wrt_map)
qed

lemma below_last:
  assumes "sorted_wrt (\<lambda>r q. case_id q < case_id r) (xs @ ys)" and "xs \<noteq> []"
  shows "filter (below (Some (case_id (last xs)))) (xs @ ys) = ys"
proof -
  obtain zs z where "xs = zs @ [z]" using assms(2) by (cases xs rule: rev_cases) auto
  then show ?thesis using assms(1) by (auto simp: below_def sorted_wrt_append filter_empty_conv intro!: filter_True)
qed

lemma read_pages_take:
  assumes ok: "cases_ok s" and split: "newest_first (listed c status subject) s = done' @ rest"
    and before: "before = (if done' = [] then None else Some (case_id (last done')))"
  shows "read_pages n c status subject before limit s = take (n * nat (clamp 1 100 limit)) rest"
  using split before
proof (induction n arbitrary: done' rest before)
  case 0
  then show ?case by simp
next
  case (Suc n)
  let ?m = "nat (clamp 1 100 limit)"
  note sorted = newest_first_sorted [OF ok, of c status subject]
  have m: "0 < ?m" by (simp add: clamp_def)
  have "filter (below before) (done' @ rest) = rest"
    using below_last [of done' rest] sorted Suc.prems by (auto simp: below_def)
  then have page: "moderation_cases c status subject before limit s = take ?m rest"
    by (simp add: moderation_cases_page Suc.prems(1))
  show ?case
  proof (cases "rest = []")
    case True
    then show ?thesis by (simp add: page)
  next
    case False
    then have "take ?m rest \<noteq> []" using m by simp
    moreover have "read_pages n c status subject (Some (case_id (last (take ?m rest)))) limit s = take (n * ?m) (drop ?m rest)"
      using Suc.IH [of "done' @ take ?m rest" "drop ?m rest" "Some (case_id (last (take ?m rest)))"] Suc.prems(1) calculation by simp
    ultimately show ?thesis by (simp add: page Let_def take_add)
  qed
qed

text \<open>
  The pages of the case list fit together. Reading page after page, each below the last case of the page
  before, shows every case of the chat that matches the filter exactly once, newest first, whatever size the
  caller asks for; as many pages as there are cases are enough.
\<close>

theorem case_pages_cover_the_list:
  assumes "case_reach s" and "length (cases s) \<le> n"
  shows "read_pages n c status subject None limit s =
      rev (sort_key case_id (filter (\<lambda>r. case_chat r = c \<and> (status = None \<or> Some (case_status r) = status) \<and>
        (subject = None \<or> case_subject r = subject)) (cases s)))"
proof -
  note ok = case_reach_ok [OF assms(1)]
  let ?L = "newest_first (listed c status subject) s"
  have len: "length ?L \<le> n" using assms(2) by (simp add: newest_first_def) (metis length_filter_le order_trans)
  have "read_pages n c status subject None limit s = take (n * nat (clamp 1 100 limit)) ?L"
    by (rule read_pages_take [OF ok, where done' = "[]"]) simp_all
  moreover have "1 \<le> nat (clamp 1 100 limit)" by (auto simp: clamp_def)
  then have "n \<le> n * nat (clamp 1 100 limit)" by simp
  with len have "length ?L \<le> n * nat (clamp 1 100 limit)" by (rule order_trans)
  ultimately have "read_pages n c status subject None limit s = ?L" by simp
  also have "\<dots> = rev (sort_key case_id (filter (listed c status subject) (cases s)))"
  proof -
    have "sorted_wrt (<) (map case_id (rev ?L))"
      using newest_first_sorted [OF ok, of c status subject] by (simp add: sorted_wrt_map rev_map [symmetric] sorted_wrt_rev)
    then have "sort_key case_id (rev ?L) = rev ?L" by (rule sort_key_strict)
    moreover have "mset (rev ?L) = mset (filter (listed c status subject) (cases s))" by (simp add: newest_first_def)
    moreover have "distinct (map case_id (sort_key case_id (filter (listed c status subject) (cases s))))"
      using \<open>sorted_wrt (<) (map case_id (rev ?L))\<close>
      by (simp add: distinct_map_sort_key strict_sorted_iff newest_first_def rev_map [symmetric])
    moreover have "inj_on case_id (set (rev ?L) \<union> set (sort_key case_id (filter (listed c status subject) (cases s))))"
      using \<open>sorted_wrt (<) (map case_id (rev ?L))\<close> by (simp add: strict_sorted_iff distinct_map newest_first_def)
    ultimately have "rev ?L = sort_key case_id (filter (listed c status subject) (cases s))"
      using \<open>sorted_wrt (<) (map case_id (rev ?L))\<close>
      by (intro map_sorted_distinct_set_unique [where f = case_id]) (simp_all add: strict_sorted_iff newest_first_def)
    then show ?thesis by (metis rev_rev_ident)
  qed
  finally show ?thesis by (simp add: listed_def [abs_def] some_matches_def eq_commute)
qed

lemma case_pages_cover_the_list_witness:
  "read_pages 1 1 None None None 25 sample_db1 = rev (sort_key case_id (cases sample_db1))"
proof -
  have "length (cases sample_db1) \<le> 1" by (simp add: sample_defs case_evals)
  from case_pages_cover_the_list [OF sample_cases_reach(2) this, of 1 None None 25] show ?thesis
    by (simp add: sample_defs case_evals)
qed


section \<open>Retention\<close>

lemma unique_key_eq: "unique_key key t \<Longrightarrow> r \<in> set t \<Longrightarrow> q \<in> set t \<Longrightarrow> key r = key q \<Longrightarrow> r = q"
  by (metis option.inject row_at_in)

lemma purge_outcome:
  assumes ok: "cases_ok s" and run: "purge_expired_moderation_cases now s = (t, n)"
  shows "set (cases t) \<subseteq> set (cases s)"
    and "events t = filter (\<lambda>e. event_of e \<in> case_key ` set (cases t)) (events s)"
    and "r \<in> set (cases s) \<Longrightarrow> case_cutoff now \<le> case_created r \<Longrightarrow> r \<in> set (cases t)"
    and "n \<noteq> purge_batch \<Longrightarrow> r \<in> set (cases t) \<Longrightarrow> case_cutoff now \<le> case_created r"
proof -
  let ?old = "\<lambda>r. case_created r < case_cutoff now"
  let ?page = "sql_page ?old (\<lambda>r. (case_created r, case_chat r, case_id r)) purge_batch (cases s)"
  have unique: "unique_key case_key (cases s)" using ok by (rule cases_ok_unique)
  have in_page: "case_key r \<in> set (expired_page now s) \<longleftrightarrow> r \<in> set ?page" if "r \<in> set (cases s)" for r
  proof
    assume "case_key r \<in> set (expired_page now s)"
    then obtain q where q: "q \<in> set ?page" "case_key q = case_key r" by (auto simp: expired_page_def)
    have "q \<in> set (cases s)" using sql_page_set [OF q(1)] by blast
    then have "q = r" using unique_key_eq [OF unique] that q(2) by blast
    then show "r \<in> set ?page" using q by simp
  qed (simp add: expired_page_def)
  have "cases t = filter (\<lambda>r. case_key r \<notin> set (expired_page now s)) (cases s)"
    and gone: "events t = filter (\<lambda>e. event_of e \<notin> case_key ` {r \<in> set (cases s). case_key r \<in> set (expired_page now s)}) (events s)"
    and n_eq: "n = length (filter (\<lambda>r. case_key r \<in> set (expired_page now s)) (cases s))"
    using run by (auto simp: purge_expired_moderation_cases_def delete_cases_def sql_delete_def Let_def)
  then have ct: "cases t = filter (\<lambda>r. r \<notin> set ?page) (cases s)"
    and n_page: "n = length (filter (\<lambda>r. r \<in> set ?page) (cases s))"
    by (simp_all add: in_page cong: filter_cong)
  have "{r \<in> set (cases s). case_key r \<in> set (expired_page now s)} = {r \<in> set (cases s). r \<in> set ?page}"
    using in_page by blast
  with gone have et: "events t = filter (\<lambda>e. event_of e \<notin> case_key ` {r \<in> set (cases s). r \<in> set ?page}) (events s)" by simp
  show "set (cases t) \<subseteq> set (cases s)" by (auto simp: ct)
  show "events t = filter (\<lambda>e. event_of e \<in> case_key ` set (cases t)) (events s)"
  proof -
    have "event_of e \<in> case_key ` set (cases t) \<longleftrightarrow> event_of e \<notin> case_key ` {r \<in> set (cases s). r \<in> set ?page}"
      if "e \<in> set (events s)" for e
    proof -
      have "event_of e \<in> case_key ` set (cases s)" using ok that by (simp add: cases_ok_def)
      then obtain r where r: "r \<in> set (cases s)" "event_of e = case_key r" by (meson imageE)
      have "q = r" if "q \<in> set (cases s)" "case_key q = event_of e" for q
        using unique_key_eq [OF unique] that r by auto
      then have "event_of e \<in> case_key ` {q \<in> set (cases s). P q} \<longleftrightarrow> P r" for P using r by (auto intro: rev_image_eqI)
      moreover have "set (cases t) = {q \<in> set (cases s). q \<notin> set ?page}" by (auto simp: ct)
      ultimately show ?thesis by simp
    qed
    then show ?thesis unfolding et by (intro filter_cong) auto
  qed
  show "r \<in> set (cases s) \<Longrightarrow> case_cutoff now \<le> case_created r \<Longrightarrow> r \<in> set (cases t)"
    by (auto simp: ct dest: sql_page_set)
  show "n \<noteq> purge_batch \<Longrightarrow> r \<in> set (cases t) \<Longrightarrow> case_cutoff now \<le> case_created r"
  proof (rule ccontr)
    assume n: "n \<noteq> purge_batch" and r: "r \<in> set (cases t)" "\<not> case_cutoff now \<le> case_created r"
    then have out: "r \<in> set (cases s)" "?old r" "r \<notin> set ?page" by (auto simp: ct)
    then have full: "length ?page = purge_batch" using sql_page_complete [OF out(1), where P = ?old] by blast
    have "distinct (map case_key (cases s))" using unique by (simp add: unique_key_def)
    then have once: "distinct (cases s)" "distinct ?page" by (auto simp: distinct_map sql_page_def)
    then have "n = card (set (filter (\<lambda>r. r \<in> set ?page) (cases s)))" using n_page by (simp only: distinct_card [OF distinct_filter [OF once(1)]])
    also have "set (filter (\<lambda>r. r \<in> set ?page) (cases s)) = set ?page" by (auto dest: sql_page_set)
    also have "card (set ?page) = length ?page" using once(2) by (rule distinct_card)
    finally show False using n full by simp
  qed
qed

text \<open>
  C31: the retention keeps its promise. One round of it ends after finitely many batches; then every case that was
  more than ninety days old at the earliest time of the round is gone, every case that is not so old at the latest
  time is still there as it was, and the events that are left are those of the cases that are left. No
  matter how many cases had expired, the round does not stop at the first batch.
\<close>

theorem retention_removes_expired:
  assumes "case_reach s" and "\<And>j. lo \<le> clock j" and "\<And>j. clock j \<le> hi"
  shows "(\<forall>r \<in> set (cases s). case_created r < case_cutoff lo \<longrightarrow> r \<notin> set (cases (retention_round clock i s))) \<and>
    (\<forall>r \<in> set (cases s). case_cutoff hi \<le> case_created r \<longrightarrow> r \<in> set (cases (retention_round clock i s))) \<and>
    set (cases (retention_round clock i s)) \<subseteq> set (cases s) \<and>
    events (retention_round clock i s) =
      filter (\<lambda>e. event_of e \<in> case_key ` set (cases (retention_round clock i s))) (events s)"
proof -
  have cut: "case_cutoff lo \<le> case_cutoff (clock j)" "case_cutoff (clock j) \<le> case_cutoff hi" for j
    using assms(2,3) by (simp_all add: case_cutoff_def sat_i64_mono)
  have "(\<forall>r \<in> set (cases (retention_round clock i s)). case_cutoff lo \<le> case_created r) \<and>
    (\<forall>r \<in> set (cases s). case_cutoff hi \<le> case_created r \<longrightarrow> r \<in> set (cases (retention_round clock i s))) \<and>
    set (cases (retention_round clock i s)) \<subseteq> set (cases s) \<and>
    events (retention_round clock i s) =
      filter (\<lambda>e. event_of e \<in> case_key ` set (cases (retention_round clock i s))) (events s)"
    if "cases_ok s" for s i
    using that
  proof (induction "length (cases s)" arbitrary: s i rule: less_induct)
    case less
    obtain t n where p: "purge_expired_moderation_cases (clock i) s = (t, n)" by (cases "purge_expired_moderation_cases (clock i) s")
    note out = purge_outcome [OF less.prems p]
    have keep: "\<forall>r \<in> set (cases s). case_cutoff hi \<le> case_created r \<longrightarrow> r \<in> set (cases t)"
      using out(3) cut(2) [of i] by (meson order_trans)
    show ?case
    proof (cases "n = purge_batch")
      case True
      have round: "retention_round clock i s = retention_round clock (Suc i) t"
        by (subst retention_round.simps) (simp add: p True)
      have "length (cases t) < length (cases s)"
        using purge_shrinks [of "clock i" s] p True by (simp add: purge_batch_def)
      moreover have "cases_ok t" using purge_advance [OF less.prems, of "clock i"] p by (simp add: case_advance_ok)
      ultimately have IH: "(\<forall>r \<in> set (cases (retention_round clock (Suc i) t)). case_cutoff lo \<le> case_created r) \<and>
        (\<forall>r \<in> set (cases t). case_cutoff hi \<le> case_created r \<longrightarrow> r \<in> set (cases (retention_round clock (Suc i) t))) \<and>
        set (cases (retention_round clock (Suc i) t)) \<subseteq> set (cases t) \<and>
        events (retention_round clock (Suc i) t) =
          filter (\<lambda>e. event_of e \<in> case_key ` set (cases (retention_round clock (Suc i) t))) (events t)"
        by (rule less.hyps)
      have "filter (\<lambda>e. event_of e \<in> case_key ` set (cases (retention_round clock (Suc i) t))) (events t) =
          filter (\<lambda>e. event_of e \<in> case_key ` set (cases (retention_round clock (Suc i) t))) (events s)"
        unfolding out(2) filter_filter using IH by (intro filter_cong) auto
      then show ?thesis unfolding round using IH keep out(1) by auto
    next
      case False
      then have round: "retention_round clock i s = t" by (subst retention_round.simps) (simp add: p)
      show ?thesis unfolding round using out(1,2) out(4) [OF False] keep cut(1) [of i] by (meson order_trans)
    qed
  qed
  from this [OF case_reach_ok [OF assms(1)], of i] show ?thesis by fastforce
qed

lemma retention_removes_expired_witness:
  "cases (retention_round (\<lambda>_. 8000000) 0 sample_db1) = []"
proof -
  have "\<forall>r \<in> set (cases sample_db1). case_created r < case_cutoff 8000000"
    by (simp add: sample_defs case_evals case_cutoff_def case_retention_secs_def sat_i64_def clamp_def int_bounds)
  with retention_removes_expired [OF sample_cases_reach(2), where clock = "\<lambda>_. 8000000" and i = 0, OF order_refl order_refl]
  have "r \<notin> set (cases (retention_round (\<lambda>_. 8000000) 0 sample_db1))" for r by (meson subsetD)
  then show ?thesis by (metis ex_in_conv set_empty)
qed

end
