(* ===== verification/Commands.thy ===== *)
theory Commands
  imports ResponseKinds
begin

text \<open>
  How a message is recognised as a command, \<open>src/src/handlers/commands.rs\<close>, and \<open>digits\<close> of
  \<open>src/src/handlers/mod.rs\<close>: spaces of all kinds count as one, marks that only steer the display are
  skipped, the letters and digits of the Arabic and the Persian keyboard are the same. A position in
  a text, in bytes at a boundary of characters in the source, is the number of characters before it.
\<close>

section \<open>Characters\<close>

text \<open>\<open>char::is_whitespace\<close>: the White_Space property.\<close>

definition is_whitespace :: "nat \<Rightarrow> bool" where
  "is_whitespace c \<longleftrightarrow> 9 \<le> c \<and> c \<le> 13 \<or> c \<in> {0x20, 0x85, 0xa0, 0x1680} \<or> 0x2000 \<le> c \<and> c \<le> 0x200a \<or>
     c \<in> {0x2028, 0x2029, 0x202f, 0x205f, 0x3000}"

definition separator :: "nat \<Rightarrow> bool" where
  "separator c \<longleftrightarrow> is_whitespace c \<or> c \<in> {0x200b, 0x200c}"

definition ignored :: "nat \<Rightarrow> bool" where
  "ignored c \<longleftrightarrow> c \<in> {0x640, 0x670, 0x61c, 0x200e, 0x200f, 0xfeff} \<or> 0x64b \<le> c \<and> c \<le> 0x65f \<or>
     0x202a \<le> c \<and> c \<le> 0x202e \<or> 0x2066 \<le> c \<and> c \<le> 0x2069"

text \<open>The Persian and the Arabic digits, and the letters that have two codes.\<close>

definition keyboard :: "nat \<Rightarrow> nat" where
  "keyboard c =
     (if 0x6f0 \<le> c \<and> c \<le> 0x6f9 then 48 + (c - 0x6f0)
      else if 0x660 \<le> c \<and> c \<le> 0x669 then 48 + (c - 0x660)
      else if c = 0x64a \<or> c = 0x649 then 0x6cc
      else if c = 0x643 then 0x6a9
      else c)"

definition fold_char :: "nat \<Rightarrow> nat" where
  "fold_char c = (let k = keyboard c in if k = c \<and> 65 \<le> c \<and> c \<le> 90 then c + 32 else k)"

definition local_digits :: "utext \<Rightarrow> utext" where
  "local_digits t = (if \<not> list_ex (\<lambda>c. keyboard c \<noteq> c) t then t else map keyboard t)"

section \<open>Texts\<close>

definition trim_matches :: "(nat \<Rightarrow> bool) \<Rightarrow> utext \<Rightarrow> utext" where
  "trim_matches p t = rev (dropWhile p (rev (dropWhile p t)))"

definition trim_end :: "utext \<Rightarrow> utext" where
  "trim_end t = rev (dropWhile is_whitespace (rev t))"

text \<open>The closure of \<open>characters\<close> with its two flags; each character comes with the position after it.\<close>

fun characters_from :: "bool \<Rightarrow> bool \<Rightarrow> nat \<Rightarrow> utext \<Rightarrow> (nat \<times> nat) list" where
  "characters_from started spaced pos [] = []"
| "characters_from started spaced pos (c # t) =
     (if ignored c then characters_from started spaced (Suc pos) t
      else if separator c then
        (if \<not> started \<or> spaced then characters_from started spaced (Suc pos) t
         else (32, Suc pos) # characters_from started True (Suc pos) t)
      else (fold_char c, Suc pos) # characters_from True False (Suc pos) t)"

definition characters :: "utext \<Rightarrow> (nat \<times> nat) list" where
  "characters t = characters_from False False 0 t"

definition normalize_text :: "utext \<Rightarrow> utext" where
  "normalize_text text =
     (let t = trim_matches separator text; cs = map fst (characters t)
      in if cs = t then t else trim_end cs)"

text \<open>The loop of \<open>strip_prefix\<close>: the position after the command.\<close>

fun match_prefix :: "(nat \<times> nat) list \<Rightarrow> utext \<Rightarrow> nat \<Rightarrow> nat option" where
  "match_prefix input [] stop = Some stop"
| "match_prefix [] (x # xs) stop = None"
| "match_prefix ((a, e) # input) (x # xs) stop = (if x \<noteq> a then None else match_prefix input xs e)"

definition strip_prefix :: "utext \<Rightarrow> utext \<Rightarrow> utext option" where
  "strip_prefix text command =
     (let expected = map fst (characters (trim_matches separator command))
      in case match_prefix (characters text) expected 0 of
           None \<Rightarrow> None
         | Some e \<Rightarrow>
             if expected = [] then None
             else
               (let rest = dropWhile ignored (drop e text)
                in if rest = [] then Some []
                   else if separator (hd rest) then Some (trim_end (dropWhile separator rest))
                   else None))"

definition matches :: "utext \<Rightarrow> utext \<Rightarrow> bool" where
  "matches text command = is_some_and (list_all (\<lambda>c. separator c \<or> ignored c)) (strip_prefix text command)"

definition commands_contain :: "utext list \<Rightarrow> utext \<Rightarrow> bool" where
  "commands_contain commands text = list_ex (\<lambda>command. matches text command) commands"

definition custom_shortcut_first :: "utext \<Rightarrow> bool" where
  "custom_shortcut_first text =
     (let head = takeWhile (\<lambda>c. \<not> separator c) (dropWhile separator text)
      in head \<noteq> [] \<and> hd head = 47 \<and> \<not> commands_contain [ascii ''/start'', ascii ''/ephemeral''] head)"

section \<open>The folded text\<close>

fun folded :: "bool \<Rightarrow> bool \<Rightarrow> utext \<Rightarrow> utext" where
  "folded started spaced [] = []"
| "folded started spaced (c # t) =
     (if ignored c then folded started spaced t
      else if separator c then
        (if \<not> started \<or> spaced then folded started spaced t else 32 # folded started True t)
      else fold_char c # folded True False t)"

lemma characters_folded: "map fst (characters_from started spaced pos t) = folded started spaced t"
  by (induction t arbitrary: started spaced pos) simp_all

abbreviation blank :: "nat \<Rightarrow> bool" where
  "blank c \<equiv> separator c \<or> ignored c"

lemma keyboard_cases:
  "keyboard c = c \<or> 48 \<le> keyboard c \<and> keyboard c \<le> 57 \<or> keyboard c = 0x6cc \<or> keyboard c = 0x6a9"
  unfolding keyboard_def by auto

lemma fold_char_cases:
  "fold_char c = c \<or> 48 \<le> fold_char c \<and> fold_char c \<le> 57 \<or> 97 \<le> fold_char c \<and> fold_char c \<le> 122 \<or>
   fold_char c = 0x6cc \<or> fold_char c = 0x6a9"
  using keyboard_cases [of c] by (auto simp: fold_char_def Let_def)

lemma fold_char_solid: "\<not> separator c \<Longrightarrow> \<not> is_whitespace (fold_char c)"
  using fold_char_cases [of c]
  by (elim disjE) (auto simp: separator_def, auto simp: is_whitespace_def)

lemma fold_char_not_32: "\<not> separator c \<Longrightarrow> fold_char c \<noteq> 32"
  using fold_char_solid [of c] by (auto simp: is_whitespace_def)

lemma whitespace_separator: "is_whitespace c \<Longrightarrow> separator c"
  by (simp add: separator_def)

lemma whitespace_32 [simp]: "is_whitespace 32"
  by (simp add: is_whitespace_def)

text \<open>Blanks at the end add at most a space.\<close>

lemma folded_blank_quiet: "list_all blank r \<Longrightarrow> \<not> started \<or> spaced \<Longrightarrow> folded started spaced r = []"
  by (induction r arbitrary: started spaced) auto

lemma folded_blank: "list_all blank r \<Longrightarrow> folded started spaced r \<in> {[], [32]}"
  by (induction r arbitrary: started spaced) (auto simp: folded_blank_quiet)

lemma folded_blank_iff:
  "folded True False r \<in> {[], [32]} \<longleftrightarrow> list_all blank r"
proof -
  have "folded True spaced r \<in> {[], [32]} \<Longrightarrow> list_all blank r" for spaced
  proof (induction r arbitrary: spaced)
    case Nil
    then show ?case by simp
  next
    case (Cons c r)
    then show ?case using fold_char_not_32 [of c] by (auto split: if_splits)
  qed
  then show ?thesis using folded_blank by blast
qed

lemma folded_append:
  "\<exists>st sp. folded started spaced (t @ r) = folded started spaced t @ folded st sp r"
  by (induction t arbitrary: started spaced) auto

lemma folded_append_solid:
  "p \<noteq> [] \<Longrightarrow> \<not> blank (last p) \<Longrightarrow>
   characters_from started spaced pos (p @ r) =
     characters_from started spaced pos p @ characters_from True False (pos + length p) r \<and>
   characters_from started spaced pos p \<noteq> [] \<and> snd (last (characters_from started spaced pos p)) = pos + length p"
proof (induction p arbitrary: started spaced pos)
  case Nil
  then show ?case by simp
next
  case (Cons c p)
  show ?case
  proof (cases "p = []")
    case True
    then show ?thesis using Cons.prems by simp
  next
    case False
    then show ?thesis using Cons.IH Cons.prems by auto
  qed
qed

lemma trim_end_append: "list_all is_whitespace s \<Longrightarrow> trim_end (t @ s) = trim_end t"
  by (induction s arbitrary: t rule: rev_induct) (simp_all add: trim_end_def)

lemma trim_end_solid: "t = [] \<or> \<not> is_whitespace (last t) \<Longrightarrow> trim_end t = t"
  by (cases t rule: rev_cases) (simp_all add: trim_end_def)

lemma trim_end_split: "\<exists>s. t = trim_end t @ s \<and> list_all is_whitespace s"
proof -
  have "t = rev (takeWhile is_whitespace (rev t) @ dropWhile is_whitespace (rev t))" by simp
  then have "t = trim_end t @ rev (takeWhile is_whitespace (rev t))" unfolding rev_append trim_end_def .
  moreover have "list_all is_whitespace (rev (takeWhile is_whitespace (rev t)))"
    by (auto simp: list_all_iff dest: set_takeWhileD)
  ultimately show ?thesis by blast
qed


section \<open>Normal forms\<close>

lemma trim_matches_split:
  "\<exists>a b. t = a @ trim_matches p t @ b \<and> list_all p a \<and> list_all p b"
proof -
  let ?u = "dropWhile p t"
  have "?u = rev (takeWhile p (rev ?u) @ dropWhile p (rev ?u))" by simp
  then have "?u = trim_matches p t @ rev (takeWhile p (rev ?u))" unfolding rev_append trim_matches_def .
  then have "t = takeWhile p t @ trim_matches p t @ rev (takeWhile p (rev ?u))" by (metis takeWhile_dropWhile_id)
  moreover have "list_all p (takeWhile p t)" "list_all p (rev (takeWhile p (rev ?u)))"
    by (auto simp: list_all_iff dest: set_takeWhileD)
  ultimately show ?thesis by blast
qed

lemma last_trim_matches: "trim_matches p t \<noteq> [] \<Longrightarrow> \<not> p (last (trim_matches p t))"
  by (simp add: trim_matches_def last_rev hd_dropWhile)

lemma folded_leading: "list_all separator a \<Longrightarrow> folded False spaced (a @ t) = folded False spaced t"
  by (induction a) auto

lemma trim_end_folded_trailing:
  assumes "list_all blank b"
  shows "trim_end (folded False False (t @ b)) = trim_end (folded False False t)"
proof -
  obtain st sp where "folded False False (t @ b) = folded False False t @ folded st sp b"
    using folded_append by blast
  then show ?thesis using folded_blank [OF assms, of st sp] by (auto simp: trim_end_append)
qed

lemma normalize_folded: "normalize_text text = trim_end (folded False False text)"
proof -
  let ?t = "trim_matches separator text"
  obtain a b where ab: "text = a @ ?t @ b" "list_all separator a" "list_all separator b"
    using trim_matches_split by blast
  have "trim_end (folded False False text) = trim_end (folded False False ?t)"
    using ab(2,3) by (subst ab(1)) (simp add: folded_leading trim_end_folded_trailing list_all_iff)
  moreover have "trim_end ?t = ?t"
    using last_trim_matches [of separator "text"] whitespace_separator by (blast intro: trim_end_solid)
  ultimately show ?thesis by (simp add: normalize_text_def Let_def characters_def characters_folded)
qed

text \<open>Commands whose last sign is a letter or a digit, as all of the program's are.\<close>

definition clean_command :: "utext \<Rightarrow> bool" where
  "clean_command command \<longleftrightarrow> (let c = trim_matches separator command in c \<noteq> [] \<and> \<not> ignored (last c))"

lemma folded_last:
  assumes "p \<noteq> []" and "\<not> blank (last p)"
  shows "folded st sp p \<noteq> [] \<and> last (folded st sp p) = fold_char (last p)"
  using assms
proof (induction p arbitrary: st sp)
  case Nil
  then show ?case by simp
next
  case (Cons c p)
  then show ?case by (cases "p = []") auto
qed

lemma clean_command_folded:
  assumes "clean_command command"
  shows "folded False False (trim_matches separator command) = normalize_text command"
    and "normalize_text command \<noteq> []" and "last (normalize_text command) \<noteq> 32"
proof -
  let ?c = "trim_matches separator command"
  have c: "?c \<noteq> []" "\<not> blank (last ?c)"
    using assms last_trim_matches [of separator command] by (auto simp: clean_command_def Let_def)
  note l = folded_last [OF c, of False False]
  have "trim_end (folded False False ?c) = folded False False ?c"
    using l fold_char_solid c(2) by (auto intro!: trim_end_solid)
  then show eq: "folded False False ?c = normalize_text command"
    by (simp add: normalize_text_def Let_def characters_def characters_folded)
  show "normalize_text command \<noteq> []" "last (normalize_text command) \<noteq> 32"
    using l fold_char_not_32 [of "last ?c"] c(2) by (simp_all add: eq [symmetric])
qed

lemma match_prefix_append:
  "match_prefix (a @ b) (map fst a) e = Some (if a = [] then e else snd (last a))"
  by (induction a arbitrary: e) auto

lemma match_prefix_found:
  assumes "match_prefix (characters_from st sp pos text) xs e0 = Some e" and "xs \<noteq> []" and "last xs \<noteq> 32"
  shows "\<exists>p r. text = p @ r \<and> e = pos + length p \<and> p \<noteq> [] \<and> \<not> blank (last p) \<and> folded st sp p = xs"
  using assms
proof (induction "text" arbitrary: st sp pos xs e0)
  case Nil
  then show ?case by (cases xs) simp_all
next
  case (Cons c t)
  have longer: "\<exists>p r. c # t = p @ r \<and> e = pos + length p \<and> p \<noteq> [] \<and> \<not> blank (last p) \<and> folded st sp p = xs"
    if "t = p @ r" "e = Suc pos + length p" "p \<noteq> []" "\<not> blank (last p)" "folded st sp (c # p) = xs" for p r
    using that by (intro exI [of _ "c # p"] exI [of _ r]) simp
  obtain x xs' where xs: "xs = x # xs'" using Cons.prems(2) by (cases xs) auto
  show ?case
  proof (cases "ignored c \<or> separator c \<and> (\<not> st \<or> sp)")
    case True
    then have "match_prefix (characters_from st sp (Suc pos) t) xs e0 = Some e" using Cons.prems(1) by (auto split: if_splits)
    from Cons.IH [OF this Cons.prems(2,3)] obtain p r
      where "t = p @ r" "e = Suc pos + length p" "p \<noteq> []" "\<not> blank (last p)" "folded st sp p = xs" by blast
    then show ?thesis using True by (intro longer [of p r]) auto
  next
    case no: False
    show ?thesis
    proof (cases "separator c")
      case True
      then have m: "x = 32" "match_prefix (characters_from st True (Suc pos) t) xs' (Suc pos) = Some e"
        using Cons.prems(1) no by (auto simp: xs split: if_splits)
      then have "xs' \<noteq> []" "last xs' \<noteq> 32" using Cons.prems(3) by (auto simp: xs split: if_splits)
      from Cons.IH [OF m(2) this] obtain p r
        where "t = p @ r" "e = Suc pos + length p" "p \<noteq> []" "\<not> blank (last p)" "folded st True p = xs'" by blast
      then show ?thesis using True no m(1) by (intro longer [of p r]) (auto simp: xs)
    next
      case False
      then have m: "x = fold_char c" "match_prefix (characters_from True False (Suc pos) t) xs' (Suc pos) = Some e"
        using Cons.prems(1) no by (auto simp: xs split: if_splits)
      show ?thesis
      proof (cases "xs' = []")
        case True
        then show ?thesis using m False no by (intro exI [of _ "[c]"] exI [of _ t]) (auto simp: xs)
      next
        case rest: False
        then have "last xs' \<noteq> 32" using Cons.prems(3) by (simp add: xs)
        from Cons.IH [OF m(2) rest this] obtain p r
          where "t = p @ r" "e = Suc pos + length p" "p \<noteq> []" "\<not> blank (last p)" "folded True False p = xs'" by blast
        then show ?thesis using False no m(1) by (intro longer [of p r]) (auto simp: xs)
      qed
    qed
  qed
qed

text \<open>What \<open>strip_prefix\<close> finds: a part of the text that folds to the command, and the rest of it.\<close>

definition command_rest :: "utext \<Rightarrow> utext option" where
  "command_rest r =
     (let rest = dropWhile ignored r
      in if rest = [] then Some []
         else if separator (hd rest) then Some (trim_end (dropWhile separator rest)) else None)"

lemma strip_prefix_split:
  assumes "clean_command command"
  shows "strip_prefix text command = Some tail \<longleftrightarrow>
    (\<exists>p r. text = p @ r \<and> p \<noteq> [] \<and> \<not> blank (last p) \<and> folded False False p = normalize_text command \<and> command_rest r = Some tail)"
proof -
  note xs = clean_command_folded [OF assms]
  have strip: "strip_prefix text command =
      (case match_prefix (characters_from False False 0 text) (normalize_text command) 0 of
         None \<Rightarrow> None | Some e \<Rightarrow> command_rest (drop e text))"
    using xs by (simp add: strip_prefix_def command_rest_def characters_def characters_folded Let_def cong: option.case_cong)
  show ?thesis
  proof
    assume "strip_prefix text command = Some tail"
    then obtain e where e: "match_prefix (characters_from False False 0 text) (normalize_text command) 0 = Some e"
      "command_rest (drop e text) = Some tail" by (auto simp: strip split: option.splits)
    from match_prefix_found [OF e(1) xs(2,3)] obtain p r
      where "text = p @ r" "e = length p" "p \<noteq> []" "\<not> blank (last p)" "folded False False p = normalize_text command" by auto
    then show "\<exists>p r. text = p @ r \<and> p \<noteq> [] \<and> \<not> blank (last p) \<and> folded False False p = normalize_text command \<and>
        command_rest r = Some tail" using e(2) by (intro exI [of _ p] exI [of _ r]) simp
  next
    assume "\<exists>p r. text = p @ r \<and> p \<noteq> [] \<and> \<not> blank (last p) \<and> folded False False p = normalize_text command \<and>
        command_rest r = Some tail"
    then obtain p r where p: "text = p @ r" "p \<noteq> []" "\<not> blank (last p)" "folded False False p = normalize_text command"
      "command_rest r = Some tail" by blast
    note split = folded_append_solid [OF p(2,3), of False False 0 r]
    have "map fst (characters_from False False 0 p) = normalize_text command" using p(4) by (simp add: characters_folded)
    then have "match_prefix (characters_from False False 0 text) (normalize_text command) 0 = Some (length p)"
      using split match_prefix_append [of "characters_from False False 0 p" "characters_from True False (length p) r" 0]
      by (simp add: p(1))
    then show "strip_prefix text command = Some tail" unfolding strip using p(1,5) by simp
  qed
qed


lemma command_rest_blank:
  "is_some_and (list_all blank) (command_rest r) \<longleftrightarrow> list_all blank r"
proof -
  obtain a where a: "r = a @ dropWhile ignored r" "list_all ignored a"
    by (metis list_all_iff set_takeWhileD takeWhile_dropWhile_id)
  show ?thesis
  proof (cases "dropWhile ignored r = []")
    case True
    then show ?thesis using a by (auto simp: command_rest_def list_all_iff)
  next
    case False
    let ?d = "dropWhile ignored r"
    obtain b where b: "?d = b @ dropWhile separator ?d" "list_all separator b"
      by (metis list_all_iff set_takeWhileD takeWhile_dropWhile_id)
    obtain w where w: "dropWhile separator ?d = trim_end (dropWhile separator ?d) @ w" "list_all is_whitespace w"
      using trim_end_split by blast
    have "list_all blank r \<longleftrightarrow> list_all blank (b @ trim_end (dropWhile separator ?d) @ w)"
      using a b(1) w(1) by (metis (mono_tags, lifting) list_all_append list_all_iff)
    then have "list_all blank r \<longleftrightarrow> list_all blank (trim_end (dropWhile separator ?d))"
      using b(2) w(2) whitespace_separator by (auto simp: list_all_iff)
    moreover have "separator (hd ?d)" if "list_all blank r"
    proof -
      have "hd ?d \<in> set r" using False by (metis hd_in_set set_dropWhileD)
      then show ?thesis using that hd_dropWhile [OF False] by (auto simp: list_all_iff)
    qed
    ultimately show ?thesis using False by (auto simp: command_rest_def Let_def)
  qed
qed

text \<open>
  C32: a message is taken for a command exactly when both have the same normal form. Spaces of any
  kind and number, display marks, short vowels, the other keyboard's letters and digits and capital
  letters make no difference, and nothing else does: no longer word, no other word after it.
\<close>

theorem command_matches_iff_same_form:
  assumes "clean_command command"
  shows "matches typed command \<longleftrightarrow> normalize_text typed = normalize_text command"
proof -
  note xs = clean_command_folded [OF assms]
  have "matches typed command \<longleftrightarrow>
      (\<exists>p r. typed = p @ r \<and> p \<noteq> [] \<and> \<not> blank (last p) \<and> folded False False p = normalize_text command \<and> list_all blank r)"
    unfolding matches_def is_some_and_iff strip_prefix_split [OF assms]
    using command_rest_blank [unfolded is_some_and_iff] by blast
  also have "\<dots> \<longleftrightarrow> trim_end (folded False False typed) = normalize_text command"
  proof
    assume "\<exists>p r. typed = p @ r \<and> p \<noteq> [] \<and> \<not> blank (last p) \<and> folded False False p = normalize_text command \<and> list_all blank r"
    then obtain p r where p: "typed = p @ r" "p \<noteq> []" "\<not> blank (last p)" "folded False False p = normalize_text command" "list_all blank r"
      by blast
    have "trim_end (folded False False p) = folded False False p"
      using folded_last [OF p(2,3), of False False] fold_char_solid [of "last p"] p(3) by (auto intro!: trim_end_solid)
    then show "trim_end (folded False False typed) = normalize_text command"
      using trim_end_folded_trailing [OF p(5)] p(1,4) by simp
  next
    assume eq: "trim_end (folded False False typed) = normalize_text command"
    let ?r = "rev (takeWhile blank (rev typed))" and ?p = "rev (dropWhile blank (rev typed))"
    have split: "typed = ?p @ ?r" by (metis rev_append rev_rev_ident takeWhile_dropWhile_id)
    have r: "list_all blank ?r" by (auto simp: list_all_iff dest: set_takeWhileD)
    then have t: "trim_end (folded False False ?p) = normalize_text command"
      using eq trim_end_folded_trailing [of ?r ?p] split by simp
    have "trim_end (folded False False []) = []" by (simp add: trim_end_def)
    with t have p: "?p \<noteq> []" using xs(2) by metis
    have l: "\<not> blank (last ?p)" using p hd_dropWhile [of blank "rev typed"] by (simp add: last_rev)
    then have "folded False False ?p = normalize_text command"
      using t folded_last [OF p l, of False False] fold_char_solid [of "last ?p"] trim_end_solid by metis
    then show "\<exists>p r. typed = p @ r \<and> p \<noteq> [] \<and> \<not> blank (last p) \<and> folded False False p = normalize_text command \<and> list_all blank r"
      using split p l r by blast
  qed
  finally show ?thesis by (simp add: normalize_folded)
qed

lemma command_matches_iff_same_form_witness:
  "matches [32, 0x642, 0x640, 0x641, 0x644, 9, 0x200c, 0x639, 0x643, 0x633, 0x200e] [0x642, 0x641, 0x644, 32, 0x639, 0x6a9, 0x633]"
proof -
  have "clean_command [0x642, 0x641, 0x644, 32, 0x639, 0x6a9, 0x633]"
    by (simp add: clean_command_def trim_matches_def separator_def is_whitespace_def ignored_def)
  from command_matches_iff_same_form [OF this] show ?thesis
    by (simp add: normalize_folded trim_end_def separator_def is_whitespace_def ignored_def fold_char_def keyboard_def)
qed

text \<open>
  The argument of a command is what was typed. It is a contiguous part of the message, character for
  character, with only white space after it; what stands before it folds to the command, with nothing
  but blanks after the command. And every argument that neither starts with a separator nor ends with white
  space is handed over whole when it follows the command and a space.
\<close>

theorem command_argument_is_verbatim:
  assumes "clean_command command"
  shows "(strip_prefix typed command = Some tail \<longrightarrow>
      (\<exists>before after. typed = before @ tail @ after \<and> list_all is_whitespace after \<and> matches before command)) \<and>
    (given \<noteq> [] \<and> \<not> separator (hd given) \<and> \<not> is_whitespace (last given) \<longrightarrow>
      strip_prefix (trim_matches separator command @ 32 # given) command = Some given)"
proof (intro conjI impI)
  assume "strip_prefix typed command = Some tail"
  then obtain p r where p: "typed = p @ r" "p \<noteq> []" "\<not> blank (last p)" "folded False False p = normalize_text command"
    "command_rest r = Some tail" using strip_prefix_split [OF assms] by blast
  obtain a where a: "r = a @ dropWhile ignored r" "list_all ignored a"
    by (metis list_all_iff set_takeWhileD takeWhile_dropWhile_id)
  obtain b where b: "dropWhile ignored r = b @ dropWhile separator (dropWhile ignored r)" "list_all separator b"
    by (metis list_all_iff set_takeWhileD takeWhile_dropWhile_id)
  have known: "matches (p @ q) command" if "list_all blank q" for q
  proof -
    have "is_some_and (list_all blank) (command_rest q)" using command_rest_blank that by blast
    then obtain rest where "command_rest q = Some rest" "list_all blank rest" unfolding is_some_and_iff by blast
    then show ?thesis unfolding matches_def is_some_and_iff using strip_prefix_split [OF assms, of "p @ q"] p(2-4) by blast
  qed
  show "\<exists>before after. typed = before @ tail @ after \<and> list_all is_whitespace after \<and> matches before command"
  proof (cases "dropWhile ignored r = []")
    case True
    then have "tail = []" using p(5) by (simp add: command_rest_def)
    moreover have "list_all blank a" using a(2) by (auto simp: list_all_iff)
    ultimately show ?thesis using known [of a] a(1) True p(1) by (intro exI [of _ "p @ a"] exI [of _ "[]"]) simp
  next
    case False
    then have tail: "tail = trim_end (dropWhile separator (dropWhile ignored r))"
      using p(5) by (auto simp: command_rest_def Let_def split: if_splits)
    obtain w where "dropWhile separator (dropWhile ignored r) = tail @ w" "list_all is_whitespace w"
      using trim_end_split tail by metis
    moreover have "list_all blank (a @ b)" using a(2) b(2) by (auto simp: list_all_iff)
    ultimately show ?thesis using known [of "a @ b"] a(1) b(1) p(1) by (intro exI [of _ "p @ a @ b"] exI [of _ w]) simp
  qed
next
  assume given: "given \<noteq> [] \<and> \<not> separator (hd given) \<and> \<not> is_whitespace (last given)"
  let ?c = "trim_matches separator command"
  have c: "?c \<noteq> []" "\<not> blank (last ?c)"
    using assms last_trim_matches [of separator command] by (auto simp: clean_command_def Let_def)
  have "command_rest (32 # given) = Some given"
  proof -
    have "\<not> ignored 32" "separator 32" by (simp_all add: ignored_def separator_def)
    moreover have "dropWhile separator given = given" using given by (cases given) auto
    ultimately show ?thesis using given trim_end_solid [of given] by (simp add: command_rest_def)
  qed
  then show "strip_prefix (?c @ 32 # given) command = Some given"
    using strip_prefix_split [OF assms] c clean_command_folded(1) [OF assms] by blast
qed

lemma command_argument_is_verbatim_witness:
  "strip_prefix [0x62d, 0x630, 0x641, 32, 0x6f1, 0x6f2] [0x62d, 0x630, 0x641] = Some [0x6f1, 0x6f2]"
proof -
  have "clean_command [0x62d, 0x630, 0x641]"
    by (simp add: clean_command_def trim_matches_def separator_def is_whitespace_def ignored_def)
  from conjunct2 [OF command_argument_is_verbatim [OF this], of "[0x6f1, 0x6f2]"] show ?thesis
    by (simp add: trim_matches_def separator_def is_whitespace_def)
qed

end
