(* ===== verification/Limits.thy ===== *)
theory Limits
  imports SettingsFacts
begin

text \<open>
  What the owner of a group lets its administrators do, \<open>src/src/handlers/limits.rs\<close>: nine
  capabilities, each with a key that denies it, and a master switch. A panic of a typed getter is
  \<open>None\<close>.
\<close>

record cap =
  cap_name :: string
  cap_key :: utext

definition cap_of :: "string \<Rightarrow> cap" where
  "cap_of n = \<lparr>cap_name = n, cap_key = ascii (''lim_'' @ n)\<rparr>"

definition caps :: "cap list" where
  "caps = map cap_of [''ban'', ''mute'', ''warn'', ''set'', ''clean'', ''exempt'', ''pin'', ''vip'', ''case'']"

definition find_cap :: "utext \<Rightarrow> cap option" where
  "find_cap name = find (\<lambda>c. ascii (cap_name c) = name) caps"

definition limits_mode :: utext where
  "limits_mode = ascii ''lim''"

definition decides :: "bool \<Rightarrow> bool \<Rightarrow> bool \<Rightarrow> bool" where
  "decides is_owner master_on denied \<longleftrightarrow> is_owner \<or> \<not> (master_on \<and> denied)"

text \<open>\<open>owner\<close> of \<open>src/src/handlers/mod.rs\<close>.\<close>

definition owner :: "settings_store \<Rightarrow> chat_id \<Rightarrow> int option option" where
  "owner s c = setting_value_parsed parse_i64 (chat_settings_of s c) (ascii ''owner'')"

definition permits :: "settings_store \<Rightarrow> chat_id \<Rightarrow> user_id \<Rightarrow> cap \<Rightarrow> bool option" where
  "permits s c u cap =
     (case owner s c of
        None \<Rightarrow> None
      | Some o' \<Rightarrow>
          (let cs = chat_settings_of s c
           in Some (decides (o' = Some u) (setting_is_locked cs limits_mode) (setting_is_locked cs (cap_key cap)))))"

lemma owner_no_panic:
  assumes "settings_reach collate s" and "inj collate" and "gate_open s"
  shows "owner s c \<noteq> None"
proof -
  note ok = reach_checked [OF assms, of c]
  show ?thesis using setting_parsed_keys_ok(3) [OF ok] by (auto simp: owner_def chat_settings_of_def parsed_i64_keys_def list_all_iff)
qed

lemma permits_total:
  assumes "settings_reach collate s" and "inj collate" and "gate_open s"
  shows "\<exists>b. permits s c u cap = Some b"
  using owner_no_panic [OF assms, of c] by (auto simp: permits_def Let_def)

lemma permits_owner: "owner s c = Some (Some u) \<Longrightarrow> permits s c u cap = Some True"
  by (simp add: permits_def decides_def Let_def)

end
