(* ===== verification/CaseHandlers.thy ===== *)
theory CaseHandlers
  imports CaseFacts Commands Limits
begin

text \<open>
  What administrators and the bot itself do with cases, \<open>src/src/handlers/cases.rs\<close>: the drafts of the cases,
  closing and reversing a case, and the parts of a command. Reading a case and changing it are separate
  transactions: what happens to the database in between is \<open>meanwhile\<close>. Telegram and
  \<open>restrict::apply\<close> are parameters, \<open>digest\<close> stands for SHA-256 after the normalisation of the text.
  The texts of the answers are named by constructors.
\<close>

section \<open>Evidence\<close>

datatype document_kind = Animated | WithMime utext
datatype media = Photo | Sticker | Document document_kind | OtherMedia

record chat_message =
  msg_id :: int
  msg_chat :: "chat_id option"
  msg_text :: utext
  msg_media :: "media option"
  msg_sender :: "user_id option"
  msg_sender_name :: utext

record evidence =
  ev_message :: "int option"
  ev_media :: "utext option"
  ev_text :: "utext option"
  ev_hash :: "nat list option"

definition evidence_max :: nat where
  "evidence_max = 512"

definition trim :: "utext \<Rightarrow> utext" where
  "trim t = trim_matches is_whitespace t"

definition media_kind :: "media option \<Rightarrow> utext option" where
  "media_kind m =
     map_option ascii
       (case m of
          None \<Rightarrow> None
        | Some Photo \<Rightarrow> Some ''photo''
        | Some Sticker \<Rightarrow> Some ''sticker''
        | Some (Document Animated) \<Rightarrow> Some ''gif''
        | Some (Document (WithMime mime)) \<Rightarrow>
            if prefix (ascii ''video/'') mime then Some ''video''
            else if prefix (ascii ''audio/ogg'') mime then Some ''voice''
            else if prefix (ascii ''audio/'') mime then Some ''audio''
            else Some ''document''
        | Some OtherMedia \<Rightarrow> Some ''other'')"

definition evidence_of :: "(utext \<Rightarrow> nat list) \<Rightarrow> chat_message \<Rightarrow> evidence" where
  "evidence_of digest m =
     (let raw = trim (msg_text m)
      in \<lparr>ev_message = Some (msg_id m), ev_media = media_kind (msg_media m),
          ev_text = (if raw = [] then None else Some (take evidence_max raw)),
          ev_hash = (if raw = [] then None else Some (digest raw))\<rparr>)"

definition no_evidence :: evidence where
  "no_evidence = \<lparr>ev_message = None, ev_media = None, ev_text = None, ev_hash = None\<rparr>"

section \<open>Recording\<close>

datatype restriction_action = Mute | Unmute | Ban | Unban | Kick

fun action_key :: "restriction_action \<Rightarrow> string" where
  "action_key Mute = ''mute''"
| "action_key Ban = ''ban''"
| "action_key Kick = ''kick''"
| "action_key Unmute = ''unmute''"
| "action_key Unban = ''unban''"

record case_context =
  cc_source :: string
  cc_rule :: utext
  cc_reason :: utext
  cc_evidence :: "evidence option"

record restriction_record =
  rr_chat :: chat_id
  rr_target :: user_id
  rr_target_name :: utext
  rr_actor :: "(user_id \<times> utext) option"
  rr_action :: restriction_action
  rr_duration :: "nat option"
  rr_case :: case_context
  rr_result :: "utext + unit"

text \<open>Durations are whole seconds of type \<open>u64\<close>; a time that does not fit is the last one there is.\<close>

definition until_of :: "seconds \<Rightarrow> nat option \<Rightarrow> seconds option" where
  "until_of now d = map_option (\<lambda>n. sat_add now (if int n \<le> i64_max then int n else i64_max)) d"

definition restriction_draft :: "seconds \<Rightarrow> restriction_record \<Rightarrow> new_moderation_case" where
  "restriction_draft now r =
     (let e = (case cc_evidence (rr_case r) of None \<Rightarrow> no_evidence | Some e \<Rightarrow> e);
          success = (case rr_result r of Inr _ \<Rightarrow> True | Inl _ \<Rightarrow> False)
      in \<lparr>new_chat = rr_chat r, new_subject = Some (rr_target r), new_subject_name = rr_target_name r,
          new_source = cc_source (rr_case r), new_rule = cc_rule (rr_case r), new_reason = cc_reason (rr_case r),
          new_message = ev_message e, new_media = ev_media e, new_evidence = ev_text e, new_hash = ev_hash e,
          new_action = action_key (rr_action r), new_until = until_of now (rr_duration r),
          new_status = (if success then ''resolved'' else ''open''),
          new_actor = map_option fst (rr_actor r), new_actor_name = actor_text (rr_actor r),
          new_event_kind = (if success then ''action_succeeded'' else ''action_failed''),
          new_event_note = (case rr_result r of Inl e \<Rightarrow> Some e | Inr _ \<Rightarrow> None)\<rparr>)"

definition file_case :: "seconds \<Rightarrow> new_moderation_case \<Rightarrow> case_db \<Rightarrow> case_db \<times> int option" where
  "file_case now d s =
     (case create_moderation_case now d s of (t, Inl e) \<Rightarrow> (t, None) | (t, Inr i) \<Rightarrow> (t, Some i))"

definition record_restriction :: "seconds \<Rightarrow> restriction_record \<Rightarrow> case_db \<Rightarrow> case_db \<times> int option" where
  "record_restriction now r = file_case now (restriction_draft now r)"

definition record_workflow_restriction ::
  "seconds \<Rightarrow> utext \<Rightarrow> restriction_record \<Rightarrow> case_db \<Rightarrow> case_db \<times> (case_error + int)" where
  "record_workflow_restriction now key r s =
     (case create_workflow_moderation_case now key (restriction_draft now r) s of
        (t, Inl e) \<Rightarrow> (t, Inl e) | (t, Inr (i, inserted)) \<Rightarrow> (t, Inr i))"

definition also_deleted :: "seconds \<Rightarrow> chat_id \<Rightarrow> string \<Rightarrow> case_db \<times> int option \<Rightarrow> case_db \<times> int option" where
  "also_deleted now c action filed =
     (case filed of
        (t, None) \<Rightarrow> (t, None)
      | (t, Some i) \<Rightarrow>
          (if action \<noteq> ''delete''
           then fst (append_moderation_case_event now c i ''action_succeeded'' None (Some ''delete'') None t) else t,
           Some i))"

definition record_delete ::
  "(utext \<Rightarrow> nat list) \<Rightarrow> seconds \<Rightarrow> chat_message \<Rightarrow> utext \<Rightarrow> utext \<Rightarrow> string \<Rightarrow> case_db \<Rightarrow> case_db \<times> int option" where
  "record_delete digest now m rule reason action s =
     (case msg_chat m of
        None \<Rightarrow> (s, None)
      | Some c \<Rightarrow>
          (let shown = evidence_of digest m
           in also_deleted now c action (file_case now
                \<lparr>new_chat = c, new_subject = msg_sender m, new_subject_name = msg_sender_name m, new_source = ''automatic'',
                 new_rule = rule, new_reason = reason, new_message = ev_message shown, new_media = ev_media shown,
                 new_evidence = ev_text shown, new_hash = ev_hash shown, new_action = action, new_until = None,
                 new_status = ''resolved'', new_actor = None, new_actor_name = [], new_event_kind = ''action_succeeded'',
                 new_event_note = None\<rparr> s)))"

record detached_record =
  dr_chat :: chat_id
  dr_subject :: "user_id option"
  dr_subject_name :: utext
  dr_message :: int
  dr_rule :: utext
  dr_reason :: utext
  dr_action :: string

definition record_detached :: "seconds \<Rightarrow> detached_record \<Rightarrow> case_db \<Rightarrow> case_db \<times> int option" where
  "record_detached now r s =
     also_deleted now (dr_chat r) (dr_action r) (file_case now
       \<lparr>new_chat = dr_chat r, new_subject = dr_subject r, new_subject_name = dr_subject_name r, new_source = ''automatic'',
        new_rule = dr_rule r, new_reason = dr_reason r, new_message = Some (dr_message r), new_media = Some (ascii ''media''),
        new_evidence = None, new_hash = None, new_action = dr_action r, new_until = None, new_status = ''resolved'',
        new_actor = None, new_actor_name = [], new_event_kind = ''action_succeeded'', new_event_note = None\<rparr> s)"

fun decimal :: "nat \<Rightarrow> utext" where
  "decimal n = (if n < 10 then [48 + n] else decimal (n div 10) @ [48 + n mod 10])"

declare decimal.simps [simp del]

definition admin_warning :: utext where
  "admin_warning = [1575, 1582, 1591, 1575, 1585, 32, 1575, 1583, 1605, 1740, 1606]"

definition warning_number :: "nat \<Rightarrow> utext" where
  "warning_number n = [1575, 1582, 1591, 1575, 1585, 32, 1588, 1605, 1575, 1585, 1607, 32] @ decimal n"

definition member_report :: utext where
  "member_report = [1711, 1586, 1575, 1585, 1588, 32, 1593, 1590, 1608]"

definition record_warning ::
  "(utext \<Rightarrow> nat list) \<Rightarrow> seconds \<Rightarrow> chat_message \<Rightarrow> chat_message option \<Rightarrow> user_id \<Rightarrow> utext \<Rightarrow> nat \<Rightarrow> case_db \<Rightarrow>
     case_db \<times> int option" where
  "record_warning digest now m reply target target_name n s =
     (case msg_chat m of
        None \<Rightarrow> (s, None)
      | Some c \<Rightarrow>
          (let e = (case reply of None \<Rightarrow> no_evidence | Some r \<Rightarrow> evidence_of digest r)
           in file_case now
                \<lparr>new_chat = c, new_subject = Some target, new_subject_name = target_name, new_source = ''moderator'',
                 new_rule = ascii ''manual_warn'', new_reason = admin_warning, new_message = ev_message e,
                 new_media = ev_media e, new_evidence = ev_text e, new_hash = ev_hash e, new_action = ''warn'', new_until = None,
                 new_status = ''resolved'', new_actor = msg_sender m,
                 new_actor_name = (if msg_sender m = None then [] else msg_sender_name m),
                 new_event_kind = ''action_succeeded'', new_event_note = Some (warning_number n)\<rparr> s))"

definition create_report ::
  "(utext \<Rightarrow> nat list) \<Rightarrow> seconds \<Rightarrow> chat_message \<Rightarrow> chat_message \<Rightarrow> case_db \<Rightarrow> case_db \<times> int option" where
  "create_report digest now command reported s =
     (case msg_chat command of
        None \<Rightarrow> (s, None)
      | Some c \<Rightarrow>
          (let e = evidence_of digest reported
           in file_case now
                \<lparr>new_chat = c, new_subject = msg_sender reported, new_subject_name = msg_sender_name reported,
                 new_source = ''report'', new_rule = ascii ''member_report'', new_reason = member_report,
                 new_message = ev_message e, new_media = ev_media e, new_evidence = ev_text e, new_hash = ev_hash e,
                 new_action = ''none'', new_until = None, new_status = ''open'', new_actor = msg_sender command,
                 new_actor_name = msg_sender_name command, new_event_kind = ''reported'', new_event_note = None\<rparr> s))"


section \<open>Closing and reversing\<close>

datatype case_reply =
  CaseReversed | CaseClosed | CaseAlreadyChanged | ChangeNotStored | CaseNotFound | CaseUnavailable
| AlreadyHandled | MessageUnavailable | MessageNotDeleted | AlreadyReversed | StillOpen | NoSubject | ActorUnknown
| Irreversible | UnknownAction | CapabilityClosed cap | NoWarningLeft | WarningNotReversed | ChatUnavailable | UserNotFound | Told utext
| NoteEmpty | NoteTooLong

datatype telegram_action = DeleteMessage chat_id int | Undo chat_id user_id restriction_action

text \<open>
  What a handler meets: the settings, the chats and users the session knows, whether the database
  answers when the case is read and when it is changed, what Telegram says, and what happens to the database
  between the two.
\<close>

record case_world =
  w_settings :: settings_store
  w_chat_ref :: "chat_id \<Rightarrow> bool"
  w_user_ref :: "user_id \<Rightarrow> bool"
  w_reads :: bool
  w_writes :: bool
  w_deletes :: "chat_id \<Rightarrow> int \<Rightarrow> bool"
  w_undo :: "chat_id \<Rightarrow> user_id \<Rightarrow> restriction_action \<Rightarrow> utext + unit"
  meanwhile :: "case_db \<Rightarrow> case_db"
  w_now :: seconds

type_synonym handled = "case_db \<times> telegram_action list \<times> case_reply"

definition note_max :: nat where
  "note_max = 500"

definition valid_note :: "utext option \<Rightarrow> case_reply + unit" where
  "valid_note note =
     (case note of
        None \<Rightarrow> Inr ()
      | Some n \<Rightarrow> if trim n = [] then Inl NoteEmpty else if note_max < length n then Inl NoteTooLong else Inr ())"

definition transition_case :: "case_world \<Rightarrow> case_transition \<Rightarrow> case_db \<Rightarrow> case_db \<times> case_reply" where
  "transition_case w x s =
     (if \<not> w_writes w then (s, ChangeNotStored)
      else (case transition_moderation_case (w_now w) x s of
              (t, Inr True) \<Rightarrow> (t, if tr_to x = ''reversed'' then CaseReversed else CaseClosed)
            | (t, Inr False) \<Rightarrow> (t, CaseAlreadyChanged)
            | (t, Inl e) \<Rightarrow> (t, ChangeNotStored)))"

definition resolve_case ::
  "case_world \<Rightarrow> chat_id \<Rightarrow> int \<Rightarrow> (user_id \<times> utext) option \<Rightarrow> utext option \<Rightarrow> case_db \<Rightarrow> handled" where
  "resolve_case w c i actor note s =
     (case valid_note note of
        Inl reply \<Rightarrow> (s, [], reply)
      | Inr _ \<Rightarrow>
          (let (t, reply) = transition_case w \<lparr>tr_chat = c, tr_case = i, tr_from = ''open'', tr_to = ''resolved'',
                 tr_event_kind = ''resolved'', tr_actor = actor, tr_action = Some ''none'', tr_note = note\<rparr> s
           in (t, [], reply)))"

definition rejected :: utext where
  "rejected = ascii ''Telegram action rejected''"

text \<open>A failure of Telegram is put on file as far as the database answers.\<close>

definition file_failure :: "case_world \<Rightarrow> chat_id \<Rightarrow> int \<Rightarrow> (user_id \<times> utext) option \<Rightarrow> string \<Rightarrow> case_db \<Rightarrow> case_db" where
  "file_failure w c i actor action s =
     (if w_writes w
      then fst (append_moderation_case_event (w_now w) c i ''action_failed'' actor (Some action) (Some rejected) s) else s)"

definition resolve_delete ::
  "case_world \<Rightarrow> chat_id \<Rightarrow> int \<Rightarrow> (user_id \<times> utext) option \<Rightarrow> case_db \<Rightarrow> handled" where
  "resolve_delete w c i actor s =
     (if \<not> w_reads w then (s, [], CaseUnavailable)
      else (case moderation_case c i s of
        None \<Rightarrow> (s, [], CaseNotFound)
      | Some (r, _) \<Rightarrow>
          if case_status r \<noteq> ''open'' then (s, [], AlreadyHandled)
          else (case (w_chat_ref w c, case_message r) of
                  (True, Some m) \<Rightarrow>
                    (let t = meanwhile w s
                     in if \<not> w_deletes w c m
                        then (file_failure w c i actor ''delete'' t, [DeleteMessage c m], MessageNotDeleted)
                        else
                          (let (u, reply) = transition_case w \<lparr>tr_chat = c, tr_case = i, tr_from = ''open'',
                                 tr_to = ''resolved'', tr_event_kind = ''resolved'', tr_actor = actor,
                                 tr_action = Some ''delete'', tr_note = None\<rparr> t
                           in (u, [DeleteMessage c m], reply)))
                | _ \<Rightarrow> (s, [], MessageUnavailable))))"

definition needed_cap :: "string \<Rightarrow> cap option" where
  "needed_cap action = (if action \<in> {''warn'', ''mute'', ''ban''} then Some (cap_of action) else None)"

definition reverse_warning :: "case_world \<Rightarrow> warning_reversal \<Rightarrow> case_db \<Rightarrow> case_db \<times> case_reply" where
  "reverse_warning w x s =
     (if \<not> w_writes w then (s, WarningNotReversed)
      else (case reverse_warning_case (w_now w) x s of
              (t, Reversed) \<Rightarrow> (t, CaseReversed)
            | (t, CaseChanged) \<Rightarrow> (t, CaseAlreadyChanged)
            | (t, NoWarning) \<Rightarrow> (t, NoWarningLeft)))"

definition undo_restriction ::
  "case_world \<Rightarrow> chat_id \<Rightarrow> int \<Rightarrow> (user_id \<times> utext) \<Rightarrow> utext option \<Rightarrow> user_id \<Rightarrow> restriction_action \<Rightarrow> case_db \<Rightarrow> handled" where
  "undo_restriction w c i actor note u a s =
     (if \<not> w_chat_ref w c then (s, [], ChatUnavailable)
      else if \<not> w_user_ref w u then (s, [], UserNotFound)
      else (case w_undo w c u a of
              Inl told \<Rightarrow> (file_failure w c i (Some actor) ''reverse'' s, [Undo c u a], Told told)
            | Inr _ \<Rightarrow>
                (let (t, reply) = transition_case w \<lparr>tr_chat = c, tr_case = i, tr_from = ''resolved'',
                       tr_to = ''reversed'', tr_event_kind = ''reversed'', tr_actor = Some actor,
                       tr_action = Some ''reverse'', tr_note = note\<rparr> s
                 in (t, [Undo c u a], reply))))"

text \<open>\<open>reverse\<close>; \<open>None\<close> is a panic of the settings.\<close>

definition reverse_case ::
  "case_world \<Rightarrow> chat_id \<Rightarrow> int \<Rightarrow> (user_id \<times> utext) option \<Rightarrow> utext option \<Rightarrow> case_db \<Rightarrow> handled option" where
  "reverse_case w c i actor note s =
     (case valid_note note of
        Inl reply \<Rightarrow> Some (s, [], reply)
      | Inr _ \<Rightarrow>
     (if \<not> w_reads w then Some (s, [], CaseUnavailable)
      else (case moderation_case c i s of
        None \<Rightarrow> Some (s, [], CaseNotFound)
      | Some (r, _) \<Rightarrow>
          if case_status r = ''reversed'' then Some (s, [], AlreadyReversed)
          else if case_status r \<noteq> ''resolved'' then Some (s, [], StillOpen)
          else (case (case_subject r, actor) of
                  (None, _) \<Rightarrow> Some (s, [], NoSubject)
                | (Some u, None) \<Rightarrow> Some (s, [], ActorUnknown)
                | (Some u, Some who) \<Rightarrow>
                    (case needed_cap (case_action r) of
                       None \<Rightarrow> Some (s, [], if case_action r \<in> {''delete'', ''kick'', ''none''} then Irreversible else UnknownAction)
                     | Some cap \<Rightarrow>
                         (case permits (w_settings w) c (fst who) cap of
                            None \<Rightarrow> None
                          | Some False \<Rightarrow> Some (s, [], CapabilityClosed cap)
                          | Some True \<Rightarrow>
                              if case_action r = ''warn'' then
                                (let (t, reply) = reverse_warning w \<lparr>rv_chat = c, rv_case = i, rv_user = u,
                                       rv_actor = fst who, rv_actor_name = snd who, rv_note = note\<rparr> (meanwhile w s)
                                 in Some (t, [], reply))
                              else
                                Some (undo_restriction w c i who note u
                                  (if case_action r = ''mute'' then Unmute else Unban) (meanwhile w s))))))))"

section \<open>Commands and buttons\<close>

definition id_and_note :: "utext \<Rightarrow> bool \<Rightarrow> (int \<times> utext option) option" where
  "id_and_note input slash =
     (let input = trim input;
          head = takeWhile (\<lambda>c. \<not> (is_whitespace c \<or> c = 58)) input;
          rest = trim (drop (length head) input)
      in case parse_i64 (local_digits head) of
           None \<Rightarrow> None
         | Some i \<Rightarrow>
             if rest = [] then Some (i, None)
             else
               (case (if hd rest = 58 then Some (trim (tl rest)) else if slash then Some rest else None) of
                  None \<Rightarrow> None
                | Some note \<Rightarrow> if note = [] then None else Some (i, Some note)))"

definition on_case_callback ::
  "case_world \<Rightarrow> utext \<Rightarrow> chat_id \<Rightarrow> (user_id \<times> utext) option \<Rightarrow> case_db \<Rightarrow> (case_db \<times> telegram_action list \<times> case_reply option) option" where
  "on_case_callback w payload c actor s =
     (case split_once 58 payload of
        None \<Rightarrow> Some (s, [], None)
      | Some (action, raw) \<Rightarrow>
          (case parse_i64 raw of
             None \<Rightarrow> Some (s, [], None)
           | Some i \<Rightarrow>
               (let answered = map_prod id (map_prod id Some)
                in if action = ascii ''d'' then
                     (case actor of
                        None \<Rightarrow> Some (answered (resolve_delete w c i actor s))
                      | Some who \<Rightarrow>
                          (case permits (w_settings w) c (fst who) (cap_of ''clean'') of
                             None \<Rightarrow> None
                           | Some False \<Rightarrow> Some (s, [], None)
                           | Some True \<Rightarrow> Some (answered (resolve_delete w c i actor s))))
                   else if action = ascii ''k'' then Some (answered (resolve_case w c i actor None s))
                   else if action = ascii ''u'' then map_option answered (reverse_case w c i actor None s)
                   else Some (s, [], None))))"

end
