(* ===== verification/CaseAnswers.thy ===== *)
theory CaseAnswers
  imports CaseHandlers
begin

text \<open>
  What an administrator who closes or reverses a case is told is what happened, whatever other
  administrators, the bot and Telegram do meanwhile; and what the bot did is what it files.
\<close>

section \<open>Transitions\<close>









section \<open>Answers\<close>




section \<open>Recording\<close>


section \<open>Examples\<close>








end
