(* ===== verification/InitData.thy ===== *)
theory InitData
  imports Commands SettingsCheck "HOL-Library.List_Lexorder"
begin

text \<open>
  How the Mini App knows who is calling, \<open>src/src/miniapp/auth.rs\<close>: the launch data that Telegram
  signed is decoded, its signature compared, its age checked and the user taken from it. Strings are
  lists of bytes here, as the signature is over bytes. The HMAC (\<open>mac\<close>, of a key and a message) and the reading of the
  user's id from JSON (\<open>json_id\<close>) are parameters. Slicing a string inside a character is a panic, the result
  \<open>None\<close>.
\<close>

section \<open>Bytes and characters\<close>

text \<open>The UTF-8 encoding of a character.\<close>

definition utf8_char :: "nat \<Rightarrow> nat list" where
  "utf8_char c =
     (if c < 0x80 then [c]
      else if c < 0x800 then [0xc0 + c div 64, 0x80 + c mod 64]
      else if c < 0x10000 then [0xe0 + c div 4096, 0x80 + c div 64 mod 64, 0x80 + c mod 64]
      else [0xf0 + c div 262144, 0x80 + c div 4096 mod 64, 0x80 + c div 64 mod 64, 0x80 + c mod 64])"

definition scalar :: "nat \<Rightarrow> bool" where
  "scalar c \<longleftrightarrow> c < 0xd800 \<or> 0xe000 \<le> c \<and> c < 0x110000"

definition utf8 :: "utext \<Rightarrow> nat list" where
  "utf8 t = concat (map utf8_char t)"

definition continuation :: "nat \<Rightarrow> bool" where
  "continuation b \<longleftrightarrow> 0x80 \<le> b \<and> b < 0xc0"

text \<open>
  \<open>String::from_utf8_lossy\<close>: how many bytes the next character takes, and whether they are one. The bytes of
  what is not a character are replaced by U+FFFD.
\<close>

definition byte_at :: "nat list \<Rightarrow> nat \<Rightarrow> nat" where
  "byte_at bs i = (if i < length bs then bs ! i else 0)"

definition second_ok :: "nat \<Rightarrow> nat \<Rightarrow> bool" where
  "second_ok a b \<longleftrightarrow>
     a = 0xe0 \<and> 0xa0 \<le> b \<and> b < 0xc0 \<or> 0xe1 \<le> a \<and> a \<le> 0xec \<and> continuation b \<or>
     a = 0xed \<and> 0x80 \<le> b \<and> b < 0xa0 \<or> 0xee \<le> a \<and> a \<le> 0xef \<and> continuation b \<or>
     a = 0xf0 \<and> 0x90 \<le> b \<and> b < 0xc0 \<or> 0xf1 \<le> a \<and> a \<le> 0xf3 \<and> continuation b \<or>
     a = 0xf4 \<and> 0x80 \<le> b \<and> b < 0x90"

definition lossy_step :: "nat list \<Rightarrow> bool \<times> nat" where
  "lossy_step bs =
     (let a = byte_at bs 0; b = byte_at bs 1; c = byte_at bs 2; d = byte_at bs 3
      in if a < 0x80 then (True, 1)
         else if 0xc2 \<le> a \<and> a < 0xe0 then (if continuation b then (True, 2) else (False, 1))
         else if 0xe0 \<le> a \<and> a < 0xf0 then
           (if \<not> second_ok a b then (False, 1) else if \<not> continuation c then (False, 2) else (True, 3))
         else if 0xf0 \<le> a \<and> a < 0xf5 then
           (if \<not> second_ok a b then (False, 1) else if \<not> continuation c then (False, 2)
            else if \<not> continuation d then (False, 3) else (True, 4))
         else (False, 1))"

lemma lossy_step_pos: "0 < snd (lossy_step bs)"
  by (simp add: lossy_step_def Let_def)

function utf8_lossy :: "nat list \<Rightarrow> nat list" where
  "utf8_lossy bs =
     (if bs = [] then []
      else (let (valid, n) = lossy_step bs
            in (if valid then take n bs else [0xef, 0xbf, 0xbd]) @ utf8_lossy (drop n bs)))"
  by pat_completeness auto
termination
  by (relation "measure length") (use lossy_step_pos in \<open>fastforce simp: prod_eq_iff\<close>)+

declare utf8_lossy.simps [simp del]

section \<open>Decoding\<close>

definition hex_digit :: "nat \<Rightarrow> nat option" where
  "hex_digit c =
     (if 48 \<le> c \<and> c \<le> 57 then Some (c - 48)
      else if 65 \<le> c \<and> c \<le> 70 then Some (c - 55)
      else if 97 \<le> c \<and> c \<le> 102 then Some (c - 87)
      else None)"

text \<open>\<open>u8::from_str_radix\<close> of a string of two bytes: a plus sign may come first.\<close>

definition hex_byte :: "nat \<Rightarrow> nat \<Rightarrow> nat option" where
  "hex_byte a b =
     (if a = 43 then hex_digit b
      else (case (hex_digit a, hex_digit b) of (Some x, Some y) \<Rightarrow> Some (16 * x + y) | _ \<Rightarrow> None))"

text \<open>A slice may end here.\<close>

definition boundary :: "nat list \<Rightarrow> bool" where
  "boundary rest \<longleftrightarrow> rest = [] \<or> \<not> continuation (hd rest)"

fun percent_decode :: "nat list \<Rightarrow> nat list option" where
  "percent_decode [] = Some []"
| "percent_decode (c # t) =
     (if c = 43 then map_option ((#) 32) (percent_decode t)
      else if c = 37 \<and> 2 \<le> length t then
        (if \<not> boundary t \<or> \<not> boundary (drop 2 t) then None
         else (case hex_byte (t ! 0) (t ! 1) of
                 Some b \<Rightarrow> map_option ((#) b) (percent_decode (drop 2 t))
               | None \<Rightarrow> map_option ((#) c) (percent_decode t)))
      else map_option ((#) c) (percent_decode t))"

definition urldecode :: "nat list \<Rightarrow> nat list option" where
  "urldecode input = map_option utf8_lossy (percent_decode input)"

fun decode_hex :: "nat list \<Rightarrow> nat list option" where
  "decode_hex [] = Some []"
| "decode_hex [a] = None"
| "decode_hex (a # b # t) =
     (case (hex_byte a b, decode_hex t) of (Some x, Some xs) \<Rightarrow> Some (x # xs) | _ \<Rightarrow> None)"

section \<open>Validation\<close>

datatype auth_error = BadFormat | BadHash | Stale | NoUser | Misconfigured | Clock

record init_data =
  id_user :: int
  id_start :: "nat list option"

definition max_age_secs :: int where
  "max_age_secs = 24 * 60 * 60"

definition max_future_skew_secs :: int where
  "max_future_skew_secs = 30"

definition web_app_data :: "nat list" where
  "web_app_data = ascii ''WebAppData''"

definition derive_secret_key :: "(nat list \<Rightarrow> nat list \<Rightarrow> nat list) \<Rightarrow> utext \<Rightarrow> auth_error + nat list" where
  "derive_secret_key mac token =
     (if trim_matches is_whitespace token = [] then Inl Misconfigured else Inr (mac web_app_data (utf8 token)))"

text \<open>\<open>str::split\<close> of one character.\<close>

fun split_on :: "nat \<Rightarrow> nat list \<Rightarrow> nat list list" where
  "split_on c [] = [[]]"
| "split_on c (x # t) =
     (if x = c then [] # split_on c t
      else (case split_on c t of [] \<Rightarrow> [[x]] | p # ps \<Rightarrow> (x # p) # ps))"

type_synonym fields = "(nat list \<times> nat list) list"

definition hash_key :: "nat list" where
  "hash_key = ascii ''hash''"

fun collect_fields :: "nat list list \<Rightarrow> nat list option \<Rightarrow> fields \<Rightarrow> (auth_error + nat list option \<times> fields) option" where
  "collect_fields [] hash pairs = Some (Inr (hash, pairs))"
| "collect_fields (piece # pieces) hash pairs =
     (case split_once 61 piece of
        None \<Rightarrow> Some (Inl BadFormat)
      | Some (k, v) \<Rightarrow>
          (case (urldecode k, urldecode v) of
             (Some key, Some val) \<Rightarrow>
               if key = hash_key then collect_fields pieces (Some val) pairs
               else collect_fields pieces hash (pairs @ [(key, val)])
           | _ \<Rightarrow> None))"

fun join_lines :: "nat list list \<Rightarrow> nat list" where
  "join_lines [] = []"
| "join_lines [l] = l"
| "join_lines (l # ls) = l @ 10 # join_lines ls"

definition data_check_string :: "fields \<Rightarrow> nat list" where
  "data_check_string pairs = join_lines (map (\<lambda>(k, v). k @ 61 # v) pairs)"

definition field :: "string \<Rightarrow> fields \<Rightarrow> nat list option" where
  "field n pairs = map_option snd (find (\<lambda>(k, _). k = ascii n) pairs)"

definition fresh_enough :: "int \<Rightarrow> int \<Rightarrow> int \<Rightarrow> bool" where
  "fresh_enough max_age now auth_date \<longleftrightarrow>
     (if now \<le> auth_date then auth_date - now \<le> max_future_skew_secs else now - auth_date \<le> max_age)"

definition read_fields ::
  "(nat list \<Rightarrow> int option) \<Rightarrow> int \<Rightarrow> int \<Rightarrow> fields \<Rightarrow> auth_error + init_data" where
  "read_fields json_id max_age now pairs =
     (case Option.bind (field ''auth_date'' pairs) parse_u64 of
        None \<Rightarrow> Inl BadFormat
      | Some auth_date \<Rightarrow>
          if \<not> fresh_enough max_age now auth_date then Inl Stale
          else (case Option.bind (field ''user'' pairs) json_id of
                  None \<Rightarrow> Inl NoUser
                | Some u \<Rightarrow>
                    Inr \<lparr>id_user = u,
                         id_start = (case field ''start_param'' pairs of None \<Rightarrow> None | Some v \<Rightarrow> if v = [] then None else Some v)\<rparr>))"

definition validate_at ::
  "(nat list \<Rightarrow> nat list \<Rightarrow> nat list) \<Rightarrow> (nat list \<Rightarrow> int option) \<Rightarrow> nat list \<Rightarrow> int \<Rightarrow> int \<Rightarrow> nat list \<Rightarrow>
     (auth_error + init_data) option" where
  "validate_at mac json_id raw max_age now secret =
     (case collect_fields (filter (\<lambda>p. p \<noteq> []) (split_on 38 raw)) None [] of
        None \<Rightarrow> None
      | Some (Inl e) \<Rightarrow> Some (Inl e)
      | Some (Inr (None, _)) \<Rightarrow> Some (Inl BadFormat)
      | Some (Inr (Some hash, pairs)) \<Rightarrow>
          Some
            (case decode_hex hash of
               None \<Rightarrow> Inl BadFormat
             | Some expected \<Rightarrow>
                 (let sorted_pairs = sort_key fst pairs
                  in if mac secret (data_check_string sorted_pairs) \<noteq> expected then Inl BadHash
                     else read_fields json_id max_age now sorted_pairs)))"

text \<open>The clock before 1970 is an error of its own.\<close>

definition validate ::
  "(nat list \<Rightarrow> nat list \<Rightarrow> nat list) \<Rightarrow> (nat list \<Rightarrow> int option) \<Rightarrow> int option \<Rightarrow> nat list \<Rightarrow> int \<Rightarrow> nat list \<Rightarrow>
     (auth_error + init_data) option" where
  "validate mac json_id clock raw max_age secret =
     (case clock of None \<Rightarrow> Some (Inl Clock) | Some now \<Rightarrow> validate_at mac json_id raw max_age now secret)"

end
