(* ===== verification/ChatMemory.thy ===== *)
theory ChatMemory
  imports Utf8Text "HOL-Library.AList" "HOL-Library.Multiset"
begin

text \<open>
  What the bot remembers of the groups while it runs, \<open>Ctx\<close> and \<open>ChatState\<close> of \<open>src/src/handlers/mod.rs\<close>: one
  record per group, made when something happens in it and dropped when it has been quiet. A \<open>HashMap\<close> is
  a list of entries with distinct keys in the order the map iterates over them; nothing keeps that order, so a run may
  permute it at any time. Instants are integers that only grow; an operation reads the clock once.
\<close>

section \<open>Maps\<close>

type_synonym ('k, 'v) hash_map = "('k \<times> 'v) list"
type_synonym instant = int
type_synonym duration = int

text \<open>\<open>Instant::duration_since\<close> does not go below zero.\<close>

definition elapsed :: "instant \<Rightarrow> instant \<Rightarrow> duration" where
  "elapsed now t = max 0 (now - t)"

definition has_key :: "'k \<Rightarrow> ('k, 'v) hash_map \<Rightarrow> bool" where
  "has_key k m \<longleftrightarrow> map_of m k \<noteq> None"

definition keys_distinct :: "('k, 'v) hash_map \<Rightarrow> bool" where
  "keys_distinct m \<longleftrightarrow> distinct (map fst m)"

text \<open>\<open>capacity\<close> is what the map answers when asked for its capacity, which the library chooses.\<close>

definition prune_before_growth :: "nat \<Rightarrow> ('k \<times> 'v \<Rightarrow> bool) \<Rightarrow> ('k, 'v) hash_map \<Rightarrow> ('k, 'v) hash_map" where
  "prune_before_growth capacity live m = (if capacity = 0 \<or> length m < capacity then m else filter live m)"

text \<open>\<open>min_by_key\<close>: the first of the oldest entries.\<close>

definition oldest_key :: "('v \<Rightarrow> instant) \<Rightarrow> ('k, 'v) hash_map \<Rightarrow> 'k" where
  "oldest_key at m = fst (arg_min_list (at \<circ> snd) m)"

lemma oldest_key_in: "m \<noteq> [] \<Longrightarrow> oldest_key at m \<in> fst ` set m"
  using arg_min_list_in [of m "at \<circ> snd"] by (auto simp: oldest_key_def)

lemma delete_shorter: "k \<in> fst ` set m \<Longrightarrow> length (AList.delete k m) < length m"
  by (auto simp: AList.delete_eq intro: length_filter_less)

function make_room :: "nat \<Rightarrow> ('v \<Rightarrow> instant) \<Rightarrow> ('k, 'v) hash_map \<Rightarrow> ('k, 'v) hash_map" where
  "make_room limit at m =
     (if limit = 0 then []
      else if length m < limit then m
      else make_room limit at (AList.delete (oldest_key at m) m))"
  by pat_completeness auto
termination
proof (relation "measure (\<lambda>(limit, at, m). length m)")
  fix limit :: nat and at :: "'v \<Rightarrow> instant" and m :: "('k, 'v) hash_map"
  assume "limit \<noteq> 0" and "\<not> length m < limit"
  then have "m \<noteq> []" by auto
  from delete_shorter [OF oldest_key_in [OF this, of at]]
  show "((limit, at, AList.delete (oldest_key at m) m), limit, at, m) \<in> measure (\<lambda>(limit, at, m). length m)" by simp
qed simp

declare make_room.simps [simp del]

section \<open>Groups\<close>

datatype root = Post | NotPost | Pending "(int \<times> user_id option \<times> utext) list"

record chat_memory =
  last_seen :: nat
  live_peer :: "int option"
  admins :: "(instant \<times> user_id list) option"
  admins_failed :: nat
  messages :: "(user_id, instant list) hash_map"
  removals :: "(user_id, instant list) hash_map"
  notices :: "(nat \<times> int, instant \<times> duration) hash_map"
  counts :: "(user_id, nat \<times> utext) hash_map"
  tallies :: "(string, nat) hash_map"
  logs :: "utext list"
  log_retry_at :: nat
  log_failures :: nat
  log_gone :: bool
  temp_media :: "(instant \<times> int) list"
  roots :: "(int, instant \<times> root) hash_map"

definition new_memory :: chat_memory where
  "new_memory = \<lparr>last_seen = 0, live_peer = None, admins = None, admins_failed = 0, messages = [], removals = [],
     notices = [], counts = [], tallies = [], logs = [], log_retry_at = 0, log_failures = 0, log_gone = False,
     temp_media = [], roots = []\<rparr>"

record dirty_queue =
  members :: "chat_id set"
  waiting :: "chat_id list"

record runtime =
  max_runtime_chats :: nat
  allowed_chats :: "chat_id list option"
  chats :: "(chat_id, chat_memory) hash_map"
  dirty_logs :: dirty_queue
  dirty_media :: dirty_queue
  dirty_stats :: dirty_queue
  poisoned :: bool

definition owns_chat :: "chat_id \<Rightarrow> runtime \<Rightarrow> bool" where
  "owns_chat c r = (case allowed_chats r of None \<Rightarrow> True | Some allowed \<Rightarrow> c \<in> set allowed)"

definition peek :: "chat_id \<Rightarrow> runtime \<Rightarrow> chat_memory option" where
  "peek c r = map_of (chats r) c"

definition put_memory :: "chat_id \<Rightarrow> chat_memory \<Rightarrow> runtime \<Rightarrow> runtime" where
  "put_memory c m r = r\<lparr>chats := AList.update c m (chats r)\<rparr>"

definition try_state :: "chat_id \<Rightarrow> runtime \<Rightarrow> (runtime \<times> chat_memory) option" where
  "try_state c r =
     (if \<not> owns_chat c r then None
      else (case peek c r of
              Some m \<Rightarrow> Some (r, m)
            | None \<Rightarrow>
                if max_runtime_chats r \<le> length (chats r) then None
                else Some (put_memory c new_memory r, new_memory)))"

definition is_quiet :: "nat \<Rightarrow> nat \<Rightarrow> chat_memory \<Rightarrow> bool" where
  "is_quiet idle uptime m \<longleftrightarrow> idle \<le> uptime - last_seen m"

text \<open>\<open>busy\<close>: someone else holds the record, or its lock for the automatic configuration.\<close>

definition evictable :: "nat \<Rightarrow> nat \<Rightarrow> chat_memory \<Rightarrow> bool" where
  "evictable idle uptime m \<longleftrightarrow>
     is_quiet idle uptime m \<and> logs m = [] \<and> temp_media m = [] \<and> counts m = [] \<and> tallies m = []"

definition evict_idle :: "(chat_id \<Rightarrow> bool) \<Rightarrow> nat \<Rightarrow> nat \<Rightarrow> runtime \<Rightarrow> runtime \<times> nat" where
  "evict_idle busy idle uptime r =
     (let rest = filter (\<lambda>(c, m). busy c \<or> \<not> evictable idle uptime m) (chats r)
      in (r\<lparr>chats := rest\<rparr>, length (chats r) - length rest))"

definition touch :: "nat \<Rightarrow> chat_id \<Rightarrow> runtime \<Rightarrow> runtime" where
  "touch uptime c r = (case peek c r of None \<Rightarrow> r | Some m \<Rightarrow> put_memory c (m\<lparr>last_seen := uptime\<rparr>) r)"

section \<open>Groups that wait for a flush\<close>

definition mark :: "chat_id \<Rightarrow> dirty_queue \<Rightarrow> dirty_queue" where
  "mark c q = (if c \<in> members q then q else \<lparr>members = insert c (members q), waiting = waiting q @ [c]\<rparr>)"

text \<open>At most \<open>limit\<close> groups leave the queue, the one that waits longest first.\<close>

definition take_dirty :: "nat \<Rightarrow> dirty_queue \<Rightarrow> dirty_queue \<times> chat_id list" where
  "take_dirty limit q =
     (let selected = take limit (waiting q)
      in (\<lparr>members = members q - set selected, waiting = drop limit (waiting q)\<rparr>, selected))"

definition queue_ok :: "dirty_queue \<Rightarrow> bool" where
  "queue_ok q \<longleftrightarrow> distinct (waiting q) \<and> members q = set (waiting q)"

lemma queue_ok_mark: "queue_ok q \<Longrightarrow> queue_ok (mark c q)"
  by (auto simp: queue_ok_def mark_def)

lemma members_mark [simp]: "members (mark c q) = insert c (members q)"
  by (auto simp: mark_def)

lemma queue_ok_take: "queue_ok q \<Longrightarrow> queue_ok (fst (take_dirty n q))"
proof -
  assume q: "queue_ok q"
  have "set (waiting q) = set (take n (waiting q)) \<union> set (drop n (waiting q))"
    by (metis append_take_drop_id set_append)
  moreover have "set (take n (waiting q)) \<inter> set (drop n (waiting q)) = {}"
    using q set_take_disj_set_drop_if_distinct [of "waiting q" n n] by (simp add: queue_ok_def)
  ultimately show ?thesis using q by (auto simp: queue_ok_def take_dirty_def Let_def)
qed

lemma take_dirty_members: "queue_ok q \<Longrightarrow> members q = members (fst (take_dirty n q)) \<union> set (snd (take_dirty n q))"
  by (auto simp: take_dirty_def Let_def queue_ok_def dest: in_set_takeD)

section \<open>Facts about maps\<close>

lemma map_of_delete: "map_of (AList.delete k m) = (map_of m)(k := None)"
  by (rule AList.delete_conv')

lemma keys_distinct_filter [intro]: "keys_distinct m \<Longrightarrow> keys_distinct (filter P m)"
  by (simp add: keys_distinct_def distinct_map_filter)

lemma map_of_filter_distinct:
  "keys_distinct m \<Longrightarrow> map_of (filter P m) k = (case map_of m k of None \<Rightarrow> None | Some v \<Rightarrow> if P (k, v) then Some v else None)"
  unfolding keys_distinct_def
proof (induction m)
  case (Cons e m)
  then show ?case by (cases e) (auto simp: map_of_eq_None_iff rev_image_eqI split: option.splits dest: map_of_SomeD)
qed simp

lemma make_room_map_of:
  "map_of (make_room limit at m) k = None \<or> map_of (make_room limit at m) k = map_of m k"
proof (induction limit at m rule: make_room.induct)
  case (1 limit at m)
  show ?case
    by (subst (1 2) make_room.simps) (use 1 in \<open>auto simp: map_of_delete split: if_splits\<close>)
qed

lemma make_room_distinct: "keys_distinct m \<Longrightarrow> keys_distinct (make_room limit at m)"
proof (induction limit at m rule: make_room.induct)
  case (1 limit at m)
  then show ?case
    by (subst make_room.simps) (auto simp: keys_distinct_def AList.distinct_delete)
qed

lemma make_room_length: "0 < limit \<Longrightarrow> length (make_room limit at m) < limit"
proof (induction limit at m rule: make_room.induct)
  case (1 limit at m)
  then show ?case by (subst make_room.simps) auto
qed

lemma make_room_small: "length m < limit \<Longrightarrow> make_room limit at m = m"
  by (subst make_room.simps) auto

lemma map_of_permuted:
  assumes "keys_distinct m" and "mset m' = mset m"
  shows "keys_distinct m'" and "map_of m' = map_of m"
proof -
  show d: "keys_distinct m'"
    using assms mset_eq_imp_distinct_iff [of "map fst m'" "map fst m"] by (simp add: keys_distinct_def)
  show "map_of m' = map_of m"
    using map_of_inject_set [of m' m] assms d mset_eq_setD unfolding keys_distinct_def by blast
qed

end
