(* ===== verification/RateLimits.thy ===== *)
theory RateLimits
  imports ChatMemory "HOL-Library.Sublist"
begin

text \<open>
  How often something happens in a group, and how often the bot reacts, \<open>src/src/handlers/mod.rs\<close>: the times of the last
  messages and removals of every member, and the notices that must not be repeated too soon. Durations count
  nanoseconds.
\<close>

section \<open>Events\<close>

definition secs :: "int \<Rightarrow> duration" where
  "secs n = n * 1000000000"

definition flood_limit_range :: "int \<times> int" where "flood_limit_range = (2, 50)"
definition flood_window_range :: "int \<times> int" where "flood_window_range = (2, 120)"
definition raid_limit_range :: "int \<times> int" where "raid_limit_range = (2, 200)"
definition raid_window_range :: "int \<times> int" where "raid_window_range = (5, 600)"
definition betrayal_limit_range :: "int \<times> int" where "betrayal_limit_range = (2, 30)"
definition betrayal_window_range :: "int \<times> int" where "betrayal_window_range = (1, 120)"

definition messages_window_max :: duration where
  "messages_window_max =
     secs (if snd flood_window_range < snd raid_window_range then snd raid_window_range else snd flood_window_range)"

definition removals_window_max :: duration where
  "removals_window_max = secs (snd betrayal_window_range)"

definition events_per_subject_max :: nat where
  "events_per_subject_max = nat (snd raid_limit_range) + 1"

definition flood_events_max :: nat where
  "flood_events_max = nat (snd flood_limit_range) + 1"

definition removal_events_max :: nat where
  "removal_events_max = nat (snd betrayal_limit_range) + 1"

definition per_chat_max :: nat where
  "per_chat_max = 20000"

text \<open>\<open>record_event_at\<close>; its capacity is at least one wherever it is called.\<close>

definition record_event_at :: "instant list \<Rightarrow> duration \<Rightarrow> nat \<Rightarrow> instant \<Rightarrow> instant list \<times> nat" where
  "record_event_at ts window capacity now =
     (let fresh = dropWhile (\<lambda>t. window \<le> elapsed now t) ts;
          kept = drop (Suc (length fresh) - capacity) fresh @ [now]
      in (kept, length kept))"

definition times_of :: "user_id \<Rightarrow> (user_id, instant list) hash_map \<Rightarrow> instant list" where
  "times_of u m = (case map_of m u of None \<Rightarrow> [] | Some ts \<Rightarrow> ts)"

text \<open>How old an entry counts for \<open>make_room\<close>: its first event, or now.\<close>

definition first_event_time :: "instant \<Rightarrow> instant list \<Rightarrow> instant" where
  "first_event_time now ts = (case ts of [] \<Rightarrow> now | t # _ \<Rightarrow> t)"

definition newest_within :: "instant \<Rightarrow> duration \<Rightarrow> user_id \<times> instant list \<Rightarrow> bool" where
  "newest_within now window e \<longleftrightarrow> snd e \<noteq> [] \<and> elapsed now (last (snd e)) < window"

definition pruned :: "nat \<Rightarrow> (user_id \<times> instant list \<Rightarrow> bool) \<Rightarrow> user_id \<Rightarrow> (user_id, instant list) hash_map \<Rightarrow>
    (user_id, instant list) hash_map" where
  "pruned capacity live u m = (if has_key u m then m else prune_before_growth capacity live m)"

definition room_for_messages :: "nat \<Rightarrow> instant \<Rightarrow> user_id \<Rightarrow> (user_id, instant list) hash_map \<Rightarrow>
    (user_id, instant list) hash_map" where
  "room_for_messages capacity now u m =
     (let live = newest_within now messages_window_max; m1 = pruned capacity live u m
      in if per_chat_max \<le> length m1 \<and> \<not> has_key u m1
         then make_room per_chat_max (first_event_time now) (filter live m1) else m1)"

definition record_message :: "nat \<Rightarrow> instant \<Rightarrow> chat_id \<Rightarrow> user_id \<Rightarrow> duration \<Rightarrow> runtime \<Rightarrow> runtime \<times> nat" where
  "record_message capacity now c u window r =
     (case try_state c r of
        None \<Rightarrow> (r, 0)
      | Some (r', m) \<Rightarrow>
          (let ms = room_for_messages capacity now u (messages m);
               (ts, n) = record_event_at (times_of u ms) window
                 (if u = 0 then events_per_subject_max else flood_events_max) now
           in (put_memory c (m\<lparr>messages := AList.update u ts ms\<rparr>) r', n)))"

definition room_for_removals :: "nat \<Rightarrow> instant \<Rightarrow> user_id \<Rightarrow> duration \<Rightarrow> (user_id, instant list) hash_map \<Rightarrow>
    (user_id, instant list) hash_map" where
  "room_for_removals capacity now u window m =
     (let m1 = pruned capacity (newest_within now removals_window_max) u m
      in if per_chat_max \<le> length m1 \<and> \<not> has_key u m1
         then make_room per_chat_max (first_event_time now) (filter (\<lambda>e. list_ex (\<lambda>t. elapsed now t < window) (snd e)) m1)
         else m1)"

definition record_removal :: "nat \<Rightarrow> instant \<Rightarrow> chat_id \<Rightarrow> user_id \<Rightarrow> duration \<Rightarrow> runtime \<Rightarrow> runtime \<times> nat" where
  "record_removal capacity now c u window r =
     (case try_state c r of
        None \<Rightarrow> (r, 0)
      | Some (r', m) \<Rightarrow>
          (let ms = room_for_removals capacity now u window (removals m);
               (ts, n) = record_event_at (times_of u ms) window removal_events_max now
           in (put_memory c (m\<lparr>removals := AList.update u ts ms\<rparr>) r', n)))"

section \<open>Throttles\<close>

type_synonym claim = "nat \<times> int \<times> duration"

definition too_soon :: "instant \<Rightarrow> (nat \<times> int, instant \<times> duration) hash_map \<Rightarrow> claim \<Rightarrow> bool" where
  "too_soon now ns q =
     (case q of (kind, key, every) \<Rightarrow>
        (case map_of ns (kind, key) of None \<Rightarrow> False | Some (t, _) \<Rightarrow> elapsed now t < every))"

definition notice_live :: "instant \<Rightarrow> (nat \<times> int) \<times> instant \<times> duration \<Rightarrow> bool" where
  "notice_live now e = (case e of (_, t, window) \<Rightarrow> elapsed now t < window)"

definition room_for_notices :: "nat \<Rightarrow> instant \<Rightarrow> nat \<Rightarrow> (nat \<times> int, instant \<times> duration) hash_map \<Rightarrow>
    (nat \<times> int, instant \<times> duration) hash_map" where
  "room_for_notices capacity now n ns =
     (let n1 = prune_before_growth capacity (notice_live now) ns
      in if per_chat_max < length n1 + n then make_room (per_chat_max + 1 - n) fst (filter (notice_live now) n1) else n1)"

definition grant :: "instant \<Rightarrow> claim \<Rightarrow> (nat \<times> int, instant \<times> duration) hash_map \<Rightarrow> (nat \<times> int, instant \<times> duration) hash_map" where
  "grant now q ns = (case q of (kind, key, every) \<Rightarrow> AList.update (kind, key) (now, every) ns)"

definition throttle_all :: "nat \<Rightarrow> instant \<Rightarrow> chat_id \<Rightarrow> claim list \<Rightarrow> runtime \<Rightarrow> runtime \<times> bool" where
  "throttle_all capacity now c claims r =
     (case try_state c r of
        None \<Rightarrow> (r, False)
      | Some (r', m) \<Rightarrow>
          if list_ex (too_soon now (notices m)) claims then (r', False)
          else (put_memory c (m\<lparr>notices := fold (grant now) claims (room_for_notices capacity now (length claims) (notices m))\<rparr>) r',
                True))"

definition throttle :: "nat \<Rightarrow> instant \<Rightarrow> nat \<Rightarrow> chat_id \<Rightarrow> int \<Rightarrow> duration \<Rightarrow> runtime \<Rightarrow> runtime \<times> bool" where
  "throttle capacity now kind c key every = throttle_all capacity now c [(kind, key, every)]"

text \<open>What is throttled.\<close>

datatype notice_kind =
  FilterNotice | Report | LockNotice | GateNotice | Sighting | Moderation | FloodNotice | BotRemoval | InstallNotice
| CleanerInstall | CommentSign | MiniappFilterCreate | MiniappListRead | MiniappListRemove | MiniappListClear | Betrayal
| RemovalNotice | FloodPunish | JoinNonmember | AnswerPace | LogNameLookup | MiniappTelegram | AdminList | PurgeRun
| LeftBackExport

fun kind_code :: "notice_kind \<Rightarrow> nat" where
  "kind_code FilterNotice = 0" | "kind_code Report = 1" | "kind_code LockNotice = 2" | "kind_code GateNotice = 3"
| "kind_code Sighting = 4" | "kind_code Moderation = 5" | "kind_code FloodNotice = 6" | "kind_code BotRemoval = 7"
| "kind_code InstallNotice = 9" | "kind_code CleanerInstall = 10" | "kind_code CommentSign = 11"
| "kind_code MiniappFilterCreate = 12" | "kind_code MiniappListRead = 13" | "kind_code MiniappListRemove = 14"
| "kind_code MiniappListClear = 15" | "kind_code Betrayal = 16" | "kind_code RemovalNotice = 17"
| "kind_code FloodPunish = 18" | "kind_code JoinNonmember = 19" | "kind_code AnswerPace = 20"
| "kind_code LogNameLookup = 21" | "kind_code MiniappTelegram = 22" | "kind_code AdminList = 23"
| "kind_code PurgeRun = 24" | "kind_code LeftBackExport = 25"

lemma kind_code_inj: "kind_code a = kind_code b \<longleftrightarrow> a = b"
  by (cases a; cases b) simp_all

definition notice_every :: duration where "notice_every = secs 120"
definition group_pace :: duration where "group_pace = secs 3"

definition may_notify :: "nat \<Rightarrow> instant \<Rightarrow> chat_id \<Rightarrow> user_id \<Rightarrow> runtime \<Rightarrow> runtime \<times> bool" where
  "may_notify capacity now c u = throttle capacity now (kind_code FilterNotice) c u notice_every"

definition may_notify_every :: "nat \<Rightarrow> instant \<Rightarrow> chat_id \<Rightarrow> user_id \<Rightarrow> duration \<Rightarrow> runtime \<Rightarrow> runtime \<times> bool" where
  "may_notify_every capacity now c u every r =
     (if every = 0 then (r, True) else throttle capacity now (kind_code GateNotice) c u every r)"

definition may_notify_lock :: "nat \<Rightarrow> instant \<Rightarrow> chat_id \<Rightarrow> user_id \<Rightarrow> runtime \<Rightarrow> runtime \<times> bool" where
  "may_notify_lock capacity now c u =
     throttle_all capacity now c [(kind_code RemovalNotice, 0, group_pace), (kind_code LockNotice, u, secs 20)]"

definition may_notify_filtered :: "nat \<Rightarrow> instant \<Rightarrow> chat_id \<Rightarrow> user_id \<Rightarrow> runtime \<Rightarrow> runtime \<times> bool" where
  "may_notify_filtered capacity now c u =
     throttle_all capacity now c [(kind_code RemovalNotice, 0, group_pace), (kind_code FilterNotice, u, notice_every)]"

definition may_notify_flood :: "nat \<Rightarrow> instant \<Rightarrow> chat_id \<Rightarrow> user_id \<Rightarrow> runtime \<Rightarrow> runtime \<times> bool" where
  "may_notify_flood capacity now c u = throttle capacity now (kind_code FloodNotice) c u notice_every"

definition claim_purge :: "nat \<Rightarrow> instant \<Rightarrow> chat_id \<Rightarrow> int \<Rightarrow> runtime \<Rightarrow> runtime \<times> bool" where
  "claim_purge capacity now c latest = throttle capacity now (kind_code PurgeRun) c latest (secs 3600)"

definition claim_moderation :: "nat \<Rightarrow> instant \<Rightarrow> chat_id \<Rightarrow> int \<Rightarrow> runtime \<Rightarrow> runtime \<times> bool" where
  "claim_moderation capacity now c message = throttle capacity now (kind_code Moderation) c message (secs 120)"

definition claim_betrayal :: "nat \<Rightarrow> instant \<Rightarrow> chat_id \<Rightarrow> user_id \<Rightarrow> runtime \<Rightarrow> runtime \<times> bool" where
  "claim_betrayal capacity now c admin = throttle capacity now (kind_code Betrayal) c admin (secs 60)"

definition claim_flood_punishment :: "nat \<Rightarrow> instant \<Rightarrow> chat_id \<Rightarrow> user_id \<Rightarrow> duration \<Rightarrow> runtime \<Rightarrow> runtime \<times> bool" where
  "claim_flood_punishment capacity now c u window = throttle capacity now (kind_code FloodPunish) c u window"

definition release_flood_punishment :: "chat_id \<Rightarrow> user_id \<Rightarrow> runtime \<Rightarrow> runtime" where
  "release_flood_punishment c u r =
     (case peek c r of
        None \<Rightarrow> r
      | Some m \<Rightarrow> put_memory c (m\<lparr>notices := AList.delete (kind_code FloodPunish, u) (notices m)\<rparr>) r)"

definition first_sighting :: "nat \<Rightarrow> instant \<Rightarrow> chat_id \<Rightarrow> user_id \<Rightarrow> duration \<Rightarrow> runtime \<Rightarrow> runtime \<times> bool" where
  "first_sighting capacity now c u window = throttle capacity now (kind_code Sighting) c u window"

definition known_nonmember :: "instant \<Rightarrow> chat_id \<Rightarrow> user_id \<Rightarrow> runtime \<Rightarrow> bool" where
  "known_nonmember now c u r =
     (case peek c r of
        None \<Rightarrow> False
      | Some m \<Rightarrow> (case map_of (notices m) (kind_code JoinNonmember, u) of None \<Rightarrow> False | Some (t, every) \<Rightarrow> elapsed now t < every))"

definition remember_nonmember :: "nat \<Rightarrow> instant \<Rightarrow> chat_id \<Rightarrow> user_id \<Rightarrow> runtime \<Rightarrow> runtime" where
  "remember_nonmember capacity now c u r = fst (throttle capacity now (kind_code JoinNonmember) c u (secs 15) r)"

end
