(* ===== verification/RateFacts.thy ===== *)
theory RateFacts
  imports RateLimits
begin

text \<open>
  Counting is exact and throttles hold. A run interleaves the operations of \<open>RateLimits\<close> in all groups with everything
  else the bot does; the history says what really happened.
\<close>

section \<open>Windows\<close>

definition in_window :: "instant \<Rightarrow> duration \<Rightarrow> instant list \<Rightarrow> instant list" where
  "in_window now w ts = filter (\<lambda>t. elapsed now t < w) ts"

lemma in_window_dropWhile:
  "sorted ts \<Longrightarrow> dropWhile (\<lambda>t. w \<le> elapsed now t) ts = in_window now w ts"
proof (induction ts)
  case (Cons t ts)
  have "elapsed now x < w" if "elapsed now t < w" "x \<in> set ts" for x
    using that Cons.prems by (force simp: elapsed_def)
  then show ?case using Cons by (auto simp: in_window_def filter_id_conv)
qed (simp add: in_window_def)

text \<open>The suffixes of a sorted list are ordered by their lengths.\<close>

lemma in_window_suffix:
  assumes "sorted ts" and "suffix xs ts"
  shows "length (in_window now w xs) = min (length xs) (length (in_window now w ts))"
proof -
  from assms(2) obtain ys where ys: "ts = ys @ xs" by (auto simp: suffix_def)
  show ?thesis
  proof (cases "in_window now w ys = []")
    case True
    then have "length (in_window now w ts) = length (in_window now w xs)" by (simp add: ys in_window_def)
    moreover have "length (in_window now w xs) \<le> length xs" by (simp add: in_window_def)
    ultimately show ?thesis by simp
  next
    case False
    then obtain y where y: "y \<in> set ys" "elapsed now y < w" by (auto simp: in_window_def filter_empty_conv)
    have "elapsed now x < w" if "x \<in> set xs" for x
      using y that assms(1) by (force simp: ys sorted_append elapsed_def)
    then have "in_window now w xs = xs" by (simp add: in_window_def)
    moreover have "length xs \<le> length (in_window now w ts)" by (simp add: ys in_window_def calculation [unfolded in_window_def])
    ultimately show ?thesis by simp
  qed
qed

lemma record_event_length:
  assumes "sorted L" and "suffix ts L" and "0 < capacity" and "record_event_at ts w capacity now = (ts', n)"
  shows "n = min capacity (Suc (min (length ts) (length (in_window now w L))))"
    and "length ts' = n" and "suffix ts' (L @ [now])"
proof -
  let ?f = "dropWhile (\<lambda>t. w \<le> elapsed now t) ts"
  have "sorted ts" using assms(1,2) by (auto simp: suffix_def sorted_append)
  then have f: "?f = in_window now w ts" by (rule in_window_dropWhile)
  have ts': "ts' = drop (Suc (length ?f) - capacity) ?f @ [now]" "n = length ts'"
    using assms(4) by (auto simp: record_event_at_def Let_def)
  show "length ts' = n" by (simp add: ts')
  show "n = min capacity (Suc (min (length ts) (length (in_window now w L))))"
    using assms(3) in_window_suffix [OF assms(1,2)] unfolding ts' f by simp
  have "suffix (drop (Suc (length ?f) - capacity) ?f) ts"
    using suffix_drop suffix_dropWhile suffix_order.trans by blast
  then have "suffix (drop (Suc (length ?f) - capacity) ?f) L" using assms(2) by (rule suffix_order.trans)
  then obtain ys where "L = ys @ drop (Suc (length ?f) - capacity) ?f" by (auto simp: suffix_def)
  then show "suffix ts' (L @ [now])" by (simp add: ts' suffix_def)
qed

section \<open>Keeping some entries\<close>

text \<open>Making room forgets entries and changes none.\<close>

definition thinned :: "('k, 'v) hash_map \<Rightarrow> ('k, 'v) hash_map \<Rightarrow> bool" where
  "thinned m m' \<longleftrightarrow> keys_distinct m' \<and> (\<forall>k. map_of m' k = None \<or> map_of m' k = map_of m k)"

lemma thinned_refl: "keys_distinct m \<Longrightarrow> thinned m m"
  by (simp add: thinned_def)

lemma thinned_trans: "thinned m m' \<Longrightarrow> thinned m' m'' \<Longrightarrow> thinned m m''"
  by (auto simp: thinned_def) metis

lemma thinned_filter: "keys_distinct m \<Longrightarrow> thinned m (filter P m)"
  by (auto simp: thinned_def map_of_filter_distinct split: option.splits)

lemma thinned_make_room: "keys_distinct m \<Longrightarrow> thinned m (make_room limit at m)"
  using make_room_map_of make_room_distinct unfolding thinned_def by metis

lemma thinned_prune: "keys_distinct m \<Longrightarrow> thinned m (prune_before_growth capacity live m)"
  by (simp add: prune_before_growth_def thinned_refl thinned_filter)

lemma thinned_pruned: "keys_distinct m \<Longrightarrow> thinned m (pruned capacity live u m)"
  by (simp add: pruned_def thinned_refl thinned_prune)

lemma thinned_room:
  assumes "thinned m m1"
  shows "thinned m (if b then make_room limit at (filter P m1) else m1)"
proof -
  have "keys_distinct m1" using assms by (simp add: thinned_def)
  then have "thinned m1 (make_room limit at (filter P m1))"
    by (intro thinned_trans [OF thinned_filter thinned_make_room] keys_distinct_filter)
  then show ?thesis using assms thinned_trans by auto
qed

lemma thinned_messages: "keys_distinct m \<Longrightarrow> thinned m (room_for_messages capacity now u m)"
  unfolding room_for_messages_def Let_def by (intro thinned_room thinned_pruned)

lemma thinned_removals: "keys_distinct m \<Longrightarrow> thinned m (room_for_removals capacity now u w m)"
  unfolding room_for_removals_def Let_def by (intro thinned_room thinned_pruned)

lemma thinned_notices: "keys_distinct m \<Longrightarrow> thinned m (room_for_notices capacity now n m)"
  unfolding room_for_notices_def Let_def by (intro thinned_room thinned_prune)

lemma map_of_update: "map_of (AList.update k v m) = (map_of m)(k \<mapsto> v)"
  by (rule AList.update_conv')

lemma distinct_update: "keys_distinct m \<Longrightarrow> keys_distinct (AList.update k v m)"
  by (simp add: keys_distinct_def AList.distinct_update)

lemma times_of_room:
  assumes "keys_distinct m"
  shows "times_of u (room_for_messages capacity now u m) = times_of u m"
proof (cases "map_of m u")
  case None
  then show ?thesis using thinned_messages [OF assms, of capacity now u] by (auto simp: times_of_def thinned_def split: option.splits) (metis option.distinct(1))
next
  case (Some ts)
  then show ?thesis by (simp add: room_for_messages_def pruned_def has_key_def)
qed

lemma times_of_thinned: "thinned m m' \<Longrightarrow> times_of v m' = [] \<or> times_of v m' = times_of v m"
  by (metis times_of_def thinned_def option.case(1))

lemma times_of_update: "times_of v (AList.update u ts m) = (if v = u then ts else times_of v m)"
  by (simp add: times_of_def map_of_update)

text \<open>No room has to be made, for a message or for notices.\<close>

definition roomy_for_message :: "nat \<Rightarrow> instant \<Rightarrow> user_id \<Rightarrow> (user_id, instant list) hash_map \<Rightarrow> bool" where
  "roomy_for_message capacity now u m \<longleftrightarrow>
     has_key u m \<or> length (prune_before_growth capacity (newest_within now messages_window_max) m) < per_chat_max"

definition roomy_for_notices :: "nat \<Rightarrow> instant \<Rightarrow> nat \<Rightarrow> (nat \<times> int, instant \<times> duration) hash_map \<Rightarrow> bool" where
  "roomy_for_notices capacity now n ns \<longleftrightarrow> length (prune_before_growth capacity (notice_live now) ns) + n \<le> per_chat_max"

text \<open>What pruning forgets of the messages lies outside every window.\<close>

lemma roomy_keeps:
  assumes "keys_distinct m" and "roomy_for_message capacity now u m"
  shows "times_of v (room_for_messages capacity now u m) = times_of v m \<or>
    times_of v m = [] \<or> messages_window_max \<le> elapsed now (last (times_of v m))"
  using assms
  by (auto simp: room_for_messages_def pruned_def roomy_for_message_def has_key_def prune_before_growth_def times_of_def
      map_of_filter_distinct newest_within_def Let_def split: option.splits)

lemma roomy_notices_keeps:
  assumes "keys_distinct ns" and "roomy_for_notices capacity now n ns" and "map_of ns k = Some (t, e)" and "elapsed now t < e"
  shows "map_of (room_for_notices capacity now n ns) k = Some (t, e)"
  using assms
  by (auto simp: room_for_notices_def roomy_for_notices_def prune_before_growth_def map_of_filter_distinct notice_live_def Let_def)

section \<open>Runs\<close>

definition memory_of :: "chat_id \<Rightarrow> runtime \<Rightarrow> chat_memory" where
  "memory_of c r = (case peek c r of None \<Rightarrow> new_memory | Some m \<Rightarrow> m)"

lemma peek_put: "peek d (put_memory c m r) = (if d = c then Some m else peek d r)"
  by (simp add: peek_def put_memory_def map_of_update)

lemma memory_put [simp]: "memory_of d (put_memory c m r) = (if d = c then m else memory_of d r)"
  by (simp add: memory_of_def peek_put)

lemma try_stateD:
  assumes "try_state c r = Some (r', m)"
  shows "m = memory_of c r" and "memory_of d r' = memory_of d r" and "keys_distinct (chats r) \<Longrightarrow> keys_distinct (chats r')"
    and "fst ` set (chats r') = insert c (fst ` set (chats r))"
proof -
  have "m = memory_of c r \<and> memory_of d r' = memory_of d r \<and> (keys_distinct (chats r) \<longrightarrow> keys_distinct (chats r')) \<and>
    fst ` set (chats r') = insert c (fst ` set (chats r))"
  proof (cases "peek c r")
    case None
    then have e: "m = new_memory" "r' = put_memory c new_memory r" using assms by (auto simp: try_state_def split: if_splits)
    have c: "memory_of c r = new_memory" by (simp add: memory_of_def None)
    have "memory_of d r' = memory_of d r" using e c by simp
    moreover have "chats r' = AList.update c new_memory (chats r)" by (simp add: e put_memory_def)
    ultimately show ?thesis using e(1) c by (simp add: dom_update distinct_update)
  next
    case (Some x)
    then have "m = x" "r' = r" using assms by (auto simp: try_state_def split: if_splits)
    moreover have "c \<in> fst ` set (chats r)" using Some by (force simp: peek_def dest: map_of_SomeD)
    ultimately show ?thesis using Some by (auto simp: memory_of_def)
  qed
  then show "m = memory_of c r" and "memory_of d r' = memory_of d r" and "keys_distinct (chats r) \<Longrightarrow> keys_distinct (chats r')"
    and "fst ` set (chats r') = insert c (fst ` set (chats r))" by blast+
qed

text \<open>What really happened, and the groups of which something was forgotten for lack of room or after they were quiet.\<close>

record history =
  said :: "(chat_id \<times> user_id \<times> instant \<times> duration) list"
  removed :: "(chat_id \<times> user_id \<times> instant \<times> duration) list"
  granted :: "((chat_id \<times> nat \<times> int) \<times> instant \<times> duration) list"
  lost :: "chat_id set"

definition times_in :: "chat_id \<Rightarrow> user_id \<Rightarrow> (chat_id \<times> user_id \<times> instant \<times> duration) list \<Rightarrow> instant list" where
  "times_in c u xs = map (\<lambda>(_, _, t, _). t) (filter (\<lambda>(d, v, _, _). d = c \<and> v = u) xs)"

definition windows_in :: "chat_id \<Rightarrow> user_id \<Rightarrow> (chat_id \<times> user_id \<times> instant \<times> duration) list \<Rightarrow> duration set" where
  "windows_in c u xs = {w. \<exists>t. (c, u, t, w) \<in> set xs}"

definition log_grants :: "chat_id \<Rightarrow> instant \<Rightarrow> claim list \<Rightarrow> ((chat_id \<times> nat \<times> int) \<times> instant \<times> duration) list \<Rightarrow>
    ((chat_id \<times> nat \<times> int) \<times> instant \<times> duration) list" where
  "log_grants c now claims g = fold (\<lambda>(kind, key, every) g. ((c, kind, key), now, every) # g) claims g"

text \<open>The rest of the bot leaves these maps alone, but for their order.\<close>

definition same_limits :: "chat_memory \<Rightarrow> chat_memory \<Rightarrow> bool" where
  "same_limits m m' \<longleftrightarrow> mset (messages m') = mset (messages m) \<and> mset (removals m') = mset (removals m) \<and>
     mset (notices m') = mset (notices m)"

inductive rate_run :: "instant \<Rightarrow> runtime \<Rightarrow> history \<Rightarrow> bool" where
  rate_begin: "chats r = [] \<Longrightarrow> rate_run now r \<lparr>said = [], removed = [], granted = [], lost = {}\<rparr>"
| rate_message: "rate_run t r h \<Longrightarrow> t \<le> now \<Longrightarrow> try_state c r \<noteq> None \<Longrightarrow> record_message capacity now c u w r = (r', n) \<Longrightarrow>
    rate_run now r' (h\<lparr>said := said h @ [(c, u, now, w)],
      lost := (if roomy_for_message capacity now u (messages (memory_of c r)) then lost h else insert c (lost h))\<rparr>)"
| rate_removal: "rate_run t r h \<Longrightarrow> t \<le> now \<Longrightarrow> try_state c r \<noteq> None \<Longrightarrow> record_removal capacity now c u w r = (r', n) \<Longrightarrow>
    rate_run now r' (h\<lparr>removed := removed h @ [(c, u, now, w)]\<rparr>)"
| rate_grant: "rate_run t r h \<Longrightarrow> t \<le> now \<Longrightarrow> throttle_all capacity now c claims r = (r', True) \<Longrightarrow>
    rate_run now r' (h\<lparr>granted := log_grants c now claims (granted h),
      lost := (if roomy_for_notices capacity now (length claims) (notices (memory_of c r)) then lost h else insert c (lost h))\<rparr>)"
| rate_release: "rate_run t r h \<Longrightarrow>
    rate_run t (release_flood_punishment c u r) (h\<lparr>granted := AList.delete (c, kind_code FloodPunish, u) (granted h)\<rparr>)"
| rate_evict: "rate_run t r h \<Longrightarrow> evict_idle busy idle uptime r = (r', n) \<Longrightarrow>
    rate_run t r' (h\<lparr>lost := lost h \<union> (fst ` set (chats r) - fst ` set (chats r'))\<rparr>)"
| rate_other: "rate_run t r h \<Longrightarrow> t \<le> now \<Longrightarrow> keys_distinct (chats r') \<Longrightarrow>
    (\<And>c. same_limits (memory_of c r) (memory_of c r')) \<Longrightarrow> rate_run now r' h"

section \<open>What a run keeps\<close>

definition message_capacity :: "user_id \<Rightarrow> nat" where
  "message_capacity u = (if u = 0 then events_per_subject_max else flood_events_max)"

lemma message_capacity_pos: "0 < message_capacity u" "0 < removal_events_max"
  by (simp_all add: message_capacity_def events_per_subject_max_def flood_events_max_def removal_events_max_def)

definition remembers_enough :: "instant \<Rightarrow> chat_id \<Rightarrow> user_id \<Rightarrow> runtime \<Rightarrow> history \<Rightarrow> bool" where
  "remembers_enough t c u r h \<longleftrightarrow>
     (\<forall>w. c \<notin> lost h \<and> w \<le> messages_window_max \<and> (\<forall>w0 \<in> windows_in c u (said h). w \<le> w0) \<longrightarrow>
        min (message_capacity u) (length (in_window t w (times_in c u (said h)))) \<le> length (times_of u (messages (memory_of c r))))"

definition maps_distinct :: "chat_memory \<Rightarrow> bool" where
  "maps_distinct m \<longleftrightarrow> keys_distinct (messages m) \<and> keys_distinct (removals m) \<and> keys_distinct (notices m)"

definition logged_before :: "instant \<Rightarrow> (chat_id \<times> user_id \<times> instant \<times> duration) list \<Rightarrow> bool" where
  "logged_before t xs \<longleftrightarrow> sorted (map (\<lambda>(_, _, s, _). s) xs) \<and> (\<forall>(_, _, s, _) \<in> set xs. s \<le> t)"

definition events_ok :: "instant \<Rightarrow> runtime \<Rightarrow> history \<Rightarrow> bool" where
  "events_ok t r h \<longleftrightarrow> keys_distinct (chats r) \<and> logged_before t (said h) \<and> logged_before t (removed h) \<and>
     (\<forall>c. maps_distinct (memory_of c r)) \<and>
     (\<forall>c u. suffix (times_of u (messages (memory_of c r))) (times_in c u (said h)) \<and>
        suffix (times_of u (removals (memory_of c r))) (times_in c u (removed h)) \<and> remembers_enough t c u r h)"

lemma times_in_append: "times_in c u (xs @ [(d, v, s, w)]) = times_in c u xs @ (if d = c \<and> v = u then [s] else [])"
  by (simp add: times_in_def)

lemma windows_in_append: "windows_in c u (xs @ [(d, v, s, w)]) = windows_in c u xs \<union> (if d = c \<and> v = u then {w} else {})"
  by (auto simp: windows_in_def)

lemma logged_before_append: "logged_before t xs \<Longrightarrow> t \<le> s \<Longrightarrow> logged_before s (xs @ [(c, u, s, w)])"
  by (force simp: logged_before_def sorted_append)

lemma logged_before_mono: "logged_before t xs \<Longrightarrow> t \<le> s \<Longrightarrow> logged_before s xs"
  by (force simp: logged_before_def)

lemma times_in_before:
  assumes "logged_before t xs"
  shows "sorted (times_in c u xs)" and "\<forall>s \<in> set (times_in c u xs). s \<le> t"
proof -
  have "sorted (map (\<lambda>(_, _, s, _). s) (filter P xs))" for P
    using assms sorted_filter unfolding logged_before_def by blast
  then show "sorted (times_in c u xs)" by (simp add: times_in_def)
  show "\<forall>s \<in> set (times_in c u xs). s \<le> t" using assms by (fastforce simp: times_in_def logged_before_def)
qed

lemma in_window_later: "t \<le> now \<Longrightarrow> length (in_window now w L) \<le> length (in_window t w L)"
  by (induction L) (auto simp: in_window_def elapsed_def)

lemma in_window_wider: "w \<le> w' \<Longrightarrow> length (in_window now w L) \<le> length (in_window now w' L)"
  by (induction L) (auto simp: in_window_def)

lemma in_window_none:
  "sorted L \<Longrightarrow> L \<noteq> [] \<Longrightarrow> w \<le> elapsed now (last L) \<Longrightarrow> in_window now w L = []"
proof (induction L)
  case (Cons x L)
  then show ?case by (cases L) (force simp: in_window_def elapsed_def)+
qed simp

lemma in_window_snoc: "in_window now w (L @ [s]) = in_window now w L @ (if elapsed now s < w then [s] else [])"
  by (simp add: in_window_def)

lemma in_window_length: "length (in_window now w L) \<le> length L"
  by (simp add: in_window_def)

lemma record_messageD:
  assumes "record_message capacity now c u w r = (r', n)" and "try_state c r \<noteq> None" and "keys_distinct (chats r)"
  obtains ms ts where "ms = room_for_messages capacity now u (messages (memory_of c r))"
    and "record_event_at (times_of u ms) w (message_capacity u) now = (ts, n)"
    and "\<And>d. memory_of d r' = (if d = c then (memory_of c r)\<lparr>messages := AList.update u ts ms\<rparr> else memory_of d r)"
    and "keys_distinct (chats r')"
proof -
  from assms(2) obtain q m where q: "try_state c r = Some (q, m)" by auto
  note st = try_stateD [OF q]
  let ?ms = "room_for_messages capacity now u (messages m)"
  obtain ts k where ts: "record_event_at (times_of u ?ms) w (message_capacity u) now = (ts, k)" by fastforce
  then have e: "r' = put_memory c (m\<lparr>messages := AList.update u ts ?ms\<rparr>) q" "k = n"
    using assms(1) by (simp_all add: record_message_def q message_capacity_def Let_def)
  show ?thesis
  proof (rule that [of ?ms ts])
    show "keys_distinct (chats r')" using st(3) assms(3) by (simp add: e put_memory_def distinct_update)
  qed (use ts e st(1,2) in simp_all)
qed

lemma record_removalD:
  assumes "record_removal capacity now c u w r = (r', n)" and "try_state c r \<noteq> None" and "keys_distinct (chats r)"
  obtains ms ts where "ms = room_for_removals capacity now u w (removals (memory_of c r))"
    and "record_event_at (times_of u ms) w removal_events_max now = (ts, n)"
    and "\<And>d. memory_of d r' = (if d = c then (memory_of c r)\<lparr>removals := AList.update u ts ms\<rparr> else memory_of d r)"
    and "keys_distinct (chats r')"
proof -
  from assms(2) obtain q m where q: "try_state c r = Some (q, m)" by auto
  note st = try_stateD [OF q]
  let ?ms = "room_for_removals capacity now u w (removals m)"
  obtain ts k where ts: "record_event_at (times_of u ?ms) w removal_events_max now = (ts, k)" by fastforce
  then have e: "r' = put_memory c (m\<lparr>removals := AList.update u ts ?ms\<rparr>) q" "k = n"
    using assms(1) by (simp_all add: record_removal_def q Let_def)
  show ?thesis
  proof (rule that [of ?ms ts])
    show "keys_distinct (chats r')" using st(3) assms(3) by (simp add: e put_memory_def distinct_update)
  qed (use ts e st(1,2) in simp_all)
qed

lemma suffix_thinned:
  assumes "thinned m m'" and "suffix (times_of v m) L"
  shows "suffix (times_of v m') L"
  using times_of_thinned [OF assms(1), of v] assms(2) by auto

lemma message_events_ok:
  assumes ok: "events_ok t r h" and "t \<le> now" and "try_state c r \<noteq> None"
    and run: "record_message capacity now c u w r = (r', n)"
  shows "events_ok now r' (h\<lparr>said := said h @ [(c, u, now, w)],
      lost := (if roomy_for_message capacity now u (messages (memory_of c r)) then lost h else insert c (lost h))\<rparr>)"
    (is "events_ok now r' ?h")
proof -
  have base: "keys_distinct (chats r)" "logged_before t (said h)" "logged_before t (removed h)"
    "maps_distinct (memory_of d r)" "suffix (times_of v (messages (memory_of d r))) (times_in d v (said h))"
    "suffix (times_of v (removals (memory_of d r))) (times_in d v (removed h))" "remembers_enough t d v r h" for d v
    using ok by (auto simp: events_ok_def)
  obtain ms ts where ms: "ms = room_for_messages capacity now u (messages (memory_of c r))"
    and ts: "record_event_at (times_of u ms) w (message_capacity u) now = (ts, n)"
    and mem: "\<And>d. memory_of d r' = (if d = c then (memory_of c r)\<lparr>messages := AList.update u ts ms\<rparr> else memory_of d r)"
    and dist: "keys_distinct (chats r')"
    by (rule record_messageD [OF run assms(3) base(1)], rule that)
  have d: "keys_distinct (messages (memory_of c r))" using base(4) [of c] by (simp add: maps_distinct_def)
  have thin: "thinned (messages (memory_of c r)) ms" unfolding ms by (rule thinned_messages [OF d])
  have own: "times_of u ms = times_of u (messages (memory_of c r))" unfolding ms by (rule times_of_room [OF d])
  note L = times_in_before [OF base(2)]
  note ev = record_event_length [OF L(1) [of c u] base(5) [of u c, folded own] message_capacity_pos(1) ts]
  have suf: "suffix (times_of v (messages (memory_of d r'))) (times_in d v (said ?h))" for d v
    using ev(3) base(5) [of v d] suffix_thinned [OF thin base(5) [of v c]]
    by (auto simp: mem times_of_update times_in_append)
  have enough: "remembers_enough now d v r' ?h" for d v
    unfolding remembers_enough_def
  proof (intro allI impI)
    fix w'
    assume a: "d \<notin> lost ?h \<and> w' \<le> messages_window_max \<and> (\<forall>w0 \<in> windows_in d v (said ?h). w' \<le> w0)"
    let ?L = "times_in d v (said h)"
    have old: "min (message_capacity v) (length (in_window t w' ?L)) \<le> length (times_of v (messages (memory_of d r)))"
      using a base(7) [of d v] by (auto simp: remembers_enough_def windows_in_append split: if_splits)
    then have old_now: "min (message_capacity v) (length (in_window now w' ?L)) \<le> length (times_of v (messages (memory_of d r)))"
      using in_window_later [OF assms(2), of w' ?L] by linarith
    show "min (message_capacity v) (length (in_window now w' (times_in d v (said ?h)))) \<le> length (times_of v (messages (memory_of d r')))"
    proof (cases "d = c")
      case False
      then show ?thesis using old_now by (simp add: mem times_in_append)
    next
      case True
      then have roomy: "roomy_for_message capacity now u (messages (memory_of c r))" using a by (auto split: if_splits)
      show ?thesis
      proof (cases "v = u")
        case True
        have "w' \<le> w" using a True \<open>d = c\<close> by (auto simp: windows_in_append)
        then have "length (in_window now w' ?L) \<le> length (in_window now w ?L)" by (rule in_window_wider)
        moreover have "length (times_of v (messages (memory_of d r'))) = n" using ev(2) True \<open>d = c\<close> by (simp add: mem times_of_update)
        moreover have "length (in_window now w' (times_in d v (said ?h))) \<le> Suc (length (in_window now w' ?L))"
          using True \<open>d = c\<close> by (simp add: times_in_append in_window_snoc)
        ultimately show ?thesis using old_now ev(1) own True \<open>d = c\<close> by auto
      next
        case False
        have same: "times_in d v (said ?h) = ?L" using False by (simp add: times_in_append)
        have new: "times_of v (messages (memory_of d r')) = times_of v ms" using False True by (simp add: mem times_of_update)
        from roomy_keeps [OF d roomy, of v, folded ms]
        consider "times_of v ms = times_of v (messages (memory_of c r))" | "times_of v (messages (memory_of c r)) = []"
          | "times_of v (messages (memory_of c r)) \<noteq> []" "messages_window_max \<le> elapsed now (last (times_of v (messages (memory_of c r))))"
          by blast
        then show ?thesis
        proof cases
          case 1
          then show ?thesis using old_now True unfolding same new by simp
        next
          case 2
          then show ?thesis using old_now True unfolding same by simp
        next
          case 3
          have "?L \<noteq> []" "last ?L = last (times_of v (messages (memory_of c r)))"
            using base(5) [of v c] 3(1) True by (auto simp: suffix_def)
          then have "in_window now w' ?L = []"
            using in_window_none [OF L(1), of d v w' now] 3(2) a by force
          then show ?thesis unfolding same by simp
        qed
      qed
    qed
  qed
  have maps: "maps_distinct (memory_of d r')" for d
    using base(4) [of d] base(4) [of c] thin by (auto simp: mem maps_distinct_def thinned_def distinct_update)
  show ?thesis
    unfolding events_ok_def
    using dist maps suf enough base(6) logged_before_append [OF base(2) assms(2)] logged_before_mono [OF base(3) assms(2)]
    by (auto simp: mem)
qed

lemma enough_later:
  assumes "remembers_enough t c u r h" and "t \<le> now" and "said h' = said h" and "lost h \<subseteq> lost h'"
    and "c \<notin> lost h' \<Longrightarrow> times_of u (messages (memory_of c r')) = times_of u (messages (memory_of c r))"
  shows "remembers_enough now c u r' h'"
  unfolding remembers_enough_def assms(3)
proof (intro allI impI)
  fix w
  assume a: "c \<notin> lost h' \<and> w \<le> messages_window_max \<and> (\<forall>w0 \<in> windows_in c u (said h). w \<le> w0)"
  then have "min (message_capacity u) (length (in_window t w (times_in c u (said h)))) \<le> length (times_of u (messages (memory_of c r)))"
    using assms(1,4) unfolding remembers_enough_def by blast
  then show "min (message_capacity u) (length (in_window now w (times_in c u (said h)))) \<le> length (times_of u (messages (memory_of c r')))"
    using assms(5) a in_window_later [OF assms(2), of w "times_in c u (said h)"] by auto
qed

lemma removal_events_ok:
  assumes ok: "events_ok t r h" and "t \<le> now" and "try_state c r \<noteq> None"
    and run: "record_removal capacity now c u w r = (r', n)"
  shows "events_ok now r' (h\<lparr>removed := removed h @ [(c, u, now, w)]\<rparr>)" (is "events_ok now r' ?h")
proof -
  have base: "keys_distinct (chats r)" "logged_before t (said h)" "logged_before t (removed h)"
    "maps_distinct (memory_of d r)" "suffix (times_of v (messages (memory_of d r))) (times_in d v (said h))"
    "suffix (times_of v (removals (memory_of d r))) (times_in d v (removed h))" "remembers_enough t d v r h" for d v
    using ok by (auto simp: events_ok_def)
  obtain ms ts where ms: "ms = room_for_removals capacity now u w (removals (memory_of c r))"
    and ts: "record_event_at (times_of u ms) w removal_events_max now = (ts, n)"
    and mem: "\<And>d. memory_of d r' = (if d = c then (memory_of c r)\<lparr>removals := AList.update u ts ms\<rparr> else memory_of d r)"
    and dist: "keys_distinct (chats r')"
    by (rule record_removalD [OF run assms(3) base(1)], rule that)
  have d: "keys_distinct (removals (memory_of c r))" using base(4) [of c] by (simp add: maps_distinct_def)
  have thin: "thinned (removals (memory_of c r)) ms" unfolding ms by (rule thinned_removals [OF d])
  note L = times_in_before [OF base(3)]
  note ev = record_event_length [OF L(1) suffix_thinned [OF thin base(6)] message_capacity_pos(2) ts]
  have "suffix (times_of v (removals (memory_of d r'))) (times_in d v (removed ?h))" for d v
    using ev(3) base(6) [of v d] suffix_thinned [OF thin base(6) [of v c]]
    by (auto simp: mem times_of_update times_in_append)
  moreover have "messages (memory_of d r') = messages (memory_of d r)" for d by (simp add: mem)
  moreover from this have "remembers_enough now d v r' ?h" for d v
    by (intro enough_later [OF base(7) assms(2)]) simp_all
  moreover have "maps_distinct (memory_of d r')" for d
    using base(4) [of d] base(4) [of c] thin by (auto simp: mem maps_distinct_def thinned_def distinct_update)
  ultimately show ?thesis
    unfolding events_ok_def
    using dist base(5) logged_before_append [OF base(3) assms(2)] logged_before_mono [OF base(2) assms(2)] by auto
qed

text \<open>Steps that leave the two maps alone, or forget all of a group that is lost.\<close>

lemma kept_events_ok:
  assumes ok: "events_ok t r h" and "t \<le> now" and "keys_distinct (chats r')"
    and maps: "\<And>d. maps_distinct (memory_of d r')"
    and mem: "\<And>d. memory_of d r' = new_memory \<and> d \<in> lost h' \<or>
      (\<forall>v. times_of v (messages (memory_of d r')) = times_of v (messages (memory_of d r)) \<and>
           times_of v (removals (memory_of d r')) = times_of v (removals (memory_of d r)))"
    and h': "said h' = said h" "removed h' = removed h" "lost h \<subseteq> lost h'"
  shows "events_ok now r' h'"
proof -
  have empty: "times_of v (messages new_memory) = []" "times_of v (removals new_memory) = []" for v
    by (simp_all add: new_memory_def times_of_def)
  have "remembers_enough t d v r h" for d v using ok by (simp add: events_ok_def)
  then have "remembers_enough now d v r' h'" for d v
    using mem [of d] by (intro enough_later [OF _ assms(2) h'(1,3)]) auto
  moreover have "suffix (times_of v (messages (memory_of d r'))) (times_in d v (said h')) \<and>
      suffix (times_of v (removals (memory_of d r'))) (times_in d v (removed h'))" for d v
    using ok mem [of d] empty by (auto simp: events_ok_def h')
  ultimately show ?thesis
    using assms(3) maps ok logged_before_mono [OF _ assms(2)] unfolding events_ok_def h' by blast
qed

lemma throttle_memory:
  assumes "throttle_all capacity now c claims r = (r', True)" and "keys_distinct (chats r)"
  shows "\<not> list_ex (too_soon now (notices (memory_of c r))) claims"
    and "memory_of d r' = (if d = c then (memory_of c r)\<lparr>notices := fold (grant now) claims
           (room_for_notices capacity now (length claims) (notices (memory_of c r)))\<rparr> else memory_of d r)"
    and "keys_distinct (chats r')"
proof -
  obtain q m where q: "try_state c r = Some (q, m)" and no: "\<not> list_ex (too_soon now (notices m)) claims"
    and r': "r' = put_memory c (m\<lparr>notices := fold (grant now) claims (room_for_notices capacity now (length claims) (notices m))\<rparr>) q"
    using assms(1) by (auto simp: throttle_all_def split: option.splits if_splits)
  note st = try_stateD [OF q]
  show "\<not> list_ex (too_soon now (notices (memory_of c r))) claims" using no st(1) by simp
  show "memory_of d r' = (if d = c then (memory_of c r)\<lparr>notices := fold (grant now) claims
           (room_for_notices capacity now (length claims) (notices (memory_of c r)))\<rparr> else memory_of d r)"
    using st(1,2) by (simp add: r')
  show "keys_distinct (chats r')" using st(3) assms(2) by (simp add: r' put_memory_def distinct_update)
qed

lemma refused_memory:
  assumes "throttle_all capacity now c claims r = (r', False)"
  shows "memory_of d r' = memory_of d r" and "keys_distinct (chats r) \<Longrightarrow> keys_distinct (chats r')"
  using assms by (auto simp: throttle_all_def split: option.splits if_splits dest: try_stateD(2,3))

lemma release_memory:
  "memory_of d (release_flood_punishment c u r) =
     (if d = c then (memory_of c r)\<lparr>notices := AList.delete (kind_code FloodPunish, u) (notices (memory_of c r))\<rparr> else memory_of d r)"
  "keys_distinct (chats r) \<Longrightarrow> keys_distinct (chats (release_flood_punishment c u r))"
proof -
  show "memory_of d (release_flood_punishment c u r) =
     (if d = c then (memory_of c r)\<lparr>notices := AList.delete (kind_code FloodPunish, u) (notices (memory_of c r))\<rparr> else memory_of d r)"
  proof (cases "peek c r")
    case None
    then have "memory_of c r = new_memory" by (simp add: memory_of_def)
    then show ?thesis by (simp add: release_flood_punishment_def None new_memory_def)
  next
    case (Some m)
    then have "memory_of c r = m" by (simp add: memory_of_def)
    then show ?thesis by (simp add: release_flood_punishment_def Some)
  qed
  show "keys_distinct (chats (release_flood_punishment c u r))" if "keys_distinct (chats r)"
    using that by (simp add: release_flood_punishment_def put_memory_def distinct_update split: option.split)
qed

lemma evict_memory:
  assumes "evict_idle busy idle uptime r = (r', n)" and "keys_distinct (chats r)"
  shows "memory_of d r' = memory_of d r \<or> memory_of d r' = new_memory \<and> d \<in> fst ` set (chats r) - fst ` set (chats r')"
    and "keys_distinct (chats r')"
proof -
  have e: "chats r' = filter (\<lambda>(c, m). busy c \<or> \<not> evictable idle uptime m) (chats r)"
    using assms(1) by (auto simp: evict_idle_def Let_def)
  show "keys_distinct (chats r')" using assms(2) by (auto simp: e)
  show "memory_of d r' = memory_of d r \<or> memory_of d r' = new_memory \<and> d \<in> fst ` set (chats r) - fst ` set (chats r')"
  proof (cases "map_of (chats r) d")
    case None
    then show ?thesis by (simp add: memory_of_def peek_def e map_of_filter_distinct [OF assms(2)])
  next
    case (Some m)
    have one: "x = m" if "(d, x) \<in> set (chats r)" for x
      using map_of_is_SomeI [OF assms(2) [unfolded keys_distinct_def] that] Some by simp
    have m: "(d, m) \<in> set (chats r)" using Some by (rule map_of_SomeD)
    show ?thesis
    proof (cases "busy d \<or> \<not> evictable idle uptime m")
      case True
      then show ?thesis using Some by (simp add: memory_of_def peek_def e map_of_filter_distinct [OF assms(2)])
    next
      case False
      then have "d \<notin> fst ` set (chats r')" using one by (auto simp: e)
      moreover have "memory_of d r' = new_memory"
        using False Some by (simp add: memory_of_def peek_def e map_of_filter_distinct [OF assms(2)])
      moreover have "d \<in> fst ` set (chats r)" using m by force
      ultimately show ?thesis by blast
    qed
  qed
qed

lemma maps_distinct_new [simp]: "maps_distinct new_memory"
  by (simp add: maps_distinct_def new_memory_def keys_distinct_def)

lemma fold_grant_distinct: "keys_distinct ns \<Longrightarrow> keys_distinct (fold (grant now) claims ns)"
  by (induction claims arbitrary: ns) (auto simp: grant_def distinct_update)

lemma same_limits_maps:
  assumes "same_limits m m'" and "maps_distinct m"
  shows "maps_distinct m'" and "map_of (messages m') = map_of (messages m)" and "map_of (removals m') = map_of (removals m)"
    and "map_of (notices m') = map_of (notices m)"
  using assms map_of_permuted [of "messages m" "messages m'"] map_of_permuted [of "removals m" "removals m'"]
    map_of_permuted [of "notices m" "notices m'"] by (simp_all add: same_limits_def maps_distinct_def)

lemma rate_run_events_ok: "rate_run t r h \<Longrightarrow> events_ok t r h"
proof (induction rule: rate_run.induct)
  case (rate_begin r now)
  then have "memory_of c r = new_memory" for c by (simp add: memory_of_def peek_def)
  then show ?case
    by (simp add: events_ok_def keys_distinct_def rate_begin logged_before_def times_in_def remembers_enough_def in_window_def
        new_memory_def times_of_def maps_distinct_def)
next
  case (rate_message t r h now c capacity u w r' n)
  then show ?case by (intro message_events_ok)
next
  case (rate_removal t r h now c capacity u w r' n)
  then show ?case by (intro removal_events_ok)
next
  case (rate_grant t r h now capacity c claims r')
  have d: "keys_distinct (chats r)" "maps_distinct (memory_of d r)" for d using rate_grant.IH by (auto simp: events_ok_def)
  note m = throttle_memory [OF rate_grant.hyps(3) d(1)]
  have "maps_distinct (memory_of d r')" for d
    using d(2) [of d] d(2) [of c] thinned_notices [of "notices (memory_of c r)"]
    by (auto simp: m(2) maps_distinct_def thinned_def intro!: fold_grant_distinct)
  then show ?case by (intro kept_events_ok [OF rate_grant.IH rate_grant.hyps(2) m(3)]) (auto simp: m(2))
next
  case (rate_release t r h c u)
  have d: "keys_distinct (chats r)" "maps_distinct (memory_of d r)" for d using rate_release.IH by (auto simp: events_ok_def)
  show ?case
    using d(2) by (intro kept_events_ok [OF rate_release.IH order_refl release_memory(2) [OF d(1)]])
      (auto simp: release_memory(1) maps_distinct_def keys_distinct_def AList.distinct_delete)
next
  case (rate_evict t r h busy idle uptime r' n)
  have d: "keys_distinct (chats r)" "maps_distinct (memory_of d r)" for d using rate_evict.IH by (auto simp: events_ok_def)
  note e = evict_memory [OF rate_evict.hyps(2) d(1)]
  have "maps_distinct (memory_of c r')" for c using e(1) [of c] d(2) [of c] by auto
  then show ?case
  proof (intro kept_events_ok [OF rate_evict.IH order_refl e(2)])
    show "memory_of d r' = new_memory \<and> d \<in> lost (h\<lparr>lost := lost h \<union> (fst ` set (chats r) - fst ` set (chats r'))\<rparr>) \<or>
      (\<forall>v. times_of v (messages (memory_of d r')) = times_of v (messages (memory_of d r)) \<and>
           times_of v (removals (memory_of d r')) = times_of v (removals (memory_of d r)))" for d
      using e(1) [of d] by (elim disjE conjE) simp_all
  qed simp_all
next
  case (rate_other t r h now r')
  have d: "maps_distinct (memory_of d r)" for d using rate_other.IH by (auto simp: events_ok_def)
  note s = same_limits_maps [OF rate_other.hyps(4) d]
  show ?case
    by (intro kept_events_ok [OF rate_other.IH rate_other.hyps(2,3)]) (auto simp: s times_of_def)
qed

section \<open>Counting\<close>

text \<open>
  Nobody is punished for messages that were not sent. Whatever happened before, in this group or
  elsewhere, the number \<open>record_message\<close> returns is at most the number of messages of that member in the window, this
  one included. As long as nothing of the group had to be forgotten for lack of room and the window was not made
  longer in the meantime, it is exactly that number, up to the most a limit can ask for.
\<close>

theorem message_count_exact:
  assumes "rate_run t r h" and "t \<le> now" and "try_state c r \<noteq> None" and "record_message capacity now c u w r = (r', n)"
  shows "n \<le> Suc (length (in_window now w (times_in c u (said h)))) \<and>
    (c \<notin> lost h \<and> w \<le> messages_window_max \<and> (\<forall>w0 \<in> windows_in c u (said h). w \<le> w0) \<longrightarrow>
       n = min (message_capacity u) (Suc (length (in_window now w (times_in c u (said h))))))"
proof -
  have base: "keys_distinct (chats r)" "logged_before t (said h)" "maps_distinct (memory_of c r)"
    "suffix (times_of u (messages (memory_of c r))) (times_in c u (said h))" "remembers_enough t c u r h"
    using rate_run_events_ok [OF assms(1)] by (auto simp: events_ok_def)
  obtain ms ts where ms: "ms = room_for_messages capacity now u (messages (memory_of c r))"
    and ts: "record_event_at (times_of u ms) w (message_capacity u) now = (ts, n)"
    by (rule record_messageD [OF assms(4,3) base(1)], rule that)
  have own: "times_of u ms = times_of u (messages (memory_of c r))"
    unfolding ms using base(3) by (intro times_of_room) (simp add: maps_distinct_def)
  note n = record_event_length(1) [OF times_in_before(1) [OF base(2)] base(4) [folded own] message_capacity_pos(1) ts]
  have "min (message_capacity u) (length (in_window now w (times_in c u (said h)))) \<le> length (times_of u ms)"
    if "c \<notin> lost h \<and> w \<le> messages_window_max \<and> (\<forall>w0 \<in> windows_in c u (said h). w \<le> w0)"
    using base(5) that in_window_later [OF assms(2), of w "times_in c u (said h)"] unfolding remembers_enough_def own
    by (meson le_trans min.mono order_refl)
  then show ?thesis using n by auto
qed

text \<open>
  An administrator is not punished for removals that did not happen either: the number \<open>record_removal\<close> returns is at
  most the number of removals by that administrator in the window.
\<close>

theorem removals_not_overcounted:
  assumes "rate_run t r h" and "t \<le> now" and "try_state c r \<noteq> None" and "record_removal capacity now c u w r = (r', n)"
  shows "n \<le> Suc (length (in_window now w (times_in c u (removed h))))"
proof -
  have base: "keys_distinct (chats r)" "logged_before t (removed h)" "keys_distinct (removals (memory_of c r))"
    "suffix (times_of u (removals (memory_of c r))) (times_in c u (removed h))"
    using rate_run_events_ok [OF assms(1)] by (auto simp: events_ok_def maps_distinct_def)
  obtain ms ts where ms: "ms = room_for_removals capacity now u w (removals (memory_of c r))"
    and ts: "record_event_at (times_of u ms) w removal_events_max now = (ts, n)"
    by (rule record_removalD [OF assms(4,3) base(1)], rule that)
  have "suffix (times_of u ms) (times_in c u (removed h))"
    unfolding ms by (rule suffix_thinned [OF thinned_removals [OF base(3)] base(4)])
  from record_event_length(1) [OF times_in_before(1) [OF base(2)] this message_capacity_pos(2) ts]
  show ?thesis by simp
qed

section \<open>Throttles\<close>

definition remembers_grant :: "instant \<Rightarrow> (nat \<times> int, instant \<times> duration) hash_map \<Rightarrow> (instant \<times> duration) option \<Rightarrow> nat \<times> int \<Rightarrow> bool" where
  "remembers_grant t ns g k \<longleftrightarrow>
     (case g of None \<Rightarrow> True | Some (t0, e0) \<Rightarrow> t0 \<le> t \<and> (e0 \<le> elapsed t t0 \<or> map_of ns k = Some (t0, e0)))"

definition notices_ok :: "instant \<Rightarrow> runtime \<Rightarrow> history \<Rightarrow> bool" where
  "notices_ok t r h \<longleftrightarrow>
     (\<forall>c k x. map_of (notices (memory_of c r)) k = Some x \<longrightarrow> map_of (granted h) (c, k) = Some x) \<and>
     (\<forall>c k. c \<notin> lost h \<longrightarrow> remembers_grant t (notices (memory_of c r)) (map_of (granted h) (c, k)) k) \<and>
     (\<forall>((c, k), t0, e0) \<in> set (granted h). t0 \<le> t)"

lemma remembers_grant_later:
  "remembers_grant t ns g k \<Longrightarrow> t \<le> now \<Longrightarrow> (\<And>t0 e0. map_of ns k = Some (t0, e0) \<Longrightarrow> elapsed now t0 < e0 \<Longrightarrow> map_of ns' k = Some (t0, e0)) \<Longrightarrow>
     remembers_grant now ns' g k"
  by (force simp: remembers_grant_def elapsed_def split: option.splits)

lemma log_grants_Cons: "log_grants c now ((kind, key, every) # claims) g = log_grants c now claims (((c, kind, key), now, every) # g)"
  by (simp add: log_grants_def)

lemma log_grants_other: "d \<noteq> c \<Longrightarrow> map_of (log_grants c now claims g) (d, k) = map_of g (d, k)"
  by (induction claims arbitrary: g) (auto simp: log_grants_def)

lemma log_grants_times: "e \<in> set (log_grants c now claims g) \<Longrightarrow> e \<in> set g \<or> fst (snd e) = now"
  by (induction claims arbitrary: g) (force simp: log_grants_def)+

lemma fold_grant_log:
  "(map_of ns k = Some x \<Longrightarrow> map_of g (c, k) = Some x) \<Longrightarrow>
     map_of (fold (grant now) claims ns) k = Some x \<Longrightarrow> map_of (log_grants c now claims g) (c, k) = Some x"
proof (induction claims arbitrary: ns g)
  case Nil
  then show ?case by (simp add: log_grants_def)
next
  case (Cons q claims)
  obtain kind key every where q: "q = (kind, key, every)" by (cases q)
  show ?case
    unfolding q log_grants_Cons
    by (rule Cons.IH [of "grant now q ns"]) (use Cons.prems in \<open>auto simp: q grant_def map_of_update split: if_splits\<close>)
qed

lemma fold_grant_remembers:
  "remembers_grant now ns (map_of g (c, k)) k \<Longrightarrow>
     remembers_grant now (fold (grant now) claims ns) (map_of (log_grants c now claims g) (c, k)) k"
proof (induction claims arbitrary: ns g)
  case Nil
  then show ?case by (simp add: log_grants_def)
next
  case (Cons q claims)
  obtain kind key every where q: "q = (kind, key, every)" by (cases q)
  show ?case
    unfolding q log_grants_Cons
    by (simp, rule Cons.IH) (use Cons.prems in \<open>auto simp: grant_def map_of_update remembers_grant_def split: option.splits\<close>)
qed

lemma notices_okD:
  assumes "notices_ok t r h"
  shows "map_of (notices (memory_of c r)) k = Some x \<Longrightarrow> map_of (granted h) (c, k) = Some x"
    and "c \<notin> lost h \<Longrightarrow> remembers_grant t (notices (memory_of c r)) (map_of (granted h) (c, k)) k"
    and "((c, k), t0, e0) \<in> set (granted h) \<Longrightarrow> t0 \<le> t"
  using assms unfolding notices_ok_def by blast+

lemma notices_okI:
  assumes "\<And>c k x. map_of (notices (memory_of c r)) k = Some x \<Longrightarrow> map_of (granted h) (c, k) = Some x"
    and "\<And>c k. c \<notin> lost h \<Longrightarrow> remembers_grant t (notices (memory_of c r)) (map_of (granted h) (c, k)) k"
    and "\<And>c k t0 e0. ((c, k), t0, e0) \<in> set (granted h) \<Longrightarrow> t0 \<le> t"
  shows "notices_ok t r h"
  using assms unfolding notices_ok_def by blast

lemma notices_ok_kept:
  assumes "notices_ok t r h" and "t \<le> now" and "granted h' = granted h" and "lost h \<subseteq> lost h'"
    and mem: "\<And>d. map_of (notices (memory_of d r')) = map_of (notices (memory_of d r)) \<or> notices (memory_of d r') = [] \<and> d \<in> lost h'"
  shows "notices_ok now r' h'"
proof (rule notices_okI)
  note ok = notices_okD [OF assms(1)]
  show "map_of (granted h') (d, k) = Some x" if "map_of (notices (memory_of d r')) k = Some x" for d k x
    using mem [of d] that ok(1) [of d k x] unfolding assms(3) by (elim disjE conjE) simp_all
  show "remembers_grant now (notices (memory_of d r')) (map_of (granted h') (d, k)) k" if "d \<notin> lost h'" for d k
  proof (rule remembers_grant_later)
    show "remembers_grant t (notices (memory_of d r)) (map_of (granted h') (d, k)) k"
      unfolding assms(3) by (rule ok(2)) (use that assms(4) in blast)
  qed (use mem [of d] that assms(2) in auto)
  show "t0 \<le> now" if "((d, k), t0, e0) \<in> set (granted h')" for d k t0 e0
    using ok(3) [of d k t0 e0] that assms(2,3) by simp
qed

lemma rate_run_notices_ok: "rate_run t r h \<Longrightarrow> notices_ok t r h"
proof (induction rule: rate_run.induct)
  case (rate_begin r now)
  then have "memory_of c r = new_memory" for c by (simp add: memory_of_def peek_def)
  then show ?case by (simp add: notices_ok_def new_memory_def remembers_grant_def)
next
  case (rate_message t r h now c capacity u w r' n)
  have d: "keys_distinct (chats r)" using rate_run_events_ok [OF rate_message.hyps(1)] by (simp add: events_ok_def)
  obtain ms ts where
    mem: "\<And>d. memory_of d r' = (if d = c then (memory_of c r)\<lparr>messages := AList.update u ts ms\<rparr> else memory_of d r)"
    by (rule record_messageD [OF rate_message.hyps(4,3) d], rule that)
  show ?case by (rule notices_ok_kept [OF rate_message.IH rate_message.hyps(2)]) (auto simp: mem)
next
  case (rate_removal t r h now c capacity u w r' n)
  have d: "keys_distinct (chats r)" using rate_run_events_ok [OF rate_removal.hyps(1)] by (simp add: events_ok_def)
  obtain ms ts where
    mem: "\<And>d. memory_of d r' = (if d = c then (memory_of c r)\<lparr>removals := AList.update u ts ms\<rparr> else memory_of d r)"
    by (rule record_removalD [OF rate_removal.hyps(4,3) d], rule that)
  show ?case by (rule notices_ok_kept [OF rate_removal.IH rate_removal.hyps(2)]) (auto simp: mem)
next
  case (rate_grant t r h now capacity c claims r')
  have d: "keys_distinct (chats r)" "keys_distinct (notices (memory_of c r))"
    using rate_run_events_ok [OF rate_grant.hyps(1)] by (auto simp: events_ok_def maps_distinct_def)
  note m = throttle_memory(2) [OF rate_grant.hyps(3) d(1)]
  note ok = notices_okD [OF rate_grant.IH]
  let ?ns = "room_for_notices capacity now (length claims) (notices (memory_of c r))"
  have thin: "map_of ?ns k = Some x \<Longrightarrow> map_of (notices (memory_of c r)) k = Some x" for k x
    using thinned_notices [OF d(2), of capacity now "length claims"] unfolding thinned_def by (metis option.distinct(1))
  show ?case
  proof (rule notices_okI)
    show "map_of (granted (h\<lparr>granted := log_grants c now claims (granted h),
        lost := if roomy_for_notices capacity now (length claims) (notices (memory_of c r)) then lost h else insert c (lost h)\<rparr>)) (e, k) = Some x"
      if "map_of (notices (memory_of e r')) k = Some x" for e k x
    proof (cases "e = c")
      case True
      have "map_of (log_grants c now claims (granted h)) (c, k) = Some x"
        by (rule fold_grant_log [of ?ns]) (use thin ok(1) that True in \<open>simp_all add: m\<close>)
      then show ?thesis using True by simp
    next
      case False
      then show ?thesis using that ok(1) [of e k x] by (simp add: m log_grants_other)
    qed
  next
    fix e k
    assume e: "e \<notin> lost (h\<lparr>granted := log_grants c now claims (granted h),
        lost := if roomy_for_notices capacity now (length claims) (notices (memory_of c r)) then lost h else insert c (lost h)\<rparr>)"
    have "remembers_grant now (notices (memory_of e r')) (map_of (log_grants c now claims (granted h)) (e, k)) k"
    proof (cases "e = c")
      case True
      then have roomy: "roomy_for_notices capacity now (length claims) (notices (memory_of c r))" and c: "c \<notin> lost h"
        using e by (auto split: if_splits)
      from remembers_grant_later [OF ok(2) [OF c] rate_grant.hyps(2) roomy_notices_keeps [OF d(2) roomy]]
      have "remembers_grant now ?ns (map_of (granted h) (c, k)) k" .
      then show ?thesis using True fold_grant_remembers by (simp add: m)
    next
      case False
      then have "e \<notin> lost h" using e by (auto split: if_splits)
      from remembers_grant_later [OF ok(2) [OF this] rate_grant.hyps(2)] False
      show ?thesis by (simp add: m log_grants_other)
    qed
    then show "remembers_grant now (notices (memory_of e r')) (map_of (granted (h\<lparr>granted := log_grants c now claims (granted h),
        lost := if roomy_for_notices capacity now (length claims) (notices (memory_of c r)) then lost h else insert c (lost h)\<rparr>)) (e, k)) k"
      by simp
  next
    fix e k t0 e0
    assume "((e, k), t0, e0) \<in> set (granted (h\<lparr>granted := log_grants c now claims (granted h),
        lost := if roomy_for_notices capacity now (length claims) (notices (memory_of c r)) then lost h else insert c (lost h)\<rparr>))"
    then show "t0 \<le> now"
      using ok(3) [of e k t0 e0] rate_grant.hyps(2) log_grants_times [of "((e, k), t0, e0)" c now claims "granted h"] by auto
  qed
next
  case (rate_release t r h c u)
  let ?k = "(kind_code FloodPunish, u)"
  have g: "map_of (AList.delete (c, ?k) (granted h)) (d, k) = (if d = c \<and> k = ?k then None else map_of (granted h) (d, k))" for d k
    by (simp add: map_of_delete)
  have n: "map_of (notices (memory_of d (release_flood_punishment c u r))) k =
      (if d = c \<and> k = ?k then None else map_of (notices (memory_of d r)) k)" for d k
    by (simp add: release_memory(1) map_of_delete)
  note ok = notices_okD [OF rate_release.IH]
  show ?case
  proof (rule notices_okI)
    show "map_of (granted (h\<lparr>granted := AList.delete (c, ?k) (granted h)\<rparr>)) (d, k) = Some x"
      if "map_of (notices (memory_of d (release_flood_punishment c u r))) k = Some x" for d k x
      using that ok(1) [of d k x] unfolding n by (simp add: g del: map_of_eq_None_iff split: if_splits)
    show "remembers_grant t (notices (memory_of d (release_flood_punishment c u r)))
        (map_of (granted (h\<lparr>granted := AList.delete (c, ?k) (granted h)\<rparr>)) (d, k)) k"
      if "d \<notin> lost (h\<lparr>granted := AList.delete (c, ?k) (granted h)\<rparr>)" for d k
      using ok(2) [of d k] that unfolding remembers_grant_def n by (auto simp: g simp del: kind_code.simps split: option.splits)
    show "t0 \<le> t" if "((d, k), t0, e0) \<in> set (granted (h\<lparr>granted := AList.delete (c, ?k) (granted h)\<rparr>))" for d k t0 e0
      using that ok(3) [of d k t0 e0] by (auto simp: AList.delete_eq)
  qed
next
  case (rate_evict t r h busy idle uptime r' n)
  have d: "keys_distinct (chats r)" using rate_run_events_ok [OF rate_evict.hyps(1)] by (simp add: events_ok_def)
  show ?case
  proof (rule notices_ok_kept [OF rate_evict.IH order_refl])
    show "map_of (notices (memory_of d r')) = map_of (notices (memory_of d r)) \<or> notices (memory_of d r') = [] \<and>
      d \<in> lost (h\<lparr>lost := lost h \<union> (fst ` set (chats r) - fst ` set (chats r'))\<rparr>)" for d
      using evict_memory(1) [OF rate_evict.hyps(2) d, of d] by (elim disjE conjE) (simp_all add: new_memory_def)
  qed simp_all
next
  case (rate_other t r h now r')
  have d: "maps_distinct (memory_of d r)" for d using rate_run_events_ok [OF rate_other.hyps(1)] by (auto simp: events_ok_def)
  show ?case
    by (rule notices_ok_kept [OF rate_other.IH rate_other.hyps(2)]) (simp_all add: same_limits_maps(4) [OF rate_other.hyps(4) d])
qed

text \<open>
  A notice, a punishment or a report is not repeated too soon, and not held back without a reason. When a claim is
  granted, every part of it was last granted at least as long ago as the shorter of the two pauses asked for then and now, as long as
  nothing of the group had to be forgotten. When it is refused although the group is known, some part of it was
  granted less than the pause ago, and nothing is recorded: of a claim of two parts, both are granted or none.
\<close>

theorem throttles_hold:
  assumes "rate_run t r h" and "t \<le> now" and "throttle_all capacity now c claims r = (r', ok)"
  shows "(ok \<and> c \<notin> lost h \<longrightarrow>
      (\<forall>(kind, key, every) \<in> set claims. \<forall>t0 e0. map_of (granted h) (c, kind, key) = Some (t0, e0) \<longrightarrow> min e0 every \<le> now - t0)) \<and>
    (\<not> ok \<longrightarrow> (\<forall>d. memory_of d r' = memory_of d r) \<and>
      (try_state c r \<noteq> None \<longrightarrow>
        (\<exists>(kind, key, every) \<in> set claims. \<exists>t0 e0. map_of (granted h) (c, kind, key) = Some (t0, e0) \<and> now - t0 < every)))"
proof -
  have d: "keys_distinct (chats r)" using rate_run_events_ok [OF assms(1)] by (simp add: events_ok_def)
  note n = rate_run_notices_ok [OF assms(1)]
  show ?thesis
  proof (cases ok)
    case True
    have run: "throttle_all capacity now c claims r = (r', True)" using assms(3) True by simp
    note no = throttle_memory(1) [OF run d]
    have "min e0 every \<le> now - t0"
      if "c \<notin> lost h" "(kind, key, every) \<in> set claims" "map_of (granted h) (c, kind, key) = Some (t0, e0)" for kind key every t0 e0
    proof -
      have t0: "t0 \<le> t" "e0 \<le> elapsed t t0 \<or> map_of (notices (memory_of c r)) (kind, key) = Some (t0, e0)"
        using notices_okD(2) [OF n that(1), of "(kind, key)"] that(3) by (auto simp: remembers_grant_def)
      have "\<not> too_soon now (notices (memory_of c r)) (kind, key, every)" using no that(2) by (auto simp: list_ex_iff)
      then show ?thesis using t0 assms(2) by (auto simp: too_soon_def elapsed_def)
    qed
    then show ?thesis using True by auto
  next
    case False
    have run: "throttle_all capacity now c claims r = (r', False)" using assms(3) False by simp
    have "\<exists>(kind, key, every) \<in> set claims. \<exists>t0 e0. map_of (granted h) (c, kind, key) = Some (t0, e0) \<and> now - t0 < every"
      if "try_state c r \<noteq> None"
    proof -
      from that obtain q m where q: "try_state c r = Some (q, m)" by auto
      then have "list_ex (too_soon now (notices (memory_of c r))) claims"
        using run try_stateD(1) [OF q] by (auto simp: throttle_all_def split: if_splits)
      then obtain kind key every t0 e0 where k: "(kind, key, every) \<in> set claims"
        "map_of (notices (memory_of c r)) (kind, key) = Some (t0, e0)" "elapsed now t0 < every"
        by (auto simp: list_ex_iff too_soon_def split: option.splits)
      moreover have "map_of (granted h) (c, kind, key) = Some (t0, e0)" using notices_okD(1) [OF n k(2)] .
      ultimately show ?thesis by (fastforce simp: elapsed_def)
    qed
    then show ?thesis using False refused_memory(1) [OF run] by auto
  qed
qed

section \<open>Examples\<close>

definition sample_runtime :: runtime where
  "sample_runtime = \<lparr>max_runtime_chats = 10, allowed_chats = None, chats = [], dirty_logs = \<lparr>members = {}, waiting = []\<rparr>,
     dirty_media = \<lparr>members = {}, waiting = []\<rparr>, dirty_stats = \<lparr>members = {}, waiting = []\<rparr>, poisoned = False\<rparr>"

definition no_history :: history where
  "no_history = \<lparr>said = [], removed = [], granted = [], lost = {}\<rparr>"

lemmas rate_evals = record_message_def record_removal_def try_state_def owns_chat_def peek_def put_memory_def new_memory_def
  memory_of_def room_for_messages_def room_for_removals_def pruned_def prune_before_growth_def has_key_def per_chat_max_def
  record_event_at_def times_of_def flood_events_max_def flood_limit_range_def removal_events_max_def betrayal_limit_range_def
  elapsed_def secs_def newest_within_def removals_window_max_def betrayal_window_range_def roomy_for_message_def
  roomy_for_notices_def throttle_all_def room_for_notices_def grant_def too_soon_def Let_def

definition sample_said :: runtime where
  "sample_said = fst (record_message 0 0 1 7 (secs 10) sample_runtime)"

lemma sample_begin: "rate_run 0 sample_runtime no_history"
  unfolding no_history_def by (rule rate_begin) (simp add: sample_runtime_def)

lemma sample_said_run: "rate_run 0 sample_said (no_history\<lparr>said := [(1, 7, 0, secs 10)]\<rparr>)"
proof -
  have run: "record_message 0 0 1 7 (secs 10) sample_runtime = (sample_said, 1)"
    by (simp add: sample_said_def sample_runtime_def rate_evals)
  have "try_state 1 sample_runtime \<noteq> None" by (simp add: sample_runtime_def try_state_def owns_chat_def peek_def)
  from rate_message [OF sample_begin order_refl this run] show ?thesis
    by (simp add: sample_runtime_def rate_evals no_history_def)
qed

lemma sample_said_known: "try_state 1 sample_said \<noteq> None"
  by (simp add: sample_said_def sample_runtime_def record_message_def try_state_def owns_chat_def peek_def put_memory_def
      record_event_at_def Let_def)

lemma message_count_example: "snd (record_message 3 (secs 3) 1 7 (secs 10) sample_said) = 2"
proof -
  obtain r' n where run: "record_message 3 (secs 3) 1 7 (secs 10) sample_said = (r', n)" by fastforce
  have "(0 :: instant) \<le> secs 3" by (simp add: secs_def)
  from message_count_exact [OF sample_said_run this sample_said_known run]
  have "n = min (message_capacity 7) (Suc (length (in_window (secs 3) (secs 10) [0])))"
    by (simp add: no_history_def windows_in_def times_in_def messages_window_max_def flood_window_range_def raid_window_range_def
        secs_def)
  moreover have "in_window (secs 3) (secs 10) [0] = [0]" by (simp add: in_window_def secs_def elapsed_def)
  ultimately show ?thesis by (simp add: run message_capacity_def flood_events_max_def flood_limit_range_def)
qed

lemma removal_count_example: "snd (record_removal 0 0 1 7 (secs 300) sample_runtime) \<le> 1"
proof -
  obtain r' n where run: "record_removal 0 0 1 7 (secs 300) sample_runtime = (r', n)" by fastforce
  have "n \<le> Suc (length (in_window 0 (secs 300) []))"
    using removals_not_overcounted [OF sample_begin _ _ run]
    by (simp add: sample_runtime_def try_state_def owns_chat_def peek_def no_history_def times_in_def)
  then show ?thesis by (simp add: run in_window_def)
qed

lemma throttles_hold_example:
  "\<not> snd (throttle_all 3 5 1 [(2, 7, 10)] (fst (throttle_all 0 0 1 [(2, 7, 10)] sample_runtime)))"
proof -
  obtain q where q: "throttle_all 0 0 1 [(2, 7, 10)] sample_runtime = (q, True)"
    by (simp add: sample_runtime_def rate_evals)
  have "rate_run 0 q (no_history\<lparr>granted := [((1, 2, 7), 0, 10)]\<rparr>)"
    using rate_grant [OF sample_begin order_refl q] by (simp add: sample_runtime_def rate_evals no_history_def log_grants_def)
  moreover obtain r' ok where run: "throttle_all 3 5 1 [(2, 7, 10)] q = (r', ok)" by fastforce
  ultimately have "\<not> ok" using throttles_hold [OF _ _ run] by (fastforce simp: no_history_def)
  then show ?thesis by (simp add: q run)
qed

section \<open>A window that is cut short\<close>

text \<open>
  The window for removals is given in minutes, up to two hours, but entries are forgotten after
  \<open>REMOVALS_WINDOW_MAX\<close>, the same number of seconds. Three removals by administrator 7 within two seconds
  are forgotten when three other administrators remove someone two minutes later, far from any lack of
  room (the map holds three entries, the capacity of its first allocation), so that the fourth removal inside the default window of
  five minutes counts as the first.
\<close>

definition with_removals :: "(user_id, instant list) hash_map \<Rightarrow> runtime" where
  "with_removals m = sample_runtime\<lparr>chats := [(1, new_memory\<lparr>removals := m\<rparr>)]\<rparr>"

lemma record_removal_in:
  "record_removal capacity now 1 u w (with_removals m) =
     (let ms = room_for_removals capacity now u w m; (ts, n) = record_event_at (times_of u ms) w removal_events_max now
      in (with_removals (AList.update u ts ms), n))"
  by (simp add: with_removals_def sample_runtime_def record_removal_def try_state_def owns_chat_def peek_def put_memory_def Let_def
      split: prod.split)

lemmas removal_evals = record_removal_in room_for_removals_def pruned_def prune_before_growth_def has_key_def per_chat_max_def
  record_event_at_def times_of_def removal_events_max_def betrayal_limit_range_def elapsed_def secs_def newest_within_def
  removals_window_max_def betrayal_window_range_def Let_def

lemma removal_window_is_cut:
  "record_removal 0 0 1 7 (secs 300) (with_removals []) = (with_removals [(7, [0])], 1)"
  "record_removal 3 (secs 1) 1 7 (secs 300) (with_removals [(7, [0])]) = (with_removals [(7, [0, secs 1])], 2)"
  "record_removal 3 (secs 2) 1 7 (secs 300) (with_removals [(7, [0, secs 1])]) = (with_removals [(7, [0, secs 1, secs 2])], 3)"
  "record_removal 3 (secs 130) 1 8 (secs 300) (with_removals [(7, [0, secs 1, secs 2])]) =
     (with_removals [(7, [0, secs 1, secs 2]), (8, [secs 130])], 1)"
  "record_removal 3 (secs 130) 1 9 (secs 300) (with_removals [(7, [0, secs 1, secs 2]), (8, [secs 130])]) =
     (with_removals [(7, [0, secs 1, secs 2]), (8, [secs 130]), (9, [secs 130])], 1)"
  "record_removal 3 (secs 130) 1 10 (secs 300) (with_removals [(7, [0, secs 1, secs 2]), (8, [secs 130]), (9, [secs 130])]) =
     (with_removals [(8, [secs 130]), (9, [secs 130]), (10, [secs 130])], 1)"
  "snd (record_removal 3 (secs 131) 1 7 (secs 300) (with_removals [(8, [secs 130]), (9, [secs 130]), (10, [secs 130])])) = 1"
  "length (in_window (secs 131) (secs 300) [0, secs 1, secs 2]) = 3"
  by (simp_all add: removal_evals in_window_def)

end
