(* ===== verification/FloodControl.thy ===== *)
theory FloodControl
  imports RateFacts CaseHandlers
begin

text \<open>
  What the bot does when a member floods a group, when an administrator removes many members and when many
  members join at once: \<open>src/src/handlers/flood.rs\<close>, \<open>betrayal.rs\<close> and \<open>raid.rs\<close>. Whether a member is exempt,
  whether Telegram knows the message's peers and what it answers are parameters, and so is what the rest of the bot does
  to the memory while a handler waits for them. \<open>None\<close> is a panic of the settings.
\<close>

section \<open>Settings\<close>

definition clamped_number :: "chat_settings \<Rightarrow> string \<Rightarrow> int \<Rightarrow> int \<times> int \<Rightarrow> int option" where
  "clamped_number cs key dflt bounds =
     map_option (\<lambda>v. clamp (fst bounds) (snd bounds) (case v of None \<Rightarrow> dflt | Some n \<Rightarrow> n))
       (setting_value_parsed parse_u32 cs (ascii key))"

definition flood_limit :: "chat_settings \<Rightarrow> int option" where
  "flood_limit cs = setting_number cs (ascii ''flood_limit'') 8 flood_limit_range"

definition flood_window :: "chat_settings \<Rightarrow> int option" where
  "flood_window cs = setting_number cs (ascii ''flood_window'') 10 flood_window_range"

definition flood_bans :: "chat_settings \<Rightarrow> bool" where
  "flood_bans cs \<longleftrightarrow> setting_text cs (ascii ''flood_action'') = Some (ascii ''ban'')"

definition betrayal_number :: "chat_settings \<Rightarrow> string \<Rightarrow> int \<Rightarrow> int \<times> int \<Rightarrow> int" where
  "betrayal_number cs key dflt bounds =
     clamp (fst bounds) (snd bounds) (case Option.bind (setting_text cs (ascii key)) parse_u32 of None \<Rightarrow> dflt | Some n \<Rightarrow> n)"

definition betrayal_limit :: "chat_settings \<Rightarrow> int" where
  "betrayal_limit cs = betrayal_number cs ''betrayal_limit'' 5 betrayal_limit_range"

definition betrayal_window :: "chat_settings \<Rightarrow> int" where
  "betrayal_window cs = betrayal_number cs ''betrayal_window'' 5 betrayal_window_range"

definition raid_limit :: "chat_settings \<Rightarrow> int option" where
  "raid_limit cs = clamped_number cs ''raid_limit'' 10 raid_limit_range"

definition raid_window :: "chat_settings \<Rightarrow> int option" where
  "raid_window cs = clamped_number cs ''raid_window'' 30 raid_window_range"

definition raid_minutes :: "chat_settings \<Rightarrow> int option" where
  "raid_minutes cs = clamped_number cs ''raid_time'' 60 (1, 10080)"

section \<open>Floods\<close>





section \<open>Removals\<close>

definition removal_punishes ::
  "chat_settings \<Rightarrow> nat \<times> nat \<Rightarrow> instant \<Rightarrow> chat_id \<Rightarrow> user_id \<Rightarrow> runtime \<Rightarrow> runtime \<times> nat option" where
  "removal_punishes cs capacities now c actor r =
     (case record_removal (fst capacities) now c actor (secs (betrayal_window cs * 60)) r of
        (r1, found) \<Rightarrow>
          if int found > betrayal_limit cs
          then (case claim_betrayal (snd capacities) now c actor r1 of (r2, ok) \<Rightarrow> (r2, if ok then Some found else None))
          else (r1, None))"

section \<open>Raids\<close>








section \<open>What they guarantee\<close>




lemma record_known: "try_state c r = None \<Longrightarrow> snd (record_removal capacity now c u w r) = 0"
  by (simp add: record_removal_def)

text \<open>
  C39: an administrator is demoted for removals that happened. \<open>removal_punishes\<close> answers with a number only when it is over
  the limit, which is at least two, and at most the number of removals by that administrator in the window, and, as long as
  nothing of the group had to be forgotten, at most once in a minute.
\<close>

theorem demotion_has_grounds:
  assumes "rate_run t r h" and "t \<le> now" and "removal_punishes cs capacities now c actor r = (r', Some n)"
  shows "2 \<le> betrayal_limit cs \<and> betrayal_limit cs < int n \<and>
    n \<le> Suc (length (in_window now (secs (betrayal_window cs * 60)) (times_in c actor (removed h)))) \<and>
    (c \<notin> lost h \<longrightarrow> (\<forall>t0. map_of (granted h) (c, kind_code Betrayal, actor) = Some (t0, secs 60) \<longrightarrow> secs 60 \<le> now - t0))"
proof -
  let ?w = "secs (betrayal_window cs * 60)"
  obtain r1 k where rec: "record_removal (fst capacities) now c actor ?w r = (r1, k)" by fastforce
  obtain r2 ok where claim: "throttle_all (snd capacities) now c [(kind_code Betrayal, actor, secs 60)] r1 = (r2, ok)" by fastforce
  have k: "k = n" "ok" "betrayal_limit cs < int n"
    using assms(3) claim by (auto simp: removal_punishes_def rec claim_betrayal_def throttle_def split: if_splits)
  have two: "2 \<le> betrayal_limit cs"
    by (simp add: betrayal_limit_def betrayal_number_def betrayal_limit_range_def clamp_def)
  have known: "try_state c r \<noteq> None" using record_known [of c r "fst capacities" now actor ?w] rec k(1,3) two by fastforce
  note n = removals_not_overcounted [OF assms(1,2) known rec]
  have "rate_run now r1 (h\<lparr>removed := removed h @ [(c, actor, now, ?w)]\<rparr>)" by (rule rate_removal [OF assms(1,2) known rec])
  from throttles_hold [OF this order_refl claim] k(2)
  have "c \<notin> lost h \<longrightarrow> (\<forall>t0. map_of (granted h) (c, kind_code Betrayal, actor) = Some (t0, secs 60) \<longrightarrow> secs 60 \<le> now - t0)"
    by fastforce
  then show ?thesis using n k two by simp
qed

section \<open>Raids\<close>







section \<open>Examples\<close>

definition sample_rows :: chat_settings where
  "sample_rows = Some [(ascii ''betrayal_limit'', ascii ''2''), (ascii ''flood'', []), (ascii ''flood_limit'', ascii ''2''),
     (ascii ''raid_limit'', ascii ''2'')]"

lemma sample_numbers:
  "betrayal_limit sample_rows = 2" "betrayal_window sample_rows = 5" "flood_limit sample_rows = Some 2"
  "flood_window sample_rows = Some 10" "flood_bans sample_rows = False" "setting_is_locked sample_rows (ascii ''flood'')"
  "raid_window sample_rows = Some 30" "raid_limit sample_rows = Some 2" "raid_minutes sample_rows = Some 60"
  by code_simp+

lemma sample_removals_run: "\<exists>h. rate_run 1 (with_removals [(7, [0, 1])]) h"
proof -
  have "record_removal 0 0 1 7 (secs 300) sample_runtime = (with_removals [(7, [0])], 1)"
    by (simp add: sample_runtime_def with_removals_def rate_evals)
  moreover have "try_state 1 sample_runtime \<noteq> None" by (simp add: sample_runtime_def try_state_def owns_chat_def peek_def)
  ultimately obtain h where h: "rate_run 0 (with_removals [(7, [0])]) h" using rate_removal [OF sample_begin order_refl] by blast
  have "record_removal 3 1 1 7 (secs 300) (with_removals [(7, [0])]) = (with_removals [(7, [0, 1])], 2)"
    by (simp add: removal_evals)
  moreover have "try_state 1 (with_removals [(7, [0])]) \<noteq> None"
    by (simp add: with_removals_def sample_runtime_def try_state_def owns_chat_def peek_def)
  ultimately show ?thesis using rate_removal [OF h, of 1] by fastforce
qed

lemma demotion_has_grounds_witness:
  "\<exists>h :: history. snd (removal_punishes sample_rows (3, 0) 2 1 7 (with_removals [(7, [0, 1])])) = Some 3 \<and>
     3 \<le> Suc (length (in_window 2 (secs 300) (times_in 1 7 (removed h))))"
proof -
  obtain h where h: "rate_run 1 (with_removals [(7, [0, 1])]) h" using sample_removals_run by blast
  have "record_removal 3 2 1 7 (secs 300) (with_removals [(7, [0, 1])]) = (with_removals [(7, [0, 1, 2])], 3)"
    by (simp add: removal_evals)
  moreover obtain r' where "claim_betrayal 0 2 1 7 (with_removals [(7, [0, 1, 2])]) = (r', True)"
    by (simp add: claim_betrayal_def throttle_def with_removals_def sample_runtime_def throttle_all_def try_state_def owns_chat_def
        peek_def new_memory_def too_soon_def)
  ultimately have r': "removal_punishes sample_rows (3, 0) 2 1 7 (with_removals [(7, [0, 1])]) = (r', Some 3)"
    by (simp add: removal_punishes_def sample_numbers)
  have "3 \<le> Suc (length (in_window 2 (secs 300) (times_in 1 7 (removed h))))"
    using demotion_has_grounds [OF h _ r'] by (simp add: sample_numbers)
  then have "snd (removal_punishes sample_rows (3, 0) 2 1 7 (with_removals [(7, [0, 1])])) = Some 3 \<and>
      3 \<le> Suc (length (in_window 2 (secs 300) (times_in 1 7 (removed h))))"
    by (simp add: r')
  then show ?thesis by (rule exI)
qed









end
