(* ===== verification/Spec2Isabelle.thy ===== *)
theory Spec2Isabelle
  imports Dispatch WarningQueue CaptchaQueue RightsDelivery RankAwards Spool RasterKind ResponseDelivery CaseAnswers InitFacts FloodControl
begin

text \<open>
  The durable core of a Telegram group bot, and what it promises.

  The bot reads updates, hands each to a handler, and the handlers punish, warn, ask for captchas, count
  messages and change settings. Whatever must survive a crash goes through a PostgreSQL database (\<open>src/src/state.rs\<close>
  and \<open>src/src/state/\<close>) or a spool on disk. This development models that core, the layer that answers users, the
  moderation cases and the small parsers beside them; the theories and the code they translate are:

  \<^item> \<open>Prelude\<close>, \<open>Tables\<close>, \<open>Utf8Text\<close>: saturating integers, PostgreSQL statements as functions on lists of rows
    (selection, update, insertion, pages, locked rows), cutting of texts to a byte bound.
  \<^item> \<open>Fencing\<close>, \<open>LeaseTable\<close>, \<open>LeasedQueue\<close>: the contract of the durable queues. A row that is worked on carries a
    lease token; the locale \<open>fenced_leases\<close> says what a queue has to promise so that a verdict with an old token changes
    nothing, \<open>fenced_store\<close> is the case of a token column, \<open>leased_queue\<close> the shape of claim and renewal.
  \<^item> \<open>Schema\<close>, \<open>Counters\<close>: the tables the queues share and the counters of members with their budgets.
  \<^item> \<open>StrictQueue\<close> (\<open>state/strict.rs\<close>), \<open>WarningQueue\<close> (warnings in \<open>state.rs\<close>), \<open>CaptchaQueue\<close>
    (\<open>state/captcha.rs\<close>), \<open>DefaultRights\<close> with \<open>RightsDelivery\<close> (\<open>state/default_rights.rs\<close>), \<open>RankAwards\<close>
    (\<open>state/durable.rs\<close>): one queue each, every one with a step relation over all its operations and an
    interpretation of the locales on them.
  \<^item> \<open>Statistics\<close>, \<open>Spool\<close> (\<open>state/durable.rs\<close>, \<open>state/counter_fold.sql\<close>, \<open>handlers/stats.rs\<close>): message counts
    are folded in memory, staged on disk, sent to the database in digest-marked batches and folded into counters there.
    \<open>CrashRuns\<close> gives effects that may be cut off at any point.
  \<^item> \<open>ChatRows\<close>, \<open>SettingsCheck\<close>, \<open>SettingsStore\<close>, \<open>SettingsMirror\<close>, \<open>SettingsFlags\<close>, \<open>SettingsRuns\<close>,
    \<open>SettingsFacts\<close> (\<open>Settings\<close> in \<open>state.rs\<close>): the settings of all chats, their sorted vectors in memory, the
    validation of values, the mirror with its index and counters, and the gate that a commit of unknown outcome closes.
  \<^item> \<open>ResponseKinds\<close>, \<open>ResponsePolicy\<close>, \<open>ResponseDelivery\<close> (\<open>response.rs\<close>): who sees an answer of the bot, and how it is
    delivered.
  \<^item> \<open>Commands\<close> (\<open>handlers/commands.rs\<close>), \<open>Limits\<close> (\<open>handlers/limits.rs\<close>): recognising commands; what the owner lets
    administrators do.
  \<^item> \<open>Cases\<close>, \<open>CaseRuns\<close>, \<open>CaseFacts\<close> (moderation cases in \<open>state.rs\<close>), \<open>CaseHandlers\<close>, \<open>CaseAnswers\<close>
    (\<open>handlers/cases.rs\<close>): the file of what was done to members.
  \<^item> \<open>ChatMemory\<close>, \<open>RateLimits\<close>, \<open>RateFacts\<close> (the memory of groups in \<open>handlers/mod.rs\<close>): the bounded record of every group, the
    times of messages and removals in it, and the throttles. \<open>FloodControl\<close> (\<open>handlers/flood.rs\<close>, \<open>handlers/betrayal.rs\<close>,
    \<open>handlers/raid.rs\<close>): what the bot does about them.
  \<^item> \<open>InitData\<close>, \<open>InitFacts\<close> (\<open>miniapp/auth.rs\<close>): the launch data of the Mini App and its signature.
  \<^item> \<open>Dispatch\<close> (\<open>dispatcher.rs\<close>): updates queued per peer and the bounds on workers and memory.
  \<^item> \<open>RasterKind\<close> (\<open>handlers/nsfw/raster_kind.rs\<close>): sniffing animated images from their first bytes.

  How the state corresponds. A table is a list of records with the columns the code reads or writes; a primary
  key is a function with distinct values on it, part of the invariant. A function that runs in one transaction, or
  under a lock that every other access takes, is one function from the state to the state and its result; where the
  code lets others in between (an acknowledgement and its removal, reading a case and changing it, the
  steps of the spool) the model has separate steps or a parameter \<open>meanwhile\<close> for what happened there. Strings are
  lists of Unicode scalar values where only their length and equality count, and their literals come by \<open>ascii\<close>.
  Machine integers are \<open>int\<close> with the saturation, the clamping and the range checks of the code
  written out, and words where bits count (masks of rights, advisory lock keys, image bytes).
  A Rust error is the left of a sum, a panic the result \<open>None\<close> or a constructor of its own.

  What the lemmas show. For each queue: its invariant, kept by every operation (the \<open>_ok\<close> and \<open>_step\<close>
  lemmas), what each operation returns and changes on every branch (the \<open>_outcome\<close> lemmas), and over any run that a
  claimed piece of work is settled by its holder or by nobody (\<open>strict_claim_settled_once\<close>,
  \<open>warning_claim_settled_once\<close>, \<open>captcha_work_settled_once\<close>, \<open>rights_delivery_fenced\<close>,
  \<open>rank_award_settled_once\<close>). For the statistics: a batch counts once however often it is sent, the result is that of
  plain counting, and no crash of staging, publishing or recovering loses or repeats a batch. For the settings: the mirror
  is the database, budgets hold, typed getters never panic, and after a commit of unknown outcome nothing
  is written until a restart. For the answers: what a group keeps private reaches one receiver only,
  whatever Telegram answers. For the cases: histories only grow, a case leaves a status once, and an administrator
  is told what happened. For the limits: nobody is restricted, demoted or muted without the events in the window that
  the group's numbers ask for, and what the memory forgets when it is full can only lower a count
  (\<open>message_count_exact\<close>, \<open>throttles_hold\<close>); that removals are forgotten too early is \<open>removal_window_is_cut\<close>.
  For the Mini App: only signed and fresh launch data is accepted. For the dispatcher: no panic, and no worker idles while a lane waits.

  Parameters. What is not in the repository is an argument of the definitions: the clock; which rows other transactions
  have locked and in which order an \<open>UPDATE\<close> visits rows; tokio's task ids; random ids, as serials that
  do not repeat; the outcome of a commit; the collation of the database, assumed to order distinct texts apart;
  JSON, SHA-256 and HMAC; the capacity of a hash map at each call; what the rest of the bot does to the memory while a
  handler waits; Telegram, which answers each call in any way from the calls before; and the points at which the
  process dies. A hypothesis on one of them stands in the theorem that needs it, and the witness after the theorem meets
  it with a concrete function.

  Bounds and termination. All definitions are total. Loops over pages end because each page takes rows away
  or moves a cursor forward (\<open>retention_round\<close>, \<open>load_pages\<close>, the folding of batches); the
  chunk walk of the sniffer ends because every chunk has a length; \<open>read_pages\<close> is only a specification and has
  fuel, for which the number of cases is enough.

  Not modelled. PostgreSQL refusing a statement for reasons outside the program, values beyond the range of a
  column and NUL characters in texts; schema migrations; Telegram beyond the delivery of answers and the calls the cases
  make; the handlers that only glue Telegram to the state (moderation, locks, panels, help, joins, welcome), whose
  behaviour is that of the services they call; the classifiers and their weights (\<open>handlers/nsfw.rs\<close>, \<open>imgfilter.rs\<close>,
  \<open>ocr/\<close>, \<open>vision.rs\<close>), which are numerical code over models not in the repository; start-up and shutdown in \<open>main.rs\<close>.
  The conservation of statistics does not cover a receipt that pruning deletes while its batch is still pending in
  memory, which takes a staging that fails for more than a day.
\<close>

end
